(* ===== verification/Prelude.thy ===== *)
theory Prelude
  imports Main "HOL-Library.Word"
begin

text \<open>
  Shared vocabulary of the development: the machine types of \<open>kernel/types.h\<close>, results of
  kernel functions (a value, a \<open>panic\<close>, or a call that sleeps), flat byte memory with
  little-endian loads and stores, the page rounding macros of \<open>kernel/riscv.h\<close>, and the
  generic lemmas on results, lists and words that the component theories use.
\<close>

unbundle bit_operations_syntax

subsection \<open>Machine types and results\<close>

type_synonym byte = "8 word"
type_synonym u16 = "16 word"
type_synonym u32 = "32 word"
type_synonym u64 = "64 word"

text \<open>
  A kernel function that does not return normally panics (with the ASCII part of the message of
  the source), goes to sleep waiting for another process, or does what C leaves undefined
  (an access outside an array).
\<close>

datatype kerr = Panic string | Blocked string | Undefined string

type_synonym 'a res = "kerr + 'a"

definition bindR :: "'e + 'a \<Rightarrow> ('a \<Rightarrow> 'e + 'b) \<Rightarrow> 'e + 'b" where
  "bindR r f = (case r of Inl e \<Rightarrow> Inl e | Inr x \<Rightarrow> f x)"

abbreviation panic :: "string \<Rightarrow> 'a res" where
  "panic msg \<equiv> Inl (Panic msg)"

named_theorems res_simps \<open>results of composed kernel functions\<close>
named_theorems layout_simps \<open>constants of the memory and disk layout\<close>

lemma bindR_Inl [simp]: "bindR (Inl e) f = Inl e"
  by (simp add: bindR_def)

lemma bindR_Inr [simp]: "bindR (Inr x) f = f x"
  by (simp add: bindR_def)

lemma bindR_eq_Inr [res_simps]: "bindR r f = Inr y \<longleftrightarrow> (\<exists>x. r = Inr x \<and> f x = Inr y)"
  by (cases r) simp_all

lemma bindR_eq_Inl [res_simps]:
  "bindR r f = Inl e \<longleftrightarrow> r = Inl e \<or> (\<exists>x. r = Inr x \<and> f x = Inl e)"
  by (cases r) simp_all

lemma bindR_cong [fundef_cong]:
  "r = r' \<Longrightarrow> (\<And>x. r' = Inr x \<Longrightarrow> f x = f' x) \<Longrightarrow> bindR r f = bindR r' f'"
  by (cases r') simp_all

subsection \<open>Flat byte memory\<close>

text \<open>Physical memory is byte addressed; 64-bit values are stored little-endian.\<close>

type_synonym mem = "u64 \<Rightarrow> byte"

definition load64 :: "mem \<Rightarrow> u64 \<Rightarrow> u64" where
  "load64 m a = ucast (m a) OR push_bit 8 (ucast (m (a + 1)))
     OR push_bit 16 (ucast (m (a + 2))) OR push_bit 24 (ucast (m (a + 3)))
     OR push_bit 32 (ucast (m (a + 4))) OR push_bit 40 (ucast (m (a + 5)))
     OR push_bit 48 (ucast (m (a + 6))) OR push_bit 56 (ucast (m (a + 7)))"

definition store64 :: "mem \<Rightarrow> u64 \<Rightarrow> u64 \<Rightarrow> mem" where
  "store64 m a v = m(a := ucast v, a + 1 := ucast (drop_bit 8 v),
     a + 2 := ucast (drop_bit 16 v), a + 3 := ucast (drop_bit 24 v),
     a + 4 := ucast (drop_bit 32 v), a + 5 := ucast (drop_bit 40 v),
     a + 6 := ucast (drop_bit 48 v), a + 7 := ucast (drop_bit 56 v))"

definition load32 :: "mem \<Rightarrow> u64 \<Rightarrow> u32" where
  "load32 m a = ucast (m a) OR push_bit 8 (ucast (m (a + 1)))
     OR push_bit 16 (ucast (m (a + 2))) OR push_bit 24 (ucast (m (a + 3)))"

definition store32 :: "mem \<Rightarrow> u64 \<Rightarrow> u32 \<Rightarrow> mem" where
  "store32 m a v = m(a := ucast v, a + 1 := ucast (drop_bit 8 v),
     a + 2 := ucast (drop_bit 16 v), a + 3 := ucast (drop_bit 24 v))"

lemma bit_byte_at:
  fixes v :: "'a::len word"
  shows "bit (push_bit k (ucast (ucast (drop_bit k v) :: byte)) :: 'a word) n
     \<longleftrightarrow> n < LENGTH('a) \<and> k \<le> n \<and> n < k + 8 \<and> bit v n"
  by (cases "k \<le> n") (auto simp: bit_simps)

lemma bit_byte_at_0:
  fixes v :: "'a::len word"
  shows "bit (ucast (ucast v :: byte) :: 'a word) n \<longleftrightarrow> n < LENGTH('a) \<and> n < 8 \<and> bit v n"
  by (auto simp: bit_simps)

lemma bytes_of_u64:
  fixes v :: u64
  shows "ucast (ucast v :: byte) OR push_bit 8 (ucast (ucast (drop_bit 8 v) :: byte))
     OR push_bit 16 (ucast (ucast (drop_bit 16 v) :: byte))
     OR push_bit 24 (ucast (ucast (drop_bit 24 v) :: byte))
     OR push_bit 32 (ucast (ucast (drop_bit 32 v) :: byte))
     OR push_bit 40 (ucast (ucast (drop_bit 40 v) :: byte))
     OR push_bit 48 (ucast (ucast (drop_bit 48 v) :: byte))
     OR push_bit 56 (ucast (ucast (drop_bit 56 v) :: byte)) = v"
proof (rule bit_word_eqI, unfold bit_or_iff bit_byte_at bit_byte_at_0, goal_cases)
  case (1 n)
  then have "n < 64" by simp
  then show ?case by (cases "bit v n"; simp; linarith)
qed

lemma bytes_of_u32:
  fixes v :: u32
  shows "ucast (ucast v :: byte) OR push_bit 8 (ucast (ucast (drop_bit 8 v) :: byte))
     OR push_bit 16 (ucast (ucast (drop_bit 16 v) :: byte))
     OR push_bit 24 (ucast (ucast (drop_bit 24 v) :: byte)) = v"
proof (rule bit_word_eqI, unfold bit_or_iff bit_byte_at bit_byte_at_0, goal_cases)
  case (1 n)
  then have "n < 32" by simp
  then show ?case by (cases "bit v n"; simp; linarith)
qed

lemma load64_store64_same [simp]: "load64 (store64 m a v) a = v"
  by (simp add: load64_def store64_def bytes_of_u64)

lemma load32_store32_same [simp]: "load32 (store32 m a v) a = v"
  by (simp add: load32_def store32_def bytes_of_u32)

subsection \<open>Word arithmetic on offsets\<close>

lemma unat_bound: "unat (w :: 'a::len word) < 2 ^ LENGTH('a)"
  by (rule unsigned_less)

lemma uint_inject [simp]: "uint (a :: 'a::len word) = uint b \<longleftrightarrow> a = b"
  by (simp add: word_uint_eq_iff)

lemma uint_0_iff [simp]: "uint (a :: 'a::len word) = 0 \<longleftrightarrow> a = 0"
  by (metis uint_0_eq uint_inject)

lemma unat_inject [simp]: "unat (a :: 'a::len word) = unat b \<longleftrightarrow> a = b"
  by (simp add: word_unat_eq_iff)

lemma unat_ucast_up:
  assumes "LENGTH('a) \<le> LENGTH('b)"
  shows "unat (ucast (w :: 'a::len word) :: 'b::len word) = unat w"
proof -
  have "unat w < 2 ^ LENGTH('b)"
    using unat_bound [of w] assms by (meson less_le_trans one_le_numeral power_increasing)
  then show ?thesis by (simp add: unsigned_ucast_eq take_bit_nat_eq_self)
qed

lemma unat_ucast_32_64 [simp]: "unat (ucast (w :: u32) :: u64) = unat w"
  by (rule unat_ucast_up) simp

lemma unat_of_nat_small: "i < 2 ^ LENGTH('a) \<Longrightarrow> unat (of_nat i :: 'a::len word) = i"
  by (rule of_nat_inverse [OF refl])

lemma unat_minus1_word: "unat (- 1 :: 'a::len word) = 2 ^ LENGTH('a) - 1"
proof -
  have "unat (- 1 :: 'a word) < 2 ^ LENGTH('a)" by (rule unat_bound)
  moreover have "Suc (unat (- 1 :: 'a word)) = 2 ^ LENGTH('a)"
    using unat_plus_if' [of "- 1 :: 'a word" 1] by (auto split: if_splits)
  ultimately show ?thesis by simp
qed

lemma not_less_unat_minus1: "n < 2 ^ LENGTH('a) \<Longrightarrow> \<not> unat (- 1 :: 'a::len word) < n"
  by (simp add: unat_minus1_word)

lemma unat_minus_Suc:
  fixes a d :: "'a::len word"
  assumes "a \<noteq> d" shows "unat (a - d) = Suc (unat (a - (d + 1)))"
proof -
  have "a - d \<noteq> 0" using assms by simp
  then have "Suc (unat (a - d - 1)) = unat (a - d)"
    by (simp add: unat_minus_one unat_gt_0)
  then show ?thesis by (simp add: diff_diff_eq)
qed

lemma eq_offset_iff:
  fixes a d :: "'a::len word"
  assumes "n < 2 ^ LENGTH('a)"
  shows "a = d + of_nat n \<longleftrightarrow> unat (a - d) = n"
proof
  assume "unat (a - d) = n"
  then have "of_nat n = (of_nat (unat (a - d)) :: 'a word)" by simp
  then have "of_nat n = a - d" by simp
  then show "a = d + of_nat n" by (simp add: algebra_simps)
qed (use assms in \<open>simp add: unat_of_nat_small\<close>)

lemma store64_other: "8 \<le> unat (x - a) \<Longrightarrow> store64 m a v x = m x"
  by (auto simp: store64_def)

subsection \<open>Structured blocks\<close>

text \<open>A disk block or struct as indexed bytes, with little-endian 16- and 32-bit fields.\<close>

definition get32 :: "(nat \<Rightarrow> byte) \<Rightarrow> nat \<Rightarrow> u32" where
  "get32 d a = ucast (d a) OR push_bit 8 (ucast (d (a + 1)))
     OR push_bit 16 (ucast (d (a + 2))) OR push_bit 24 (ucast (d (a + 3)))"

definition put32 :: "(nat \<Rightarrow> byte) \<Rightarrow> nat \<Rightarrow> u32 \<Rightarrow> (nat \<Rightarrow> byte)" where
  "put32 d a v = d(a := ucast v, a + 1 := ucast (drop_bit 8 v),
     a + 2 := ucast (drop_bit 16 v), a + 3 := ucast (drop_bit 24 v))"

definition get16 :: "(nat \<Rightarrow> byte) \<Rightarrow> nat \<Rightarrow> u16" where
  "get16 d a = ucast (d a) OR push_bit 8 (ucast (d (a + 1)))"

definition put16 :: "(nat \<Rightarrow> byte) \<Rightarrow> nat \<Rightarrow> u16 \<Rightarrow> (nat \<Rightarrow> byte)" where
  "put16 d a v = d(a := ucast v, a + 1 := ucast (drop_bit 8 v))"

lemma bytes_of_u16:
  fixes v :: u16
  shows "ucast (ucast v :: byte) OR push_bit 8 (ucast (ucast (drop_bit 8 v) :: byte)) = v"
proof (rule bit_word_eqI, unfold bit_or_iff bit_byte_at bit_byte_at_0, goal_cases)
  case (1 n)
  then have "n < 16" by simp
  then show ?case by (cases "bit v n"; simp; linarith)
qed

lemma get32_put32_same [simp]: "get32 (put32 d a v) a = v"
  by (simp add: get32_def put32_def bytes_of_u32)

lemma get16_put16_same [simp]: "get16 (put16 d a v) a = v"
  by (simp add: get16_def put16_def bytes_of_u16)

lemma put32_other: "b < a \<or> a + 4 \<le> b \<Longrightarrow> put32 d a v b = d b"
  by (auto simp: put32_def)

lemma put16_other: "b < a \<or> a + 2 \<le> b \<Longrightarrow> put16 d a v b = d b"
  by (auto simp: put16_def)

lemma get32_put32_other: "a + 4 \<le> b \<or> b + 4 \<le> a \<Longrightarrow> get32 (put32 d a v) b = get32 d b"
  by (auto simp: get32_def put32_other)

lemma get16_put16_other: "a + 2 \<le> b \<or> b + 2 \<le> a \<Longrightarrow> get16 (put16 d a v) b = get16 d b"
  by (auto simp: get16_def put16_other)

lemma get16_put32_other: "a + 4 \<le> b \<or> b + 2 \<le> a \<Longrightarrow> get16 (put32 d a v) b = get16 d b"
  by (auto simp: get16_def put32_other)

lemma get32_put16_other: "a + 2 \<le> b \<or> b + 4 \<le> a \<Longrightarrow> get32 (put16 d a v) b = get32 d b"
  by (auto simp: get32_def put16_other)

end
