(* ===== verification/Sleeplock.thy ===== *)
theory Sleeplock
  imports Prelude
begin

text \<open>
  \<open>kernel/sleeplock.c\<close>. The spinlock inside a sleep lock only makes each routine atomic, so a
  sleep lock is its \<open>locked\<close> and \<open>pid\<close> fields. \<open>acquiresleep\<close> of a lock that is held does not
  return before the holder releases it: the result is \<open>Blocked\<close>.
\<close>

record sleeplock =
  sl_locked :: bool
  sl_pid :: int

definition initsleeplock :: sleeplock where
  "initsleeplock = \<lparr>sl_locked = False, sl_pid = 0\<rparr>"

definition acquiresleep :: "int \<Rightarrow> sleeplock \<Rightarrow> sleeplock res" where
  "acquiresleep pid lk =
     (if sl_locked lk then Inl (Blocked ''acquiresleep'')
      else Inr (lk\<lparr>sl_locked := True, sl_pid := pid\<rparr>))"

definition releasesleep :: "sleeplock \<Rightarrow> sleeplock" where
  "releasesleep lk = lk\<lparr>sl_locked := False, sl_pid := 0\<rparr>"

definition holdingsleep :: "int \<Rightarrow> sleeplock \<Rightarrow> bool" where
  "holdingsleep pid lk \<longleftrightarrow> sl_locked lk \<and> sl_pid lk = pid"

lemma acquiresleep_Inr [res_simps]:
  "acquiresleep pid lk = Inr lk' \<longleftrightarrow> \<not> sl_locked lk \<and> lk' = \<lparr>sl_locked = True, sl_pid = pid\<rparr>"
  by (cases lk) (auto simp: acquiresleep_def)

lemma acquiresleep_free [simp]:
  "\<not> sl_locked lk \<Longrightarrow> acquiresleep pid lk = Inr \<lparr>sl_locked = True, sl_pid = pid\<rparr>"
  by (simp add: acquiresleep_Inr)

lemma holdingsleep_held [simp]: "holdingsleep pid \<lparr>sl_locked = True, sl_pid = pid\<rparr>"
  by (simp add: holdingsleep_def)

lemma releasesleep_eq [simp]: "releasesleep lk = \<lparr>sl_locked = False, sl_pid = 0\<rparr>"
  by (cases lk) (simp add: releasesleep_def)

text \<open>
  a sleep lock is held by one process at a time: \<open>acquiresleep\<close> succeeds exactly on a free
  lock, afterwards the caller and nobody else holds it, nobody can take it again before
  \<open>releasesleep\<close>, and after \<open>releasesleep\<close> nobody holds it and anybody can take it.
\<close>

lemma sleeplock_exclusive:
  "(case acquiresleep pid lk of
      Inl e \<Rightarrow> sl_locked lk \<and> e = Blocked ''acquiresleep''
    | Inr lk' \<Rightarrow> \<not> sl_locked lk \<and> (\<forall>q. holdingsleep q lk' \<longleftrightarrow> q = pid)
        \<and> (\<forall>q. \<exists>msg. acquiresleep q lk' = Inl (Blocked msg))
        \<and> (\<forall>q. \<not> holdingsleep q (releasesleep lk'))
        \<and> (\<forall>q. \<exists>lk2. acquiresleep q (releasesleep lk') = Inr lk2 \<and> holdingsleep q lk2))"
  by (auto simp: acquiresleep_def holdingsleep_def)

end
