(* ===== verification/Bio.thy ===== *)
theory Bio
  imports Sleeplock
begin

text \<open>
  \<open>kernel/bio.c\<close>: the buffer cache. Buffers are the array indices \<open>0 .. NBUF - 1\<close>, \<open>NBUF\<close> is
  \<open>bcache.head\<close>; the circular doubly linked LRU list is kept as the code keeps it, in the
  \<open>prev\<close> and \<open>next\<close> pointers of the buffers (one map per field), and is only related to a list
  in the proofs. \<open>disk_rw\<close> is the net effect of a completed \<open>virtio_disk_rw\<close>; the field
  \<open>dtrace\<close> records the order of the disk writes, which is what a crash can cut short.
\<close>

subsection \<open>State\<close>

type_synonym block = "nat \<Rightarrow> byte"

definition NBUF :: nat where "NBUF = 30"

record buf =
  b_valid :: bool
  b_dev :: u32
  b_blockno :: u32
  b_lock :: sleeplock
  b_refcnt :: u32
  b_data :: block

record bio =
  bufs :: "nat \<Rightarrow> buf"
  bprev :: "nat \<Rightarrow> nat"
  bnext :: "nat \<Rightarrow> nat"
  disk :: "u32 \<Rightarrow> block"
  dtrace :: "(u32 \<times> block) list"

definition upd_buf :: "nat \<Rightarrow> (buf \<Rightarrow> buf) \<Rightarrow> 'a bio_scheme \<Rightarrow> 'a bio_scheme" where
  "upd_buf b f s = s\<lparr>bufs := (bufs s)(b := f (bufs s b))\<rparr>"

definition disk_rw :: "nat \<Rightarrow> bool \<Rightarrow> 'a bio_scheme \<Rightarrow> 'a bio_scheme" where
  "disk_rw b write s =
     (let bno = b_blockno (bufs s b) in
      if write then s\<lparr>disk := (disk s)(bno := b_data (bufs s b)),
                      dtrace := dtrace s @ [(bno, b_data (bufs s b))]\<rparr>
      else upd_buf b (\<lambda>x. x\<lparr>b_data := disk s bno\<rparr>) s)"

subsection \<open>Operations\<close>

text \<open>The four stores that put \<open>b\<close> right after the head, and the two that take it out.\<close>

definition link_front :: "nat \<Rightarrow> 'a bio_scheme \<Rightarrow> 'a bio_scheme" where
  "link_front b s =
     (let s1 = s\<lparr>bnext := (bnext s)(b := bnext s NBUF)\<rparr>;
          s2 = s1\<lparr>bprev := (bprev s1)(b := NBUF)\<rparr>;
          s3 = s2\<lparr>bprev := (bprev s2)(bnext s2 NBUF := b)\<rparr>
      in s3\<lparr>bnext := (bnext s3)(NBUF := b)\<rparr>)"

definition unlink :: "nat \<Rightarrow> 'a bio_scheme \<Rightarrow> 'a bio_scheme" where
  "unlink b s =
     (let s1 = s\<lparr>bprev := (bprev s)(bnext s b := bprev s b)\<rparr>
      in s1\<lparr>bnext := (bnext s1)(bprev s1 b := bnext s1 b)\<rparr>)"

definition binit :: "'a bio_scheme \<Rightarrow> 'a bio_scheme" where
  "binit s =
     fold (\<lambda>b s. link_front b (upd_buf b (\<lambda>x. x\<lparr>b_lock := initsleeplock\<rparr>) s)) [0..<NBUF]
       (s\<lparr>bprev := (bprev s)(NBUF := NBUF), bnext := (bnext s)(NBUF := NBUF)\<rparr>)"

text \<open>
  A scan of the list from \<open>b\<close> until the head; the list has \<open>NBUF\<close> elements, so \<open>NBUF + 1\<close>
  steps reach the head.
\<close>

fun scan :: "(nat \<Rightarrow> nat) \<Rightarrow> (nat \<Rightarrow> bool) \<Rightarrow> nat \<Rightarrow> nat \<Rightarrow> nat option" where
  "scan nx P 0 b = None"
| "scan nx P (Suc n) b =
     (if b = NBUF then None else if P b then Some b else scan nx P n (nx b))"

definition bget :: "int \<Rightarrow> u32 \<Rightarrow> u32 \<Rightarrow> 'a bio_scheme \<Rightarrow> (nat \<times> 'a bio_scheme) res" where
  "bget pid dev blockno s =
     (case scan (bnext s) (\<lambda>b. b_dev (bufs s b) = dev \<and> b_blockno (bufs s b) = blockno)
             (Suc NBUF) (bnext s NBUF) of
        Some b \<Rightarrow>
          bindR (acquiresleep pid (b_lock (bufs s b))) (\<lambda>lk.
            Inr (b, upd_buf b (\<lambda>x. x\<lparr>b_refcnt := b_refcnt x + 1, b_lock := lk\<rparr>) s))
      | None \<Rightarrow>
          (case scan (bprev s) (\<lambda>b. b_refcnt (bufs s b) = 0) (Suc NBUF) (bprev s NBUF) of
             Some b \<Rightarrow>
               bindR (acquiresleep pid (b_lock (bufs s b))) (\<lambda>lk.
                 Inr (b, upd_buf b (\<lambda>x. x\<lparr>b_dev := dev, b_blockno := blockno, b_valid := False,
                    b_refcnt := 1, b_lock := lk\<rparr>) s))
           | None \<Rightarrow> panic ''bget''))"

definition bread :: "int \<Rightarrow> u32 \<Rightarrow> u32 \<Rightarrow> 'a bio_scheme \<Rightarrow> (nat \<times> 'a bio_scheme) res" where
  "bread pid dev blockno s =
     bindR (bget pid dev blockno s) (\<lambda>(b, s).
       if \<not> b_valid (bufs s b)
       then Inr (b, upd_buf b (\<lambda>x. x\<lparr>b_valid := True\<rparr>) (disk_rw b False s))
       else Inr (b, s))"

definition bwrite :: "int \<Rightarrow> nat \<Rightarrow> 'a bio_scheme \<Rightarrow> 'a bio_scheme res" where
  "bwrite pid b s =
     (if \<not> holdingsleep pid (b_lock (bufs s b)) then panic ''bwrite''
      else Inr (disk_rw b True s))"

definition brelse :: "int \<Rightarrow> nat \<Rightarrow> 'a bio_scheme \<Rightarrow> 'a bio_scheme res" where
  "brelse pid b s =
     (if \<not> holdingsleep pid (b_lock (bufs s b)) then panic ''brelse''
      else let s1 = upd_buf b (\<lambda>x. x\<lparr>b_lock := releasesleep (b_lock x)\<rparr>) s;
               s2 = upd_buf b (\<lambda>x. x\<lparr>b_refcnt := b_refcnt x - 1\<rparr>) s1
           in Inr (if b_refcnt (bufs s2 b) = 0 then link_front b (unlink b s2) else s2))"

definition bpin :: "nat \<Rightarrow> 'a bio_scheme \<Rightarrow> 'a bio_scheme" where
  "bpin b s = upd_buf b (\<lambda>x. x\<lparr>b_refcnt := b_refcnt x + 1\<rparr>) s"

definition bunpin :: "nat \<Rightarrow> 'a bio_scheme \<Rightarrow> 'a bio_scheme" where
  "bunpin b s = upd_buf b (\<lambda>x. x\<lparr>b_refcnt := b_refcnt x - 1\<rparr>) s"

text \<open>The write through the pointer \<open>b->data\<close> that callers make between \<open>bread\<close> and \<open>brelse\<close>.\<close>

definition set_data :: "nat \<Rightarrow> block \<Rightarrow> 'a bio_scheme \<Rightarrow> 'a bio_scheme" where
  "set_data b d s = upd_buf b (\<lambda>x. x\<lparr>b_data := d\<rparr>) s"

subsection \<open>The linked list\<close>

text \<open>\<open>dll nx pv xs\<close>: the pointers form the circular list \<open>head, xs, head\<close> in both directions.\<close>

definition dll :: "(nat \<Rightarrow> nat) \<Rightarrow> (nat \<Rightarrow> nat) \<Rightarrow> nat list \<Rightarrow> bool" where
  "dll nx pv xs \<longleftrightarrow> distinct (NBUF # xs)
     \<and> (\<forall>u v. (u, v) \<in> set (zip (NBUF # xs) (xs @ [NBUF])) \<longrightarrow> nx u = v \<and> pv v = u)"

lemma dll_Nil: "dll nx pv [] \<longleftrightarrow> nx NBUF = NBUF \<and> pv NBUF = NBUF"
  by (simp add: dll_def)

lemma dll_rev:
  assumes "dll nx pv xs" shows "dll pv nx (rev xs)"
proof -
  have "zip (NBUF # rev xs) (rev xs @ [NBUF]) = rev (zip (xs @ [NBUF]) (NBUF # xs))"
    using zip_rev [of "xs @ [NBUF]" "NBUF # xs"] by simp
  also have "set \<dots> = (\<lambda>(u, v). (v, u)) ` set (zip (NBUF # xs) (xs @ [NBUF]))"
    by (subst zip_commute) simp
  finally show ?thesis using assms by (auto simp: dll_def)
qed

lemma dll_link_front:
  assumes "dll nx pv xs" and "b \<notin> set xs" and "b \<noteq> NBUF"
  shows "dll (nx(b := nx NBUF, NBUF := b)) (pv(b := NBUF, nx NBUF := b)) (b # xs)"
proof (cases xs)
  case Nil
  with assms show ?thesis by (simp add: dll_def)
next
  case (Cons y ys)
  have nx: "nx NBUF = y" using assms(1) Cons by (simp add: dll_def)
  have old: "nx u = v \<and> pv v = u" "u \<in> set (y # ys)" "v \<in> set (ys @ [NBUF])"
    if "(u, v) \<in> set (zip (y # ys) (ys @ [NBUF]))" for u v
    using assms(1) Cons that by (auto simp: dll_def dest: set_zip_leftD set_zip_rightD)
  have "distinct (NBUF # y # ys)" using assms(1) Cons by (simp add: dll_def)
  then have "(nx(b := y, NBUF := b)) u = v \<and> (pv(b := NBUF, y := b)) v = u"
    if "(u, v) \<in> set (zip (y # ys) (ys @ [NBUF]))" for u v
    using old [OF that] assms(2,3) Cons by auto
  moreover have "distinct (NBUF # b # y # ys)" using \<open>distinct _\<close> assms(2,3) Cons by auto
  moreover have "zip (NBUF # b # y # ys) ((b # y # ys) @ [NBUF])
      = (NBUF, b) # (b, y) # zip (y # ys) (ys @ [NBUF])" by simp
  ultimately show ?thesis
    using assms(3) unfolding dll_def Cons nx by (simp only: set_simps) auto
qed

lemma dll_unlink:
  assumes "dll nx pv (xs @ b # ys)"
  shows "dll (nx(pv b := nx b)) (pv(nx b := pv b)) (xs @ ys) \<and> nx b \<noteq> b"
proof -
  obtain ps p where ps: "NBUF # xs = ps @ [p]" by (metis list.distinct(1) rev_exhaust)
  obtain q qs where qs: "ys @ [NBUF] = q # qs" by (metis append_is_Nil_conv list.distinct(1) list.exhaust)
  have len: "length ps = length xs" using ps by (metis length_Cons length_append_singleton nat.inject)
  have "zip (NBUF # xs @ b # ys) ((xs @ b # ys) @ [NBUF]) = zip ((ps @ [p]) @ b # ys) (xs @ b # q # qs)"
    unfolding ps [symmetric] qs [symmetric] by simp
  then have old: "zip (NBUF # xs @ b # ys) ((xs @ b # ys) @ [NBUF])
     = zip ps xs @ (p, b) # (b, q) # zip ys qs"
    using len by simp
  have "zip (NBUF # xs @ ys) ((xs @ ys) @ [NBUF]) = zip ((ps @ [p]) @ ys) (xs @ q # qs)"
    unfolding ps [symmetric] qs [symmetric] by simp
  then have new: "zip (NBUF # xs @ ys) ((xs @ ys) @ [NBUF]) = zip ps xs @ (p, q) # zip ys qs"
    using len by simp
  have adj: "nx u = v \<and> pv v = u"
    if "(u, v) \<in> set (zip ps xs @ (p, b) # (b, q) # zip ys qs)" for u v
    using assms that unfolding dll_def old by blast
  then have pq: "nx b = q" "pv b = p" by simp_all
  have dist: "distinct ((ps @ [p]) @ b # ys)" "distinct (xs @ b # q # qs)"
  proof -
    have "distinct ((NBUF # xs) @ b # ys)" "distinct (xs @ b # ys @ [NBUF])"
      using assms by (auto simp: dll_def)
    then show "distinct ((ps @ [p]) @ b # ys)" "distinct (xs @ b # q # qs)"
      unfolding ps [symmetric] qs [symmetric] by simp_all
  qed
  have "(nx(p := q)) u = v \<and> (pv(q := p)) v = u"
    if "(u, v) \<in> set (zip ps xs) \<union> set (zip ys qs)" for u v
  proof -
    have "nx u = v \<and> pv v = u" using adj that by simp
    moreover have "u \<noteq> p \<and> v \<noteq> q"
      using that dist by (auto dest: set_zip_leftD set_zip_rightD)
    ultimately show ?thesis by simp
  qed
  then have "dll (nx(p := q)) (pv(q := p)) (xs @ ys)"
    using assms unfolding dll_def new by auto
  then show ?thesis using pq dist by auto
qed

lemma scan_path:
  assumes "\<And>u v. (u, v) \<in> set (zip (b # ys) (ys @ [NBUF])) \<Longrightarrow> nx u = v" and "NBUF \<notin> set (b # ys)"
    and "Suc (length ys) < n"
  shows "scan nx P n b = find P (b # ys)"
  using assms
proof (induction ys arbitrary: b n)
  case Nil
  then obtain k where "n = Suc (Suc k)" by (cases n; cases "n - 1") auto
  with Nil show ?case by auto
next
  case (Cons y ys)
  then obtain k where k: "n = Suc k" by (cases n) auto
  have "scan nx P k y = find P (y # ys)" using Cons.prems k by (intro Cons.IH) auto
  moreover have "nx b = y" using Cons.prems(1) by simp
  ultimately show ?case using Cons.prems(2) k by simp
qed

lemma scan_next:
  assumes "dll nx pv xs" and "length xs < n"
  shows "scan nx P n (nx NBUF) = find P xs"
proof (cases xs)
  case Nil
  with assms show ?thesis by (cases n) (auto simp: dll_def)
next
  case (Cons y ys)
  then have "nx NBUF = y" using assms(1) by (simp add: dll_def)
  moreover have "scan nx P n y = find P (y # ys)"
    by (rule scan_path) (use assms Cons in \<open>auto simp: dll_def\<close>)
  ultimately show ?thesis using Cons by simp
qed

lemma scan_prev:
  "dll nx pv xs \<Longrightarrow> length xs < n \<Longrightarrow> scan pv P n (pv NBUF) = find P (rev xs)"
  using scan_next [OF dll_rev] by simp

declare scan.simps [simp del]

subsection \<open>The abstract view of the cache\<close>

text \<open>
  What the callers see of device \<open>dv\<close>: the logical content of every block (the cached copy if
  there is one), the content of the disk, the writes made so far, and for every block how many
  references its buffer has and who holds it locked.
\<close>

definition cached :: "u32 \<Rightarrow> 'a bio_scheme \<Rightarrow> u32 \<Rightarrow> nat option" where
  "cached dv s bno = find (\<lambda>i. b_dev (bufs s i) = dv \<and> b_blockno (bufs s i) = bno) [0..<NBUF]"

record view =
  vlog :: "u32 \<Rightarrow> block"
  vdisk :: "u32 \<Rightarrow> block"
  vtrace :: "(u32 \<times> block) list"
  vrc :: "u32 \<Rightarrow> nat"
  vheld :: "u32 \<Rightarrow> int option"

definition bview :: "u32 \<Rightarrow> 'a bio_scheme \<Rightarrow> view" where
  "bview dv s = \<lparr>
     vlog = (\<lambda>b. case cached dv s b of None \<Rightarrow> disk s b
       | Some i \<Rightarrow> if b_valid (bufs s i) then b_data (bufs s i) else disk s b),
     vdisk = disk s, vtrace = dtrace s,
     vrc = (\<lambda>b. case cached dv s b of None \<Rightarrow> 0 | Some i \<Rightarrow> unat (b_refcnt (bufs s i))),
     vheld = (\<lambda>b. case cached dv s b of None \<Rightarrow> None
       | Some i \<Rightarrow> if sl_locked (b_lock (bufs s i)) then Some (sl_pid (b_lock (bufs s i))) else None)\<rparr>"

lemma vdisk_bview [simp]: "vdisk (bview dv s) = disk s"
  and vtrace_bview [simp]: "vtrace (bview dv s) = dtrace s"
  and more_bview [simp]: "view.more (bview dv s) = ()"
  by (simp_all add: bview_def)

definition v_bread :: "int \<Rightarrow> u32 \<Rightarrow> view \<Rightarrow> view" where
  "v_bread pid b v = v\<lparr>vrc := (vrc v)(b := vrc v b + 1), vheld := (vheld v)(b := Some pid)\<rparr>"

definition v_set :: "u32 \<Rightarrow> block \<Rightarrow> view \<Rightarrow> view" where
  "v_set b d v = v\<lparr>vlog := (vlog v)(b := d)\<rparr>"

definition v_bwrite :: "u32 \<Rightarrow> view \<Rightarrow> view" where
  "v_bwrite b v = v\<lparr>vdisk := (vdisk v)(b := vlog v b), vtrace := vtrace v @ [(b, vlog v b)]\<rparr>"

definition v_brelse :: "u32 \<Rightarrow> view \<Rightarrow> view" where
  "v_brelse b v = v\<lparr>vrc := (vrc v)(b := vrc v b - 1), vheld := (vheld v)(b := None)\<rparr>"

definition v_pin :: "u32 \<Rightarrow> view \<Rightarrow> view" where
  "v_pin b v = v\<lparr>vrc := (vrc v)(b := vrc v b + 1)\<rparr>"

definition v_unpin :: "u32 \<Rightarrow> view \<Rightarrow> view" where
  "v_unpin b v = v\<lparr>vrc := (vrc v)(b := vrc v b - 1)\<rparr>"

text \<open>
  The invariant of the cache: the list is a permutation of the buffers; a block of \<open>dv\<close> has at
  most one buffer; an unreferenced buffer is unlocked and, if valid, equal to the disk; a
  referenced buffer belongs to \<open>dv\<close> and is valid.
\<close>

definition buf_ok :: "u32 \<Rightarrow> (u32 \<Rightarrow> block) \<Rightarrow> buf \<Rightarrow> bool" where
  "buf_ok dv d x \<longleftrightarrow>
     (if b_refcnt x = 0
      then \<not> sl_locked (b_lock x) \<and> (b_dev x = dv \<and> b_valid x \<longrightarrow> b_data x = d (b_blockno x))
      else b_dev x = dv \<and> b_valid x)"

definition bio_inv :: "u32 \<Rightarrow> 'a bio_scheme \<Rightarrow> bool" where
  "bio_inv dv s \<longleftrightarrow>
     (\<exists>xs. dll (bnext s) (bprev s) xs \<and> set xs = {..<NBUF})
     \<and> (\<forall>i<NBUF. \<forall>j<NBUF. b_dev (bufs s i) = dv \<and> b_dev (bufs s j) = dv
          \<and> b_blockno (bufs s i) = b_blockno (bufs s j) \<longrightarrow> i = j)
     \<and> (\<forall>i<NBUF. buf_ok dv (disk s) (bufs s i))"

lemma cached_SomeD:
  "cached dv s b = Some i \<Longrightarrow> i < NBUF \<and> b_dev (bufs s i) = dv \<and> b_blockno (bufs s i) = b"
  by (auto simp: cached_def find_Some_iff)

lemma cached_SomeI:
  assumes "bio_inv dv s" "i < NBUF" "b_dev (bufs s i) = dv" "b_blockno (bufs s i) = b"
  shows "cached dv s b = Some i"
proof (cases "cached dv s b")
  case None
  then show ?thesis using assms(2-4) by (auto simp: cached_def find_None_iff)
next
  case (Some j)
  then show ?thesis using cached_SomeD [OF Some] assms by (auto simp: bio_inv_def)
qed

lemma cached_None: "cached dv s b = None \<longleftrightarrow>
   (\<forall>i<NBUF. \<not> (b_dev (bufs s i) = dv \<and> b_blockno (bufs s i) = b))"
  by (auto simp: cached_def find_None_iff)

lemma cached_inj: "cached dv s b = Some i \<Longrightarrow> cached dv s c = Some i \<Longrightarrow> b = c"
  by (auto dest: cached_SomeD)

lemma find_unique:
  assumes "\<And>i j. i \<in> set xs \<Longrightarrow> j \<in> set xs \<Longrightarrow> P i \<Longrightarrow> P j \<Longrightarrow> i = j" and "set xs = set ys"
  shows "find P xs = find P ys"
proof (cases "find P ys")
  case None
  then have "find P xs = None" unfolding find_None_iff assms(2) .
  with None show ?thesis by simp
next
  case (Some y)
  then have y: "y \<in> set xs" "P y" using assms(2) by (auto simp: find_Some_iff)
  then obtain x where "find P xs = Some x" "x \<in> set xs" "P x"
    by (metis find_None_iff find_Some_iff nth_mem option.exhaust)
  then show ?thesis using assms(1) y Some by metis
qed

text \<open>An update of buffer \<open>i\<close> that keeps its identity changes the view of its block only.\<close>

lemma cached_upd:
  assumes "b_dev (f (bufs s i)) = b_dev (bufs s i)" "b_blockno (f (bufs s i)) = b_blockno (bufs s i)"
  shows "cached dv (upd_buf i f s) b = cached dv s b"
  unfolding cached_def upd_buf_def
  by (rule arg_cong [where f = "\<lambda>P. find P [0..<NBUF]"]) (use assms in auto)

lemma bview_upd:
  assumes "cached dv s b = Some i"
    and "b_dev (f (bufs s i)) = b_dev (bufs s i)" "b_blockno (f (bufs s i)) = b_blockno (bufs s i)"
  shows "bview dv (upd_buf i f s) = (let x = f (bufs s i); v = bview dv s in
     v\<lparr>vlog := (vlog v)(b := if b_valid x then b_data x else disk s b),
       vrc := (vrc v)(b := unat (b_refcnt x)),
       vheld := (vheld v)(b := if sl_locked (b_lock x) then Some (sl_pid (b_lock x)) else None)\<rparr>)"
proof -
  have other: "j \<noteq> i" if "cached dv s c = Some j" "c \<noteq> b" for c j
    using cached_inj assms(1) that by metis
  have c: "cached dv (upd_buf i f s) = cached dv s" using cached_upd assms(2,3) by (intro ext)
  have bufs: "bufs (upd_buf i f s) = (bufs s)(i := f (bufs s i))" "disk (upd_buf i f s) = disk s"
    "dtrace (upd_buf i f s) = dtrace s" by (simp_all add: upd_buf_def)
  show ?thesis
    unfolding bview_def c bufs Let_def
    by (auto simp: fun_eq_iff assms(1) split: option.splits dest: other)
qed

lemma bio_inv_upd:
  assumes "bio_inv dv s" "i < NBUF"
    and "b_dev (f (bufs s i)) = b_dev (bufs s i)" "b_blockno (f (bufs s i)) = b_blockno (bufs s i)"
    and "buf_ok dv (disk s) (f (bufs s i))"
  shows "bio_inv dv (upd_buf i f s)"
proof -
  let ?s = "upd_buf i f s"
  have key: "b_dev (bufs ?s j) = b_dev (bufs s j)" "b_blockno (bufs ?s j) = b_blockno (bufs s j)" for j
    using assms(3,4) by (simp_all add: upd_buf_def)
  have same: "bnext ?s = bnext s" "bprev ?s = bprev s" "disk ?s = disk s"
    by (simp_all add: upd_buf_def)
  have "buf_ok dv (disk s) (bufs ?s j)" if "j < NBUF" for j
    using assms(1,5) that by (simp add: upd_buf_def bio_inv_def)
  then show ?thesis using assms(1) unfolding bio_inv_def key same by blast
qed

subsection \<open>Refinement of the view by the operations\<close>

lemma bio_inv_list:
  assumes "bio_inv dv s"
  obtains xs where "dll (bnext s) (bprev s) xs" "set xs = {..<NBUF}" "length xs = NBUF"
proof -
  obtain xs where xs: "dll (bnext s) (bprev s) xs" "set xs = {..<NBUF}"
    using assms by (auto simp: bio_inv_def)
  moreover have "length xs = NBUF"
    using xs distinct_card [of xs] by (simp add: dll_def)
  ultimately show ?thesis by (rule that)
qed

lemma scan_cached:
  assumes "bio_inv dv s"
  shows "scan (bnext s) (\<lambda>i. b_dev (bufs s i) = dv \<and> b_blockno (bufs s i) = b) (Suc NBUF) (bnext s NBUF)
    = cached dv s b"
proof -
  obtain xs where xs: "dll (bnext s) (bprev s) xs" "set xs = {..<NBUF}" "length xs = NBUF"
    using assms by (rule bio_inv_list)
  show ?thesis
    unfolding cached_def by (subst scan_next [OF xs(1)])
      (use xs assms in \<open>auto simp: bio_inv_def intro!: find_unique\<close>)
qed

lemma scan_free:
  assumes "bio_inv dv s"
  shows "case scan (bprev s) (\<lambda>i. b_refcnt (bufs s i) = 0) (Suc NBUF) (bprev s NBUF) of
      None \<Rightarrow> \<forall>i<NBUF. b_refcnt (bufs s i) \<noteq> 0
    | Some i \<Rightarrow> i < NBUF \<and> b_refcnt (bufs s i) = 0"
proof -
  obtain xs where xs: "dll (bnext s) (bprev s) xs" "set xs = {..<NBUF}" "length xs = NBUF"
    using assms by (rule bio_inv_list)
  let ?P = "\<lambda>i. b_refcnt (bufs s i) = 0"
  have scan: "scan (bprev s) ?P (Suc NBUF) (bprev s NBUF) = find ?P (rev xs)"
    using xs by (intro scan_prev) auto
  show ?thesis
  proof (cases "find ?P (rev xs)")
    case None
    then have "\<forall>i \<in> set xs. \<not> ?P i" by (simp add: find_None_iff)
    then show ?thesis unfolding scan None using xs(2) by auto
  next
    case (Some i)
    then obtain k where "k < length (rev xs)" "i = rev xs ! k" "?P i" by (auto simp: find_Some_iff)
    then have "i \<in> set xs" "?P i" by (metis nth_mem set_rev, simp)
    then show ?thesis unfolding scan Some using xs(2) by auto
  qed
qed

lemma more_upd_buf [simp]: "bio.more (upd_buf b f s) = bio.more s"
  by (simp add: upd_buf_def)

lemma bread_hit:
  assumes inv: "bio_inv dv s" and c: "cached dv s b = Some i" and free: "vheld (bview dv s) b = None"
    and rc: "Suc (vrc (bview dv s) b) < 2 ^ 32"
  shows "\<exists>s'. bread pid dv b s = Inr (i, s') \<and> bio_inv dv s' \<and> bview dv s' = v_bread pid b (bview dv s)
    \<and> cached dv s' = cached dv s \<and> b_data (bufs s' i) = vlog (bview dv s) b \<and> bio.more s' = bio.more s"
proof -
  let ?x = "bufs s i" and ?lk = "\<lparr>sl_locked = True, sl_pid = pid\<rparr>"
  let ?f = "\<lambda>x. x\<lparr>b_refcnt := b_refcnt x + 1, b_lock := ?lk\<rparr>"
  let ?d = "vlog (bview dv s) b"
  let ?g = "\<lambda>x. x\<lparr>b_refcnt := b_refcnt x + 1, b_lock := ?lk, b_valid := True, b_data := ?d\<rparr>"
  have i: "i < NBUF" and key: "b_dev ?x = dv" "b_blockno ?x = b" using cached_SomeD [OF c] by auto
  have unl: "\<not> sl_locked (b_lock ?x)" using free c by (auto simp: bview_def split: if_splits)
  have d: "?d = (if b_valid ?x then b_data ?x else disk s b)" using c by (simp add: bview_def)
  have bget: "bget pid dv b s = Inr (i, upd_buf i ?f s)"
    using unl by (simp add: bget_def scan_cached [OF inv] c)
  have s': "bread pid dv b s = Inr (i, upd_buf i ?g s)"
    using d key by (cases ?x) (auto simp: bread_def bget upd_buf_def disk_rw_def Let_def)
  have r: "unat (b_refcnt ?x + 1) = Suc (unat (b_refcnt ?x))"
    using rc c by (simp add: bview_def unat_plus_if')
  then have nz: "b_refcnt ?x + 1 \<noteq> 0" by auto
  have "bio_inv dv (upd_buf i ?g s)"
    by (rule bio_inv_upd [OF inv i]) (use nz key in \<open>auto simp: buf_ok_def\<close>)
  moreover have "bview dv (upd_buf i ?g s) = v_bread pid b (bview dv s)"
    using r c by (subst bview_upd [OF c]) (auto simp: Let_def v_bread_def bview_def fun_eq_iff)
  moreover have "cached dv (upd_buf i ?g s) = cached dv s" by (intro ext cached_upd) simp_all
  ultimately show ?thesis using s' by (intro exI [of _ "upd_buf i ?g s"]) (simp add: upd_buf_def)
qed

lemma bread_miss:
  assumes inv: "bio_inv dv s" and c: "cached dv s b = None"
    and free: "\<exists>i<NBUF. b_refcnt (bufs s i) = 0"
  shows "\<exists>i s'. bread pid dv b s = Inr (i, s') \<and> bio_inv dv s' \<and> bview dv s' = v_bread pid b (bview dv s)
    \<and> cached dv s' b = Some i \<and> (\<forall>c. 0 < vrc (bview dv s) c \<longrightarrow> cached dv s' c = cached dv s c)
    \<and> b_data (bufs s' i) = vlog (bview dv s) b \<and> bio.more s' = bio.more s"
proof -
  let ?lk = "\<lparr>sl_locked = True, sl_pid = pid\<rparr>"
  obtain i where scan: "scan (bprev s) (\<lambda>i. b_refcnt (bufs s i) = 0) (Suc NBUF) (bprev s NBUF) = Some i"
    and i: "i < NBUF" "b_refcnt (bufs s i) = 0"
    using scan_free [OF inv] free by (auto split: option.splits)
  have okI: "buf_ok dv (disk s) (bufs s i)" using inv i by (simp add: bio_inv_def)
  let ?B = "\<lparr>b_valid = True, b_dev = dv, b_blockno = b, b_lock = ?lk, b_refcnt = 1, b_data = disk s b\<rparr>"
  let ?s = "s\<lparr>bufs := (bufs s)(i := ?B)\<rparr>"
  have read: "bread pid dv b s = Inr (i, ?s)"
    using okI i by (cases "bufs s i") (simp add: bread_def bget_def scan_cached [OF inv] c scan buf_ok_def upd_buf_def
      disk_rw_def Let_def)
  have uniq: "\<not> (b_dev (bufs s j) = dv \<and> b_blockno (bufs s j) = b)" if "j < NBUF" for j
    using c that by (simp add: cached_None)
  have inv': "bio_inv dv ?s"
    unfolding bio_inv_def
  proof (intro conjI allI impI)
    show "\<exists>xs. dll (bnext ?s) (bprev ?s) xs \<and> set xs = {..<NBUF}" using inv by (simp add: bio_inv_def)
    show "j = k" if "j < NBUF" "k < NBUF"
      "b_dev (bufs ?s j) = dv \<and> b_dev (bufs ?s k) = dv \<and> b_blockno (bufs ?s j) = b_blockno (bufs ?s k)" for j k
      using that inv uniq [of j] uniq [of k] unfolding bio_inv_def by (auto split: if_splits)
    show "buf_ok dv (disk ?s) (bufs ?s j)" if "j < NBUF" for j
      using inv that by (simp add: bio_inv_def buf_ok_def)
  qed
  have cb: "cached dv ?s b = Some i" by (rule cached_SomeI [OF inv']) (use i in auto)
  have cc: "cached dv ?s x = (if cached dv s x = Some i then None else cached dv s x)" if "x \<noteq> b" for x
  proof (cases "cached dv s x")
    case None
    then have "cached dv ?s x = None" using that by (simp add: cached_None)
    with None show ?thesis by simp
  next
    case (Some j)
    note k = cached_SomeD [OF Some]
    show ?thesis
    proof (cases "j = i")
      case True
      have "cached dv ?s x = None"
        using that k True inv by (auto simp: cached_None bio_inv_def)
      with Some True show ?thesis by simp
    next
      case False
      have "cached dv ?s x = Some j" by (rule cached_SomeI [OF inv']) (use k False in auto)
      with Some False show ?thesis by simp
    qed
  qed
  have key: "b_dev (bufs s i) = dv" "b_blockno (bufs s i) = x" if "cached dv s x = Some i" for x
    using cached_SomeD [OF that] by auto
  have "vlog (bview dv ?s) x = vlog (bview dv s) x" for x
    using cb cc [of x] c okI i key [of x] by (cases "x = b") (auto simp: bview_def buf_ok_def split: option.splits)
  moreover have "vrc (bview dv ?s) x = ((vrc (bview dv s))(b := 1)) x" for x
    using cb cc [of x] i by (cases "x = b") (auto simp: bview_def split: option.splits)
  moreover have "vheld (bview dv ?s) x = ((vheld (bview dv s))(b := Some pid)) x" for x
    using cb cc [of x] okI i by (cases "x = b") (auto simp: bview_def buf_ok_def split: option.splits)
  moreover have "vrc (bview dv s) b = 0" using c by (simp add: bview_def)
  ultimately have "bview dv ?s = v_bread pid b (bview dv s)"
    by (intro view.equality) (auto simp: v_bread_def)
  moreover have "cached dv ?s x = cached dv s x" if "0 < vrc (bview dv s) x" for x
    using that cc [of x] c i by (cases "x = b") (auto simp: bview_def)
  moreover have "disk s b = vlog (bview dv s) b" using c by (simp add: bview_def)
  ultimately show ?thesis using read inv' cb by (intro exI [of _ i] exI [of _ ?s]) simp
qed

lemma some_free_buffer:
  assumes inv: "bio_inv dv s" and "card {b. 0 < vrc (bview dv s) b} < NBUF"
  shows "\<exists>i<NBUF. b_refcnt (bufs s i) = 0"
proof (rule ccontr)
  assume "\<not> ?thesis"
  then have nz: "b_refcnt (bufs s i) \<noteq> 0" if "i < NBUF" for i using that by auto
  let ?f = "\<lambda>i. b_blockno (bufs s i)" and ?B = "{b. 0 < vrc (bview dv s) b}"
  have dev: "b_dev (bufs s i) = dv" if "i < NBUF" for i
    using inv nz [OF that] that by (simp add: bio_inv_def buf_ok_def)
  have "inj_on ?f {..<NBUF}" using inv dev by (auto simp: inj_on_def bio_inv_def)
  then have "card (?f ` {..<NBUF}) = NBUF" by (simp add: card_image)
  moreover have "?f ` {..<NBUF} \<subseteq> ?B"
    using cached_SomeI [OF inv] dev nz by (auto simp: bview_def unat_gt_0)
  moreover have "finite ?B" by (rule finite_subset [OF subset_UNIV]) simp
  ultimately show False using assms(2) by (metis card_mono not_less)
qed

lemma bread_ok:
  assumes inv: "bio_inv dv s" and free: "vheld (bview dv s) b = None"
    and rc: "Suc (vrc (bview dv s) b) < 2 ^ 32"
    and avail: "0 < vrc (bview dv s) b \<or> card {b. 0 < vrc (bview dv s) b} < NBUF"
  shows "\<exists>i s'. bread pid dv b s = Inr (i, s') \<and> bio_inv dv s' \<and> bview dv s' = v_bread pid b (bview dv s)
    \<and> cached dv s' b = Some i \<and> (\<forall>c. 0 < vrc (bview dv s) c \<longrightarrow> cached dv s' c = cached dv s c)
    \<and> b_data (bufs s' i) = vlog (bview dv s) b \<and> bio.more s' = bio.more s"
proof (cases "cached dv s b")
  case None
  then have "vrc (bview dv s) b = 0" by (simp add: bview_def)
  with avail some_free_buffer [OF inv] have "\<exists>i<NBUF. b_refcnt (bufs s i) = 0" by simp
  then show ?thesis by (rule bread_miss [OF inv None])
next
  case (Some i)
  then show ?thesis using bread_hit [OF inv Some free rc, of pid] by auto
qed

lemma held_lock:
  assumes "cached dv s b = Some i" and "vheld (bview dv s) b = Some pid"
  shows "b_lock (bufs s i) = \<lparr>sl_locked = True, sl_pid = pid\<rparr>"
  using assms by (cases "b_lock (bufs s i)") (auto simp: bview_def split: if_splits)

lemma rc_buf: "cached dv s b = Some i \<Longrightarrow> vrc (bview dv s) b = unat (b_refcnt (bufs s i))"
  by (simp add: bview_def)

lemma referenced_valid:
  assumes "bio_inv dv s" "cached dv s b = Some i" "0 < vrc (bview dv s) b"
  shows "b_valid (bufs s i)" "vlog (bview dv s) b = b_data (bufs s i)"
proof -
  have "b_refcnt (bufs s i) \<noteq> 0" using assms(2,3) by (auto simp: rc_buf unat_gt_0)
  then show "b_valid (bufs s i)" using assms(1) cached_SomeD [OF assms(2)]
    by (auto simp: bio_inv_def buf_ok_def)
  then show "vlog (bview dv s) b = b_data (bufs s i)" using assms(2) by (simp add: bview_def)
qed

lemma set_data_ok:
  assumes inv: "bio_inv dv s" and c: "cached dv s b = Some i" and rc: "0 < vrc (bview dv s) b"
  shows "bio_inv dv (set_data i d s) \<and> bview dv (set_data i d s) = v_set b d (bview dv s)
    \<and> cached dv (set_data i d s) = cached dv s \<and> bio.more (set_data i d s) = bio.more s"
proof -
  have i: "i < NBUF" using cached_SomeD [OF c] by simp
  have nz: "b_refcnt (bufs s i) \<noteq> 0" using c rc by (auto simp: rc_buf unat_gt_0)
  note v = referenced_valid [OF inv c rc]
  have "bio_inv dv (set_data i d s)"
    unfolding set_data_def by (rule bio_inv_upd [OF inv i])
      (use nz cached_SomeD [OF c] v in \<open>auto simp: buf_ok_def\<close>)
  moreover have "bview dv (set_data i d s) = v_set b d (bview dv s)"
    unfolding set_data_def by (subst bview_upd [OF c])
      (use c v in \<open>auto simp: Let_def v_set_def bview_def fun_eq_iff\<close>)
  moreover have "cached dv (set_data i d s) = cached dv s"
    unfolding set_data_def by (intro ext cached_upd) simp_all
  ultimately show ?thesis by (simp add: set_data_def)
qed

lemma bwrite_ok:
  assumes inv: "bio_inv dv s" and c: "cached dv s b = Some i" and rc: "0 < vrc (bview dv s) b"
    and h: "vheld (bview dv s) b = Some pid"
  shows "\<exists>s'. bwrite pid i s = Inr s' \<and> bio_inv dv s' \<and> bview dv s' = v_bwrite b (bview dv s)
    \<and> cached dv s' = cached dv s \<and> bio.more s' = bio.more s"
proof -
  let ?d = "b_data (bufs s i)"
  let ?s = "s\<lparr>disk := (disk s)(b := ?d), dtrace := dtrace s @ [(b, ?d)]\<rparr>"
  note k = cached_SomeD [OF c] and v = referenced_valid [OF inv c rc]
  have w: "bwrite pid i s = Inr ?s"
    using held_lock [OF c h] k by (simp add: bwrite_def disk_rw_def Let_def)
  have cs: "cached dv ?s = cached dv s" by (intro ext) (simp add: cached_def)
  have nz: "b_refcnt (bufs s i) \<noteq> 0" using c rc by (auto simp: rc_buf unat_gt_0)
  have "buf_ok dv (disk ?s) (bufs s j)" if "j < NBUF" for j
  proof (cases "j = i")
    case True then show ?thesis using inv k nz by (simp add: bio_inv_def buf_ok_def)
  next
    case False
    then have "b_dev (bufs s j) = dv \<Longrightarrow> b_blockno (bufs s j) \<noteq> b"
      using inv k that by (auto simp: bio_inv_def)
    then show ?thesis using inv that by (auto simp: bio_inv_def buf_ok_def)
  qed
  then have "bio_inv dv ?s" using inv by (simp add: bio_inv_def)
  moreover have "bview dv ?s = v_bwrite b (bview dv s)"
    using c v(1) unfolding bview_def cs v_bwrite_def
    by (auto simp: fun_eq_iff split: option.splits)
  ultimately show ?thesis using w cs by auto
qed

lemma bpin_ok:
  assumes inv: "bio_inv dv s" and c: "cached dv s b = Some i" and rc: "0 < vrc (bview dv s) b"
    and lt: "Suc (vrc (bview dv s) b) < 2 ^ 32"
  shows "bio_inv dv (bpin i s) \<and> bview dv (bpin i s) = v_pin b (bview dv s)
    \<and> cached dv (bpin i s) = cached dv s \<and> bio.more (bpin i s) = bio.more s"
proof -
  note k = cached_SomeD [OF c] and v = referenced_valid [OF inv c rc]
  have r: "unat (b_refcnt (bufs s i) + 1) = Suc (unat (b_refcnt (bufs s i)))"
    using lt c by (simp add: rc_buf unat_plus_if')
  then have nz: "b_refcnt (bufs s i) + 1 \<noteq> 0" by auto
  have "bio_inv dv (bpin i s)"
    unfolding bpin_def by (rule bio_inv_upd [OF inv]) (use k nz v in \<open>auto simp: buf_ok_def\<close>)
  moreover have "bview dv (bpin i s) = v_pin b (bview dv s)"
    unfolding bpin_def by (subst bview_upd [OF c])
      (use c v r in \<open>auto simp: Let_def v_pin_def bview_def fun_eq_iff\<close>)
  moreover have "cached dv (bpin i s) = cached dv s"
    unfolding bpin_def by (intro ext cached_upd) simp_all
  ultimately show ?thesis by (simp add: bpin_def)
qed

lemma bunpin_ok:
  assumes inv: "bio_inv dv s" and c: "cached dv s b = Some i" and rc: "1 < vrc (bview dv s) b"
  shows "bio_inv dv (bunpin i s) \<and> bview dv (bunpin i s) = v_unpin b (bview dv s)
    \<and> cached dv (bunpin i s) = cached dv s \<and> bio.more (bunpin i s) = bio.more s"
proof -
  note k = cached_SomeD [OF c]
  have v: "b_valid (bufs s i)" "vlog (bview dv s) b = b_data (bufs s i)"
    using referenced_valid [OF inv c] rc by auto
  have gt: "1 < unat (b_refcnt (bufs s i))" using rc c by (simp add: rc_buf)
  then have r: "unat (b_refcnt (bufs s i) - 1) = unat (b_refcnt (bufs s i)) - 1"
    by (subst unat_sub) (auto simp: word_le_nat_alt)
  with gt have nz: "b_refcnt (bufs s i) - 1 \<noteq> 0" by auto
  have "bio_inv dv (bunpin i s)"
    unfolding bunpin_def by (rule bio_inv_upd [OF inv]) (use k nz v in \<open>auto simp: buf_ok_def\<close>)
  moreover have "bview dv (bunpin i s) = v_unpin b (bview dv s)"
    unfolding bunpin_def by (subst bview_upd [OF c])
      (use c v r in \<open>auto simp: Let_def v_unpin_def bview_def fun_eq_iff\<close>)
  moreover have "cached dv (bunpin i s) = cached dv s"
    unfolding bunpin_def by (intro ext cached_upd) simp_all
  ultimately show ?thesis by (simp add: bunpin_def)
qed

lemma link_unlink_frame [simp]:
  "bufs (link_front b s) = bufs s" "disk (link_front b s) = disk s"
  "dtrace (link_front b s) = dtrace s" "bio.more (link_front b s) = bio.more s"
  "bufs (unlink b s) = bufs s" "disk (unlink b s) = disk s"
  "dtrace (unlink b s) = dtrace s" "bio.more (unlink b s) = bio.more s"
  by (simp_all add: link_front_def unlink_def Let_def)

lemma link_front_dll:
  "dll (bnext s) (bprev s) xs \<Longrightarrow> b \<notin> set xs \<Longrightarrow> b \<noteq> NBUF \<Longrightarrow>
   dll (bnext (link_front b s)) (bprev (link_front b s)) (b # xs)"
  using dll_link_front [of "bnext s" "bprev s" xs b] by (simp add: link_front_def Let_def)

lemma move_front_dll:
  assumes "dll (bnext s) (bprev s) xs" and "b \<in> set xs"
  shows "dll (bnext (link_front b (unlink b s))) (bprev (link_front b (unlink b s))) (b # remove1 b xs)"
proof -
  obtain us vs where xs: "xs = us @ b # vs" "b \<notin> set us" using assms(2) by (meson split_list_first)
  have d: "distinct (NBUF # xs)" using assms(1) by (simp add: dll_def)
  have "dll (bnext (unlink b s)) (bprev (unlink b s)) (us @ vs)"
    using dll_unlink [of "bnext s" "bprev s" us b vs] assms(1) xs(1) by (simp add: unlink_def Let_def)
  then have "dll (bnext (link_front b (unlink b s))) (bprev (link_front b (unlink b s))) (b # us @ vs)"
    by (rule link_front_dll) (use d xs in auto)
  then show ?thesis using xs by (simp add: remove1_append)
qed

lemma bview_cong:
  "bufs s = bufs s' \<Longrightarrow> disk s = disk s' \<Longrightarrow> dtrace s = dtrace s' \<Longrightarrow> bview dv s = bview dv s'"
  unfolding bview_def cached_def by presburger

lemma brelse_ok:
  assumes inv: "bio_inv dv s" and c: "cached dv s b = Some i" and rc: "0 < vrc (bview dv s) b"
    and h: "vheld (bview dv s) b = Some pid"
    and clean: "vrc (bview dv s) b = 1 \<Longrightarrow> vlog (bview dv s) b = vdisk (bview dv s) b"
  shows "\<exists>s'. brelse pid i s = Inr s' \<and> bio_inv dv s' \<and> bview dv s' = v_brelse b (bview dv s)
    \<and> cached dv s' = cached dv s \<and> bio.more s' = bio.more s"
proof -
  note k = cached_SomeD [OF c] and v = referenced_valid [OF inv c rc]
  let ?f = "\<lambda>x. x\<lparr>b_lock := \<lparr>sl_locked = False, sl_pid = 0\<rparr>, b_refcnt := b_refcnt x - 1\<rparr>"
  let ?s = "upd_buf i ?f s"
  let ?t = "if b_refcnt (bufs ?s i) = 0 then link_front i (unlink i ?s) else ?s"
  have rel: "brelse pid i s = Inr ?t"
    using held_lock [OF c h] by (simp add: brelse_def upd_buf_def Let_def)
  have r: "unat (b_refcnt (bufs s i) - 1) = unat (b_refcnt (bufs s i)) - 1"
    using rc c by (subst unat_sub) (auto simp: word_le_nat_alt rc_buf)
  have inv': "bio_inv dv ?s"
  proof (rule bio_inv_upd [OF inv])
    have "vrc (bview dv s) b = 1" if "b_refcnt (bufs s i) - 1 = 0"
      using that rc r c by (simp add: rc_buf)
    then show "buf_ok dv (disk s) (?f (bufs s i))"
      using clean v k by (auto simp: buf_ok_def)
  qed (use k in auto)
  have view': "bview dv ?s = v_brelse b (bview dv s)"
    by (subst bview_upd [OF c])
      (use c v r in \<open>auto simp: Let_def v_brelse_def bview_def fun_eq_iff\<close>)
  have cs: "cached dv ?s = cached dv s" by (intro ext cached_upd) simp_all
  obtain xs where xs: "dll (bnext ?s) (bprev ?s) xs" "set xs = {..<NBUF}"
    using inv' by (auto simp: bio_inv_def)
  have "set (i # remove1 i xs) = {..<NBUF}"
    using xs k set_remove1_eq [of xs i] by (auto simp: dll_def)
  then have "\<exists>ys. dll (bnext ?t) (bprev ?t) ys \<and> set ys = {..<NBUF}"
    using xs k move_front_dll [OF xs(1), of i] by auto
  then have "bio_inv dv ?t"
    using inv' by (simp add: bio_inv_def)
  moreover have "bview dv ?t = bview dv ?s" by (rule bview_cong) simp_all
  moreover have "cached dv ?t = cached dv ?s" by (intro ext) (simp add: cached_def)
  ultimately show ?thesis using rel view' cs by auto
qed

text \<open>The state of the cache when the kernel starts: static storage is zero.\<close>

definition boot_bio :: "(u32 \<Rightarrow> block) \<Rightarrow> bio" where
  "boot_bio d = \<lparr>bufs = (\<lambda>_. \<lparr>b_valid = False, b_dev = 0, b_blockno = 0,
       b_lock = \<lparr>sl_locked = False, sl_pid = 0\<rparr>, b_refcnt = 0, b_data = (\<lambda>_. 0)\<rparr>),
     bprev = (\<lambda>_. 0), bnext = (\<lambda>_. 0), disk = d, dtrace = []\<rparr>"

lemma binit_fold:
  assumes "dll (bnext s) (bprev s) ys" "distinct (xs @ ys)" "NBUF \<notin> set xs"
  defines "t \<equiv> fold (\<lambda>b s. link_front b (upd_buf b (\<lambda>x. x\<lparr>b_lock := initsleeplock\<rparr>) s)) xs s"
  shows "dll (bnext t) (bprev t) (rev xs @ ys) \<and> disk t = disk s \<and> dtrace t = dtrace s
    \<and> bio.more t = bio.more s
    \<and> (\<forall>i. bufs t i = (if i \<in> set xs then (bufs s i)\<lparr>b_lock := initsleeplock\<rparr> else bufs s i))"
  using assms(1-3) unfolding t_def
proof (induction xs arbitrary: s ys)
  case (Cons x xs)
  let ?s = "link_front x (upd_buf x (\<lambda>x. x\<lparr>b_lock := initsleeplock\<rparr>) s)"
  have "dll (bnext ?s) (bprev ?s) (x # ys)"
    by (rule link_front_dll) (use Cons.prems in \<open>auto simp: upd_buf_def\<close>)
  with Cons.IH [of ?s "x # ys"] Cons.prems show ?case
    by (auto simp: upd_buf_def)
qed simp

lemma binit_list:
  "dll (bnext (binit s)) (bprev (binit s)) (rev [0..<NBUF])" "disk (binit s) = disk s"
  "dtrace (binit s) = dtrace s" "bio.more (binit s) = bio.more s"
  "bufs (binit s) i = (if i < NBUF then (bufs s i)\<lparr>b_lock := initsleeplock\<rparr> else bufs s i)"
  using binit_fold [of "s\<lparr>bprev := (bprev s)(NBUF := NBUF), bnext := (bnext s)(NBUF := NBUF)\<rparr>" "[]"
      "[0..<NBUF]"]
  unfolding binit_def by (auto simp: dll_Nil)

lemma binit_ok:
  assumes "\<And>i. i < NBUF \<Longrightarrow> b_refcnt (bufs s i) = 0 \<and> b_dev (bufs s i) \<noteq> dv"
  shows "bio_inv dv (binit s) \<and> bview dv (binit s) =
    \<lparr>vlog = disk s, vdisk = disk s, vtrace = dtrace s, vrc = (\<lambda>_. 0), vheld = (\<lambda>_. None)\<rparr>
    \<and> bio.more (binit s) = bio.more s"
proof -
  note t = binit_list [of s]
  then have "bio_inv dv (binit s)"
    using assms unfolding bio_inv_def
    by (auto simp: buf_ok_def initsleeplock_def intro!: exI [of _ "rev [0..<NBUF]"])
  moreover have "cached dv (binit s) = (\<lambda>_. None)"
    using assms t(5) by (auto simp: cached_None fun_eq_iff)
  ultimately show ?thesis using t by (simp add: bview_def)
qed

lemma unreferenced_clean:
  assumes "bio_inv dv s" "vrc (bview dv s) b = 0"
  shows "vlog (bview dv s) b = vdisk (bview dv s) b"
proof (cases "cached dv s b")
  case (Some i)
  then have "b_refcnt (bufs s i) = 0" using assms(2) by (simp add: rc_buf unat_0_iff)
  then show ?thesis using assms(1) cached_SomeD [OF Some] Some
    by (auto simp: bview_def bio_inv_def buf_ok_def)
qed (simp add: bview_def)

subsection \<open>The contract of the buffer cache\<close>

text \<open>
  What the log relies on: each operation is the corresponding operation on the view, and a
  buffer keeps its slot while it is referenced. \<open>slot\<close> finds the buffer of a block.
\<close>

definition v_copy :: "bool \<Rightarrow> u32 \<Rightarrow> u32 \<Rightarrow> view \<Rightarrow> view" where
  "v_copy u src dst v = v\<lparr>vlog := (vlog v)(dst := vlog v src), vdisk := (vdisk v)(dst := vlog v src),
     vtrace := vtrace v @ [(dst, vlog v src)],
     vrc := (if u then (vrc v)(dst := vrc v dst - 1) else vrc v)\<rparr>"

definition room :: "view \<Rightarrow> u32 set \<Rightarrow> bool" where
  "room v B \<longleftrightarrow> card ({b. 0 < vrc v b} \<union> B) \<le> NBUF"

lemma finite_u32_set [simp]: "finite (A :: u32 set)"
  by (rule finite_subset [OF subset_UNIV]) simp

lemma room_mono: "room v B \<Longrightarrow> A \<subseteq> B \<Longrightarrow> room v A"
  unfolding room_def by (meson Un_mono card_mono finite_u32_set le_trans order_refl)

locale buffer_cache =
  fixes rd :: "int \<Rightarrow> u32 \<Rightarrow> 's \<Rightarrow> (nat \<times> 's) res"
    and wr :: "int \<Rightarrow> nat \<Rightarrow> 's \<Rightarrow> 's res"
    and rel :: "int \<Rightarrow> nat \<Rightarrow> 's \<Rightarrow> 's res"
    and pin :: "nat \<Rightarrow> 's \<Rightarrow> 's"
    and unpin :: "nat \<Rightarrow> 's \<Rightarrow> 's"
    and put :: "nat \<Rightarrow> block \<Rightarrow> 's \<Rightarrow> 's"
    and get :: "'s \<Rightarrow> nat \<Rightarrow> block"
    and inv :: "'s \<Rightarrow> bool"
    and vw :: "'s \<Rightarrow> view"
    and slot :: "'s \<Rightarrow> u32 \<Rightarrow> nat option"
    and frame :: "'s \<Rightarrow> 'x"
  assumes rd: "inv s \<Longrightarrow> vheld (vw s) b = None \<Longrightarrow> Suc (vrc (vw s) b) < 2 ^ 32 \<Longrightarrow>
      0 < vrc (vw s) b \<or> card {b. 0 < vrc (vw s) b} < NBUF \<Longrightarrow>
      \<exists>i s'. rd pid b s = Inr (i, s') \<and> inv s' \<and> vw s' = v_bread pid b (vw s) \<and> slot s' b = Some i
        \<and> (\<forall>c. 0 < vrc (vw s) c \<longrightarrow> slot s' c = slot s c) \<and> frame s' = frame s"
    and wr: "inv s \<Longrightarrow> slot s b = Some i \<Longrightarrow> 0 < vrc (vw s) b \<Longrightarrow> vheld (vw s) b = Some pid \<Longrightarrow>
      \<exists>s'. wr pid i s = Inr s' \<and> inv s' \<and> vw s' = v_bwrite b (vw s) \<and> slot s' = slot s \<and> frame s' = frame s"
    and rel: "inv s \<Longrightarrow> slot s b = Some i \<Longrightarrow> 0 < vrc (vw s) b \<Longrightarrow> vheld (vw s) b = Some pid \<Longrightarrow>
      (vrc (vw s) b = 1 \<Longrightarrow> vlog (vw s) b = vdisk (vw s) b) \<Longrightarrow>
      \<exists>s'. rel pid i s = Inr s' \<and> inv s' \<and> vw s' = v_brelse b (vw s) \<and> slot s' = slot s \<and> frame s' = frame s"
    and pin: "inv s \<Longrightarrow> slot s b = Some i \<Longrightarrow> 0 < vrc (vw s) b \<Longrightarrow> Suc (vrc (vw s) b) < 2 ^ 32 \<Longrightarrow>
      inv (pin i s) \<and> vw (pin i s) = v_pin b (vw s) \<and> slot (pin i s) = slot s \<and> frame (pin i s) = frame s"
    and unpin: "inv s \<Longrightarrow> slot s b = Some i \<Longrightarrow> 1 < vrc (vw s) b \<Longrightarrow>
      inv (unpin i s) \<and> vw (unpin i s) = v_unpin b (vw s) \<and> slot (unpin i s) = slot s
        \<and> frame (unpin i s) = frame s"
    and put: "inv s \<Longrightarrow> slot s b = Some i \<Longrightarrow> 0 < vrc (vw s) b \<Longrightarrow>
      inv (put i d s) \<and> vw (put i d s) = v_set b d (vw s) \<and> slot (put i d s) = slot s
        \<and> frame (put i d s) = frame s"
    and get: "inv s \<Longrightarrow> slot s b = Some i \<Longrightarrow> 0 < vrc (vw s) b \<Longrightarrow> get s i = vlog (vw s) b"
    and clean: "inv s \<Longrightarrow> vrc (vw s) b = 0 \<Longrightarrow> vlog (vw s) b = vdisk (vw s) b"
begin

lemma rd_room:
  assumes "inv s" "vheld (vw s) b = None" "vrc (vw s) b \<le> 1" "room (vw s) {b}"
  shows "\<exists>i s'. rd pid b s = Inr (i, s') \<and> inv s' \<and> vw s' = v_bread pid b (vw s) \<and> slot s' b = Some i
        \<and> (\<forall>c. 0 < vrc (vw s) c \<longrightarrow> slot s' c = slot s c) \<and> frame s' = frame s"
proof (rule rd)
  show "0 < vrc (vw s) b \<or> card {b. 0 < vrc (vw s) b} < NBUF"
  proof (rule ccontr)
    assume "\<not> ?thesis"
    then have "b \<notin> {b. 0 < vrc (vw s) b}" "NBUF \<le> card {b. 0 < vrc (vw s) b}" by auto
    then show False
      using assms(4) card_insert_disjoint [OF finite_u32_set, of b "{b. 0 < vrc (vw s) b}"]
      by (simp add: room_def)
  qed
qed (use assms in auto)

text \<open>Read a block, look at it, release it.\<close>

lemma peek:
  assumes "inv s" "vheld (vw s) b = None" "vrc (vw s) b \<le> 1" "room (vw s) {b}"
  shows "\<exists>i s1 s2. rd pid b s = Inr (i, s1) \<and> get s1 i = vlog (vw s) b \<and> rel pid i s1 = Inr s2
    \<and> inv s1 \<and> frame s1 = frame s \<and> inv s2 \<and> vw s2 = vw s \<and> frame s2 = frame s"
proof -
  obtain i s1 where 1: "rd pid b s = Inr (i, s1)" "inv s1" "vw s1 = v_bread pid b (vw s)"
    "slot s1 b = Some i" "frame s1 = frame s" using rd_room [OF assms] by blast
  then have "get s1 i = vlog (vw s) b" using get [of s1 b i] by (simp add: v_bread_def)
  moreover have "\<exists>s2. rel pid i s1 = Inr s2 \<and> inv s2 \<and> vw s2 = v_brelse b (vw s1) \<and> slot s2 = slot s1
      \<and> frame s2 = frame s1"
    by (rule rel) (use 1 clean [OF assms(1), of b] in \<open>auto simp: v_bread_def\<close>)
  moreover have "v_brelse b (v_bread pid b (vw s)) = vw s"
    using assms(2) by (simp add: v_bread_def v_brelse_def fun_upd_idem)
  ultimately show ?thesis using 1 by metis
qed

text \<open>Read a block, overwrite it, write it through, release it.\<close>

lemma rewrite:
  assumes "inv s" "vheld (vw s) b = None" "vrc (vw s) b \<le> 1" "room (vw s) {b}"
  shows "\<exists>i s1 s2 s3. rd pid b s = Inr (i, s1) \<and> get s1 i = vlog (vw s) b \<and> frame s1 = frame s
    \<and> wr pid i (put i d s1) = Inr s2 \<and> rel pid i s2 = Inr s3 \<and> inv s3 \<and> frame s3 = frame s
    \<and> vw s3 = (vw s)\<lparr>vlog := (vlog (vw s))(b := d), vdisk := (vdisk (vw s))(b := d),
                     vtrace := vtrace (vw s) @ [(b, d)]\<rparr>"
proof -
  obtain i s1 where 1: "rd pid b s = Inr (i, s1)" "inv s1" "vw s1 = v_bread pid b (vw s)"
    "slot s1 b = Some i" "frame s1 = frame s" using rd_room [OF assms] by blast
  then have g: "get s1 i = vlog (vw s) b" using get [of s1 b i] by (simp add: v_bread_def)
  let ?p = "put i d s1"
  have p: "inv ?p" "vw ?p = v_set b d (vw s1)" "slot ?p b = Some i" "frame ?p = frame s"
    using put [of s1 b i d] 1 by (simp_all add: v_bread_def)
  have "\<exists>s2. wr pid i ?p = Inr s2 \<and> inv s2 \<and> vw s2 = v_bwrite b (vw ?p) \<and> slot s2 = slot ?p
      \<and> frame s2 = frame ?p"
    by (rule wr) (use p 1 in \<open>auto simp: v_bread_def v_set_def\<close>)
  then obtain s2 where 2: "wr pid i ?p = Inr s2" "inv s2" "vw s2 = v_bwrite b (vw ?p)"
    "slot s2 b = Some i" "frame s2 = frame s" using p by auto
  have "\<exists>s3. rel pid i s2 = Inr s3 \<and> inv s3 \<and> vw s3 = v_brelse b (vw s2) \<and> slot s3 = slot s2
      \<and> frame s3 = frame s2"
    by (rule rel) (use p 1 2 in \<open>auto simp: v_bread_def v_set_def v_bwrite_def\<close>)
  moreover have "v_brelse b (v_bwrite b (v_set b d (v_bread pid b (vw s)))) =
     (vw s)\<lparr>vlog := (vlog (vw s))(b := d), vdisk := (vdisk (vw s))(b := d),
            vtrace := vtrace (vw s) @ [(b, d)]\<rparr>"
    using assms(2) by (simp add: v_bread_def v_brelse_def v_set_def v_bwrite_def fun_upd_idem)
  ultimately show ?thesis using 1 2 g p by metis
qed

text \<open>Two blocks held at once, then one copied over the other and both released.\<close>

lemma read2:
  assumes "inv s" "x \<noteq> y" "vheld (vw s) x = None" "vheld (vw s) y = None"
    and "vrc (vw s) x \<le> 1" "vrc (vw s) y \<le> 1" "room (vw s) {x, y}"
  shows "\<exists>i s1 j s2. rd pid x s = Inr (i, s1) \<and> rd pid y s1 = Inr (j, s2) \<and> inv s2
    \<and> vw s2 = v_bread pid y (v_bread pid x (vw s)) \<and> slot s2 x = Some i \<and> slot s2 y = Some j
    \<and> frame s1 = frame s \<and> frame s2 = frame s"
proof -
  have "room (vw s) {x}"
    using assms(7) by (rule room_mono) auto
  then obtain i s1 where 1: "rd pid x s = Inr (i, s1)" "inv s1" "vw s1 = v_bread pid x (vw s)"
    "slot s1 x = Some i" "frame s1 = frame s" using rd_room assms by blast
  have "{b. 0 < vrc (vw s1) b} \<union> {y} = {b. 0 < vrc (vw s) b} \<union> {x, y}"
    using 1(3) by (auto simp: v_bread_def)
  then have "room (vw s1) {y}" using assms(7) by (simp add: room_def)
  then obtain j s2 where 2: "rd pid y s1 = Inr (j, s2)" "inv s2" "vw s2 = v_bread pid y (vw s1)"
    "slot s2 y = Some j" "frame s2 = frame s1" "\<forall>c. 0 < vrc (vw s1) c \<longrightarrow> slot s2 c = slot s1 c"
    using rd_room [of s1 y pid] 1 assms by (auto simp: v_bread_def)
  have "slot s2 x = Some i" using 2(6) 1 by (simp add: v_bread_def)
  then show ?thesis using 1 2 by auto
qed

lemma copy2:
  assumes "inv s" "src \<noteq> dst" "slot s src = Some i" "slot s dst = Some j"
    and "vheld (vw s) src = Some pid" "vheld (vw s) dst = Some pid"
    and "0 < vrc (vw s) src" "0 < vrc (vw s) dst" "u \<longrightarrow> 1 < vrc (vw s) dst"
    and "vrc (vw s) src = 1 \<Longrightarrow> vlog (vw s) src = vdisk (vw s) src"
  shows "\<exists>s1 s2 s3. wr pid j (put j (get s i) s) = Inr s1
    \<and> rel pid i (if u then unpin j s1 else s1) = Inr s2 \<and> rel pid j s2 = Inr s3 \<and> inv s3
    \<and> vw s3 = v_brelse dst (v_brelse src (v_copy u src dst (vw s))) \<and> frame s3 = frame s"
proof -
  have g: "get s i = vlog (vw s) src" using get assms by blast
  let ?p = "put j (get s i) s"
  have p: "inv ?p" "vw ?p = v_set dst (vlog (vw s) src) (vw s)" "slot ?p = slot s" "frame ?p = frame s"
    using put [of s dst j] assms g by simp_all
  have "\<exists>s1. wr pid j ?p = Inr s1 \<and> inv s1 \<and> vw s1 = v_bwrite dst (vw ?p) \<and> slot s1 = slot ?p
      \<and> frame s1 = frame ?p"
    by (rule wr) (use p assms in \<open>auto simp: v_set_def\<close>)
  then obtain s1 where 1: "wr pid j ?p = Inr s1" "inv s1" "vw s1 = v_bwrite dst (vw ?p)"
    "slot s1 = slot s" "frame s1 = frame s" using p by auto
  let ?u = "if u then unpin j s1 else s1"
  have "v_copy u src dst (vw s) = (if u then v_unpin dst (vw s1) else vw s1)"
    using 1(3) p(2) by (simp add: v_copy_def v_bwrite_def v_set_def v_unpin_def)
  moreover have "inv ?u \<and> vw ?u = (if u then v_unpin dst (vw s1) else vw s1) \<and> slot ?u = slot s
      \<and> frame ?u = frame s"
    using unpin [of s1 dst j] 1 p assms by (auto simp: v_set_def v_bwrite_def)
  ultimately have u: "inv ?u" "vw ?u = v_copy u src dst (vw s)" "slot ?u = slot s" "frame ?u = frame s"
    by simp_all
  have "\<exists>s2. rel pid i ?u = Inr s2 \<and> inv s2 \<and> vw s2 = v_brelse src (vw ?u) \<and> slot s2 = slot ?u
      \<and> frame s2 = frame ?u"
    by (rule rel) (unfold u, use u(1) assms in \<open>auto simp: v_copy_def split: if_splits\<close>)
  then obtain s2 where 2: "rel pid i ?u = Inr s2" "inv s2" "vw s2 = v_brelse src (vw ?u)"
    "slot s2 = slot s" "frame s2 = frame s" using u by auto
  have "\<exists>s3. rel pid j s2 = Inr s3 \<and> inv s3 \<and> vw s3 = v_brelse dst (vw s2) \<and> slot s3 = slot s2
      \<and> frame s3 = frame s2"
    by (rule rel) (use 2 u(2) assms in \<open>auto simp: v_copy_def v_brelse_def\<close>)
  then show ?thesis using 1 2 u by metis
qed

lemma copy_src_first:
  assumes "inv s" "src \<noteq> dst" "vheld (vw s) src = None" "vheld (vw s) dst = None"
    and "vrc (vw s) src \<le> 1" "vrc (vw s) dst \<le> 1" "room (vw s) {src, dst}" "u \<longrightarrow> 0 < vrc (vw s) dst"
  shows "\<exists>i a j b s1 s2 s3. rd pid src s = Inr (i, a) \<and> rd pid dst a = Inr (j, b)
    \<and> wr pid j (put j (get b i) b) = Inr s1
    \<and> rel pid i (if u then unpin j s1 else s1) = Inr s2 \<and> rel pid j s2 = Inr s3 \<and> inv s3
    \<and> vw s3 = v_copy u src dst (vw s) \<and> frame a = frame s \<and> frame s3 = frame s"
proof -
  obtain i a j b where 1: "rd pid src s = Inr (i, a)" "rd pid dst a = Inr (j, b)" "inv b"
    "vw b = v_bread pid dst (v_bread pid src (vw s))" "slot b src = Some i" "slot b dst = Some j"
    "frame a = frame s" "frame b = frame s" using read2 [OF assms(1-7)] by blast
  have "\<exists>s1 s2 s3. wr pid j (put j (get b i) b) = Inr s1
    \<and> rel pid i (if u then unpin j s1 else s1) = Inr s2 \<and> rel pid j s2 = Inr s3 \<and> inv s3
    \<and> vw s3 = v_brelse dst (v_brelse src (v_copy u src dst (vw b))) \<and> frame s3 = frame b"
    by (rule copy2) (use 1 assms clean [OF assms(1), of src] in \<open>auto simp: v_bread_def\<close>)
  moreover have "v_brelse dst (v_brelse src (v_copy u src dst (vw b))) = v_copy u src dst (vw s)"
    using assms unfolding 1(4)
    by (auto simp: v_brelse_def v_copy_def v_bread_def fun_eq_iff)
  ultimately show ?thesis using 1 by metis
qed

lemma copy_dst_first:
  assumes "inv s" "src \<noteq> dst" "vheld (vw s) src = None" "vheld (vw s) dst = None"
    and "vrc (vw s) src \<le> 1" "vrc (vw s) dst \<le> 1" "room (vw s) {src, dst}"
  shows "\<exists>i a j b s1 s2 s3. rd pid dst s = Inr (j, a) \<and> rd pid src a = Inr (i, b)
    \<and> wr pid j (put j (get b i) b) = Inr s1
    \<and> rel pid i s1 = Inr s2 \<and> rel pid j s2 = Inr s3 \<and> inv s3
    \<and> vw s3 = v_copy False src dst (vw s) \<and> frame a = frame s \<and> frame s3 = frame s"
proof -
  obtain i a j b where 1: "rd pid dst s = Inr (j, a)" "rd pid src a = Inr (i, b)" "inv b"
    "vw b = v_bread pid src (v_bread pid dst (vw s))" "slot b src = Some i" "slot b dst = Some j"
    "frame a = frame s" "frame b = frame s"
    using read2 [of s dst src pid] assms unfolding insert_commute [of src dst] by blast
  have "\<exists>s1 s2 s3. wr pid j (put j (get b i) b) = Inr s1
    \<and> rel pid i (if False then unpin j s1 else s1) = Inr s2 \<and> rel pid j s2 = Inr s3 \<and> inv s3
    \<and> vw s3 = v_brelse dst (v_brelse src (v_copy False src dst (vw b))) \<and> frame s3 = frame b"
    by (rule copy2) (use 1 assms clean [OF assms(1), of src] in \<open>auto simp: v_bread_def\<close>)
  moreover have "v_brelse dst (v_brelse src (v_copy False src dst (vw b))) = v_copy False src dst (vw s)"
    using assms unfolding 1(4)
    by (auto simp: v_brelse_def v_copy_def v_bread_def fun_eq_iff)
  ultimately show ?thesis using 1 unfolding if_False by metis
qed

end

interpretation bcache: buffer_cache "\<lambda>pid. bread pid dv" bwrite brelse bpin bunpin set_data
  "\<lambda>s i. b_data (bufs s i)" "bio_inv dv" "bview dv" "cached dv" bio.more for dv
proof (unfold_locales, goal_cases)
  case 1 then show ?case using bread_ok by blast
next
  case 2 then show ?case using bwrite_ok by blast
next
  case 3 then show ?case using brelse_ok by blast
next
  case 4 then show ?case using bpin_ok by blast
next
  case 5 then show ?case using bunpin_ok by blast
next
  case 6 then show ?case using set_data_ok by blast
next
  case 7 then show ?case using referenced_valid by metis
next
  case 8 then show ?case by (rule unreferenced_clean)
qed

subsection \<open>Properties\<close>

lemma bread_full:
  assumes inv: "bio_inv dv s" and c: "cached dv s b = None" and full: "\<forall>i<NBUF. b_refcnt (bufs s i) \<noteq> 0"
  shows "bread pid dv b s = panic ''bget''"
proof -
  have "scan (bprev s) (\<lambda>i. b_refcnt (bufs s i) = 0) (Suc NBUF) (bprev s NBUF) = None"
    using scan_free [OF inv] full by (auto split: option.splits)
  then show ?thesis by (simp add: bread_def bget_def scan_cached [OF inv] c)
qed

lemma referenced_slots:
  assumes "bio_inv dv s"
  shows "(\<lambda>b. the (cached dv s b)) ` {b. 0 < vrc (bview dv s) b} \<subseteq> {..<NBUF}"
    "inj_on (\<lambda>b. the (cached dv s b)) {b. 0 < vrc (bview dv s) b}"
    "0 < vrc (bview dv s) b \<Longrightarrow> \<exists>i. cached dv s b = Some i"
proof -
  show some: "\<exists>i. cached dv s c = Some i" if "0 < vrc (bview dv s) c" for c
    using that by (auto simp: bview_def split: option.splits)
  show "(\<lambda>b. the (cached dv s b)) ` {b. 0 < vrc (bview dv s) b} \<subseteq> {..<NBUF}"
  proof (rule image_subsetI)
    fix c assume "c \<in> {b. 0 < vrc (bview dv s) b}"
    then obtain i where "cached dv s c = Some i" using some by blast
    then show "the (cached dv s c) \<in> {..<NBUF}" using cached_SomeD by fastforce
  qed
  show "inj_on (\<lambda>b. the (cached dv s b)) {b. 0 < vrc (bview dv s) b}"
    using some cached_inj by (metis (mono_tags, lifting) inj_onI mem_Collect_eq option.sel)
qed

lemma card_referenced: "bio_inv dv s \<Longrightarrow> card {b. 0 < vrc (bview dv s) b} \<le> NBUF"
  using card_inj_on_le [OF referenced_slots(2,1)] by simp

lemma full_no_other:
  assumes inv: "bio_inv dv s" and full: "card {b. 0 < vrc (bview dv s) b} = NBUF"
    and b: "vrc (bview dv s) b = 0"
  shows "cached dv s b = None" "\<forall>i<NBUF. b_refcnt (bufs s i) \<noteq> 0"
proof -
  let ?R = "{b. 0 < vrc (bview dv s) b}" and ?f = "\<lambda>b. the (cached dv s b)"
  have surj: "?f ` ?R = {..<NBUF}"
    using full referenced_slots [OF inv] by (intro card_subset_eq) (simp_all add: card_image)
  have owner: "\<exists>c. cached dv s c = Some i \<and> 0 < vrc (bview dv s) c" if "i < NBUF" for i
  proof -
    have "i \<in> ?f ` ?R" using that surj by simp
    then obtain c where "i = the (cached dv s c)" "0 < vrc (bview dv s) c" by blast
    then show ?thesis using referenced_slots(3) [OF inv, of c] by auto
  qed
  show "\<forall>i<NBUF. b_refcnt (bufs s i) \<noteq> 0"
  proof (intro allI impI)
    fix i :: nat
    assume "i < NBUF"
    then obtain c where "cached dv s c = Some i" "0 < vrc (bview dv s) c" using owner by blast
    then show "b_refcnt (bufs s i) \<noteq> 0" by (auto simp: rc_buf)
  qed
  show "cached dv s b = None"
  proof (rule ccontr)
    assume "cached dv s b \<noteq> None"
    then obtain i where i: "cached dv s b = Some i" by auto
    obtain c where c: "cached dv s c = Some i" "0 < vrc (bview dv s) c"
      using owner [of i] cached_SomeD [OF i] by blast
    have "b = c" using i c(1) by (rule cached_inj)
    then show False using b c(2) by simp
  qed
qed

text \<open>
  C6: \<open>bread\<close> returns a locked buffer holding the current content of the block (the cached copy
  if there is one, else the disk's) exactly when some buffer can hold it; it panics exactly when
  the block has no buffer in use and all \<open>NBUF\<close> buffers are referenced. It never changes what any
  block contains, and blocks in use keep their buffers.
\<close>

theorem bread_correct:
  assumes "bio_inv dv s" and "vheld (bview dv s) b = None" and "Suc (vrc (bview dv s) b) < 2 ^ 32"
  shows "if vrc (bview dv s) b = 0 \<and> card {b. 0 < vrc (bview dv s) b} = NBUF
    then bread pid dv b s = panic ''bget''
    else \<exists>i s'. bread pid dv b s = Inr (i, s') \<and> bio_inv dv s'
      \<and> b_blockno (bufs s' i) = b \<and> holdingsleep pid (b_lock (bufs s' i))
      \<and> b_data (bufs s' i) = vlog (bview dv s) b \<and> bview dv s' = v_bread pid b (bview dv s)
      \<and> (\<forall>c. 0 < vrc (bview dv s) c \<longrightarrow> cached dv s' c = cached dv s c)"
proof (cases "vrc (bview dv s) b = 0 \<and> card {b. 0 < vrc (bview dv s) b} = NBUF")
  case True
  then have "bread pid dv b s = panic ''bget''"
    using full_no_other [OF assms(1), of b] by (intro bread_full [OF assms(1)]) auto
  then show ?thesis using True by simp
next
  case False
  have "card {b. 0 < vrc (bview dv s) b} \<le> NBUF" using card_referenced [OF assms(1)] .
  then have "0 < vrc (bview dv s) b \<or> card {b. 0 < vrc (bview dv s) b} < NBUF"
    using False by linarith
  then obtain i s' where s': "bread pid dv b s = Inr (i, s')" "bio_inv dv s'"
    "bview dv s' = v_bread pid b (bview dv s)" "cached dv s' b = Some i"
    "\<forall>c. 0 < vrc (bview dv s) c \<longrightarrow> cached dv s' c = cached dv s c"
    "b_data (bufs s' i) = vlog (bview dv s) b" using bread_ok [OF assms] by blast
  moreover have "b_blockno (bufs s' i) = b" using cached_SomeD [OF s'(4)] by simp
  moreover have "vheld (bview dv s') b = Some pid" by (simp add: s'(3) v_bread_def)
  then have "holdingsleep pid (b_lock (bufs s' i))"
    using held_lock [OF s'(4)] by (simp add: holdingsleep_def)
  ultimately show ?thesis using False by auto
qed

lemma boot_inv:
  "bio_inv 1 (binit (boot_bio d))"
  "bview 1 (binit (boot_bio d)) =
     \<lparr>vlog = d, vdisk = d, vtrace = [], vrc = (\<lambda>_. 0), vheld = (\<lambda>_. None)\<rparr>"
  using binit_ok [of "boot_bio d" 1] by (simp_all add: boot_bio_def)

theorem bread_correct_witness:
  "\<exists>i s'. bread 3 1 45 (binit (boot_bio (\<lambda>b j. ucast b + of_nat j))) = Inr (i, s')
     \<and> b_data (bufs s' i) 2 = 47"
  using bread_correct [OF boot_inv(1), of "\<lambda>b j. ucast b + of_nat j" 45 3]
  by (auto simp: boot_inv(2) NBUF_def)

text \<open>
  C21: the linked list is a least-recently-used queue. When the list is \<open>xs\<close>, a miss recycles
  the unreferenced buffer nearest to the end of \<open>xs\<close>, and the release of the last reference to a
  buffer moves it to the front and keeps the order of the others.
\<close>

theorem lru_queue:
  assumes "dll (bnext s) (bprev s) xs" and "set xs = {..<NBUF}" and "bio_inv dv s"
  shows "(\<forall>pid b i s'. cached dv s b = None \<and> bget pid dv b s = Inr (i, s') \<longrightarrow>
      find (\<lambda>j. b_refcnt (bufs s j) = 0) (rev xs) = Some i \<and> dll (bnext s') (bprev s') xs)
    \<and> (\<forall>pid i s'. brelse pid i s = Inr s' \<and> i < NBUF \<longrightarrow>
      dll (bnext s') (bprev s') (if b_refcnt (bufs s i) = 1 then i # remove1 i xs else xs))"
proof (intro conjI allI impI; elim conjE)
  have len: "length xs < Suc NBUF"
    using assms(1,2) distinct_card [of xs] by (simp add: dll_def)
  fix pid b i s'
  assume "cached dv s b = None" "bget pid dv b s = Inr (i, s')"
  then show "find (\<lambda>j. b_refcnt (bufs s j) = 0) (rev xs) = Some i" "dll (bnext s') (bprev s') xs"
    using assms(1) scan_prev [OF assms(1) len, of "\<lambda>j. b_refcnt (bufs s j) = 0"]
    by (auto simp: bget_def scan_cached [OF assms(3)] res_simps upd_buf_def split: option.splits)
next
  fix pid i s'
  assume r: "brelse pid i s = Inr s'" and i: "i < NBUF"
  have "dll (bnext (upd_buf j f s)) (bprev (upd_buf j f s)) xs" for j f
    using assms(1) by (simp add: upd_buf_def)
  note move_front_dll [OF this, of i]
  moreover have "i \<in> set xs" using i assms(2) by simp
  ultimately show "dll (bnext s') (bprev s') (if b_refcnt (bufs s i) = 1 then i # remove1 i xs else xs)"
    using r assms(1) by (auto simp: brelse_def Let_def upd_buf_def split: if_splits)
qed

theorem lru_queue_witness:
  "\<exists>i s'. bget 3 1 45 (binit (boot_bio (\<lambda>_ _. 0))) = Inr (i, s') \<and> i = 0"
proof -
  let ?s = "binit (boot_bio (\<lambda>_ _. 0))"
  have d: "dll (bnext ?s) (bprev ?s) (rev [0..<NBUF])"
    and rc: "b_refcnt (bufs ?s j) = 0" for j
    using binit_list [of "boot_bio (\<lambda>_ _. 0)"] by (simp_all add: boot_bio_def)
  have "\<exists>i s'. bread 3 1 45 ?s = Inr (i, s')"
    using bread_ok [OF boot_inv(1), of "\<lambda>_ _. 0" 45 3] by (auto simp: boot_inv(2) NBUF_def)
  then obtain i s' where g: "bget 3 1 45 ?s = Inr (i, s')" by (auto simp: bread_def res_simps)
  have "cached 1 ?s 45 = None"
    using binit_list [of "boot_bio (\<lambda>_ _. 0)"] by (simp add: cached_None boot_bio_def)
  then have "find (\<lambda>j. b_refcnt (bufs ?s j) = 0) [0..<NBUF] = Some i"
    using lru_queue [OF d _ boot_inv(1)] g by (simp add: lessThan_atLeast0)
  then show ?thesis using g by (simp add: rc NBUF_def upt_conv_Cons)
qed

end
