(* ===== verification/Log.thy ===== *)
theory Log
  imports Bio
begin

text \<open>
  \<open>kernel/log.c\<close>: the redo log on top of the buffer cache. \<open>lstate\<close> extends the state of the
  cache by \<open>struct log\<close>; the header \<open>lh\<close> in memory is the list of its first \<open>n\<close> block numbers.
  Each operation runs from the state at which it got \<open>log.lock\<close>; a call that would sleep is
  \<open>Blocked\<close>. The crash theorem cuts the sequence of disk writes of a commit (or of a recovery)
  anywhere and starts the kernel again on what reached the disk.
\<close>

subsection \<open>State\<close>

definition BSIZE :: nat where [layout_simps]: "BSIZE = 1024"
definition MAXOPBLOCKS :: nat where [layout_simps]: "MAXOPBLOCKS = 10"
definition LOGBLOCKS :: nat where [layout_simps]: "LOGBLOCKS = MAXOPBLOCKS * 3"

record lstate = bio +
  log_start :: u32
  log_dev :: u32
  outstanding :: int
  committing :: bool
  lh :: "u32 list"

text \<open>\<open>struct logheader\<close> inside a disk block: \<open>n\<close> at offset 0, \<open>block[i]\<close> at \<open>4 + 4 * i\<close>.\<close>

fun put_blocks :: "nat \<Rightarrow> u32 list \<Rightarrow> block \<Rightarrow> block" where
  "put_blocks i [] d = d"
| "put_blocks i (b # bs) d = put_blocks (Suc i) bs (put32 d (4 + 4 * i) b)"

definition put_head :: "u32 list \<Rightarrow> block \<Rightarrow> block" where
  "put_head bs d = put_blocks 0 bs (put32 d 0 (of_nat (length bs)))"

definition get_head :: "block \<Rightarrow> u32 list" where
  "get_head d = map (\<lambda>i. get32 d (4 + 4 * i)) [0..<nat (sint (get32 d 0))]"

subsection \<open>Operations\<close>

definition read_head :: "int \<Rightarrow> 'a lstate_scheme \<Rightarrow> 'a lstate_scheme res" where
  "read_head pid s =
     bindR (bread pid (log_dev s) (log_start s) s) (\<lambda>(b, s).
       let bs = get_head (b_data (bufs s b)) in
       if LOGBLOCKS < length bs then Inl (Undefined ''log.lh.block'')
       else brelse pid b (s\<lparr>lh := bs\<rparr>))"

definition write_head :: "int \<Rightarrow> 'a lstate_scheme \<Rightarrow> 'a lstate_scheme res" where
  "write_head pid s =
     bindR (bread pid (log_dev s) (log_start s) s) (\<lambda>(b, s).
       bindR (bwrite pid b (set_data b (put_head (lh s) (b_data (bufs s b))) s)) (brelse pid b))"

definition install_one :: "int \<Rightarrow> bool \<Rightarrow> nat \<Rightarrow> u32 \<Rightarrow> 'a lstate_scheme \<Rightarrow> 'a lstate_scheme res" where
  "install_one pid recovering tail dst s =
     bindR (bread pid (log_dev s) (log_start s + of_nat tail + 1) s) (\<lambda>(lbuf, s).
     bindR (bread pid (log_dev s) dst s) (\<lambda>(dbuf, s).
     bindR (bwrite pid dbuf (set_data dbuf (b_data (bufs s lbuf)) s)) (\<lambda>s.
     bindR (brelse pid lbuf (if \<not> recovering then bunpin dbuf s else s)) (brelse pid dbuf))))"

fun install_loop :: "int \<Rightarrow> bool \<Rightarrow> nat \<Rightarrow> u32 list \<Rightarrow> 'a lstate_scheme \<Rightarrow> 'a lstate_scheme res" where
  "install_loop pid recovering tail [] s = Inr s"
| "install_loop pid recovering tail (d # ds) s =
     bindR (install_one pid recovering tail d s) (install_loop pid recovering (Suc tail) ds)"

definition install_trans :: "int \<Rightarrow> bool \<Rightarrow> 'a lstate_scheme \<Rightarrow> 'a lstate_scheme res" where
  "install_trans pid recovering s = install_loop pid recovering 0 (lh s) s"

definition recover_from_log :: "int \<Rightarrow> 'a lstate_scheme \<Rightarrow> 'a lstate_scheme res" where
  "recover_from_log pid s =
     bindR (read_head pid s) (\<lambda>s.
     bindR (install_trans pid True s) (\<lambda>s. write_head pid (s\<lparr>lh := []\<rparr>)))"

definition initlog :: "int \<Rightarrow> u32 \<Rightarrow> u32 \<Rightarrow> 'a lstate_scheme \<Rightarrow> 'a lstate_scheme res" where
  "initlog pid dev logstart s =
     (if BSIZE \<le> 4 + 4 * LOGBLOCKS then panic ''initlog: too big logheader''
      else recover_from_log pid (s\<lparr>log_start := logstart, log_dev := dev\<rparr>))"

definition begin_op :: "'a lstate_scheme \<Rightarrow> 'a lstate_scheme res" where
  "begin_op s =
     (if committing s then Inl (Blocked ''log'')
      else if int (length (lh s)) + (outstanding s + 1) * int MAXOPBLOCKS > int LOGBLOCKS
      then Inl (Blocked ''log'')
      else Inr (s\<lparr>outstanding := outstanding s + 1\<rparr>))"

definition write_one :: "int \<Rightarrow> nat \<Rightarrow> u32 \<Rightarrow> 'a lstate_scheme \<Rightarrow> 'a lstate_scheme res" where
  "write_one pid tail blockno s =
     bindR (bread pid (log_dev s) (log_start s + of_nat tail + 1) s) (\<lambda>(t, s).
     bindR (bread pid (log_dev s) blockno s) (\<lambda>(f, s).
     bindR (bwrite pid t (set_data t (b_data (bufs s f)) s)) (\<lambda>s.
     bindR (brelse pid f s) (brelse pid t))))"

fun write_loop :: "int \<Rightarrow> nat \<Rightarrow> u32 list \<Rightarrow> 'a lstate_scheme \<Rightarrow> 'a lstate_scheme res" where
  "write_loop pid tail [] s = Inr s"
| "write_loop pid tail (d # ds) s = bindR (write_one pid tail d s) (write_loop pid (Suc tail) ds)"

definition write_log :: "int \<Rightarrow> 'a lstate_scheme \<Rightarrow> 'a lstate_scheme res" where
  "write_log pid s = write_loop pid 0 (lh s) s"

definition commit :: "int \<Rightarrow> 'a lstate_scheme \<Rightarrow> 'a lstate_scheme res" where
  "commit pid s =
     (if 0 < length (lh s)
      then bindR (write_log pid s) (\<lambda>s.
           bindR (write_head pid s) (\<lambda>s.
           bindR (install_trans pid False s) (\<lambda>s. write_head pid (s\<lparr>lh := []\<rparr>))))
      else Inr s)"

definition end_op :: "int \<Rightarrow> 'a lstate_scheme \<Rightarrow> 'a lstate_scheme res" where
  "end_op pid s =
     (let s1 = s\<lparr>outstanding := outstanding s - 1\<rparr> in
      if committing s1 then panic ''log.committing''
      else if outstanding s1 = 0
      then bindR (commit pid (s1\<lparr>committing := True\<rparr>)) (\<lambda>s. Inr (s\<lparr>committing := False\<rparr>))
      else Inr s1)"

definition log_write :: "nat \<Rightarrow> 'a lstate_scheme \<Rightarrow> 'a lstate_scheme res" where
  "log_write b s =
     (if LOGBLOCKS \<le> length (lh s) then panic ''too big a transaction''
      else if outstanding s < 1 then panic ''log_write outside of trans''
      else if b_blockno (bufs s b) \<in> set (lh s) then Inr s
      else Inr ((bpin b s)\<lparr>lh := lh s @ [b_blockno (bufs s b)]\<rparr>))"

subsection \<open>The header block\<close>

lemma put_blocks_other: "b + 4 \<le> 4 + 4 * i \<Longrightarrow> get32 (put_blocks i bs d) b = get32 d b"
  by (induction i bs d rule: put_blocks.induct) (simp_all add: get32_put32_other)

lemma get_put_blocks: "j < length bs \<Longrightarrow> get32 (put_blocks i bs d) (4 + 4 * (i + j)) = bs ! j"
proof (induction i bs d arbitrary: j rule: put_blocks.induct)
  case (2 i b bs d)
  show ?case
  proof (cases j)
    case 0
    then show ?thesis by (simp add: put_blocks_other)
  next
    case (Suc m)
    then show ?thesis using "2.IH" [of m] "2.prems" by simp
  qed
qed simp

lemma get_head_put_head:
  assumes "length bs \<le> LOGBLOCKS" shows "get_head (put_head bs d) = bs"
proof -
  have n: "sint (of_nat (length bs) :: u32) = int (length bs)"
    using assms by (simp add: layout_simps signed_of_nat signed_take_bit_int_eq_self)
  have "get32 (put_head bs d) 0 = of_nat (length bs)"
    by (simp add: put_head_def put_blocks_other)
  then show ?thesis
    using get_put_blocks [of _ bs 0]
    by (intro nth_equalityI) (simp_all add: get_head_def put_head_def n)
qed

lemma get_head_cleared [simp]: "get_head (put_head [] d) = []"
  by (simp add: get_head_put_head)

subsection \<open>Sequences of disk writes\<close>

definition apply_writes :: "(u32 \<times> block) list \<Rightarrow> (u32 \<Rightarrow> block) \<Rightarrow> (u32 \<Rightarrow> block)" where
  "apply_writes ws d = foldl (\<lambda>d (b, x). d(b := x)) d ws"

lemma apply_writes_simps [simp]:
  "apply_writes [] d = d"
  "apply_writes ((b, x) # ws) d = apply_writes ws (d(b := x))"
  "apply_writes (vs @ ws) d = apply_writes ws (apply_writes vs d)"
  by (simp_all add: apply_writes_def)

lemma apply_writes_map_of:
  "apply_writes ws d b = (case map_of (rev ws) b of None \<Rightarrow> d b | Some x \<Rightarrow> x)"
  by (induction ws rule: rev_induct) auto

lemma apply_writes_other: "b \<notin> fst ` set ws \<Longrightarrow> apply_writes ws d b = d b"
  by (induction ws arbitrary: d) (auto simp: split_beta)

lemma apply_writes_const:
  "(\<And>x. (b, x) \<in> set ws \<Longrightarrow> x = y) \<Longrightarrow> b \<in> fst ` set ws \<Longrightarrow> apply_writes ws d b = y"
  by (induction ws rule: rev_induct) (auto simp: rev_image_eqI)

definition lblk :: "u32 \<Rightarrow> nat \<Rightarrow> u32" where "lblk st i = st + of_nat i + 1"

definition log_region :: "u32 \<Rightarrow> u32 set" where
  "log_region st = insert st (lblk st ` {..<LOGBLOCKS})"

definition log_fits :: "u32 \<Rightarrow> bool" where "log_fits st \<longleftrightarrow> unat st + LOGBLOCKS < 2 ^ 32"

lemma unat_lblk:
  assumes "log_fits st" "i < LOGBLOCKS" shows "unat (lblk st i) = unat st + i + 1"
proof -
  have "lblk st i = of_nat (unat st + i + 1)" by (simp add: lblk_def)
  also have "unat \<dots> = unat st + i + 1"
    using assms by (intro unat_of_nat_small) (simp add: log_fits_def)
  finally show ?thesis .
qed

lemma lblk_neq_start: "log_fits st \<Longrightarrow> i < LOGBLOCKS \<Longrightarrow> lblk st i \<noteq> st"
  using unat_lblk by fastforce

lemma lblk_inj: "log_fits st \<Longrightarrow> i < LOGBLOCKS \<Longrightarrow> j < LOGBLOCKS \<Longrightarrow> lblk st i = lblk st j \<longleftrightarrow> i = j"
  using unat_lblk by (metis add_right_cancel add_left_cancel)

text \<open>The writes of \<open>write_log\<close> and of \<open>install_trans\<close> from position \<open>t\<close> on.\<close>

definition log_writes :: "u32 \<Rightarrow> nat \<Rightarrow> u32 list \<Rightarrow> (u32 \<Rightarrow> block) \<Rightarrow> (u32 \<times> block) list" where
  "log_writes st t ds L = map (\<lambda>(i, d). (lblk st i, L d)) (enumerate t ds)"

definition home_writes :: "u32 \<Rightarrow> nat \<Rightarrow> u32 list \<Rightarrow> (u32 \<Rightarrow> block) \<Rightarrow> (u32 \<times> block) list" where
  "home_writes st t ds L = map (\<lambda>(i, d). (d, L (lblk st i))) (enumerate t ds)"

lemma log_writes_simps [simp]:
  "log_writes st t [] L = []"
  "log_writes st t (d # ds) L = (lblk st t, L d) # log_writes st (Suc t) ds L"
  "length (log_writes st t ds L) = length ds"
  by (simp_all add: log_writes_def)

lemma home_writes_simps [simp]:
  "home_writes st t [] L = []"
  "home_writes st t (d # ds) L = (d, L (lblk st t)) # home_writes st (Suc t) ds L"
  "length (home_writes st t ds L) = length ds"
  by (simp_all add: home_writes_def)

lemma fst_log_writes: "fst ` set (log_writes st t ds L) = lblk st ` {t..<t + length ds}"
proof -
  have "map fst (log_writes st t ds L) = map (lblk st) [t..<t + length ds]"
    by (induction ds arbitrary: t) (simp_all add: upt_conv_Cons del: upt_Suc)
  then show ?thesis by (metis list.set_map set_upt)
qed

lemma fst_home_writes: "fst ` set (home_writes st t ds L) = set ds"
  by (induction ds arbitrary: t) auto

lemma log_writes_cong: "(\<And>d. d \<in> set ds \<Longrightarrow> L d = M d) \<Longrightarrow> log_writes st t ds L = log_writes st t ds M"
  by (induction ds arbitrary: t) auto

lemma home_writes_cong:
  "(\<And>i. t \<le> i \<Longrightarrow> i < t + length ds \<Longrightarrow> L (lblk st i) = M (lblk st i)) \<Longrightarrow>
   home_writes st t ds L = home_writes st t ds M"
  by (induction ds arbitrary: t) auto

subsection \<open>The operations on the view\<close>

lemma log_bview_cong:
  assumes "bufs s = bufs t" "disk s = disk t" "dtrace s = dtrace t"
  shows "bview dv s = bview dv t"
  unfolding bview_def cached_def assms ..

lemma bio_inv_cong:
  assumes "bufs s = bufs t" "disk s = disk t" "bnext s = bnext t" "bprev s = bprev t"
  shows "bio_inv dv s = bio_inv dv t"
  unfolding bio_inv_def assms ..

lemma more_fields:
  fixes s t :: "'a lstate_scheme"
  assumes "bio.more s = bio.more t"
  shows "log_start s = log_start t \<and> log_dev s = log_dev t \<and> outstanding s = outstanding t
    \<and> committing s = committing t \<and> lh s = lh t \<and> lstate.more s = lstate.more t"
  using assms by (cases s; cases t) simp

lemma log_fields_frame [simp]:
  "bio_inv dv (s\<lparr>lh := x\<rparr>) = bio_inv dv s" "bview dv (s\<lparr>lh := x\<rparr>) = bview dv s"
  "bio_inv dv (s\<lparr>outstanding := n\<rparr>) = bio_inv dv s" "bview dv (s\<lparr>outstanding := n\<rparr>) = bview dv s"
  "bio_inv dv (s\<lparr>committing := c\<rparr>) = bio_inv dv s" "bview dv (s\<lparr>committing := c\<rparr>) = bview dv s"
  "bio_inv dv (s\<lparr>log_start := st, log_dev := d\<rparr>) = bio_inv dv s"
  "bview dv (s\<lparr>log_start := st, log_dev := d\<rparr>) = bview dv s"
  by (rule bio_inv_cong log_bview_cong; simp)+

lemma write_one_ok:
  assumes "bio_inv (log_dev s) s" "vheld (bview (log_dev s) s) = (\<lambda>_. None)"
    and "\<And>b. vrc (bview (log_dev s) s) b \<le> 1"
    and "d \<noteq> lblk (log_start s) t" "room (bview (log_dev s) s) {d, lblk (log_start s) t}"
  shows "\<exists>s'. write_one pid t d s = Inr s' \<and> bio_inv (log_dev s) s' \<and> bio.more s' = bio.more s
    \<and> bview (log_dev s) s' = v_copy False d (lblk (log_start s) t) (bview (log_dev s) s)"
proof -
  let ?l = "lblk (log_start s) t"
  obtain i a j b s1 s2 s3 where c: "bread pid (log_dev s) ?l s = Inr (j, a)"
    "bread pid (log_dev s) d a = Inr (i, b)" "bwrite pid j (set_data j (b_data (bufs b i)) b) = Inr s1"
    "brelse pid i s1 = Inr s2" "brelse pid j s2 = Inr s3" "bio_inv (log_dev s) s3"
    "bview (log_dev s) s3 = v_copy False d ?l (bview (log_dev s) s)"
    "bio.more a = bio.more s" "bio.more s3 = bio.more s"
    using bcache.copy_dst_first [of "log_dev s" s d ?l pid] assms by auto
  then have "write_one pid t d s = Inr s3"
    using more_fields [OF c(8)] by (simp add: write_one_def lblk_def)
  then show ?thesis using c by blast
qed

lemma install_one_ok:
  assumes "bio_inv (log_dev s) s" "vheld (bview (log_dev s) s) = (\<lambda>_. None)"
    and "\<And>b. vrc (bview (log_dev s) s) b \<le> 1"
    and "d \<noteq> lblk (log_start s) t" "room (bview (log_dev s) s) {d, lblk (log_start s) t}"
    and "\<not> recovering \<longrightarrow> 0 < vrc (bview (log_dev s) s) d"
  shows "\<exists>s'. install_one pid recovering t d s = Inr s' \<and> bio_inv (log_dev s) s' \<and> bio.more s' = bio.more s
    \<and> bview (log_dev s) s' = v_copy (\<not> recovering) (lblk (log_start s) t) d (bview (log_dev s) s)"
proof -
  let ?l = "lblk (log_start s) t" and ?v = "bview (log_dev s) s"
  have pre: "?l \<noteq> d" "vheld ?v ?l = None" "vheld ?v d = None" "vrc ?v ?l \<le> 1" "vrc ?v d \<le> 1"
    "room ?v {?l, d}" using assms by (simp_all add: insert_commute)
  obtain i a j b s1 s2 s3 where c: "bread pid (log_dev s) ?l s = Inr (i, a)"
    "bread pid (log_dev s) d a = Inr (j, b)" "bwrite pid j (set_data j (b_data (bufs b i)) b) = Inr s1"
    "brelse pid i (if \<not> recovering then bunpin j s1 else s1) = Inr s2" "brelse pid j s2 = Inr s3"
    "bio_inv (log_dev s) s3"
    "bview (log_dev s) s3 = v_copy (\<not> recovering) ?l d (bview (log_dev s) s)"
    "bio.more a = bio.more s" "bio.more s3 = bio.more s"
    using bcache.copy_src_first [of "log_dev s" s ?l d "\<not> recovering" pid, OF assms(1) pre assms(6)]
    by blast
  then have "install_one pid recovering t d s = Inr s3"
    using more_fields [OF c(8)] by (simp add: install_one_def lblk_def)
  then show ?thesis using c by blast
qed

lemma write_loop_ok:
  assumes "bio_inv (log_dev s) s" "vheld (bview (log_dev s) s) = (\<lambda>_. None)"
    and "vrc (bview (log_dev s) s) = (\<lambda>b. if b \<in> set ps then 1 else 0)" "card (set ps) < NBUF"
    and "set ds \<subseteq> set ps" "set ps \<inter> log_region (log_start s) = {}" "t + length ds \<le> LOGBLOCKS"
  shows "\<exists>s'. write_loop pid t ds s = Inr s' \<and> bio_inv (log_dev s) s' \<and> bio.more s' = bio.more s
    \<and> bview (log_dev s) s' = (let v = bview (log_dev s) s; ws = log_writes (log_start s) t ds (vlog v) in
        v\<lparr>vlog := apply_writes ws (vlog v), vdisk := apply_writes ws (vdisk v), vtrace := vtrace v @ ws\<rparr>)"
  using assms
proof (induction ds arbitrary: t s)
  case (Cons d ds)
  let ?st = "log_start s" and ?v = "bview (log_dev s) s"
  let ?l = "lblk ?st t"
  have t: "t < LOGBLOCKS" using Cons.prems(7) by simp
  then have "?l \<in> log_region ?st" by (simp add: log_region_def)
  then have l: "?l \<notin> set ps" using Cons.prems(6) by blast
  have "{b. 0 < vrc ?v b} \<union> {d, ?l} = insert ?l (set ps)" using Cons.prems(3,5) by auto
  then have "room ?v {d, ?l}" using Cons.prems(4) l by (simp add: room_def)
  moreover have "vrc ?v b \<le> 1" for b by (simp add: Cons.prems(3))
  moreover have "d \<noteq> ?l" using l Cons.prems(5) by auto
  ultimately obtain s1 where s1: "write_one pid t d s = Inr s1" "bio_inv (log_dev s) s1"
    "bio.more s1 = bio.more s" "bview (log_dev s) s1 = v_copy False d ?l ?v"
    using write_one_ok [OF Cons.prems(1,2)] by blast
  have same: "log_dev s1 = log_dev s" "log_start s1 = ?st" using more_fields [OF s1(3)] by auto
  have "\<exists>s'. write_loop pid (Suc t) ds s1 = Inr s' \<and> bio_inv (log_dev s1) s' \<and> bio.more s' = bio.more s1
    \<and> bview (log_dev s1) s' = (let v = bview (log_dev s1) s1; ws = log_writes (log_start s1) (Suc t) ds (vlog v) in
        v\<lparr>vlog := apply_writes ws (vlog v), vdisk := apply_writes ws (vdisk v), vtrace := vtrace v @ ws\<rparr>)"
    by (rule Cons.IH) (unfold same s1(4), use s1(2) Cons.prems in \<open>auto simp: v_copy_def\<close>)
  moreover have "log_writes ?st (Suc t) ds ((vlog ?v)(?l := vlog ?v d)) = log_writes ?st (Suc t) ds (vlog ?v)"
    by (rule log_writes_cong) (use l Cons.prems(5) in auto)
  ultimately show ?case
    unfolding same s1(3,4) Let_def v_copy_def by (simp add: s1(1))
qed (simp add: Let_def)

lemma install_loop_ok:
  assumes "bio_inv (log_dev s) s" "vheld (bview (log_dev s) s) = (\<lambda>_. None)"
    and "vrc (bview (log_dev s) s) = (\<lambda>b. if \<not> recovering \<and> b \<in> set ds then 1 else 0)"
    and "\<not> recovering \<longrightarrow> distinct ds \<and> length ds < NBUF"
    and "set ds \<inter> log_region (log_start s) = {}" "t + length ds \<le> LOGBLOCKS"
  shows "\<exists>s'. install_loop pid recovering t ds s = Inr s' \<and> bio_inv (log_dev s) s'
    \<and> bio.more s' = bio.more s
    \<and> bview (log_dev s) s' = (let v = bview (log_dev s) s; ws = home_writes (log_start s) t ds (vlog v) in
        v\<lparr>vlog := apply_writes ws (vlog v), vdisk := apply_writes ws (vdisk v), vtrace := vtrace v @ ws,
          vrc := (\<lambda>_. 0)\<rparr>)"
  using assms
proof (induction ds arbitrary: t s)
  case Nil
  then show ?case by (simp add: Let_def)
next
  case (Cons d ds)
  let ?st = "log_start s" and ?v = "bview (log_dev s) s"
  let ?l = "lblk ?st t"
  have "?l \<in> log_region ?st" using Cons.prems(6) by (simp add: log_region_def)
  then have l: "?l \<notin> set (d # ds)" using Cons.prems(5) by blast
  have "{b. 0 < vrc ?v b} \<union> {d, ?l} = (if recovering then {d, ?l} else insert ?l (set (d # ds)))"
    using Cons.prems(3) by auto
  moreover have "card (insert ?l (set (d # ds))) \<le> NBUF" if "\<not> recovering"
    using that Cons.prems(4) l by (simp add: card_insert_if distinct_card)
  ultimately have "room ?v {d, ?l}" by (auto simp: room_def NBUF_def card_insert_if)
  moreover have "vrc ?v b \<le> 1" for b by (simp add: Cons.prems(3))
  moreover have "\<not> recovering \<longrightarrow> 0 < vrc ?v d" by (simp add: Cons.prems(3))
  moreover have "d \<noteq> ?l" using l by auto
  ultimately obtain s1 where s1: "install_one pid recovering t d s = Inr s1" "bio_inv (log_dev s) s1"
    "bio.more s1 = bio.more s" "bview (log_dev s) s1 = v_copy (\<not> recovering) ?l d ?v"
    using install_one_ok [OF Cons.prems(1,2)] by blast
  have same: "log_dev s1 = log_dev s" "log_start s1 = ?st" using more_fields [OF s1(3)] by auto
  have rc: "vrc (v_copy (\<not> recovering) ?l d ?v) = (\<lambda>b. if \<not> recovering \<and> b \<in> set ds then 1 else 0)"
    using Cons.prems(3,4) by (auto simp: v_copy_def fun_eq_iff)
  have "\<exists>s'. install_loop pid recovering (Suc t) ds s1 = Inr s' \<and> bio_inv (log_dev s1) s'
    \<and> bio.more s' = bio.more s1
    \<and> bview (log_dev s1) s' = (let v = bview (log_dev s1) s1; ws = home_writes (log_start s1) (Suc t) ds (vlog v) in
        v\<lparr>vlog := apply_writes ws (vlog v), vdisk := apply_writes ws (vdisk v), vtrace := vtrace v @ ws,
          vrc := (\<lambda>_. 0)\<rparr>)"
    by (rule Cons.IH) (unfold same s1(4) rc, use s1(2) Cons.prems in \<open>auto simp: v_copy_def\<close>)
  moreover have "home_writes ?st (Suc t) ds ((vlog ?v)(d := vlog ?v ?l)) = home_writes ?st (Suc t) ds (vlog ?v)"
  proof (rule home_writes_cong)
    fix i assume "i < Suc t + length ds"
    then have "lblk ?st i \<in> log_region ?st" using Cons.prems(6) by (simp add: log_region_def)
    then show "((vlog ?v)(d := vlog ?v ?l)) (lblk ?st i) = vlog ?v (lblk ?st i)"
      using Cons.prems(5) by auto
  qed
  ultimately show ?case
    unfolding same s1(3,4) Let_def v_copy_def by (simp add: s1(1))
qed

text \<open>A state in which no buffer is held and exactly the blocks \<open>ps\<close> are pinned, once each.\<close>

definition quiet :: "u32 list \<Rightarrow> 'a lstate_scheme \<Rightarrow> bool" where
  "quiet ps s \<longleftrightarrow> bio_inv (log_dev s) s \<and> vheld (bview (log_dev s) s) = (\<lambda>_. None)
     \<and> vrc (bview (log_dev s) s) = (\<lambda>b. if b \<in> set ps then 1 else 0)"

lemma quiet_clean:
  "quiet ps s \<Longrightarrow> b \<notin> set ps \<Longrightarrow> vlog (bview (log_dev s) s) b = disk s b"
  using unreferenced_clean [of "log_dev s" s b] by (simp add: quiet_def)

lemma quiet_room:
  assumes "quiet ps s" "card (set ps) < NBUF" shows "room (bview (log_dev s) s) {b}"
proof -
  have "{b. 0 < vrc (bview (log_dev s) s) b} \<union> {b} = insert b (set ps)"
    using assms(1) by (auto simp: quiet_def)
  then show ?thesis using assms(2) by (simp add: room_def card_insert_if)
qed

lemma write_head_ok:
  assumes "quiet ps s" "card (set ps) < NBUF"
  shows "\<exists>s'. write_head pid s = Inr s' \<and> quiet ps s' \<and> bio.more s' = bio.more s
    \<and> bview (log_dev s) s' = (let v = bview (log_dev s) s; d = put_head (lh s) (vlog v (log_start s)) in
        v\<lparr>vlog := (vlog v)(log_start s := d), vdisk := (vdisk v)(log_start s := d),
          vtrace := vtrace v @ [(log_start s, d)]\<rparr>)"
proof -
  let ?v = "bview (log_dev s) s" and ?st = "log_start s"
  have pre: "bio_inv (log_dev s) s" "vheld ?v ?st = None" "vrc ?v ?st \<le> 1" "room ?v {?st}"
    using assms quiet_room by (auto simp: quiet_def)
  obtain i s1 s2 s3 where c: "bread pid (log_dev s) ?st s = Inr (i, s1)" "b_data (bufs s1 i) = vlog ?v ?st"
    "bio.more s1 = bio.more s" "bwrite pid i (set_data i (put_head (lh s) (vlog ?v ?st)) s1) = Inr s2"
    "brelse pid i s2 = Inr s3" "bio_inv (log_dev s) s3" "bio.more s3 = bio.more s"
    "bview (log_dev s) s3 = ?v\<lparr>vlog := (vlog ?v)(?st := put_head (lh s) (vlog ?v ?st)),
       vdisk := (vdisk ?v)(?st := put_head (lh s) (vlog ?v ?st)),
       vtrace := vtrace ?v @ [(?st, put_head (lh s) (vlog ?v ?st))]\<rparr>"
    using bcache.rewrite [OF pre, of pid "put_head (lh s) (vlog ?v ?st)"] by blast
  have "write_head pid s = Inr s3"
    using c more_fields [OF c(3)] by (simp add: write_head_def)
  moreover have "quiet ps s3"
    using c(6,8) more_fields [OF c(7)] assms(1) by (simp add: quiet_def)
  ultimately show ?thesis using c by (auto simp: Let_def)
qed

lemma read_head_ok:
  assumes "quiet [] s" "length (get_head (vlog (bview (log_dev s) s) (log_start s))) \<le> LOGBLOCKS"
  shows "\<exists>s'. read_head pid s = Inr s' \<and> quiet [] s' \<and> bview (log_dev s) s' = bview (log_dev s) s
    \<and> bio.more s' = bio.more (s\<lparr>lh := get_head (vlog (bview (log_dev s) s) (log_start s))\<rparr>)"
proof -
  let ?v = "bview (log_dev s) s" and ?st = "log_start s"
  have pre: "bio_inv (log_dev s) s" "vheld ?v ?st = None" "vrc ?v ?st \<le> 1" "room ?v {?st}"
    using assms quiet_room [of "[]"] by (auto simp: quiet_def NBUF_def)
  obtain i s1 where 1: "bread pid (log_dev s) ?st s = Inr (i, s1)" "bio_inv (log_dev s) s1"
    "bview (log_dev s) s1 = v_bread pid ?st ?v" "cached (log_dev s) s1 ?st = Some i"
    "bio.more s1 = bio.more s" using bcache.rd_room [OF pre, of pid] by blast
  let ?h = "get_head (vlog ?v ?st)"
  have g: "b_data (bufs s1 i) = vlog ?v ?st"
    using bcache.get [OF 1(2,4)] 1(3) by (simp add: v_bread_def)
  have fr: "cached (log_dev s) (s1\<lparr>lh := ?h\<rparr>) = cached (log_dev s) s1"
    by (simp add: cached_def fun_eq_iff)
  have "\<exists>s2. brelse pid i (s1\<lparr>lh := ?h\<rparr>) = Inr s2 \<and> bio_inv (log_dev s) s2
      \<and> bview (log_dev s) s2 = v_brelse ?st (bview (log_dev s) (s1\<lparr>lh := ?h\<rparr>))
      \<and> cached (log_dev s) s2 = cached (log_dev s) (s1\<lparr>lh := ?h\<rparr>)
      \<and> bio.more s2 = bio.more (s1\<lparr>lh := ?h\<rparr>)"
    by (rule bcache.rel)
      (unfold fr, use 1 pre quiet_clean [OF assms(1), of ?st] in \<open>auto simp: v_bread_def\<close>)
  then obtain s2 where 2: "brelse pid i (s1\<lparr>lh := ?h\<rparr>) = Inr s2" "bio_inv (log_dev s) s2"
    "bview (log_dev s) s2 = v_brelse ?st (v_bread pid ?st ?v)"
    "bio.more s2 = bio.more (s1\<lparr>lh := ?h\<rparr>)" using 1(3) by auto
  have v: "v_brelse ?st (v_bread pid ?st ?v) = ?v"
    using pre(2) by (simp add: v_bread_def v_brelse_def fun_upd_idem)
  have m: "bio.more s2 = bio.more (s\<lparr>lh := ?h\<rparr>)"
    using 2(4) more_fields [OF 1(5)] by (cases s; cases s1) simp
  moreover have "read_head pid s = Inr s2"
    using 1 2(1) g assms(2) by (simp add: read_head_def Let_def)
  moreover have "quiet [] s2"
    using 2 v more_fields [OF m] assms(1) by (simp add: quiet_def)
  ultimately show ?thesis using 2(3) v by metis
qed

subsection \<open>Commit and recovery\<close>

definition log_inv :: "'a lstate_scheme \<Rightarrow> bool" where
  "log_inv s \<longleftrightarrow> quiet (lh s) s \<and> distinct (lh s) \<and> length (lh s) \<le> LOGBLOCKS
     \<and> log_fits (log_start s) \<and> set (lh s) \<inter> log_region (log_start s) = {}
     \<and> get_head (disk s (log_start s)) = []"

definition commit_writes :: "u32 \<Rightarrow> u32 list \<Rightarrow> (u32 \<Rightarrow> block) \<Rightarrow> (u32 \<times> block) list" where
  "commit_writes st hs L = log_writes st 0 hs L @ (st, put_head hs (L st)) # map (\<lambda>d. (d, L d)) hs
     @ [(st, put_head [] (put_head hs (L st)))]"

definition recovery_writes :: "u32 \<Rightarrow> (u32 \<Rightarrow> block) \<Rightarrow> (u32 \<times> block) list" where
  "recovery_writes st D = home_writes st 0 (get_head (D st)) D @ [(st, put_head [] (D st))]"

lemma start_in_region [simp]: "st \<in> log_region st"
  by (simp add: log_region_def)

lemma lblk_in_region [simp]: "i < LOGBLOCKS \<Longrightarrow> lblk st i \<in> log_region st"
  by (simp add: log_region_def)

lemma logged_block:
  assumes "log_fits st" "length hs \<le> LOGBLOCKS" "i < length hs"
  shows "apply_writes (log_writes st 0 hs L) D (lblk st i) = L (hs ! i)"
proof (rule apply_writes_const)
  show "lblk st i \<in> fst ` set (log_writes st 0 hs L)" using assms(3) by (auto simp: fst_log_writes)
  show "x = L (hs ! i)" if w: "(lblk st i, x) \<in> set (log_writes st 0 hs L)" for x
  proof -
    obtain j where "j < length hs" "lblk st i = lblk st j" "x = L (hs ! j)"
      using w by (auto simp: log_writes_def in_set_enumerate_eq)
    then show ?thesis using lblk_inj [OF assms(1), of i j] assms(2,3) by simp
  qed
qed

lemma log_writes_region:
  assumes "length hs \<le> LOGBLOCKS" "log_fits st" "b = st \<or> b \<notin> log_region st"
  shows "apply_writes (log_writes st 0 hs L) D b = D b"
proof (rule apply_writes_other)
  show "b \<notin> fst ` set (log_writes st 0 hs L)"
    using assms lblk_neq_start [of st] unfolding fst_log_writes
    by (auto simp: log_region_def)
qed

lemma home_writes_eq:
  assumes "\<And>i. i < length hs \<Longrightarrow> M (lblk st i) = L (hs ! i)"
  shows "home_writes st 0 hs M = map (\<lambda>d. (d, L d)) hs"
  by (rule nth_equalityI) (use assms in \<open>simp_all add: home_writes_def nth_enumerate_eq\<close>)

lemma apply_writes_map:
  "apply_writes (map (\<lambda>d. (d, L d)) hs) D b = (if b \<in> set hs then L b else D b)"
  by (induction hs arbitrary: D) auto

lemma install_after_log:
  assumes "log_fits st" "length hs \<le> LOGBLOCKS"
    and "\<And>i. i < LOGBLOCKS \<Longrightarrow> M (lblk st i) = apply_writes (log_writes st 0 hs L) D (lblk st i)"
  shows "home_writes st 0 hs M = map (\<lambda>d. (d, L d)) hs"
  by (rule home_writes_eq) (use assms logged_block [OF assms(1,2)] in auto)

lemma commit_ok:
  assumes inv: "log_inv s" and ne: "lh s \<noteq> []" and room: "length (lh s) < NBUF"
  shows "\<exists>s'. commit pid s = Inr s' \<and> quiet [] s' \<and> bio.more s' = bio.more (s\<lparr>lh := []\<rparr>)
    \<and> (let L = vlog (bview (log_dev s) s); ws = commit_writes (log_start s) (lh s) L in
       dtrace s' = dtrace s @ ws \<and> disk s' = apply_writes ws (disk s)
       \<and> vlog (bview (log_dev s) s') = apply_writes ws L)"
proof -
  let ?v = "bview (log_dev s) s" and ?st = "log_start s" and ?h = "lh s" and ?dv = "log_dev s"
  let ?L = "vlog ?v" and ?W = "log_writes ?st 0 ?h (vlog ?v)"
  have q: "bio_inv ?dv s" "vheld ?v = (\<lambda>_. None)" "vrc ?v = (\<lambda>b. if b \<in> set ?h then 1 else 0)"
    and len: "length ?h \<le> LOGBLOCKS" and fits: "log_fits ?st" and dis: "set ?h \<inter> log_region ?st = {}"
    and dist: "distinct ?h"
    using inv by (auto simp: log_inv_def quiet_def)
  have card: "card (set ?h) < NBUF" using room card_length le_less_trans by blast
  obtain s1 where 1: "write_loop pid 0 ?h s = Inr s1" "bio_inv ?dv s1" "bio.more s1 = bio.more s"
    "bview ?dv s1 = ?v\<lparr>vlog := apply_writes ?W ?L, vdisk := apply_writes ?W (vdisk ?v), vtrace := vtrace ?v @ ?W\<rparr>"
    using write_loop_ok [OF q card order_refl dis, of 0 pid] len by (auto simp: Let_def)
  note f1 = more_fields [OF 1(3)]
  have "quiet ?h s1" using 1 f1 q by (simp add: quiet_def)
  then obtain s2 where 2: "write_head pid s1 = Inr s2" "quiet ?h s2" "bio.more s2 = bio.more s"
    "bview ?dv s2 = (let v = bview ?dv s1; d = put_head ?h (vlog v ?st) in
       v\<lparr>vlog := (vlog v)(?st := d), vdisk := (vdisk v)(?st := d), vtrace := vtrace v @ [(?st, d)]\<rparr>)"
    using write_head_ok [of ?h s1 pid] card 1(3) f1 by auto
  note f2 = more_fields [OF 2(3)]
  then have e2: "log_dev s2 = ?dv" "log_start s2 = ?st" by simp_all
  let ?d = "put_head ?h (?L ?st)" and ?H = "map (\<lambda>d. (d, ?L d)) ?h"
  have v2: "bview ?dv s2 = ?v\<lparr>vlog := apply_writes (?W @ [(?st, ?d)]) ?L,
      vdisk := apply_writes (?W @ [(?st, ?d)]) (vdisk ?v), vtrace := vtrace ?v @ ?W @ [(?st, ?d)]\<rparr>"
    unfolding 2(4) 1(4) using log_writes_region [OF len fits, of ?st] by (simp add: Let_def)
  have rc2: "vrc (bview ?dv s2) = (\<lambda>b. if \<not> False \<and> b \<in> set ?h then 1 else 0)" unfolding v2 using q by simp
  have h2: "home_writes ?st 0 ?h (vlog (bview ?dv s2)) = ?H"
    unfolding v2 using lblk_neq_start [OF fits] by (intro install_after_log [OF fits len]) simp
  have "\<exists>s'. install_loop pid False 0 ?h s2 = Inr s' \<and> bio_inv (log_dev s2) s' \<and> bio.more s' = bio.more s2
    \<and> bview (log_dev s2) s' = (let v = bview (log_dev s2) s2; ws = home_writes (log_start s2) 0 ?h (vlog v) in
        v\<lparr>vlog := apply_writes ws (vlog v), vdisk := apply_writes ws (vdisk v), vtrace := vtrace v @ ws,
          vrc := (\<lambda>_. 0)\<rparr>)"
    by (rule install_loop_ok) (use 2(2) f2 rc2 dist room dis len in \<open>auto simp: quiet_def\<close>)
  then obtain s3 where 3: "install_loop pid False 0 ?h s2 = Inr s3" "bio_inv ?dv s3" "bio.more s3 = bio.more s"
    and b3: "bview ?dv s3 = (let v = bview ?dv s2 in v\<lparr>vlog := apply_writes ?H (vlog v),
        vdisk := apply_writes ?H (vdisk v), vtrace := vtrace v @ ?H, vrc := (\<lambda>_. 0)\<rparr>)"
    unfolding e2 2(3) Let_def h2 by blast
  have v3: "bview ?dv s3 = ?v\<lparr>vlog := apply_writes (?W @ (?st, ?d) # ?H) ?L,
      vdisk := apply_writes (?W @ (?st, ?d) # ?H) (vdisk ?v), vtrace := vtrace ?v @ ?W @ (?st, ?d) # ?H,
      vrc := (\<lambda>_. 0)\<rparr>"
    unfolding b3 Let_def v2 by simp
  note f3 = more_fields [OF 3(3)]
  let ?s3 = "s3\<lparr>lh := []\<rparr>"
  have "quiet [] ?s3" using 3 v3 f3 q by (simp add: quiet_def)
  then obtain s4 where 4: "write_head pid ?s3 = Inr s4" "quiet [] s4" "bio.more s4 = bio.more ?s3"
    "bview ?dv s4 = (let v = bview ?dv s3; d = put_head [] (vlog v ?st) in
       v\<lparr>vlog := (vlog v)(?st := d), vdisk := (vdisk v)(?st := d), vtrace := vtrace v @ [(?st, d)]\<rparr>)"
    using write_head_ok [of "[]" ?s3 pid] f3 by (auto simp: NBUF_def)
  have "commit pid s = Inr s4"
    using 1 2 3 4 f1 f2 f3 ne by (simp add: commit_def write_log_def install_trans_def)
  moreover have "?st \<notin> set ?h" using dis by auto
  then have "vlog (bview ?dv s3) ?st = ?d" unfolding v3 by (simp add: apply_writes_map)
  then have "bview ?dv s4 = ?v\<lparr>vlog := apply_writes (commit_writes ?st ?h ?L) ?L,
      vdisk := apply_writes (commit_writes ?st ?h ?L) (vdisk ?v),
      vtrace := vtrace ?v @ commit_writes ?st ?h ?L, vrc := (\<lambda>_. 0)\<rparr>"
    unfolding 4(4) v3 by (simp add: Let_def commit_writes_def)
  then have "vdisk (bview ?dv s4) = apply_writes (commit_writes ?st ?h ?L) (vdisk ?v)"
    "vtrace (bview ?dv s4) = vtrace ?v @ commit_writes ?st ?h ?L"
    "vlog (bview ?dv s4) = apply_writes (commit_writes ?st ?h ?L) ?L" by simp_all
  moreover have "bio.more s4 = bio.more (s\<lparr>lh := []\<rparr>)"
    using 4(3) f3 by (cases s; cases s3) simp
  ultimately show ?thesis using 4(2) by (auto simp: Let_def)
qed

text \<open>What recovery needs of a disk: a header that names at most \<open>LOGBLOCKS\<close> blocks outside the log.\<close>

definition recoverable :: "u32 \<Rightarrow> (u32 \<Rightarrow> block) \<Rightarrow> bool" where
  "recoverable st D \<longleftrightarrow> log_fits st \<and> length (get_head (D st)) \<le> LOGBLOCKS
     \<and> set (get_head (D st)) \<inter> log_region st = {}"

lemma recover_ok:
  assumes q: "quiet [] s" and rec: "recoverable (log_start s) (disk s)"
  shows "\<exists>s'. recover_from_log pid s = Inr s' \<and> quiet [] s' \<and> bio.more s' = bio.more (s\<lparr>lh := []\<rparr>)
    \<and> dtrace s' = dtrace s @ recovery_writes (log_start s) (disk s)
    \<and> disk s' = apply_writes (recovery_writes (log_start s) (disk s)) (disk s)"
proof -
  let ?dv = "log_dev s" and ?st = "log_start s" and ?D = "disk s" and ?v = "bview (log_dev s) s"
  let ?h = "get_head (?D ?st)"
  have L: "vlog ?v = ?D" using quiet_clean [OF q] by (simp add: fun_eq_iff)
  obtain s1 where 1: "read_head pid s = Inr s1" "quiet [] s1" "bview ?dv s1 = ?v"
    "bio.more s1 = bio.more (s\<lparr>lh := ?h\<rparr>)"
    using read_head_ok [OF q, of pid] rec unfolding L by (auto simp: recoverable_def)
  have e1: "log_dev s1 = ?dv" "log_start s1 = ?st" "lh s1 = ?h" using more_fields [OF 1(4)] by simp_all
  let ?H = "home_writes ?st 0 ?h ?D"
  have "\<exists>s'. install_loop pid True 0 ?h s1 = Inr s' \<and> bio_inv (log_dev s1) s' \<and> bio.more s' = bio.more s1
    \<and> bview (log_dev s1) s' = (let v = bview (log_dev s1) s1; ws = home_writes (log_start s1) 0 ?h (vlog v) in
        v\<lparr>vlog := apply_writes ws (vlog v), vdisk := apply_writes ws (vdisk v), vtrace := vtrace v @ ws,
          vrc := (\<lambda>_. 0)\<rparr>)"
    by (rule install_loop_ok) (use 1(2) e1 rec in \<open>auto simp: quiet_def recoverable_def\<close>)
  then obtain s2 where 2: "install_loop pid True 0 ?h s1 = Inr s2" "bio_inv ?dv s2" "bio.more s2 = bio.more s1"
    and v2: "bview ?dv s2 = ?v\<lparr>vlog := apply_writes ?H ?D, vdisk := apply_writes ?H ?D,
        vtrace := dtrace s @ ?H, vrc := (\<lambda>_. 0)\<rparr>"
    unfolding e1 1(3) Let_def L vdisk_bview vtrace_bview by blast
  let ?s2 = "s2\<lparr>lh := []\<rparr>"
  have e2: "log_dev s2 = ?dv" "log_start s2 = ?st" using more_fields [OF 2(3)] e1 by simp_all
  have "quiet [] ?s2" using 2 v2 e2 q by (simp add: quiet_def)
  then obtain s3 where 3: "write_head pid ?s2 = Inr s3" "quiet [] s3" "bio.more s3 = bio.more ?s2"
    "bview ?dv s3 = (let v = bview ?dv s2; d = put_head [] (vlog v ?st) in
       v\<lparr>vlog := (vlog v)(?st := d), vdisk := (vdisk v)(?st := d), vtrace := vtrace v @ [(?st, d)]\<rparr>)"
    using write_head_ok [of "[]" ?s2 pid] e2 by (auto simp: NBUF_def)
  have "recover_from_log pid s = Inr s3"
    using 1 2 3 e1 by (simp add: recover_from_log_def install_trans_def)
  moreover have "apply_writes ?H ?D ?st = ?D ?st"
    by (rule apply_writes_other) (use rec start_in_region in \<open>auto simp: fst_home_writes recoverable_def\<close>)
  then have "bview ?dv s3 = ?v\<lparr>vlog := apply_writes (recovery_writes ?st ?D) ?D,
      vdisk := apply_writes (recovery_writes ?st ?D) ?D,
      vtrace := dtrace s @ recovery_writes ?st ?D, vrc := (\<lambda>_. 0)\<rparr>"
    unfolding 3(4) v2 by (simp add: Let_def recovery_writes_def)
  then have "vdisk (bview ?dv s3) = apply_writes (recovery_writes ?st ?D) ?D"
    "vtrace (bview ?dv s3) = dtrace s @ recovery_writes ?st ?D" by simp_all
  moreover have "bio.more s3 = bio.more (s\<lparr>lh := []\<rparr>)"
    using 3(3) 2(3) 1(4) by (cases s; cases s1; cases s2) simp
  ultimately show ?thesis using 3(2) by auto
qed

text \<open>The start of the kernel on the disk \<open>d\<close>: zeroed memory, \<open>binit\<close>, then \<open>initlog\<close> from \<open>fsinit\<close>.\<close>

definition boot_lstate :: "(u32 \<Rightarrow> block) \<Rightarrow> lstate" where
  "boot_lstate d = bio.extend (boot_bio d)
     \<lparr>log_start = 0, log_dev = 0, outstanding = 0, committing = False, lh = []\<rparr>"

definition restart :: "int \<Rightarrow> u32 \<Rightarrow> u32 \<Rightarrow> (u32 \<Rightarrow> block) \<Rightarrow> lstate res" where
  "restart pid dev st d = initlog pid dev st (binit (boot_lstate d))"

lemma restart_ok:
  assumes "recoverable st d" "dev \<noteq> 0"
  shows "\<exists>s'. restart pid dev st d = Inr s' \<and> log_inv s' \<and> lh s' = [] \<and> outstanding s' = 0
    \<and> \<not> committing s' \<and> log_start s' = st \<and> log_dev s' = dev
    \<and> dtrace s' = recovery_writes st d \<and> disk s' = apply_writes (recovery_writes st d) d"
proof -
  let ?b = "boot_lstate d"
  have b: "bio_inv dev (binit ?b)" "bview dev (binit ?b) =
    \<lparr>vlog = disk ?b, vdisk = disk ?b, vtrace = dtrace ?b, vrc = (\<lambda>_. 0), vheld = (\<lambda>_. None)\<rparr>"
    "bio.more (binit ?b) = bio.more ?b"
    using binit_ok [of ?b dev] assms(2) by (auto simp: boot_lstate_def boot_bio_def bio.defs)
  have d: "disk (binit ?b) = d" "dtrace (binit ?b) = []"
    using arg_cong [OF b(2), of vdisk] arg_cong [OF b(2), of vtrace]
    by (simp_all add: boot_lstate_def boot_bio_def bio.defs)
  let ?s = "(binit ?b)\<lparr>log_start := st, log_dev := dev\<rparr>"
  have "quiet [] ?s" using b by (simp add: quiet_def)
  then obtain s' where s': "recover_from_log pid ?s = Inr s'" "quiet [] s'"
    "bio.more s' = bio.more (?s\<lparr>lh := []\<rparr>)" "dtrace s' = recovery_writes st d"
    "disk s' = apply_writes (recovery_writes st d) d"
    using recover_ok [of ?s pid] assms(1) d by auto
  have "outstanding s' = 0 \<and> \<not> committing s' \<and> lh s' = [] \<and> log_start s' = st \<and> log_dev s' = dev"
    using more_fields [OF s'(3)] more_fields [OF b(3)]
    by (simp add: boot_lstate_def boot_bio_def bio.defs)
  moreover have "restart pid dev st d = Inr s'"
    using s' by (simp add: restart_def initlog_def layout_simps)
  moreover have "get_head (disk s' st) = []" unfolding s'(5) recovery_writes_def by simp
  ultimately show ?thesis using s' assms(1) by (auto simp: log_inv_def recoverable_def)
qed

subsection \<open>Crash safety\<close>

definition recovered :: "u32 \<Rightarrow> (u32 \<Rightarrow> block) \<Rightarrow> (u32 \<Rightarrow> block)" where
  "recovered st D = apply_writes (recovery_writes st D) D"

lemma recovered_empty: "get_head (D st) = [] \<Longrightarrow> b \<noteq> st \<Longrightarrow> recovered st D b = D b"
  by (simp add: recovered_def recovery_writes_def)

lemma recovered_home:
  assumes "\<And>i. i < length hs \<Longrightarrow> D (lblk st i) = L (hs ! i)" "get_head (D st) = hs" "b \<noteq> st"
  shows "recovered st D b = (if b \<in> set hs then L b else D b)"
  using assms by (simp add: recovered_def recovery_writes_def home_writes_eq [of hs D st L] apply_writes_map)

lemma take_writes_other:
  "b \<notin> fst ` set ws \<Longrightarrow> apply_writes (take k ws) d b = d b"
  by (rule apply_writes_other) (auto dest: in_set_takeD)

text \<open>Before the header is written the transaction has left no trace outside the log.\<close>

lemma crash_before_head:
  fixes k :: nat and L D :: "u32 \<Rightarrow> block"
  assumes "log_fits st" "length hs \<le> LOGBLOCKS" "get_head (D st) = []"
  defines "E \<equiv> apply_writes (take k (log_writes st 0 hs L)) D"
  shows "recoverable st E" "b \<notin> log_region st \<Longrightarrow> recovered st E b = D b"
proof -
  have other: "c \<notin> fst ` set (log_writes st 0 hs L)" if "c = st \<or> c \<notin> log_region st" for c
    unfolding fst_log_writes using that assms(1,2) lblk_neq_start by (auto simp: log_region_def)
  have "E st = D st" unfolding E_def by (rule take_writes_other) (use other in simp)
  then have h: "get_head (E st) = []" using assms(3) by simp
  then show "recoverable st E" using assms(1) by (simp add: recoverable_def)
  assume b: "b \<notin> log_region st"
  then have "b \<noteq> st" by auto
  moreover have "E b = D b" unfolding E_def by (intro take_writes_other other disjI2 b)
  ultimately show "recovered st E b = D b" using recovered_empty [of E st b] h by simp
qed

text \<open>After it, recovery installs the whole transaction, however much of it was installed before.\<close>

lemma crash_after_head:
  fixes j :: nat and L D :: "u32 \<Rightarrow> block" and x :: block
  assumes "log_fits st" "length hs \<le> LOGBLOCKS" "set hs \<inter> log_region st = {}"
    and "\<And>b. b \<notin> set hs \<Longrightarrow> L b = D b"
  defines "E \<equiv> apply_writes (take j (map (\<lambda>d. (d, L d)) hs))
                 ((apply_writes (log_writes st 0 hs L) D)(st := put_head hs x))"
  shows "recoverable st E" "b \<notin> log_region st \<Longrightarrow> recovered st E b = L b"
proof -
  have reg: "E c = ((apply_writes (log_writes st 0 hs L) D)(st := put_head hs x)) c"
    if "c \<in> log_region st" for c
    unfolding E_def by (rule take_writes_other) (use that assms(3) in \<open>auto simp: image_image\<close>)
  then have h: "get_head (E st) = hs" using assms(2) by (simp add: get_head_put_head)
  then show "recoverable st E" using assms(1-3) by (simp add: recoverable_def)
  have l: "E (lblk st i) = L (hs ! i)" if i: "i < length hs" for i
    using reg [of "lblk st i"] i assms(2) lblk_neq_start [OF assms(1), of i]
      logged_block [OF assms(1,2) i] by simp
  assume b: "b \<notin> log_region st"
  then have "E b = L b" if "b \<notin> set hs"
  proof -
    have "E b = ((apply_writes (log_writes st 0 hs L) D)(st := put_head hs x)) b"
      unfolding E_def by (rule take_writes_other) (use that in \<open>auto simp: image_image\<close>)
    then show ?thesis using b log_writes_region [OF assms(2,1), of b L D] assms(4) [OF that] by auto
  qed
  moreover have "b \<noteq> st" using b by auto
  ultimately show "recovered st E b = L b" using recovered_home [OF l h, of b] by simp
qed

lemma crash_during_commit:
  fixes k :: nat and L D :: "u32 \<Rightarrow> block"
  assumes "log_fits st" "length hs \<le> LOGBLOCKS" "set hs \<inter> log_region st = {}" "get_head (D st) = []"
    and "\<And>b. b \<notin> set hs \<Longrightarrow> L b = D b"
  defines "E \<equiv> apply_writes (take k (commit_writes st hs L)) D"
  shows "recoverable st E
    \<and> (\<forall>b. b \<notin> log_region st \<longrightarrow> recovered st E b = (if k \<le> length hs then D b else L b))"
proof -
  let ?W = "log_writes st 0 hs L" and ?H = "map (\<lambda>d. (d, L d)) hs" and ?hd = "(st, put_head hs (L st))"
  let ?cl = "(st, put_head [] (put_head hs (L st)))"
  define j where "j = k - Suc (length hs)"
  consider "k \<le> length hs" | "k = Suc (length hs) + j" "j \<le> length hs" | "2 * length hs + 2 \<le> k"
    unfolding j_def by linarith
  then show ?thesis
  proof cases
    case 1
    then have "E = apply_writes (take k ?W) D" by (simp add: E_def commit_writes_def)
    then show ?thesis using 1 crash_before_head [where D = D and st = st and k = k and L = L, OF assms(1,2,4)] by simp
  next
    case 2
    have "take k (commit_writes st hs L) = ?W @ ?hd # take j ?H"
      using 2 by (simp add: commit_writes_def)
    then have "E = apply_writes (take j ?H) ((apply_writes ?W D)(st := put_head hs (L st)))"
      by (simp add: E_def)
    then show ?thesis using 2 crash_after_head [where j = j and x = "L st", OF assms(1,2,3,5)] by simp
  next
    case 3
    have "take k (commit_writes st hs L) = ?W @ ?hd # ?H @ [?cl]"
      using 3 by (simp add: commit_writes_def)
    then have E: "E = (apply_writes ?H ((apply_writes ?W D)(st := put_head hs (L st))))(st := snd ?cl)"
      by (simp add: E_def)
    then have h: "get_head (E st) = []" by simp
    have "recovered st E b = L b" if "b \<notin> log_region st" for b
    proof -
      have "b \<noteq> st" using that by auto
      then show ?thesis
        using recovered_empty [of E st b] h log_writes_region [OF assms(2,1), of b L D] assms(5) that
        by (simp add: E apply_writes_map)
    qed
    then show ?thesis using 3 h assms(1) by (simp add: recoverable_def)
  qed
qed

text \<open>Recovery itself may be cut short: recovering from that gives the same blocks again.\<close>

lemma crash_during_recovery:
  fixes k :: nat and D :: "u32 \<Rightarrow> block"
  assumes "recoverable st D"
  defines "E \<equiv> apply_writes (take k (recovery_writes st D)) D"
  shows "recoverable st E \<and> (\<forall>b. b \<notin> log_region st \<longrightarrow> recovered st E b = recovered st D b)"
proof -
  let ?h = "get_head (D st)"
  let ?H = "home_writes st 0 ?h D"
  have dis: "set ?h \<inter> log_region st = {}" "length ?h \<le> LOGBLOCKS" "log_fits st"
    using assms(1) by (auto simp: recoverable_def)
  show ?thesis
  proof (cases "k \<le> length ?h")
    case True
    then have E: "E = apply_writes (take k ?H) D" by (simp add: E_def recovery_writes_def)
    have reg: "E c = D c" if "c \<in> log_region st" for c
      unfolding E by (rule take_writes_other) (use that dis in \<open>auto simp: fst_home_writes\<close>)
    then have h: "E st = D st" by simp
    have "home_writes st 0 ?h E = ?H" using reg dis(2) by (intro home_writes_cong) simp
    then have "recovered st E b = apply_writes ?H (apply_writes (take k ?H) D) b" if "b \<noteq> st" for b
      using that h by (simp add: recovered_def recovery_writes_def E)
    moreover have "apply_writes ?H (apply_writes (take k ?H) D) b = apply_writes ?H D b" for b
      using take_writes_other [of b ?H k D] by (auto simp: apply_writes_map_of split: option.splits)
        (metis map_of_eq_None_iff set_rev)
    ultimately have "recovered st E b = recovered st D b" if "b \<noteq> st" for b
      using that by (simp add: recovered_def recovery_writes_def)
    then have "recovered st E b = recovered st D b" if "b \<notin> log_region st" for b
      using that start_in_region by metis
    then show ?thesis using assms(1) h by (simp add: recoverable_def)
  next
    case False
    then have E: "E = recovered st D" by (simp add: E_def recovered_def recovery_writes_def)
    then have h: "get_head (E st) = []" by (simp add: recovered_def recovery_writes_def)
    have "recovered st E b = recovered st D b" if "b \<notin> log_region st" for b
      using recovered_empty [of E st b, OF h] that start_in_region E by metis
    then show ?thesis using h dis(3) by (simp add: recoverable_def)
  qed
qed

subsection \<open>Blocks inside a transaction\<close>

text \<open>
  The logical content of the disk as file-system code sees it, and the state of the cache inside
  a transaction: process \<open>pid\<close> holds the buffers of the blocks \<open>H\<close>, the logged blocks are pinned,
  every other block is as on disk.
\<close>

definition content :: "'a lstate_scheme \<Rightarrow> u32 \<Rightarrow> block" where
  "content s = vlog (bview (log_dev s) s)"

definition slot_of :: "'a lstate_scheme \<Rightarrow> u32 \<Rightarrow> nat option" where
  "slot_of s = cached (log_dev s) s"

definition holds :: "int \<Rightarrow> u32 set \<Rightarrow> 'a lstate_scheme \<Rightarrow> bool" where
  "holds pid H s \<longleftrightarrow> bio_inv (log_dev s) s
     \<and> vheld (bview (log_dev s) s) = (\<lambda>b. if b \<in> H then Some pid else None)
     \<and> vrc (bview (log_dev s) s) = (\<lambda>b. (if b \<in> set (lh s) then 1 else 0) + (if b \<in> H then 1 else 0))
     \<and> (\<forall>b. b \<notin> set (lh s) \<longrightarrow> content s b = disk s b)
     \<and> distinct (lh s) \<and> length (lh s) \<le> LOGBLOCKS"

lemma more_eq_fields:
  "bio.more s = bio.more t \<Longrightarrow> log_dev s = log_dev t \<and> lh s = lh t \<and> outstanding s = outstanding t
    \<and> log_start s = log_start t"
  using more_fields by blast

lemma holds_bread:
  assumes h: "holds pid H s" and b: "b \<notin> H" and r: "card (insert b (set (lh s) \<union> H)) \<le> NBUF"
  shows "\<exists>i s'. bread pid (log_dev s) b s = Inr (i, s') \<and> holds pid (insert b H) s'
    \<and> b_data (bufs s' i) = content s b \<and> b_blockno (bufs s' i) = b \<and> slot_of s' b = Some i
    \<and> (\<forall>c\<in>H. slot_of s' c = slot_of s c)
    \<and> content s' = content s \<and> bio.more s' = bio.more s \<and> disk s' = disk s \<and> dtrace s' = dtrace s"
proof -
  let ?v = "bview (log_dev s) s"
  have "{b. 0 < vrc ?v b} \<union> {b} = insert b (set (lh s) \<union> H)" using h by (auto simp: holds_def)
  then have "room ?v {b}" using r by (simp add: room_def)
  moreover have "bio_inv (log_dev s) s" "vheld ?v b = None" "vrc ?v b \<le> 1"
    using h b by (auto simp: holds_def)
  ultimately obtain i s1 where 1: "bread pid (log_dev s) b s = Inr (i, s1)" "bio_inv (log_dev s) s1"
    "bview (log_dev s) s1 = v_bread pid b ?v" "cached (log_dev s) s1 b = Some i"
    "bio.more s1 = bio.more s"
    "\<forall>c. 0 < vrc ?v c \<longrightarrow> cached (log_dev s) s1 c = cached (log_dev s) s c"
    using bcache.rd_room [of "log_dev s" s b pid] by blast
  have e: "log_dev s1 = log_dev s" "lh s1 = lh s" using more_eq_fields [OF 1(5)] by simp_all
  have d: "disk s1 = disk s" "dtrace s1 = dtrace s"
    using arg_cong [OF 1(3), of vdisk] arg_cong [OF 1(3), of vtrace] by (simp_all add: v_bread_def)
  have c: "content s1 = content s" by (simp add: content_def e 1(3) v_bread_def)
  have "b_data (bufs s1 i) = content s b"
    using bcache.get [OF 1(2,4)] 1(3) by (simp add: v_bread_def content_def)
  moreover have "holds pid (insert b H) s1"
    using h b 1(2) by (auto simp: holds_def e 1(3) c d v_bread_def fun_eq_iff)
  moreover have "\<forall>c\<in>H. slot_of s1 c = slot_of s c"
    using 1(6) h by (simp add: slot_of_def e holds_def)
  moreover have "b_blockno (bufs s1 i) = b" using cached_SomeD [OF 1(4)] by simp
  ultimately show ?thesis using 1 c d e(1) by (auto simp: slot_of_def)
qed

lemma holds_brelse:
  assumes h: "holds pid H s" and b: "b \<in> H" and i: "slot_of s b = Some i"
  shows "\<exists>s'. brelse pid i s = Inr s' \<and> holds pid (H - {b}) s' \<and> slot_of s' = slot_of s
    \<and> content s' = content s \<and> bio.more s' = bio.more s \<and> disk s' = disk s \<and> dtrace s' = dtrace s"
proof -
  have "\<exists>s'. brelse pid i s = Inr s' \<and> bio_inv (log_dev s) s'
    \<and> bview (log_dev s) s' = v_brelse b (bview (log_dev s) s)
    \<and> cached (log_dev s) s' = cached (log_dev s) s \<and> bio.more s' = bio.more s"
    by (rule bcache.rel) (use h b i in \<open>auto simp: holds_def slot_of_def content_def split: if_splits\<close>)
  then obtain s1 where 1: "brelse pid i s = Inr s1" "bio_inv (log_dev s) s1"
    "bview (log_dev s) s1 = v_brelse b (bview (log_dev s) s)"
    "cached (log_dev s) s1 = cached (log_dev s) s" "bio.more s1 = bio.more s" by blast
  have e: "log_dev s1 = log_dev s" "lh s1 = lh s" using more_eq_fields [OF 1(5)] by simp_all
  have d: "disk s1 = disk s" "dtrace s1 = dtrace s"
    using arg_cong [OF 1(3), of vdisk] arg_cong [OF 1(3), of vtrace] by (simp_all add: v_brelse_def)
  have c: "content s1 = content s" by (simp add: content_def e 1(3) v_brelse_def)
  have "holds pid (H - {b}) s1"
    using h b 1(2) by (auto simp: holds_def e 1(3) c d v_brelse_def fun_eq_iff)
  then show ?thesis using 1 c d e by (auto simp: slot_of_def)
qed

lemma holds_log_write:
  assumes h: "holds pid H s" and b: "b \<in> H" and i: "slot_of s b = Some i"
    and n: "length (lh s) < LOGBLOCKS" and o: "1 \<le> outstanding s"
  shows "\<exists>s'. log_write i (set_data i d s) = Inr s' \<and> holds pid H s' \<and> slot_of s' = slot_of s
    \<and> content s' = (content s)(b := d)
    \<and> bio.more s' = bio.more (s\<lparr>lh := (if b \<in> set (lh s) then lh s else lh s @ [b])\<rparr>)
    \<and> disk s' = disk s \<and> dtrace s' = dtrace s"
proof -
  let ?dv = "log_dev s" let ?v = "bview ?dv s" and ?p = "set_data i d s"
  have pre: "bio_inv ?dv s" "cached ?dv s b = Some i" "0 < vrc ?v b"
    using h b i by (auto simp: holds_def slot_of_def)
  have p: "bio_inv ?dv ?p" "bview ?dv ?p = v_set b d ?v" "cached ?dv ?p = cached ?dv s"
    "bio.more ?p = bio.more s" using bcache.put [OF pre] by blast+
  have e: "log_dev ?p = ?dv" "lh ?p = lh s" "outstanding ?p = outstanding s"
    using more_eq_fields [OF p(4)] by simp_all
  have bno: "b_blockno (bufs ?p i) = b" using cached_SomeD [of ?dv ?p b i] p(3) pre(2) by simp
  define s' where "s' = (if b \<in> set (lh s) then ?p else (bpin i ?p)\<lparr>lh := lh s @ [b]\<rparr>)"
  have lw: "log_write i ?p = Inr s'"
    using n o bno by (simp add: log_write_def e s'_def)
  have "bio_inv ?dv (bpin i ?p) \<and> bview ?dv (bpin i ?p) = v_pin b (bview ?dv ?p)
      \<and> cached ?dv (bpin i ?p) = cached ?dv ?p \<and> bio.more (bpin i ?p) = bio.more ?p"
    using h pre p by (intro bcache.pin) (auto simp: v_set_def holds_def)
  then have s': "bio_inv ?dv s'"
    "bview ?dv s' = (if b \<in> set (lh s) then v_set b d ?v else v_pin b (v_set b d ?v))"
    "cached ?dv s' = cached ?dv s"
    "bio.more s' = bio.more (s\<lparr>lh := (if b \<in> set (lh s) then lh s else lh s @ [b])\<rparr>)"
    using p by (auto simp: s'_def cached_def fun_eq_iff) ((cases s; cases ?p; cases "bpin i ?p"; simp)+)
  have e': "log_dev s' = ?dv" "lh s' = (if b \<in> set (lh s) then lh s else lh s @ [b])"
    using more_eq_fields [OF s'(4)] by simp_all
  have "vdisk (bview ?dv s') = disk s" "vtrace (bview ?dv s') = dtrace s"
    unfolding s'(2) by (simp_all add: v_set_def v_pin_def)
  then have dd: "disk s' = disk s" "dtrace s' = dtrace s" by simp_all
  have c: "content s' = (content s)(b := d)"
    by (simp add: content_def e' s'(2) v_set_def v_pin_def)
  have "holds pid H s'"
    using h b n s'(1) by (auto simp: holds_def e' s'(2) c dd v_set_def v_pin_def fun_eq_iff)
  then show ?thesis using lw s' c dd e' by (auto simp: slot_of_def)
qed

text \<open>
  The way \<open>fs.c\<close> changes a block inside a transaction: \<open>bread\<close>, change \<open>b->data\<close>, \<open>log_write\<close>,
  \<open>brelse\<close>.
\<close>

definition log_block :: "int \<Rightarrow> u32 \<Rightarrow> (block \<Rightarrow> block) \<Rightarrow> 'a lstate_scheme \<Rightarrow> 'a lstate_scheme res" where
  "log_block pid b f s =
     bindR (bread pid (log_dev s) b s) (\<lambda>(i, s).
     bindR (log_write i (set_data i (f (b_data (bufs s i))) s)) (brelse pid i))"

lemma log_inv_holds: "log_inv s \<Longrightarrow> holds pid {} s"
  using quiet_clean [of "lh s" s] by (auto simp: log_inv_def holds_def quiet_def content_def)

lemma holds_log_inv:
  assumes "holds pid {} s" "log_fits (log_start s)" "set (lh s) \<inter> log_region (log_start s) = {}"
    "get_head (disk s (log_start s)) = []"
  shows "log_inv s"
  using assms by (auto simp: log_inv_def holds_def quiet_def)

lemma log_block_holds:
  assumes h: "holds pid H s" and b: "b \<notin> H" and r: "card (insert b (set (lh s) \<union> H)) \<le> NBUF"
    and n: "length (lh s) < LOGBLOCKS" and o: "1 \<le> outstanding s"
  shows "\<exists>s'. log_block pid b f s = Inr s' \<and> holds pid H s'
    \<and> content s' = (content s)(b := f (content s b)) \<and> (\<forall>c\<in>H. slot_of s' c = slot_of s c)
    \<and> bio.more s' = bio.more (s\<lparr>lh := (if b \<in> set (lh s) then lh s else lh s @ [b])\<rparr>)
    \<and> disk s' = disk s \<and> dtrace s' = dtrace s"
proof -
  obtain i s1 where 1: "bread pid (log_dev s) b s = Inr (i, s1)" "holds pid (insert b H) s1"
    "b_data (bufs s1 i) = content s b" "slot_of s1 b = Some i" "\<forall>c\<in>H. slot_of s1 c = slot_of s c"
    "content s1 = content s" "bio.more s1 = bio.more s" "disk s1 = disk s" "dtrace s1 = dtrace s"
    using holds_bread [OF h b r] by blast
  have e1: "log_dev s1 = log_dev s" "lh s1 = lh s" "outstanding s1 = outstanding s"
    using more_eq_fields [OF 1(7)] by simp_all
  obtain s2 where 2: "log_write i (set_data i (f (content s b)) s1) = Inr s2" "holds pid (insert b H) s2"
    "slot_of s2 = slot_of s1" "content s2 = (content s)(b := f (content s b))"
    "bio.more s2 = bio.more (s1\<lparr>lh := (if b \<in> set (lh s) then lh s else lh s @ [b])\<rparr>)"
    "disk s2 = disk s" "dtrace s2 = dtrace s"
    using holds_log_write [OF 1(2) insertI1 1(4), of "f (content s b)"] n o e1 1 by auto
  obtain s3 where 3: "brelse pid i s2 = Inr s3" "holds pid (insert b H - {b}) s3" "slot_of s3 = slot_of s2"
    "content s3 = content s2" "bio.more s3 = bio.more s2" "disk s3 = disk s2" "dtrace s3 = dtrace s2"
    using holds_brelse [OF 2(2) insertI1, of i] 2(3) 1(4) by auto
  have "log_block pid b f s = Inr s3" using 1 2 3 by (simp add: log_block_def)
  moreover have "insert b H - {b} = H" using b by blast
  moreover have "bio.more s3 = bio.more (s\<lparr>lh := (if b \<in> set (lh s) then lh s else lh s @ [b])\<rparr>)"
    using 3(5) 2(5) 1(7) by (cases s; cases s1) (auto split: if_splits)
  ultimately show ?thesis using 1 2 3 by auto
qed

lemma log_block_ok:
  assumes inv: "log_inv s" and n: "length (lh s) < LOGBLOCKS" and o: "1 \<le> outstanding s"
    and b: "b \<notin> log_region (log_start s)"
  shows "\<exists>s'. log_block pid b f s = Inr s' \<and> log_inv s' \<and> content s' = (content s)(b := f (content s b))
    \<and> lh s' = (if b \<in> set (lh s) then lh s else lh s @ [b]) \<and> outstanding s' = outstanding s
    \<and> committing s' = committing s \<and> log_start s' = log_start s \<and> log_dev s' = log_dev s
    \<and> disk s' = disk s"
proof -
  have "card (insert b (set (lh s) \<union> {})) \<le> Suc (length (lh s))"
    using card_length [of "lh s"] by (simp add: card_insert_if)
  then have r: "card (insert b (set (lh s) \<union> {})) \<le> NBUF" using n by (simp add: layout_simps NBUF_def)
  have "b \<notin> {}" by simp
  then obtain s' where s': "log_block pid b f s = Inr s'" "holds pid {} s'"
    "content s' = (content s)(b := f (content s b))"
    "bio.more s' = bio.more (s\<lparr>lh := (if b \<in> set (lh s) then lh s else lh s @ [b])\<rparr>)" "disk s' = disk s"
    using log_block_holds [OF log_inv_holds [OF inv] _ r n o] by metis
  have "log_inv s'"
    by (rule holds_log_inv [OF s'(2)]) (use more_fields [OF s'(4)] s'(5) inv b in \<open>auto simp: log_inv_def\<close>)
  then show ?thesis using s' more_fields [OF s'(4)] by auto
qed

lemma end_op_ok:
  assumes inv: "log_inv s" and "\<not> committing s" and room: "length (lh s) < NBUF"
  shows "\<exists>s'. end_op pid s = Inr s' \<and> log_inv s' \<and> outstanding s' = outstanding s - 1 \<and> \<not> committing s'
    \<and> lh s' = (if outstanding s = 1 then [] else lh s) \<and> log_start s' = log_start s \<and> log_dev s' = log_dev s
    \<and> (\<forall>b. b \<notin> log_region (log_start s) \<longrightarrow> content s' b = content s b)"
proof (cases "outstanding s = 1 \<and> lh s \<noteq> []")
  case False
  have "log_inv (s\<lparr>outstanding := n, committing := c\<rparr>)" "content (s\<lparr>outstanding := n, committing := c\<rparr>) = content s"
     "log_inv (s\<lparr>outstanding := n\<rparr>)" "content (s\<lparr>outstanding := n\<rparr>) = content s" for n c
    using inv by (simp_all add: log_inv_def quiet_def content_def)
  moreover have "end_op pid s = Inr (if outstanding s = 1
      then s\<lparr>outstanding := outstanding s - 1, committing := False\<rparr> else s\<lparr>outstanding := outstanding s - 1\<rparr>)"
    using assms(2) False by (auto simp: end_op_def commit_def Let_def)
  ultimately show ?thesis using False assms(2) by auto
next
  case True
  let ?s = "s\<lparr>outstanding := outstanding s - 1, committing := True\<rparr>" and ?L = "vlog (bview (log_dev s) s)"
  let ?ws = "commit_writes (log_start s) (lh s) ?L"
  have "log_inv ?s" using inv by (simp add: log_inv_def quiet_def)
  then obtain s' where s': "commit pid ?s = Inr s'" "quiet [] s'" "bio.more s' = bio.more (?s\<lparr>lh := []\<rparr>)"
    "disk s' = apply_writes ?ws (disk s)" "vlog (bview (log_dev s) s') = apply_writes ?ws ?L"
    using commit_ok [of ?s pid] True room by (auto simp: Let_def)
  note f = more_fields [OF s'(3)]
  have "get_head (disk s' (log_start s)) = []" unfolding s'(4) commit_writes_def by simp
  then have "log_inv (s'\<lparr>committing := False\<rparr>)"
    using inv s'(2) f by (simp add: log_inv_def quiet_def)
  moreover have "content s' b = content s b" if b: "b \<notin> log_region (log_start s)" for b
  proof -
    have "b \<noteq> log_start s" using b by auto
    moreover have "apply_writes (log_writes (log_start s) 0 (lh s) ?L) ?L b = ?L b"
      using inv b by (intro log_writes_region) (auto simp: log_inv_def)
    ultimately show ?thesis
      using f s'(5) by (simp add: content_def commit_writes_def apply_writes_map)
  qed
  moreover have "content (s'\<lparr>committing := False\<rparr>) = content s'" by (simp add: content_def)
  moreover have "end_op pid s = Inr (s'\<lparr>committing := False\<rparr>)"
    using assms(2) True s'(1) by (simp add: end_op_def Let_def)
  ultimately show ?thesis using f True by auto
qed

subsection \<open>Concurrent operations share the log\<close>

text \<open>
  Interleaved file-system operations, each between \<open>begin_op\<close> and \<open>end_op\<close>: the list has, per
  operation in progress, how many blocks it may still log; every operation starts with \<open>m\<close>.
\<close>

inductive txn_run :: "nat \<Rightarrow> (u32 \<Rightarrow> block) \<Rightarrow> lstate \<Rightarrow> nat list \<Rightarrow> bool" for m d where
  boot: "restart pid dev st d = Inr s \<Longrightarrow> dev \<noteq> 0 \<Longrightarrow> recoverable st d \<Longrightarrow> txn_run m d s []"
| begin_op: "txn_run m d s bs \<Longrightarrow> begin_op s = Inr s' \<Longrightarrow> txn_run m d s' (m # bs)"
| update: "txn_run m d s (bs @ Suc n # cs) \<Longrightarrow> b \<notin> log_region (log_start s) \<Longrightarrow>
    log_block pid b f s = Inr s' \<Longrightarrow> txn_run m d s' (bs @ n # cs)"
| end_op: "txn_run m d s (bs @ n # cs) \<Longrightarrow> end_op pid s = Inr s' \<Longrightarrow> txn_run m d s' (bs @ cs)"

definition txn_inv :: "nat \<Rightarrow> lstate \<Rightarrow> nat list \<Rightarrow> bool" where
  "txn_inv m s bs \<longleftrightarrow> log_inv s \<and> \<not> committing s \<and> outstanding s = int (length bs) \<and> log_dev s \<noteq> 0
     \<and> length (lh s) + sum_list bs < NBUF \<and> (\<forall>n\<in>set bs. n \<le> m) \<and> (bs = [] \<longrightarrow> lh s = [])"

lemma sum_list_le: "(\<forall>n\<in>set bs. n \<le> m) \<Longrightarrow> sum_list bs \<le> length bs * (m::nat)"
  by (induction bs) auto

lemma begin_op_inv:
  assumes inv: "txn_inv m s bs" and m: "m < MAXOPBLOCKS" and s': "begin_op s = Inr s'"
  shows "txn_inv m s' (m # bs)"
proof -
  have e: "s' = s\<lparr>outstanding := outstanding s + 1\<rparr>"
    "length (lh s) + (length bs + 1) * MAXOPBLOCKS \<le> LOGBLOCKS"
    using s' inv by (auto simp: begin_op_def txn_inv_def layout_simps split: if_splits)
  have "sum_list bs \<le> length bs * m" using inv by (auto simp: txn_inv_def intro: sum_list_le)
  also have "\<dots> \<le> length bs * MAXOPBLOCKS" using m by simp
  finally have "length (lh s) + sum_list (m # bs) < NBUF"
    using e(2) m by (simp add: layout_simps NBUF_def)
  then show ?thesis using inv by (auto simp: txn_inv_def e log_inv_def quiet_def)
qed

lemma write_inv:
  assumes inv: "txn_inv m s (bs @ Suc n # cs)" and b: "b \<notin> log_region (log_start s)"
  shows "\<exists>s'. log_block pid b f s = Inr s' \<and> txn_inv m s' (bs @ n # cs)
    \<and> content s' = (content s)(b := f (content s b))"
proof -
  have "log_inv s" "length (lh s) < LOGBLOCKS" "1 \<le> outstanding s"
    using inv by (auto simp: txn_inv_def NBUF_def layout_simps)
  then show ?thesis
    using log_block_ok [of s b pid f] b inv by (auto simp: txn_inv_def)
qed

lemma end_inv:
  assumes inv: "txn_inv m s (bs @ n # cs)"
  shows "\<exists>s'. end_op pid s = Inr s' \<and> txn_inv m s' (bs @ cs)"
proof -
  have "log_inv s" "\<not> committing s" "length (lh s) < NBUF" using inv by (auto simp: txn_inv_def)
  then show ?thesis
    using end_op_ok [of s pid] inv by (fastforce simp: txn_inv_def split: if_splits)
qed

lemma txn_run_inv:
  assumes "txn_run m d s bs" "m < MAXOPBLOCKS" shows "txn_inv m s bs"
  using assms
proof (induction rule: txn_run.induct)
  case (boot pid dev st s)
  then obtain s' where "restart pid dev st d = Inr s'" "log_inv s'" "lh s' = []" "outstanding s' = 0"
    "\<not> committing s'" "log_dev s' = dev" using restart_ok [of st d dev pid] by blast
  then show ?case using boot by (simp add: txn_inv_def NBUF_def)
next
  case (begin_op s bs s')
  then show ?case using begin_op_inv by blast
next
  case (update s bs n cs b pid f s')
  then show ?case using write_inv [of m s bs n cs b pid f] by auto
next
  case (end_op s bs n cs pid s')
  then show ?case using end_inv [of m s bs n cs pid] by auto
qed

subsection \<open>Properties\<close>

text \<open>
  C1: a commit is atomic with respect to crashes. \<open>commit\<close> returns with an empty log; and if the
  machine stops after any number \<open>k\<close> of the disk writes the commit makes, the kernel that starts
  on that disk recovers: up to \<open>length (lh s)\<close> writes no block outside the log has changed,
  from the write of the header on every block has its content of the transaction.
\<close>

theorem commit_crash_safe:
  assumes "log_inv s" and "lh s \<noteq> []" and "length (lh s) < NBUF" and "log_dev s \<noteq> 0"
  shows "\<exists>s'. commit pid s = Inr s' \<and> log_inv s' \<and> lh s' = []
    \<and> (\<forall>k. \<exists>r. restart q (log_dev s) (log_start s)
                 (apply_writes (take k (drop (length (dtrace s)) (dtrace s'))) (disk s)) = Inr r
         \<and> log_inv r \<and> lh r = []
         \<and> (\<forall>b. b \<notin> log_region (log_start s) \<longrightarrow>
              disk r b = (if k \<le> length (lh s) then disk s b else content s b)))"
proof -
  let ?L = "content s" and ?st = "log_start s"
  let ?ws = "commit_writes ?st (lh s) ?L"
  obtain s' where s': "commit pid s = Inr s'" "quiet [] s'" "bio.more s' = bio.more (s\<lparr>lh := []\<rparr>)"
    "dtrace s' = dtrace s @ ?ws" "disk s' = apply_writes ?ws (disk s)"
    using commit_ok [OF assms(1-3), of pid] by (auto simp: Let_def content_def)
  have "get_head (disk s' ?st) = []" unfolding s'(5) commit_writes_def by simp
  then have "log_inv s' \<and> lh s' = []"
    using assms(1) s'(2) more_fields [OF s'(3)] by (simp add: log_inv_def)
  moreover have "\<exists>r. restart q (log_dev s) ?st (apply_writes (take k ?ws) (disk s)) = Inr r
      \<and> log_inv r \<and> lh r = [] \<and> (\<forall>b. b \<notin> log_region ?st \<longrightarrow>
           disk r b = (if k \<le> length (lh s) then disk s b else ?L b))" for k
  proof -
    have "?L b = disk s b" if "b \<notin> set (lh s)" for b
      using log_inv_holds [OF assms(1)] that by (simp add: holds_def)
    then have "recoverable ?st (apply_writes (take k ?ws) (disk s)) \<and> (\<forall>b. b \<notin> log_region ?st \<longrightarrow>
        recovered ?st (apply_writes (take k ?ws) (disk s)) b = (if k \<le> length (lh s) then disk s b else ?L b))"
      using assms(1) by (intro crash_during_commit) (auto simp: log_inv_def)
    then show ?thesis
      using restart_ok [of ?st _ "log_dev s" q] assms(4) unfolding recovered_def by metis
  qed
  ultimately show ?thesis using s'(1,4) by auto
qed

lemma outside_region:
  assumes "32 < x" "x < 2 ^ 32" shows "(of_nat x :: u32) \<notin> log_region 2"
proof -
  have x: "unat (of_nat x :: u32) = x" using assms(2) by (intro unat_of_nat_small) simp
  have "lblk 2 i \<noteq> of_nat x" if "i < LOGBLOCKS" for i
    using unat_lblk [of 2 i] that x assms(1) by (auto simp: log_fits_def layout_simps)
  moreover have "2 \<noteq> (of_nat x :: u32)" using x assms(1) by auto
  ultimately show ?thesis unfolding log_region_def by (metis image_iff insert_iff lessThan_iff)
qed

lemma zero_disk_recoverable: "recoverable 2 (\<lambda>_ _. 0)"
  by (simp add: recoverable_def log_fits_def layout_simps get_head_def get32_def)

lemma blocks_logged:
  "n \<le> LOGBLOCKS \<Longrightarrow> \<exists>s :: lstate. log_inv s \<and> lh s = map (\<lambda>i. of_nat (45 + i)) [0..<n] \<and> log_dev s = 1
     \<and> log_start s = 2 \<and> outstanding s = 1 \<and> \<not> committing s \<and> (\<forall>i<n. content s (of_nat (45 + i)) 0 = 7)
     \<and> disk s = (\<lambda>_ _. 0)"
proof (induction n)
  case 0
  obtain s :: lstate where s: "log_inv s" "lh s = []" "\<not> committing s"
    "log_start s = 2" "log_dev s = 1" "disk s = apply_writes (recovery_writes 2 (\<lambda>_ _. 0)) (\<lambda>_ _. 0)"
    using restart_ok [OF zero_disk_recoverable, of 1 1] by auto
  have "disk s = (\<lambda>_ _. 0)"
    unfolding s(6) by (simp add: recovery_writes_def put_head_def put32_def fun_eq_iff get_head_def get32_def)
  moreover have "log_inv (s\<lparr>outstanding := 1\<rparr>)" using s(1) by (simp add: log_inv_def quiet_def)
  ultimately show ?case using s by (intro exI [of _ "s\<lparr>outstanding := 1\<rparr>"]) simp
next
  case (Suc n)
  then obtain s :: lstate where s: "log_inv s" "lh s = map (\<lambda>i. of_nat (45 + i)) [0..<n]" "log_dev s = 1"
    "log_start s = 2" "outstanding s = 1" "\<not> committing s" "\<forall>i<n. content s (of_nat (45 + i)) 0 = 7"
    "disk s = (\<lambda>_ _. 0)" by auto
  let ?b = "of_nat (45 + n) :: u32"
  have u: "unat (of_nat (45 + i) :: u32) = 45 + i" if "i < LOGBLOCKS" for i
    using that by (intro unat_of_nat_small) (simp add: layout_simps)
  have new: "?b \<noteq> of_nat (45 + i)" if "i < n" for i
    using u [of i] u [of n] that Suc.prems by (metis Suc_le_lessD add_left_cancel less_trans nat_neq_iff)
  have fresh: "?b \<notin> set (lh s)"
  proof
    assume "?b \<in> set (lh s)"
    then obtain i where "i < n" "?b = of_nat (45 + i)" unfolding s(2) by (auto simp del: of_nat_add)
    then show False using new by blast
  qed
  have "?b \<notin> log_region (log_start s)" unfolding s(4) using Suc.prems
    by (intro outside_region) (simp_all add: layout_simps)
  moreover have "length (lh s) < LOGBLOCKS" using Suc.prems s(2) by simp
  ultimately obtain s' :: lstate where "log_inv s'" "content s' = (content s)(?b := \<lambda>_. 7)"
    "lh s' = lh s @ [?b]" "outstanding s' = 1" "\<not> committing s'" "log_start s' = 2" "log_dev s' = 1"
    "disk s' = (\<lambda>_ _. 0)"
    using log_block_ok [of s ?b 1 "\<lambda>_ _. 7"] s(1,3-6,8) fresh by (auto simp del: of_nat_add)
  then show ?case using s new by (intro exI [of _ s']) (auto simp: less_Suc_eq)
qed

theorem commit_crash_safe_witness:
  "\<exists>s :: lstate. content s 45 0 = 7 \<and> disk s 45 0 = 0 \<and> lh s = [45]
     \<and> (\<exists>s'. commit 1 s = Inr s' \<and> lh s' = []
          \<and> (\<exists>r. restart 1 (log_dev s) (log_start s)
                   (apply_writes (take 2 (drop (length (dtrace s)) (dtrace s'))) (disk s)) = Inr r))"
proof -
  obtain s :: lstate where s: "log_inv s" "lh s = [45]" "log_dev s = 1" "content s 45 0 = 7"
    "disk s = (\<lambda>_ _. 0)" using blocks_logged [of 1] by (auto simp: layout_simps)
  then obtain s' where "commit 1 s = Inr s'" "lh s' = []"
    "\<exists>r. restart 1 (log_dev s) (log_start s)
       (apply_writes (take 2 (drop (length (dtrace s)) (dtrace s'))) (disk s)) = Inr r"
    using commit_crash_safe [of s 1 1] unfolding NBUF_def by fastforce
  then show ?thesis using s by (intro exI [of _ s]) auto
qed

text \<open>
  C18: recovery can be interrupted. If the kernel starts on a disk with a committed or an empty
  log and the machine stops again after any number of the writes recovery makes, the next start
  gives every block outside the log the content the interrupted recovery would have given it.
\<close>

theorem recovery_idempotent:
  assumes "recoverable st d" and "dev \<noteq> 0"
  shows "\<exists>s'. restart pid dev st d = Inr s' \<and> log_inv s'
    \<and> (\<forall>k. \<exists>r. restart q dev st (apply_writes (take k (dtrace s')) d) = Inr r \<and> log_inv r
         \<and> (\<forall>b. b \<notin> log_region st \<longrightarrow> disk r b = disk s' b))"
proof -
  obtain s' where s': "restart pid dev st d = Inr s'" "log_inv s'" "dtrace s' = recovery_writes st d"
    "disk s' = recovered st d"
    using restart_ok [OF assms, of pid] unfolding recovered_def by blast
  have "\<exists>r. restart q dev st (apply_writes (take k (dtrace s')) d) = Inr r \<and> log_inv r
      \<and> (\<forall>b. b \<notin> log_region st \<longrightarrow> disk r b = disk s' b)" for k
    unfolding s'(3,4) using crash_during_recovery [OF assms(1), of k] restart_ok [OF _ assms(2), of st _ q]
    unfolding recovered_def by metis
  then show ?thesis using s' by blast
qed

theorem recovery_idempotent_witness:
  "\<exists>s'. restart 1 1 2 (\<lambda>_ _. 0) = Inr s' \<and> log_inv s'"
  using recovery_idempotent [OF zero_disk_recoverable, of 1 1 1] by auto



text \<open>
  C35: with a full log the commit cannot go on. The cache has as many buffers as the log has
  blocks, so when \<open>LOGBLOCKS\<close> blocks are pinned the first \<open>bread\<close> of \<open>write_log\<close> finds no buffer
  and the kernel panics; the bound of the crash theorem is the weakest one.
\<close>

theorem commit_full_log_panics:
  assumes "log_inv s" and "length (lh s) = LOGBLOCKS"
  shows "commit pid s = panic ''bget''"
proof -
  let ?v = "bview (log_dev s) s" and ?l = "log_start s + of_nat 0 + 1"
  have q: "bio_inv (log_dev s) s" "vrc ?v = (\<lambda>b. if b \<in> set (lh s) then 1 else 0)" "distinct (lh s)"
    "set (lh s) \<inter> log_region (log_start s) = {}"
    using assms(1) by (auto simp: log_inv_def quiet_def)
  have "{b. 0 < vrc ?v b} = set (lh s)" using q(2) by auto
  then have full: "card {b. 0 < vrc ?v b} = NBUF"
    using assms(2) q(3) by (simp add: distinct_card layout_simps NBUF_def)
  have "?l \<in> log_region (log_start s)" using lblk_in_region [of 0 "log_start s"]
    by (simp add: lblk_def layout_simps)
  then have "vrc ?v ?l = 0" using q(2,4) by auto
  then have "bread pid (log_dev s) ?l s = panic ''bget''"
    using full_no_other [OF q(1) full, of ?l] by (intro bread_full [OF q(1)]) auto
  moreover obtain d ds where "lh s = d # ds"
    using assms(2) by (cases "lh s") (auto simp: layout_simps)
  ultimately show ?thesis by (simp add: commit_def write_log_def write_one_def)
qed

theorem commit_full_log_panics_witness:
  "\<exists>s :: lstate. length (lh s) = 30 \<and> outstanding s = 1 \<and> commit 1 s = panic ''bget''"
proof -
  obtain s :: lstate where s: "log_inv s" "length (lh s) = LOGBLOCKS" "outstanding s = 1"
    using blocks_logged [OF order_refl] by (metis diff_zero length_map length_upt)
  then show ?thesis using commit_full_log_panics [OF s(1,2)] by (auto simp: layout_simps)
qed

end
