(* ===== verification/Fs.thy ===== *)
theory Fs
  imports Log
begin

text \<open>
  \<open>kernel/fs.c\<close>, the block and inode layers. The state extends the log's by the superblock in
  memory and the inode table; an inode pointer is an index of the table. Disk structures are read
  from and written to the bytes of the buffers at the offsets of \<open>kernel/fs.h\<close>. \<open>readi\<close> and
  \<open>writei\<close> take the copy function (\<open>either_copyout\<close>, \<open>either_copyin\<close>) with the memory it works
  on as arguments. Loop counters that the source keeps in an \<open>int\<close> are natural numbers.
\<close>

subsection \<open>State\<close>

definition NDIRECT :: nat where [layout_simps]: "NDIRECT = 12"
definition NINDIRECT :: nat where [layout_simps]: "NINDIRECT = BSIZE div 4"
definition MAXFILE :: nat where [layout_simps]: "MAXFILE = NDIRECT + NINDIRECT"
definition DINODE_SIZE :: nat where [layout_simps]: "DINODE_SIZE = 64"
definition IPB :: nat where [layout_simps]: "IPB = BSIZE div DINODE_SIZE"
definition BPB :: nat where [layout_simps]: "BPB = BSIZE * 8"
definition NINODE :: nat where "NINODE = 50"
definition FSMAGIC :: u32 where "FSMAGIC = 0x10203040"
definition ROOTDEV :: u32 where "ROOTDEV = 1"
definition ROOTINO :: u32 where "ROOTINO = 1"
definition T_DIR :: u16 where "T_DIR = 1"
definition T_FILE :: u16 where "T_FILE = 2"
definition T_DEVICE :: u16 where "T_DEVICE = 3"

record superblock =
  sb_magic :: u32
  sb_size :: u32
  sb_nblocks :: u32
  sb_ninodes :: u32
  sb_nlog :: u32
  sb_logstart :: u32
  sb_inodestart :: u32
  sb_bmapstart :: u32

record dinode =
  d_type :: u16
  d_major :: u16
  d_minor :: u16
  d_nlink :: u16
  d_size :: u32
  d_addrs :: "u32 list"

record inode =
  i_dev :: u32
  i_inum :: u32
  i_ref :: int
  i_lock :: sleeplock
  i_valid :: bool
  i_type :: u16
  i_major :: u16
  i_minor :: u16
  i_nlink :: u16
  i_size :: u32
  i_addrs :: "u32 list"

record fstate = lstate +
  sb :: superblock
  itable :: "nat \<Rightarrow> inode"

definition upd_inode :: "nat \<Rightarrow> (inode \<Rightarrow> inode) \<Rightarrow> 'a fstate_scheme \<Rightarrow> 'a fstate_scheme" where
  "upd_inode ip f s = s\<lparr>itable := (itable s)(ip := f (itable s ip))\<rparr>"

definition IBLOCK :: "u32 \<Rightarrow> superblock \<Rightarrow> u32" where
  "IBLOCK i b = i div of_nat IPB + sb_inodestart b"

definition BBLOCK :: "u32 \<Rightarrow> superblock \<Rightarrow> u32" where
  "BBLOCK b sp = b div of_nat BPB + sb_bmapstart sp"

text \<open>A \<open>struct dinode\<close> at byte offset \<open>o\<close> of a block.\<close>

definition get_dinode :: "block \<Rightarrow> nat \<Rightarrow> dinode" where
  "get_dinode d p = \<lparr>d_type = get16 d p, d_major = get16 d (p + 2), d_minor = get16 d (p + 4),
     d_nlink = get16 d (p + 6), d_size = get32 d (p + 8),
     d_addrs = map (\<lambda>i. get32 d (p + 12 + 4 * i)) [0..<NDIRECT + 1]\<rparr>"

fun put_addrs :: "block \<Rightarrow> nat \<Rightarrow> u32 list \<Rightarrow> block" where
  "put_addrs d p [] = d"
| "put_addrs d p (a # as) = put_addrs (put32 d p a) (p + 4) as"

definition put_dinode :: "block \<Rightarrow> nat \<Rightarrow> dinode \<Rightarrow> block" where
  "put_dinode d p x =
     put_addrs (put32 (put16 (put16 (put16 (put16 d p (d_type x)) (p + 2) (d_major x))
       (p + 4) (d_minor x)) (p + 6) (d_nlink x)) (p + 8) (d_size x)) (p + 12) (d_addrs x)"

definition dinode_off :: "u32 \<Rightarrow> nat" where
  "dinode_off inum = unat (inum mod of_nat IPB) * DINODE_SIZE"

subsection \<open>Superblock and blocks\<close>

definition readsb :: "int \<Rightarrow> u32 \<Rightarrow> 'a fstate_scheme \<Rightarrow> 'a fstate_scheme res" where
  "readsb pid dev s =
     bindR (bread pid dev 1 s) (\<lambda>(bp, s).
       let d = b_data (bufs s bp) in
       brelse pid bp (s\<lparr>sb := \<lparr>sb_magic = get32 d 0, sb_size = get32 d 4, sb_nblocks = get32 d 8,
         sb_ninodes = get32 d 12, sb_nlog = get32 d 16, sb_logstart = get32 d 20,
         sb_inodestart = get32 d 24, sb_bmapstart = get32 d 28\<rparr>\<rparr>))"

text \<open>\<open>memset(bp->data, 0, BSIZE)\<close>.\<close>

definition zeroed :: "block \<Rightarrow> block" where
  "zeroed d = (\<lambda>i. if i < BSIZE then 0 else d i)"

definition bzero :: "int \<Rightarrow> u32 \<Rightarrow> u32 \<Rightarrow> 'a fstate_scheme \<Rightarrow> 'a fstate_scheme res" where
  "bzero pid dev bno s =
     bindR (bread pid dev bno s) (\<lambda>(bp, s).
     bindR (log_write bp (set_data bp (zeroed (b_data (bufs s bp))) s))
       (brelse pid bp))"

definition bit_mask :: "nat \<Rightarrow> byte" where
  "bit_mask bi = push_bit (bi mod 8) 1"

definition bit_free :: "block \<Rightarrow> nat \<Rightarrow> bool" where
  "bit_free d bi \<longleftrightarrow> d (bi div 8) AND bit_mask bi = 0"

definition bm_set :: "block \<Rightarrow> nat \<Rightarrow> block" where
  "bm_set d bi = d(bi div 8 := d (bi div 8) OR bit_mask bi)"

definition bm_clear :: "block \<Rightarrow> nat \<Rightarrow> block" where
  "bm_clear d bi = d(bi div 8 := d (bi div 8) AND NOT (bit_mask bi))"

text \<open>The inner loop of \<open>balloc\<close>, over the bits of one bitmap block.\<close>

function free_bit :: "block \<Rightarrow> nat \<Rightarrow> nat \<Rightarrow> nat \<Rightarrow> nat option" where
  "free_bit d b sz bi =
     (if bi < BPB \<and> b + bi < sz
      then if bit_free d bi then Some bi else free_bit d b sz (Suc bi)
      else None)"
  by pat_completeness auto
termination
  by (relation "measure (\<lambda>(d, b, sz, bi). BPB - bi)") auto

declare free_bit.simps [simp del]

lemma BPB_pos [simp]: "0 < BPB"
  by (simp add: layout_simps)

function balloc_loop :: "int \<Rightarrow> u32 \<Rightarrow> superblock \<Rightarrow> nat \<Rightarrow> 'a fstate_scheme \<Rightarrow> (u32 \<times> 'a fstate_scheme) res" where
  "balloc_loop pid dev sp b s =
     (if b < unat (sb_size sp)
      then bindR (bread pid dev (BBLOCK (of_nat b) sp) s) (\<lambda>(bp, s).
        case free_bit (b_data (bufs s bp)) b (unat (sb_size sp)) 0 of
          Some bi \<Rightarrow>
            bindR (log_write bp (set_data bp (bm_set (b_data (bufs s bp)) bi) s)) (\<lambda>s.
            bindR (brelse pid bp s) (\<lambda>s.
            bindR (bzero pid dev (of_nat (b + bi)) s) (\<lambda>s. Inr (of_nat (b + bi), s))))
        | None \<Rightarrow> bindR (brelse pid bp s) (balloc_loop pid dev sp (b + BPB)))
      else Inr (0, s))"
  by pat_completeness auto
termination
  by (relation "measure (\<lambda>(pid, dev, sp, b, s). unat (sb_size sp) - b)") (auto intro!: diff_less_mono2)

declare balloc_loop.simps [simp del]

definition balloc :: "int \<Rightarrow> u32 \<Rightarrow> 'a fstate_scheme \<Rightarrow> (u32 \<times> 'a fstate_scheme) res" where
  "balloc pid dev s = balloc_loop pid dev (sb s) 0 s"

definition bfree :: "int \<Rightarrow> u32 \<Rightarrow> u32 \<Rightarrow> 'a fstate_scheme \<Rightarrow> 'a fstate_scheme res" where
  "bfree pid dev b s =
     bindR (bread pid dev (BBLOCK b (sb s)) s) (\<lambda>(bp, s).
       let bi = unat (b mod of_nat BPB) in
       if bit_free (b_data (bufs s bp)) bi then panic ''freeing free block''
       else bindR (log_write bp (set_data bp (bm_clear (b_data (bufs s bp)) bi) s)) (brelse pid bp))"

subsection \<open>Inodes\<close>

definition iinit :: "'a fstate_scheme \<Rightarrow> 'a fstate_scheme" where
  "iinit s = fold (\<lambda>i. upd_inode i (\<lambda>x. x\<lparr>i_lock := initsleeplock\<rparr>)) [0..<NINODE] s"

text \<open>The scan of \<open>iget\<close>: \<open>Inl\<close> an entry that holds the inode, or \<open>Inr\<close> the first free entry.\<close>

fun iget_scan :: "(nat \<Rightarrow> inode) \<Rightarrow> u32 \<Rightarrow> u32 \<Rightarrow> nat list \<Rightarrow> nat option \<Rightarrow> nat + nat option" where
  "iget_scan t dev inum [] e = Inr e"
| "iget_scan t dev inum (i # is) e =
     (if 0 < i_ref (t i) \<and> i_dev (t i) = dev \<and> i_inum (t i) = inum then Inl i
      else iget_scan t dev inum is (if e = None \<and> i_ref (t i) = 0 then Some i else e))"

definition iget :: "u32 \<Rightarrow> u32 \<Rightarrow> 'a fstate_scheme \<Rightarrow> (nat \<times> 'a fstate_scheme) res" where
  "iget dev inum s =
     (case iget_scan (itable s) dev inum [0..<NINODE] None of
        Inl ip \<Rightarrow> Inr (ip, upd_inode ip (\<lambda>x. x\<lparr>i_ref := i_ref x + 1\<rparr>) s)
      | Inr None \<Rightarrow> panic ''iget: no inodes''
      | Inr (Some ip) \<Rightarrow>
          Inr (ip, upd_inode ip (\<lambda>x. x\<lparr>i_dev := dev, i_inum := inum, i_ref := 1, i_valid := False\<rparr>) s))"

definition zero_dinode :: "u16 \<Rightarrow> dinode" where
  "zero_dinode ty = \<lparr>d_type = ty, d_major = 0, d_minor = 0, d_nlink = 0, d_size = 0,
     d_addrs = replicate (NDIRECT + 1) 0\<rparr>"

function ialloc_loop :: "int \<Rightarrow> u32 \<Rightarrow> u16 \<Rightarrow> superblock \<Rightarrow> nat \<Rightarrow> 'a fstate_scheme
    \<Rightarrow> (nat option \<times> 'a fstate_scheme) res" where
  "ialloc_loop pid dev ty sp inum s =
     (if inum < unat (sb_ninodes sp)
      then bindR (bread pid dev (IBLOCK (of_nat inum) sp) s) (\<lambda>(bp, s).
        let p = dinode_off (of_nat inum); d = b_data (bufs s bp) in
        if d_type (get_dinode d p) = 0
        then bindR (log_write bp (set_data bp (put_dinode d p (zero_dinode ty)) s)) (\<lambda>s.
             bindR (brelse pid bp s) (\<lambda>s.
             bindR (iget dev (of_nat inum) s) (\<lambda>(ip, s). Inr (Some ip, s))))
        else bindR (brelse pid bp s) (ialloc_loop pid dev ty sp (Suc inum)))
      else Inr (None, s))"
  by pat_completeness auto
termination
  by (relation "measure (\<lambda>(pid, dev, ty, sp, inum, s). unat (sb_ninodes sp) - inum)") auto

declare ialloc_loop.simps [simp del]

definition ialloc :: "int \<Rightarrow> u32 \<Rightarrow> u16 \<Rightarrow> 'a fstate_scheme \<Rightarrow> (nat option \<times> 'a fstate_scheme) res" where
  "ialloc pid dev ty s = ialloc_loop pid dev ty (sb s) 1 s"

definition dinode_of :: "inode \<Rightarrow> dinode" where
  "dinode_of x = \<lparr>d_type = i_type x, d_major = i_major x, d_minor = i_minor x, d_nlink = i_nlink x,
     d_size = i_size x, d_addrs = i_addrs x\<rparr>"

definition load_dinode :: "dinode \<Rightarrow> inode \<Rightarrow> inode" where
  "load_dinode d x = x\<lparr>i_type := d_type d, i_major := d_major d, i_minor := d_minor d,
     i_nlink := d_nlink d, i_size := d_size d, i_addrs := d_addrs d\<rparr>"

definition iupdate :: "int \<Rightarrow> nat \<Rightarrow> 'a fstate_scheme \<Rightarrow> 'a fstate_scheme res" where
  "iupdate pid ip s =
     (let x = itable s ip in
      bindR (bread pid (i_dev x) (IBLOCK (i_inum x) (sb s)) s) (\<lambda>(bp, s).
      bindR (log_write bp (set_data bp
               (put_dinode (b_data (bufs s bp)) (dinode_off (i_inum x)) (dinode_of x)) s))
        (brelse pid bp)))"

definition idup :: "nat \<Rightarrow> 'a fstate_scheme \<Rightarrow> nat \<times> 'a fstate_scheme" where
  "idup ip s = (ip, upd_inode ip (\<lambda>x. x\<lparr>i_ref := i_ref x + 1\<rparr>) s)"

definition ilock :: "int \<Rightarrow> nat \<Rightarrow> 'a fstate_scheme \<Rightarrow> 'a fstate_scheme res" where
  "ilock pid ip s =
     (if i_ref (itable s ip) < 1 then panic ''ilock''
      else bindR (acquiresleep pid (i_lock (itable s ip))) (\<lambda>lk.
        let s = upd_inode ip (\<lambda>x. x\<lparr>i_lock := lk\<rparr>) s; x = itable s ip in
        if \<not> i_valid x
        then bindR (bread pid (i_dev x) (IBLOCK (i_inum x) (sb s)) s) (\<lambda>(bp, s).
             let s = upd_inode ip (load_dinode (get_dinode (b_data (bufs s bp)) (dinode_off (i_inum x)))) s in
             bindR (brelse pid bp s) (\<lambda>s.
               let s = upd_inode ip (\<lambda>x. x\<lparr>i_valid := True\<rparr>) s in
               if i_type (itable s ip) = 0 then panic ''ilock: no type'' else Inr s))
        else Inr s))"

definition iunlock :: "int \<Rightarrow> nat \<Rightarrow> 'a fstate_scheme \<Rightarrow> 'a fstate_scheme res" where
  "iunlock pid ip s =
     (if \<not> holdingsleep pid (i_lock (itable s ip)) \<or> i_ref (itable s ip) < 1 then panic ''iunlock''
      else Inr (upd_inode ip (\<lambda>x. x\<lparr>i_lock := releasesleep (i_lock x)\<rparr>) s))"

subsection \<open>Contents of an inode\<close>

text \<open>\<open>bmap\<close> allocates the missing block and enters it in \<open>addrs\<close> or the indirect block.\<close>

definition bmap :: "int \<Rightarrow> nat \<Rightarrow> nat \<Rightarrow> 'a fstate_scheme \<Rightarrow> (u32 \<times> 'a fstate_scheme) res" where
  "bmap pid ip bn s =
     (if bn < NDIRECT
      then let addr = i_addrs (itable s ip) ! bn in
        if addr = 0
        then bindR (balloc pid (i_dev (itable s ip)) s) (\<lambda>(addr, s).
          if addr = 0 then Inr (0, s)
          else Inr (addr, upd_inode ip (\<lambda>x. x\<lparr>i_addrs := (i_addrs x)[bn := addr]\<rparr>) s))
        else Inr (addr, s)
      else let bn = bn - NDIRECT in
      if bn < NINDIRECT
      then let addr = i_addrs (itable s ip) ! NDIRECT in
        bindR (if addr = 0
          then bindR (balloc pid (i_dev (itable s ip)) s) (\<lambda>(addr, s).
            if addr = 0 then Inr (0, s)
            else Inr (addr, upd_inode ip (\<lambda>x. x\<lparr>i_addrs := (i_addrs x)[NDIRECT := addr]\<rparr>) s))
          else Inr (addr, s)) (\<lambda>(addr, s).
        if addr = 0 then Inr (0, s)
        else bindR (bread pid (i_dev (itable s ip)) addr s) (\<lambda>(bp, s).
          let addr = get32 (b_data (bufs s bp)) (4 * bn) in
          if addr = 0
          then bindR (balloc pid (i_dev (itable s ip)) s) (\<lambda>(addr, s).
            bindR (if addr \<noteq> 0
                   then log_write bp (set_data bp (put32 (b_data (bufs s bp)) (4 * bn) addr) s)
                   else Inr s) (\<lambda>s.
            bindR (brelse pid bp s) (\<lambda>s. Inr (addr, s))))
          else bindR (brelse pid bp s) (\<lambda>s. Inr (addr, s))))
      else panic ''bmap: out of range'')"

fun itrunc_direct :: "int \<Rightarrow> nat \<Rightarrow> nat list \<Rightarrow> 'a fstate_scheme \<Rightarrow> 'a fstate_scheme res" where
  "itrunc_direct pid ip [] s = Inr s"
| "itrunc_direct pid ip (i # is) s =
     (if i_addrs (itable s ip) ! i \<noteq> 0
      then bindR (bfree pid (i_dev (itable s ip)) (i_addrs (itable s ip) ! i) s) (\<lambda>s.
        itrunc_direct pid ip is (upd_inode ip (\<lambda>x. x\<lparr>i_addrs := (i_addrs x)[i := 0]\<rparr>) s))
      else itrunc_direct pid ip is s)"

text \<open>\<open>a\<close> points into the buffer \<open>bp\<close>, which stays locked while the blocks it lists are freed.\<close>

fun itrunc_indirect :: "int \<Rightarrow> u32 \<Rightarrow> nat \<Rightarrow> nat list \<Rightarrow> 'a fstate_scheme \<Rightarrow> 'a fstate_scheme res" where
  "itrunc_indirect pid dev bp [] s = Inr s"
| "itrunc_indirect pid dev bp (j # js) s =
     (let a = get32 (b_data (bufs s bp)) (4 * j) in
      bindR (if a \<noteq> 0 then bfree pid dev a s else Inr s) (itrunc_indirect pid dev bp js))"

definition itrunc :: "int \<Rightarrow> nat \<Rightarrow> 'a fstate_scheme \<Rightarrow> 'a fstate_scheme res" where
  "itrunc pid ip s =
     bindR (itrunc_direct pid ip [0..<NDIRECT] s) (\<lambda>s.
     let dev = i_dev (itable s ip); addr = i_addrs (itable s ip) ! NDIRECT in
     bindR (if addr \<noteq> 0
        then bindR (bread pid dev addr s) (\<lambda>(bp, s).
             bindR (itrunc_indirect pid dev bp [0..<NINDIRECT] s) (\<lambda>s.
             bindR (brelse pid bp s) (\<lambda>s.
             bindR (bfree pid dev addr s) (\<lambda>s.
             Inr (upd_inode ip (\<lambda>x. x\<lparr>i_addrs := (i_addrs x)[NDIRECT := 0]\<rparr>) s)))))
        else Inr s) (\<lambda>s.
     iupdate pid ip (upd_inode ip (\<lambda>x. x\<lparr>i_size := 0\<rparr>) s)))"

definition iput :: "int \<Rightarrow> nat \<Rightarrow> 'a fstate_scheme \<Rightarrow> 'a fstate_scheme res" where
  "iput pid ip s =
     bindR (if i_ref (itable s ip) = 1 \<and> i_valid (itable s ip) \<and> i_nlink (itable s ip) = 0
       then bindR (acquiresleep pid (i_lock (itable s ip))) (\<lambda>lk.
            bindR (itrunc pid ip (upd_inode ip (\<lambda>x. x\<lparr>i_lock := lk\<rparr>) s)) (\<lambda>s.
            bindR (iupdate pid ip (upd_inode ip (\<lambda>x. x\<lparr>i_type := 0\<rparr>) s)) (\<lambda>s.
            Inr (upd_inode ip (\<lambda>x. x\<lparr>i_valid := False, i_lock := releasesleep (i_lock x)\<rparr>) s))))
       else Inr s) (\<lambda>s.
     Inr (upd_inode ip (\<lambda>x. x\<lparr>i_ref := i_ref x - 1\<rparr>) s))"

definition iunlockput :: "int \<Rightarrow> nat \<Rightarrow> 'a fstate_scheme \<Rightarrow> 'a fstate_scheme res" where
  "iunlockput pid ip s = bindR (iunlock pid ip s) (iput pid ip)"

text \<open>\<open>ireclaim\<close> frees the inodes that a crash left allocated without a link.\<close>

fun ireclaim_loop :: "int \<Rightarrow> u32 \<Rightarrow> nat list \<Rightarrow> 'a fstate_scheme \<Rightarrow> 'a fstate_scheme res" where
  "ireclaim_loop pid dev [] s = Inr s"
| "ireclaim_loop pid dev (inum # is) s =
     bindR (bread pid dev (IBLOCK (of_nat inum) (sb s)) s) (\<lambda>(bp, s).
       let d = get_dinode (b_data (bufs s bp)) (dinode_off (of_nat inum)) in
       bindR (if d_type d \<noteq> 0 \<and> d_nlink d = 0
              then bindR (iget dev (of_nat inum) s) (\<lambda>(ip, s). Inr (Some ip, s))
              else Inr (None, s)) (\<lambda>(ip, s).
       bindR (brelse pid bp s) (\<lambda>s.
       bindR (case ip of None \<Rightarrow> Inr s
         | Some ip \<Rightarrow>
             bindR (begin_op s) (\<lambda>s.
             bindR (ilock pid ip s) (\<lambda>s.
             bindR (iunlock pid ip s) (\<lambda>s.
             bindR (iput pid ip s) (end_op pid))))) (ireclaim_loop pid dev is))))"

definition ireclaim :: "int \<Rightarrow> u32 \<Rightarrow> 'a fstate_scheme \<Rightarrow> 'a fstate_scheme res" where
  "ireclaim pid dev s = ireclaim_loop pid dev [1..<unat (sb_ninodes (sb s))] s"

definition fsinit :: "int \<Rightarrow> u32 \<Rightarrow> 'a fstate_scheme \<Rightarrow> 'a fstate_scheme res" where
  "fsinit pid dev s =
     bindR (readsb pid dev s) (\<lambda>s.
     if sb_magic (sb s) \<noteq> FSMAGIC then panic ''invalid file system''
     else bindR (initlog pid dev (sb_logstart (sb s)) s) (ireclaim pid dev))"

record stat =
  st_dev :: u32
  st_ino :: u32
  st_type :: u16
  st_nlink :: u16
  st_size :: u64

definition stati :: "nat \<Rightarrow> 'a fstate_scheme \<Rightarrow> stat" where
  "stati ip s = (let x = itable s ip in
     \<lparr>st_dev = i_dev x, st_ino = i_inum x, st_type = i_type x, st_nlink = i_nlink x,
      st_size = ucast (i_size x)\<rparr>)"

text \<open>
  \<open>cp dst bytes m\<close> copies out the bytes; it returns the memory and whether the copy succeeded.
  The loop has copied \<open>tot\<close> of \<open>n\<close> bytes; each round copies up to the end of a block.
\<close>

function readi_loop :: "(u64 \<Rightarrow> byte list \<Rightarrow> 'm \<Rightarrow> (bool \<times> 'm) res) \<Rightarrow> int \<Rightarrow> nat \<Rightarrow> u64 \<Rightarrow> nat \<Rightarrow> nat \<Rightarrow> nat
    \<Rightarrow> 'm \<times> 'a fstate_scheme \<Rightarrow> (int \<times> 'm \<times> 'a fstate_scheme) res" where
  "readi_loop cp pid ip dst off n tot (mm, s) =
     (if tot < n
      then bindR (bmap pid ip (off div BSIZE) s) (\<lambda>(addr, s).
        if addr = 0 then Inr (int tot, mm, s)
        else bindR (bread pid (i_dev (itable s ip)) addr s) (\<lambda>(bp, s).
          let m = min (n - tot) (BSIZE - off mod BSIZE) in
          bindR (cp dst (map (b_data (bufs s bp)) [off mod BSIZE..<off mod BSIZE + m]) mm) (\<lambda>(ok, mm).
          bindR (brelse pid bp s) (\<lambda>s.
            if \<not> ok then Inr (-1, mm, s)
            else readi_loop cp pid ip (dst + of_nat m) (off + m) n (tot + m) (mm, s)))))
      else Inr (int tot, mm, s))"
  by pat_completeness auto
termination
  by (relation "measure (\<lambda>(cp, pid, ip, dst, off, n, tot, x). n - tot)") (auto simp: layout_simps)

declare readi_loop.simps [simp del]

definition readi :: "(u64 \<Rightarrow> byte list \<Rightarrow> 'm \<Rightarrow> (bool \<times> 'm) res) \<Rightarrow> int \<Rightarrow> nat \<Rightarrow> u64 \<Rightarrow> u32 \<Rightarrow> u32
    \<Rightarrow> 'm \<times> 'a fstate_scheme \<Rightarrow> (int \<times> 'm \<times> 'a fstate_scheme) res" where
  "readi cp pid ip dst off n = (\<lambda>(mm, s).
     let isz = i_size (itable s ip) in
     if isz < off \<or> off + n < off then Inr (0, mm, s)
     else let n = (if isz < off + n then isz - off else n) in
       readi_loop cp pid ip dst (unat off) (unat n) 0 (mm, s))"

text \<open>
  \<open>cp src m\<close> fetches \<open>m\<close> bytes: whether it succeeded, and the bytes it did copy (all of them on
  success). A failed copy has already changed the buffer, which is released without being logged.
\<close>

definition put_bytes :: "block \<Rightarrow> nat \<Rightarrow> byte list \<Rightarrow> block" where
  "put_bytes d p bs = (\<lambda>i. if p \<le> i \<and> i < p + length bs then bs ! (i - p) else d i)"

function writei_loop :: "(u64 \<Rightarrow> nat \<Rightarrow> 'm \<Rightarrow> (bool \<times> byte list \<times> 'm) res) \<Rightarrow> int \<Rightarrow> nat \<Rightarrow> u64 \<Rightarrow> nat \<Rightarrow> nat \<Rightarrow> nat
    \<Rightarrow> 'm \<times> 'a fstate_scheme \<Rightarrow> (nat \<times> nat \<times> 'm \<times> 'a fstate_scheme) res" where
  "writei_loop cp pid ip src off n tot (mm, s) =
     (if tot < n
      then bindR (bmap pid ip (off div BSIZE) s) (\<lambda>(addr, s).
        if addr = 0 then Inr (tot, off, mm, s)
        else bindR (bread pid (i_dev (itable s ip)) addr s) (\<lambda>(bp, s).
          let m = min (n - tot) (BSIZE - off mod BSIZE) in
          bindR (cp src m mm) (\<lambda>(ok, bs, mm).
          let s = set_data bp (put_bytes (b_data (bufs s bp)) (off mod BSIZE) bs) s in
          if \<not> ok then bindR (brelse pid bp s) (\<lambda>s. Inr (tot, off, mm, s))
          else bindR (log_write bp s) (\<lambda>s.
               bindR (brelse pid bp s) (\<lambda>s.
                 writei_loop cp pid ip (src + of_nat m) (off + m) n (tot + m) (mm, s))))))
      else Inr (tot, off, mm, s))"
  by pat_completeness auto
termination
  by (relation "measure (\<lambda>(cp, pid, ip, src, off, n, tot, s). n - tot)") (auto simp: layout_simps)

declare writei_loop.simps [simp del]

definition writei :: "(u64 \<Rightarrow> nat \<Rightarrow> 'm \<Rightarrow> (bool \<times> byte list \<times> 'm) res) \<Rightarrow> int \<Rightarrow> nat \<Rightarrow> u64 \<Rightarrow> u32 \<Rightarrow> u32
    \<Rightarrow> 'm \<times> 'a fstate_scheme \<Rightarrow> (int \<times> 'm \<times> 'a fstate_scheme) res" where
  "writei cp pid ip src off n = (\<lambda>(mm, s).
     if i_size (itable s ip) < off \<or> off + n < off then Inr (-1, mm, s)
     else if off + n > of_nat (MAXFILE * BSIZE) then Inr (-1, mm, s)
     else bindR (writei_loop cp pid ip src (unat off) (unat n) 0 (mm, s)) (\<lambda>(tot, off, mm, s).
       let s = (if unat (i_size (itable s ip)) < off
                then upd_inode ip (\<lambda>x. x\<lparr>i_size := of_nat off\<rparr>) s else s) in
       bindR (iupdate pid ip s) (\<lambda>s. Inr (int tot, mm, s))))"

end
