(* ===== verification/FsBlocks.thy ===== *)
theory FsBlocks
  imports Fs
begin

text \<open>
  Correctness of the block layer of \<open>kernel/fs.c\<close>: the three steps of a block update inside a
  transaction as laws on the logical content of the disk, then the bitmap allocator \<open>balloc\<close>,
  \<open>bfree\<close> and the on-disk inode.
\<close>

subsection \<open>Frames\<close>

lemma bio_more_fs:
  fixes s t :: "'a fstate_scheme"
  assumes "bio.more s = bio.more t"
  shows "sb s = sb t \<and> itable s = itable t"
  using more_fields [OF assms] by (cases s; cases t) simp

lemma fs_frame [simp]:
  "sb (s\<lparr>lh := x\<rparr>) = sb s" "itable (s\<lparr>lh := x\<rparr>) = itable s"
  by simp_all

lemma inode_frame [simp]:
  "bio_inv dv (upd_inode ip f s) = bio_inv dv s" "bview dv (upd_inode ip f s) = bview dv s"
  "content (upd_inode ip f s) = content s" "slot_of (upd_inode ip f s) = slot_of s"
  "holds pid H (upd_inode ip f s) = holds pid H s" "lh (upd_inode ip f s) = lh s"
  "log_dev (upd_inode ip f s) = log_dev s" "outstanding (upd_inode ip f s) = outstanding s"
  "log_start (upd_inode ip f s) = log_start s"
  "disk (upd_inode ip f s) = disk s" "sb (upd_inode ip f s) = sb s" "bufs (upd_inode ip f s) = bufs s"
  "itable (upd_inode ip f s) = (itable s)(ip := f (itable s ip))"
proof -
  let ?t = "upd_inode ip f s"
  show same: "disk ?t = disk s" "bufs ?t = bufs s" "sb ?t = sb s" "lh ?t = lh s" "log_dev ?t = log_dev s"
    "outstanding ?t = outstanding s" "itable ?t = (itable s)(ip := f (itable s ip))" "log_start ?t = log_start s"
    by (simp_all add: upd_inode_def)
  show v: "bio_inv dv ?t = bio_inv dv s" "bview dv ?t = bview dv s" for dv
    by (rule bio_inv_cong log_bview_cong; simp add: upd_inode_def)+
  show c: "content ?t = content s" "slot_of ?t = slot_of s"
    by (simp_all add: content_def slot_of_def v same cached_def fun_eq_iff)
  show "holds pid H ?t = holds pid H s" by (simp add: holds_def v same c)
qed

text \<open>Room for \<open>k\<close> more blocks besides those held and logged.\<close>

definition cap :: "nat \<Rightarrow> u32 set \<Rightarrow> 'a lstate_scheme \<Rightarrow> bool" where
  "cap k H s \<longleftrightarrow> length (lh s) + card H + k \<le> NBUF"

lemma cap_card: "cap k H s \<Longrightarrow> 0 < k \<Longrightarrow> card (insert b (set (lh s) \<union> H)) \<le> NBUF"
proof -
  assume "cap k H s" "0 < k"
  moreover have "card (insert b (set (lh s) \<union> H)) \<le> Suc (length (lh s) + card H)"
    using card_length [of "lh s"] card_Un_le [of "set (lh s)" H] by (simp add: card_insert_if)
  ultimately show ?thesis by (simp add: cap_def)
qed

lemma cap_log: "cap k H s \<Longrightarrow> 0 < k \<Longrightarrow> length (lh s) < LOGBLOCKS"
  by (simp add: cap_def NBUF_def layout_simps)

text \<open>
  What an operation inside a transaction keeps: the slots of the held buffers, the disk, the
  log's parameters, the superblock; it logs at most \<open>k\<close> new blocks.
\<close>

definition kept :: "u32 set \<Rightarrow> nat \<Rightarrow> 'a fstate_scheme \<Rightarrow> 'a fstate_scheme \<Rightarrow> bool" where
  "kept H k s s' \<longleftrightarrow> (\<forall>c\<in>H. slot_of s' c = slot_of s c) \<and> disk s' = disk s
     \<and> log_dev s' = log_dev s \<and> log_start s' = log_start s \<and> outstanding s' = outstanding s
     \<and> sb s' = sb s \<and> length (lh s') \<le> length (lh s) + k"

lemma kept_refl [simp]: "kept H k s s"
  by (simp add: kept_def)

lemma kept_trans: "kept H j s t \<Longrightarrow> kept H k t u \<Longrightarrow> j + k \<le> l \<Longrightarrow> kept H l s u"
  by (auto simp: kept_def)

lemma kept_subset: "kept H k s t \<Longrightarrow> G \<subseteq> H \<Longrightarrow> kept G k s t"
  by (auto simp: kept_def)

lemma keptD: "kept H k s t \<Longrightarrow> log_dev t = log_dev s \<and> outstanding t = outstanding s \<and> sb t = sb s
    \<and> disk t = disk s \<and> length (lh t) \<le> length (lh s) + k"
  by (simp add: kept_def)

lemma kept_slot: "kept H k s t \<Longrightarrow> b \<in> H \<Longrightarrow> slot_of t b = slot_of s b"
  by (simp add: kept_def)

lemma kept_cap: "kept H j s t \<Longrightarrow> cap k G s \<Longrightarrow> card F + i + j \<le> card G + k \<Longrightarrow> cap i F t"
  by (auto simp: kept_def cap_def)

lemma kept_upd_inode [simp]:
  "kept H k s (upd_inode ip f t) = kept H k s t" "kept H k (upd_inode ip f s) t = kept H k s t"
  "cap k H (upd_inode ip f s) = cap k H s"
  by (simp_all add: kept_def cap_def)

lemma bio_more_kept:
  fixes s :: "'a fstate_scheme"
  assumes "bio.more s' = bio.more (s\<lparr>lh := hs\<rparr>)" "disk s' = disk s" "\<forall>c\<in>H. slot_of s' c = slot_of s c"
    "length hs \<le> length (lh s) + k"
  shows "kept H k s s' \<and> itable s' = itable s \<and> lh s' = hs"
  using more_fields [OF assms(1)] bio_more_fs [OF assms(1)] assms(2-) by (simp add: kept_def)

lemma fs_bread:
  assumes "holds pid H s" "b \<notin> H" "cap k H s" "0 < k"
  shows "\<exists>i s'. bread pid (log_dev s) b s = Inr (i, s') \<and> kept H 0 s s' \<and> holds pid (insert b H) s'
     \<and> b_data (bufs s' i) = content s b \<and> slot_of s' b = Some i \<and> content s' = content s
     \<and> itable s' = itable s \<and> lh s' = lh s"
proof -
  obtain i s' where s': "bread pid (log_dev s) b s = Inr (i, s')" "holds pid (insert b H) s'"
    "b_data (bufs s' i) = content s b" "slot_of s' b = Some i" "\<forall>c\<in>H. slot_of s' c = slot_of s c"
    "content s' = content s" "bio.more s' = bio.more s" "disk s' = disk s"
    using holds_bread [OF assms(1,2) cap_card [OF assms(3,4)]] by blast
  then show ?thesis using bio_more_kept [where s = s and s' = s' and hs = "lh s" and H = H and k = 0] by auto
qed

lemma fs_log_write:
  assumes "holds pid H s" "b \<in> H" "slot_of s b = Some i" "length (lh s) < LOGBLOCKS" "1 \<le> outstanding s"
  shows "\<exists>s'. log_write i (set_data i d s) = Inr s' \<and> kept H 1 s s' \<and> holds pid H s'
     \<and> content s' = (content s)(b := d) \<and> itable s' = itable s
     \<and> lh s' = (if b \<in> set (lh s) then lh s else lh s @ [b])"
proof -
  let ?h = "if b \<in> set (lh s) then lh s else lh s @ [b]"
  obtain s' where s': "log_write i (set_data i d s) = Inr s'" "holds pid H s'" "slot_of s' = slot_of s"
    "content s' = (content s)(b := d)" "bio.more s' = bio.more (s\<lparr>lh := ?h\<rparr>)" "disk s' = disk s"
    using holds_log_write [OF assms, of d] by blast
  then show ?thesis using bio_more_kept [OF s'(5,6), of H 1] by auto
qed

lemma fs_brelse:
  assumes "holds pid H s" "b \<in> H" "slot_of s b = Some i"
  shows "\<exists>s'. brelse pid i s = Inr s' \<and> kept H 0 s s' \<and> holds pid (H - {b}) s'
     \<and> content s' = content s \<and> itable s' = itable s \<and> lh s' = lh s"
proof -
  obtain s' where s': "brelse pid i s = Inr s'" "holds pid (H - {b}) s'" "slot_of s' = slot_of s"
    "content s' = content s" "bio.more s' = bio.more s" "disk s' = disk s"
    using holds_brelse [OF assms] by blast
  then show ?thesis using bio_more_kept [where s = s and s' = s' and hs = "lh s" and H = H and k = 0] by auto
qed

text \<open>The three together: change one block that is not held.\<close>

lemma fs_update:
  assumes h: "holds pid H s" and b: "b \<notin> H" and c: "cap k H s" "0 < k" and o: "1 \<le> outstanding s"
  shows "\<exists>i s1 s2 s3. bread pid (log_dev s) b s = Inr (i, s1) \<and> b_data (bufs s1 i) = content s b
     \<and> kept H 0 s s1 \<and> itable s1 = itable s
     \<and> log_write i (set_data i d s1) = Inr s2 \<and> brelse pid i s2 = Inr s3 \<and> kept H 1 s s3
     \<and> holds pid H s3 \<and> content s3 = (content s)(b := d) \<and> itable s3 = itable s"
proof -
  obtain i s1 where 1: "bread pid (log_dev s) b s = Inr (i, s1)" "kept H 0 s s1" "holds pid (insert b H) s1"
    "b_data (bufs s1 i) = content s b" "slot_of s1 b = Some i" "content s1 = content s"
    "itable s1 = itable s" "lh s1 = lh s" using fs_bread [OF h b c] by blast
  obtain s2 where 2: "log_write i (set_data i d s1) = Inr s2" "kept (insert b H) 1 s1 s2"
    "holds pid (insert b H) s2" "content s2 = (content s)(b := d)" "itable s2 = itable s"
    using fs_log_write [OF 1(3) insertI1 1(5), of d] cap_log [OF c] o keptD [OF 1(2)] 1(6-8) by auto
  obtain s3 where 3: "brelse pid i s2 = Inr s3" "kept (insert b H) 0 s2 s3" "holds pid (insert b H - {b}) s3"
    "content s3 = content s2" "itable s3 = itable s2"
    using fs_brelse [OF 2(3) insertI1, of i] kept_slot [OF 2(2) insertI1] 1(5) by auto
  have "kept (insert b H) 1 s1 s3" by (rule kept_trans [OF 2(2) 3(2)]) simp
  then have "kept H 1 s1 s3" by (rule kept_subset) blast
  then have "kept H 1 s s3" by (rule kept_trans [OF 1(2)]) simp
  moreover have "insert b H - {b} = H" using b by blast
  ultimately show ?thesis using 1 2 3 by metis
qed

subsection \<open>The bitmap\<close>

definition is_free :: "(u32 \<Rightarrow> block) \<Rightarrow> superblock \<Rightarrow> nat \<Rightarrow> bool" where
  "is_free c sp k \<longleftrightarrow> bit_free (c (BBLOCK (of_nat k) sp)) (k mod BPB)"

lemma bit_mask_nz: "bit_mask b \<noteq> 0"
proof
  assume "bit_mask b = 0"
  then have "bit (bit_mask b) (b mod 8) = False" by simp
  then show False by (simp add: bit_mask_def bit_simps)
qed

lemma disjoint_bits: "x AND m = 0 \<Longrightarrow> \<not> (bit x n \<and> bit m n)" for x m :: byte
  using bit_and_iff [of x m n] by auto

lemma bit_mask_AND: "a div 8 = b div 8 \<Longrightarrow> a \<noteq> b \<Longrightarrow> bit_mask a AND bit_mask b = 0"
proof -
  assume "a div 8 = b div 8" "a \<noteq> b"
  then have "a mod 8 \<noteq> b mod 8" by (metis div_mult_mod_eq)
  then show ?thesis by (auto simp: bit_eq_iff bit_simps bit_mask_def)
qed

lemma bit_free_set: "bit_free (bm_set d a) b \<longleftrightarrow> bit_free d b \<and> a \<noteq> b"
proof (cases "a div 8 = b div 8")
  case True
  have "(x OR bit_mask a) AND bit_mask b = 0 \<longleftrightarrow> x AND bit_mask b = 0 \<and> a \<noteq> b" for x
  proof (cases "a = b")
    case True
    then show ?thesis using bit_mask_nz by (simp add: or.commute)
  next
    case False
    then show ?thesis using bit_mask_AND [OF True False] by (simp add: bit.conj_disj_distrib2)
  qed
  then show ?thesis using True by (simp add: bit_free_def bm_set_def)
qed (auto simp: bit_free_def bm_set_def)

lemma bit_free_clear: "bit_free (bm_clear d a) b \<longleftrightarrow> bit_free d b \<or> a = b"
proof (cases "a div 8 = b div 8")
  case True
  have "(x AND NOT (bit_mask a)) AND bit_mask b = 0 \<longleftrightarrow> x AND bit_mask b = 0 \<or> a = b" for x
  proof (cases "a = b")
    case True
    then show ?thesis by (simp add: and.assoc)
  next
    case False
    have "NOT (bit_mask a) AND bit_mask b = bit_mask b"
      using disjoint_bits [OF bit_mask_AND [OF True False]]
      by (intro bit_word_eqI) (auto simp: bit_and_iff bit_not_iff)
    then show ?thesis using False by (simp add: and.assoc)
  qed
  then show ?thesis using True by (simp add: bit_free_def bm_clear_def)
qed (auto simp: bit_free_def bm_clear_def)

lemma bm_clear_set: "bit_free d b \<Longrightarrow> bm_clear (bm_set d b) b = d"
proof -
  assume f: "bit_free d b"
  have "(x OR m) AND NOT m = x" if "x AND m = 0" for x m :: byte
    using disjoint_bits [OF that] by (intro bit_word_eqI) (auto simp: bit_and_iff bit_not_iff bit_or_iff)
  then show ?thesis using f by (simp add: bit_free_def bm_clear_def bm_set_def)
qed

lemma free_bit_find: "free_bit d b sz i = find (bit_free d) [i..<min BPB (sz - b)]"
proof (induction d b sz i rule: free_bit.induct)
  case (1 d b sz i)
  then show ?case
    by (subst free_bit.simps) (auto simp: upt_rec [of i])
qed

lemma find_map: "find P (map f xs) = map_option f (find (P \<circ> f) xs)"
  by (induction xs) auto

lemma find_append: "find P (xs @ ys) = (case find P xs of None \<Rightarrow> find P ys | Some x \<Rightarrow> Some x)"
  by (induction xs) auto

lemma BBLOCK_same:
  assumes "BPB dvd b" "bi < BPB" "b + bi < 2 ^ 32"
  shows "BBLOCK (of_nat (b + bi)) sp = BBLOCK (of_nat b) sp"
proof -
  have "(of_nat (b + bi) :: u32) div of_nat BPB = of_nat ((b + bi) div BPB)"
    "(of_nat b :: u32) div of_nat BPB = of_nat (b div BPB)"
    using assms(3) div_le_dividend [of "b + bi" BPB] div_le_dividend [of b BPB]
    by (auto simp: word_unat_eq_iff unat_div_distrib unat_of_nat_small BPB_def BSIZE_def simp del: of_nat_add)
  then show ?thesis using assms(1,2) by (auto simp: BBLOCK_def elim!: dvdE)
qed

lemma upt_append_split: "i \<le> j \<Longrightarrow> j \<le> k \<Longrightarrow> [i..<k] = [i..<j] @ [j..<k]"
  using upt_add_eq_append [of i j "k - j"] by simp

lemma free_bit_is_free:
  assumes "BPB dvd b" "sz < 2 ^ 32" "b < sz"
  shows "find (is_free c sp) [b..<sz] =
    (case free_bit (c (BBLOCK (of_nat b) sp)) b sz 0 of
       Some bi \<Rightarrow> Some (b + bi) | None \<Rightarrow> find (is_free c sp) [b + BPB..<sz])"
proof -
  let ?m = "min BPB (sz - b)" and ?d = "c (BBLOCK (of_nat b) sp)"
  have "is_free c sp (b + bi) = bit_free ?d bi" if "bi < ?m" for bi
    using BBLOCK_same [OF assms(1), of bi sp] that assms by (auto simp: is_free_def elim!: dvdE)
  then have "find (is_free c sp \<circ> (+) b) [0..<?m] = find (bit_free ?d) [0..<?m]"
    by (intro find_cong) auto
  moreover have "[b..<b + ?m] = map ((+) b) [0..<?m]" by (intro nth_equalityI) simp_all
  moreover have "[b..<sz] = [b..<b + ?m] @ [b + ?m..<sz]"
    by (rule upt_append_split) (use assms(3) in auto)
  moreover have "[b + ?m..<sz] = [b + BPB..<sz]" by (auto simp: min_def)
  ultimately show ?thesis
    by (simp add: find_append find_map free_bit_find split: option.splits)
qed

lemma bzero_ok:
  assumes "holds pid H s" "b \<notin> H" "cap k H s" "0 < k" "1 \<le> outstanding s"
  shows "\<exists>s'. bzero pid (log_dev s) b s = Inr s' \<and> holds pid H s' \<and> kept H 1 s s'
    \<and> content s' = (content s)(b := zeroed (content s b)) \<and> itable s' = itable s"
proof -
  obtain i s1 s2 s3 where "bread pid (log_dev s) b s = Inr (i, s1)" "b_data (bufs s1 i) = content s b"
    "log_write i (set_data i (zeroed (content s b)) s1) = Inr s2" "brelse pid i s2 = Inr s3"
    "kept H 1 s s3" "holds pid H s3" "content s3 = (content s)(b := zeroed (content s b))"
    "itable s3 = itable s" using fs_update [OF assms] by blast
  then show ?thesis by (simp add: bzero_def)
qed

text \<open>
  The outcome of \<open>balloc\<close> in terms of the disk's content: the first free block at or after \<open>b\<close> is
  marked and zeroed, or the disk is full.
\<close>

definition balloc_result :: "superblock \<Rightarrow> nat \<Rightarrow> (u32 \<Rightarrow> block) \<Rightarrow> u32 \<times> (u32 \<Rightarrow> block)" where
  "balloc_result sp b c =
     (case find (is_free c sp) [b..<unat (sb_size sp)] of
        None \<Rightarrow> (0, c)
      | Some k \<Rightarrow> let bb = BBLOCK (of_nat k) sp; c' = c(bb := bm_set (c bb) (k mod BPB))
                  in (of_nat k, c'(of_nat k := zeroed (c' (of_nat k)))))"

lemma balloc_loop_ok:
  assumes "holds pid H s" "cap 2 H s" "1 \<le> outstanding s" "BPB dvd b"
    and "\<And>k. k < unat (sb_size sp) \<Longrightarrow> BBLOCK (of_nat k) sp \<notin> H"
    and "\<And>k. k < unat (sb_size sp) \<Longrightarrow> is_free (content s) sp k \<Longrightarrow> of_nat k \<notin> H"
  shows "\<exists>a s'. balloc_loop pid (log_dev s) sp b s = Inr (a, s') \<and> holds pid H s' \<and> kept H 2 s s'
    \<and> itable s' = itable s \<and> (a, content s') = balloc_result sp b (content s)"
  using assms
proof (induction "unat (sb_size sp) - b" arbitrary: b s rule: less_induct)
  case less
  let ?sz = "unat (sb_size sp)" and ?bb = "BBLOCK (of_nat b) sp"
  show ?case
  proof (cases "b < ?sz")
    case False
    then show ?thesis using less.prems(1) by (simp add: balloc_loop.simps [of _ _ _ b] balloc_result_def)
  next
    case True
    have sz: "?sz < 2 ^ 32" using unat_bound [of "sb_size sp"] by simp
    note ff = free_bit_is_free [OF less.prems(4) sz True, of "content s" sp]
    obtain i s1 where 1: "bread pid (log_dev s) ?bb s = Inr (i, s1)" "kept H 0 s s1" "holds pid (insert ?bb H) s1"
      "b_data (bufs s1 i) = content s ?bb" "slot_of s1 ?bb = Some i" "content s1 = content s"
      "itable s1 = itable s" "lh s1 = lh s"
      using fs_bread [OF less.prems(1) less.prems(5) [OF True] less.prems(2)] by auto
    have o1: "log_dev s1 = log_dev s" "1 \<le> outstanding s1" "length (lh s1) < LOGBLOCKS"
      using keptD [OF 1(2)] less.prems(3) cap_log [OF less.prems(2)] 1(8) by auto
    show ?thesis
    proof (cases "free_bit (content s ?bb) b ?sz 0")
      case None
      obtain s2 where 2: "brelse pid i s1 = Inr s2" "kept (insert ?bb H) 0 s1 s2" "holds pid (insert ?bb H - {?bb}) s2"
        "content s2 = content s" "itable s2 = itable s"
        using fs_brelse [OF 1(3) insertI1 1(5)] 1(6,7) by auto
      have H: "insert ?bb H - {?bb} = H" using less.prems(5) [OF True] by blast
      have k2: "kept H 0 s s2" by (rule kept_trans [OF 1(2) kept_subset [OF 2(2)]]) auto
      have e2: "log_dev s2 = log_dev s" "1 \<le> outstanding s2" using keptD [OF k2] less.prems(3) by auto
      have "\<exists>a s'. balloc_loop pid (log_dev s2) sp (b + BPB) s2 = Inr (a, s') \<and> holds pid H s' \<and> kept H 2 s2 s'
        \<and> itable s' = itable s2 \<and> (a, content s') = balloc_result sp (b + BPB) (content s2)"
        by (rule less.hyps)
          (use less.prems True 2 H k2 e2 kept_cap [OF k2 less.prems(2), of H 2] in \<open>auto intro!: diff_less_mono2\<close>)
      then obtain a s3 where 3: "balloc_loop pid (log_dev s) sp (b + BPB) s2 = Inr (a, s3)" "holds pid H s3"
        "kept H 2 s2 s3" "itable s3 = itable s" "(a, content s3) = balloc_result sp (b + BPB) (content s)"
        using e2 2 by auto
      have "balloc_result sp b (content s) = balloc_result sp (b + BPB) (content s)"
        unfolding balloc_result_def ff None by simp
      moreover have "kept H 2 s s3" by (rule kept_trans [OF k2 3(3)]) simp
      moreover have "balloc_loop pid (log_dev s) sp b s = Inr (a, s3)"
        using True 1 2 3 None by (simp add: balloc_loop.simps [of _ _ _ b])
      ultimately show ?thesis using 3 by metis
    next
      case (Some bi)
      let ?c = "(content s)(?bb := bm_set (content s ?bb) bi)" and ?k = "b + bi"
      have bi: "bi < BPB" "?k < ?sz"
        using Some by (auto simp: free_bit_find find_Some_iff)
      have fr: "is_free (content s) sp ?k" "find (is_free (content s) sp) [b..<?sz] = Some ?k"
        using ff Some by (auto simp: find_Some_iff)
      have bb: "BBLOCK (of_nat ?k) sp = ?bb" using BBLOCK_same [OF less.prems(4) bi(1)] bi(2) sz by simp
      have md: "?k mod BPB = bi" using less.prems(4) bi(1) by (auto elim!: dvdE)
      obtain s2 where 2: "log_write i (set_data i (bm_set (content s ?bb) bi) s1) = Inr s2"
        "kept (insert ?bb H) 1 s1 s2" "holds pid (insert ?bb H) s2" "content s2 = ?c" "itable s2 = itable s"
        using fs_log_write [OF 1(3) insertI1 1(5) o1(3,2)] 1(6,7) by auto
      obtain s3 where 3: "brelse pid i s2 = Inr s3" "kept (insert ?bb H) 0 s2 s3" "holds pid (insert ?bb H - {?bb}) s3"
        "content s3 = ?c" "itable s3 = itable s"
        using fs_brelse [OF 2(3) insertI1, of i] kept_slot [OF 2(2) insertI1] 1(5) 2(4,5) by auto
      have H: "insert ?bb H - {?bb} = H" using less.prems(5) [OF True] by blast
      have "kept (insert ?bb H) 1 s1 s3" by (rule kept_trans [OF 2(2) 3(2)]) simp
      then have "kept H 1 s1 s3" by (rule kept_subset) blast
      then have k3: "kept H 1 s s3" by (rule kept_trans [OF 1(2)]) simp
      have e3: "log_dev s3 = log_dev s" "1 \<le> outstanding s3" using keptD [OF k3] less.prems(3) by auto
      have "cap 1 H s3" by (rule kept_cap [OF k3 less.prems(2)]) simp
      moreover have "holds pid H s3" using 3(3) H by simp
      ultimately obtain s4 where 4: "bzero pid (log_dev s3) (of_nat ?k) s3 = Inr s4" "holds pid H s4" "kept H 1 s3 s4"
        "content s4 = ?c(of_nat ?k := zeroed (?c (of_nat ?k)))" "itable s4 = itable s"
        using bzero_ok [OF _ less.prems(6) [OF bi(2) fr(1)] _ zero_less_one e3(2)] 3(4,5) by metis
      have "kept H 2 s s4" by (rule kept_trans [OF k3 4(3)]) simp
      moreover have "balloc_loop pid (log_dev s) sp b s = Inr (of_nat ?k, s4)"
        using True 1 2 3 4 e3 Some by (simp add: balloc_loop.simps [of _ _ _ b] del: of_nat_add)
      moreover have "(of_nat ?k, content s4) = balloc_result sp b (content s)"
        unfolding balloc_result_def fr(2) 4(4) by (simp add: Let_def bb md del: of_nat_add)
      ultimately show ?thesis using 4 by blast
    qed
  qed
qed

lemma bfree_ok:
  assumes "holds pid H s" "BBLOCK b (sb s) \<notin> H" "cap k H s" "0 < k" "1 \<le> outstanding s"
  shows "if bit_free (content s (BBLOCK b (sb s))) (unat b mod BPB)
    then bfree pid (log_dev s) b s = panic ''freeing free block''
    else \<exists>s'. bfree pid (log_dev s) b s = Inr s' \<and> holds pid H s' \<and> kept H 1 s s' \<and> itable s' = itable s
      \<and> content s' = (content s)(BBLOCK b (sb s) := bm_clear (content s (BBLOCK b (sb s))) (unat b mod BPB))"
proof -
  let ?bb = "BBLOCK b (sb s)" and ?bi = "unat b mod BPB"
  have bi: "unat (b mod of_nat BPB) = ?bi"
    by (simp add: unat_mod_distrib layout_simps)
  obtain i s1 s2 s3 where 1: "bread pid (log_dev s) ?bb s = Inr (i, s1)" "b_data (bufs s1 i) = content s ?bb"
    "log_write i (set_data i (bm_clear (content s ?bb) ?bi) s1) = Inr s2" "brelse pid i s2 = Inr s3"
    "kept H 1 s s3" "holds pid H s3" "content s3 = (content s)(?bb := bm_clear (content s ?bb) ?bi)"
    "itable s3 = itable s" using fs_update [OF assms] by blast
  then show ?thesis by (simp add: bfree_def Let_def bi)
qed

text \<open>The bitmap marks its own blocks as used.\<close>

definition bitmap_marked :: "(u32 \<Rightarrow> block) \<Rightarrow> superblock \<Rightarrow> bool" where
  "bitmap_marked c sp \<longleftrightarrow> (\<forall>k<unat (sb_size sp). \<forall>j<unat (sb_size sp).
     BBLOCK (of_nat j) sp = of_nat k \<longrightarrow> \<not> is_free c sp k)"

lemma BBLOCK_inj_mod:
  assumes "BBLOCK (of_nat j) sp = BBLOCK (of_nat k) sp" "j mod BPB = k mod BPB" "j < 2 ^ 32" "k < 2 ^ 32"
  shows "j = k"
proof -
  have "(of_nat j :: u32) div of_nat BPB = of_nat k div of_nat BPB" using assms(1) by (simp add: BBLOCK_def)
  then have "unat ((of_nat j :: u32) div of_nat BPB) = unat ((of_nat k :: u32) div of_nat BPB)" by simp
  then have "j div BPB = k div BPB"
    using assms(3,4) by (simp add: unat_div_distrib unat_of_nat_small BPB_def BSIZE_def)
  then show ?thesis using assms(2) by (metis div_mult_mod_eq)
qed

lemma balloc_result_Some:
  assumes f: "find (is_free c sp) [0..<unat (sb_size sp)] = Some k" and m: "bitmap_marked c sp"
  shows "\<exists>c'. balloc_result sp 0 c = (of_nat k, c') \<and> k < unat (sb_size sp) \<and> is_free c sp k
    \<and> (\<forall>j<k. \<not> is_free c sp j)
    \<and> (\<forall>j<unat (sb_size sp). is_free c' sp j \<longleftrightarrow> is_free c sp j \<and> j \<noteq> k)
    \<and> (\<forall>i<BSIZE. c' (of_nat k) i = 0)
    \<and> (\<forall>b. b \<noteq> of_nat k \<and> b \<noteq> BBLOCK (of_nat k) sp \<longrightarrow> c' b = c b)"
proof -
  let ?bb = "BBLOCK (of_nat k) sp" and ?sz = "unat (sb_size sp)"
  let ?c = "c(?bb := bm_set (c ?bb) (k mod BPB))"
  let ?c' = "?c(of_nat k := zeroed (?c (of_nat k)))"
  have sz: "?sz < 2 ^ 32" using unat_bound [of "sb_size sp"] by simp
  have k: "k < ?sz" "is_free c sp k" "\<forall>j<k. \<not> is_free c sp j"
    using f by (auto simp: find_Some_iff)
  have r: "balloc_result sp 0 c = (of_nat k, ?c')" unfolding balloc_result_def f by (simp add: Let_def)
  have "is_free ?c' sp j \<longleftrightarrow> is_free c sp j \<and> j \<noteq> k" if j: "j < ?sz" for j
  proof -
    have "BBLOCK (of_nat j) sp \<noteq> of_nat k" using m k j by (auto simp: bitmap_marked_def)
    then have "is_free ?c' sp j = is_free ?c sp j" by (simp add: is_free_def)
    moreover have "is_free ?c sp j \<longleftrightarrow> is_free c sp j \<and> j \<noteq> k"
    proof (cases "BBLOCK (of_nat j) sp = ?bb")
      case True
      then show ?thesis using BBLOCK_inj_mod [OF True] j k(1) sz by (auto simp: is_free_def bit_free_set)
    next
      case False
      then show ?thesis by (auto simp: is_free_def)
    qed
    ultimately show ?thesis by simp
  qed
  then show ?thesis using k r by (intro exI [of _ ?c']) (simp add: zeroed_def)
qed

subsection \<open>The inode on disk\<close>

lemma put_addrs_other32: "a + 4 \<le> p \<or> p + 4 * length as \<le> a \<Longrightarrow> get32 (put_addrs d p as) a = get32 d a"
  by (induction d p as rule: put_addrs.induct) (auto simp: get32_put32_other)

lemma put_addrs_other16: "a + 2 \<le> p \<or> p + 4 * length as \<le> a \<Longrightarrow> get16 (put_addrs d p as) a = get16 d a"
  by (induction d p as rule: put_addrs.induct) (auto simp: get16_put32_other)

lemma get_put_addrs: "i < length as \<Longrightarrow> get32 (put_addrs d p as) (p + 4 * i) = as ! i"
proof (induction d p as arbitrary: i rule: put_addrs.induct)
  case (2 d p a as)
  show ?case
  proof (cases i)
    case 0
    then show ?thesis by (simp add: put_addrs_other32)
  next
    case (Suc n)
    then show ?thesis using "2.IH" [of n] "2.prems" by (simp add: algebra_simps)
  qed
qed simp

lemmas field_simps_disk = get16_put16_other get16_put32_other get32_put16_other get32_put32_other
  put_addrs_other16 put_addrs_other32

lemma get_put_dinode:
  assumes "length (d_addrs x) = NDIRECT + 1"
  shows "get_dinode (put_dinode d p x) p = x"
proof -
  have "map (\<lambda>i. get32 (put_dinode d p x) (p + 12 + 4 * i)) [0..<NDIRECT + 1] = d_addrs x"
    using get_put_addrs [of _ "d_addrs x" _ "p + 12"] assms
    by (intro nth_equalityI) (simp_all add: put_dinode_def del: upt_Suc)
  then show ?thesis
    by (cases x) (simp add: get_dinode_def put_dinode_def field_simps_disk del: upt_Suc)
qed

lemma get_put_dinode_other:
  assumes "length (d_addrs x) = NDIRECT + 1" "p + 64 \<le> q \<or> q + 64 \<le> p"
  shows "get_dinode (put_dinode d p x) q = get_dinode d q"
proof -
  let ?d = "put_dinode d p x"
  have 16: "get16 ?d (q + a) = get16 d (q + a)" if "a \<le> 62" for a
    using assms that by (auto simp: put_dinode_def field_simps_disk layout_simps)
  have 32: "get32 ?d (q + a) = get32 d (q + a)" if "a \<le> 60" for a
    using assms that by (auto simp: put_dinode_def field_simps_disk layout_simps)
  have "map (\<lambda>i. get32 ?d (q + 12 + 4 * i)) [0..<NDIRECT + 1] = map (\<lambda>i. get32 d (q + 12 + 4 * i)) [0..<NDIRECT + 1]"
    using 32 by (intro map_cong) (auto simp: add.assoc layout_simps)
  then show ?thesis
    unfolding get_dinode_def using 16 [of 0] 16 [of 2] 16 [of 4] 16 [of 6] 32 [of 8] by simp
qed

lemma dinode_off_disjoint:
  assumes "IBLOCK i sp = IBLOCK j sp" "i \<noteq> j"
  shows "dinode_off i + 64 \<le> dinode_off j \<or> dinode_off j + 64 \<le> dinode_off i"
proof -
  have "i div 16 = j div 16" using assms(1) by (simp add: IBLOCK_def layout_simps)
  then have "i mod 16 \<noteq> j mod 16" using assms(2) by (metis div_mult_mod_eq)
  then have "unat (i mod 16) \<noteq> unat (j mod 16)" by simp
  then consider "Suc (unat (i mod 16)) \<le> unat (j mod 16)" | "Suc (unat (j mod 16)) \<le> unat (i mod 16)"
    by linarith
  then show ?thesis
    unfolding dinode_off_def layout_simps by cases (drule mult_le_mono1 [where k = 64], simp)+
qed

definition disk_inode :: "(u32 \<Rightarrow> block) \<Rightarrow> superblock \<Rightarrow> u32 \<Rightarrow> dinode" where
  "disk_inode c sp inum = get_dinode (c (IBLOCK inum sp)) (dinode_off inum)"

lemma disk_inode_put:
  assumes "length (d_addrs x) = NDIRECT + 1"
  shows "disk_inode (c(IBLOCK i sp := put_dinode (c (IBLOCK i sp)) (dinode_off i) x)) sp j =
    (if j = i then x else disk_inode c sp j)"
proof (cases "j = i \<or> IBLOCK j sp \<noteq> IBLOCK i sp")
  case True
  then show ?thesis using assms by (auto simp: disk_inode_def get_put_dinode)
next
  case False
  then show ?thesis
    using assms dinode_off_disjoint [of i sp j] by (auto simp: disk_inode_def get_put_dinode_other)
qed

lemma iupdate_ok:
  assumes "holds pid H s" "IBLOCK (i_inum (itable s ip)) (sb s) \<notin> H" "cap k H s" "0 < k"
    and "1 \<le> outstanding s" "i_dev (itable s ip) = log_dev s"
  shows "\<exists>s'. iupdate pid ip s = Inr s' \<and> holds pid H s' \<and> kept H 1 s s' \<and> itable s' = itable s
    \<and> content s' = (content s)(IBLOCK (i_inum (itable s ip)) (sb s) :=
        put_dinode (content s (IBLOCK (i_inum (itable s ip)) (sb s))) (dinode_off (i_inum (itable s ip)))
          (dinode_of (itable s ip)))"
proof -
  let ?x = "itable s ip" let ?b = "IBLOCK (i_inum ?x) (sb s)"
  let ?d = "put_dinode (content s ?b) (dinode_off (i_inum ?x)) (dinode_of ?x)"
  obtain i s1 s2 s3 where "bread pid (log_dev s) ?b s = Inr (i, s1)" "b_data (bufs s1 i) = content s ?b"
    "log_write i (set_data i ?d s1) = Inr s2" "brelse pid i s2 = Inr s3" "kept H 1 s s3" "holds pid H s3"
    "content s3 = (content s)(?b := ?d)" "itable s3 = itable s"
    using fs_update [OF assms(1-5)] by blast
  then show ?thesis using assms(6) by (simp add: iupdate_def Let_def)
qed

subsection \<open>A state to evaluate on\<close>

lemma extend_lstate [simp]:
  fixes s :: lstate
  shows "holds pid H (lstate.extend s x) = holds pid H s" "content (lstate.extend s x) = content s"
    "lh (lstate.extend s x) = lh s" "outstanding (lstate.extend s x) = outstanding s"
    "log_dev (lstate.extend s x) = log_dev s" "disk (lstate.extend s x) = disk s"
proof -
  let ?t = "lstate.extend s x"
  show f: "lh ?t = lh s" "outstanding ?t = outstanding s" "log_dev ?t = log_dev s" "disk ?t = disk s"
    by (simp_all add: lstate.defs)
  have v: "bio_inv dv ?t = bio_inv dv s" "bview dv ?t = bview dv s" for dv
    by (rule bio_inv_cong log_bview_cong; simp add: lstate.defs)+
  show c: "content ?t = content s" by (simp add: content_def v f)
  show "holds pid H ?t = holds pid H s" by (simp add: holds_def v c f)
qed

lemma example_state:
  "\<exists>s :: fstate. holds pid {} s \<and> lh s = [45] \<and> outstanding s = 1 \<and> log_dev s = 1 \<and> content s 45 = d
     \<and> sb s = sp \<and> itable s = t"
proof -
  obtain s :: lstate where s: "log_inv s" "lh s = []" "log_dev s = 1" "log_start s = 2" "outstanding s = 1"
    using blocks_logged [of 0] by auto
  have "45 \<notin> log_region (log_start s)" using s(4) outside_region [of 45] by simp
  then obtain s' :: lstate where "log_inv s'" "content s' = (content s)(45 := d)" "lh s' = [45]"
    "outstanding s' = 1" "log_dev s' = 1"
    using log_block_ok [of s 45 pid "\<lambda>_. d"] s by (auto simp: layout_simps)
  then show ?thesis
    using log_inv_holds [of s' pid]
    by (intro exI [of _ "lstate.extend s' \<lparr>sb = sp, itable = t\<rparr>"]) (simp, simp add: lstate.defs)
qed

subsection \<open>Properties\<close>

text \<open>
  C10: \<open>balloc\<close> inside a transaction with room for two more blocks. If the bitmap has a free block it
  returns the first one, zeroed and now marked in use; no other block of the disk loses or gains
  its mark and no content besides that block's and its bitmap block's changes. If there is none it
  returns 0 and changes nothing.
\<close>

theorem balloc_correct:
  assumes "holds pid H s" and "length (lh s) + card H + 2 \<le> NBUF" and "1 \<le> outstanding s"
    and "bitmap_marked (content s) (sb s)"
    and "\<forall>k<unat (sb_size (sb s)). BBLOCK (of_nat k) (sb s) \<notin> H \<and> (is_free (content s) (sb s) k \<longrightarrow> of_nat k \<notin> H)"
  shows "\<exists>a s'. balloc pid (log_dev s) s = Inr (a, s') \<and> holds pid H s' \<and> disk s' = disk s
    \<and> (if \<exists>k<unat (sb_size (sb s)). is_free (content s) (sb s) k
       then \<exists>k<unat (sb_size (sb s)). a = of_nat k \<and> is_free (content s) (sb s) k
         \<and> (\<forall>j<k. \<not> is_free (content s) (sb s) j)
         \<and> (\<forall>j<unat (sb_size (sb s)). is_free (content s') (sb s) j \<longleftrightarrow> is_free (content s) (sb s) j \<and> j \<noteq> k)
         \<and> (\<forall>i<BSIZE. content s' a i = 0)
         \<and> (\<forall>b. b \<noteq> a \<and> b \<noteq> BBLOCK a (sb s) \<longrightarrow> content s' b = content s b)
       else a = 0 \<and> content s' = content s)"
proof -
  let ?P = "is_free (content s) (sb s)" and ?sz = "unat (sb_size (sb s))"
  have "\<exists>a s'. balloc_loop pid (log_dev s) (sb s) 0 s = Inr (a, s') \<and> holds pid H s' \<and> kept H 2 s s'
    \<and> itable s' = itable s \<and> (a, content s') = balloc_result (sb s) 0 (content s)"
    by (rule balloc_loop_ok) (use assms in \<open>auto simp: cap_def\<close>)
  then obtain a s' where r: "balloc pid (log_dev s) s = Inr (a, s')" "holds pid H s'" "disk s' = disk s"
    "(a, content s') = balloc_result (sb s) 0 (content s)"
    by (auto simp: balloc_def kept_def)
  show ?thesis
  proof (cases "find ?P [0..<?sz]")
    case None
    then have "\<not> (\<exists>k<?sz. ?P k)" by (auto simp: find_None_iff)
    then show ?thesis using r None by (auto simp: balloc_result_def)
  next
    case (Some k)
    then have "\<exists>k<?sz. ?P k" by (auto simp: find_Some_iff)
    then show ?thesis using r balloc_result_Some [OF Some assms(4)] by (auto intro!: exI [of _ k])
  qed
qed

definition example_sb :: superblock where
  "example_sb = \<lparr>sb_magic = FSMAGIC, sb_size = 46, sb_nblocks = 0, sb_ninodes = 20, sb_nlog = 30,
     sb_logstart = 2, sb_inodestart = 33, sb_bmapstart = 45\<rparr>"

lemma example_free:
  assumes "c 45 = (\<lambda>i. if i = 0 then 0xF7 else 0xFF)" "k < 46"
  shows "is_free c example_sb k \<longleftrightarrow> k = 3"
proof -
  have "BBLOCK (of_nat k) example_sb = 45"
  proof -
    have "unat (of_nat k div 8192 :: u32) = 0" using assms(2) by (simp add: unat_div_distrib unat_of_nat_small)
    then show ?thesis by (simp add: BBLOCK_def example_sb_def layout_simps unat_0_iff)
  qed
  then have "is_free c example_sb k \<longleftrightarrow> (if k div 8 = 0 then 0xF7 else 0xFF) AND bit_mask k = 0"
    using assms by (simp add: is_free_def bit_free_def layout_simps)
  moreover have "\<forall>k\<in>set [0..<46]. ((if k div 8 = 0 then 0xF7 else 0xFF) AND bit_mask k = 0) = (k = 3)"
    unfolding bit_mask_def by code_simp
  ultimately show ?thesis using assms(2) by simp
qed

theorem balloc_correct_witness:
  "\<exists>s :: fstate. unat (sb_size (sb s)) = 46 \<and> (\<exists>s'. balloc 1 (log_dev s) s = Inr (3, s') \<and> content s' 3 7 = 0)"
proof -
  obtain s :: fstate where s: "holds 1 {} s" "lh s = [45]" "outstanding s = 1"
    "content s 45 = (\<lambda>i. if i = 0 then 0xF7 else 0xFF)" "sb s = example_sb"
    using example_state [of 1 _ example_sb undefined] by blast
  note f = example_free [of "content s", OF s(4)]
  have sz: "unat (sb_size (sb s)) = 46" by (simp add: s(5) example_sb_def)
  have m: "bitmap_marked (content s) (sb s)"
    unfolding bitmap_marked_def sz using f
    by (auto simp: s(5) BBLOCK_def example_sb_def layout_simps word_arith_nat_div unat_of_nat_small)
  have "\<exists>k<46. is_free (content s) (sb s) k" using f [of 3] s(5) by (intro exI [of _ 3]) simp
  then obtain a s' k where "balloc 1 (log_dev s) s = Inr (a, s')" "k < 46" "a = of_nat k"
    "is_free (content s) (sb s) k" "\<forall>i<BSIZE. content s' a i = 0"
    using balloc_correct [OF s(1) _ _ m] s(2,3) sz by (auto simp: NBUF_def)
  then show ?thesis using f [of k] sz s(5) by (intro exI [of _ s]) (simp add: layout_simps)
qed

text \<open>
  C22: \<open>bfree\<close> undoes the marking of \<open>balloc\<close> and never touches a block that is already free.
  Freeing a marked block clears exactly its bit; freeing a free one panics; and freeing what
  \<open>balloc\<close> has just returned restores the bitmap block bit for bit.
\<close>

theorem bfree_correct:
  assumes "holds pid H s" and "BBLOCK b (sb s) \<notin> H" and "length (lh s) + card H + 1 \<le> NBUF"
    and "1 \<le> outstanding s" and "unat b < unat (sb_size (sb s))"
  shows "if is_free (content s) (sb s) (unat b) then bfree pid (log_dev s) b s = panic ''freeing free block''
    else \<exists>s'. bfree pid (log_dev s) b s = Inr s' \<and> holds pid H s'
      \<and> (\<forall>j<unat (sb_size (sb s)). is_free (content s') (sb s) j \<longleftrightarrow> is_free (content s) (sb s) j \<or> j = unat b)
      \<and> (\<forall>c. c \<noteq> BBLOCK b (sb s) \<longrightarrow> content s' c = content s c)
      \<and> (\<forall>d. bit_free d (unat b mod BPB) \<and> content s (BBLOCK b (sb s)) = bm_set d (unat b mod BPB)
             \<longrightarrow> content s' (BBLOCK b (sb s)) = d)"
proof -
  let ?bb = "BBLOCK b (sb s)" and ?bi = "unat b mod BPB" and ?sz = "unat (sb_size (sb s))"
  have fr: "is_free (content s) (sb s) (unat b) \<longleftrightarrow> bit_free (content s ?bb) ?bi"
    by (simp add: is_free_def)
  have "cap 1 H s" using assms(3) by (simp add: cap_def)
  note ok = bfree_ok [OF assms(1,2) this zero_less_one assms(4)]
  show ?thesis
  proof (cases "bit_free (content s ?bb) ?bi")
    case True
    then show ?thesis using ok fr by simp
  next
    case False
    then obtain s' where s': "bfree pid (log_dev s) b s = Inr s'" "holds pid H s'"
      "content s' = (content s)(?bb := bm_clear (content s ?bb) ?bi)" using ok by auto
    have sz: "?sz < 2 ^ 32" using unat_bound [of "sb_size (sb s)"] by simp
    have "is_free (content s') (sb s) j \<longleftrightarrow> is_free (content s) (sb s) j \<or> j = unat b" if j: "j < ?sz" for j
    proof (cases "BBLOCK (of_nat j) (sb s) = ?bb")
      case True
      then show ?thesis
        using BBLOCK_inj_mod [of j "sb s" "unat b"] j assms(5) sz
        by (auto simp: is_free_def s'(3) bit_free_clear)
    next
      case False
      then show ?thesis by (auto simp: is_free_def s'(3))
    qed
    then show ?thesis using s' False fr by (auto simp: bm_clear_set)
  qed
qed

theorem bfree_correct_witness:
  "\<exists>s :: fstate. bfree 1 (log_dev s) 3 s = panic ''freeing free block''
     \<and> (\<exists>s'. bfree 1 (log_dev s) 4 s = Inr s' \<and> is_free (content s') (sb s) 4)"
proof -
  obtain s :: fstate where s: "holds 1 {} s" "lh s = [45]" "outstanding s = 1"
    "content s 45 = (\<lambda>i. if i = 0 then 0xF7 else 0xFF)" "sb s = example_sb"
    using example_state [of 1 _ example_sb undefined] by blast
  note f = example_free [of "content s", OF s(4)]
  have sz: "unat (sb_size (sb s)) = 46" by (simp add: s(5) example_sb_def)
  have "bfree 1 (log_dev s) 3 s = panic ''freeing free block''"
    using bfree_correct [OF s(1), of 3] f [of 3] s(2,3,5) sz by (simp add: NBUF_def)
  moreover have "\<exists>s'. bfree 1 (log_dev s) 4 s = Inr s' \<and> is_free (content s') (sb s) 4"
    using bfree_correct [OF s(1), of 4] f [of 4] s(2,3,5) sz by (auto simp: NBUF_def)
  ultimately show ?thesis by blast
qed

text \<open>
  C24: \<open>iupdate\<close> writes the in-memory inode to its place on disk: reading that place back, as
  \<open>ilock\<close> does, gives every field again, and no other inode of the disk changes.
\<close>

theorem iupdate_roundtrip:
  assumes "holds pid H s" and "IBLOCK (i_inum (itable s ip)) (sb s) \<notin> H" and "length (lh s) + card H + 1 \<le> NBUF"
    and "1 \<le> outstanding s" and "i_dev (itable s ip) = log_dev s" and "length (i_addrs (itable s ip)) = NDIRECT + 1"
  shows "\<exists>s'. iupdate pid ip s = Inr s' \<and> holds pid H s' \<and> itable s' = itable s
    \<and> load_dinode (disk_inode (content s') (sb s) (i_inum (itable s ip))) (itable s ip) = itable s ip
    \<and> (\<forall>j. j \<noteq> i_inum (itable s ip) \<longrightarrow> disk_inode (content s') (sb s) j = disk_inode (content s) (sb s) j)"
proof -
  have "cap 1 H s" using assms(3) by (simp add: cap_def)
  then obtain s' where s': "iupdate pid ip s = Inr s'" "holds pid H s'" "itable s' = itable s"
    "content s' = (content s)(IBLOCK (i_inum (itable s ip)) (sb s) :=
        put_dinode (content s (IBLOCK (i_inum (itable s ip)) (sb s))) (dinode_off (i_inum (itable s ip)))
          (dinode_of (itable s ip)))"
    using iupdate_ok [OF assms(1,2) _ zero_less_one assms(4,5)] by blast
  have "disk_inode (content s') (sb s) j =
      (if j = i_inum (itable s ip) then dinode_of (itable s ip) else disk_inode (content s) (sb s) j)" for j
    unfolding s'(4) by (rule disk_inode_put) (simp add: dinode_of_def assms(6))
  moreover have "load_dinode (dinode_of x) x = x" for x
    by (simp add: load_dinode_def dinode_of_def)
  ultimately show ?thesis using s' by simp
qed

definition example_inode :: inode where
  "example_inode = \<lparr>i_dev = 1, i_inum = 5, i_ref = 1, i_lock = \<lparr>sl_locked = True, sl_pid = 1\<rparr>, i_valid = True,
     i_type = T_FILE, i_major = 0, i_minor = 0, i_nlink = 1, i_size = 700,
     i_addrs = 40 # replicate NDIRECT 0\<rparr>"

theorem iupdate_roundtrip_witness:
  "\<exists>s s' :: fstate. iupdate 1 0 s = Inr s' \<and> d_size (disk_inode (content s') (sb s) 5) = 700"
proof -
  obtain s :: fstate where s: "holds 1 {} s" "lh s = [45]" "outstanding s = 1" "log_dev s = 1"
    "sb s = example_sb" "itable s = (\<lambda>_. example_inode)"
    using example_state [of 1 undefined example_sb "\<lambda>_. example_inode"] by blast
  then obtain s' where "iupdate 1 0 s = Inr s'"
    "load_dinode (disk_inode (content s') (sb s) 5) example_inode = example_inode"
    using iupdate_roundtrip [of 1 "{}" s 0] by (auto simp: example_inode_def NBUF_def)
  then show ?thesis by (auto simp: load_dinode_def example_inode_def)
qed

subsection \<open>The inode table\<close>

text \<open>No two entries in use hold the same inode.\<close>

definition itable_ok :: "(nat \<Rightarrow> inode) \<Rightarrow> bool" where
  "itable_ok t \<longleftrightarrow> (\<forall>i<NINODE. \<forall>j<NINODE. 0 < i_ref (t i) \<and> 0 < i_ref (t j)
     \<and> i_dev (t i) = i_dev (t j) \<and> i_inum (t i) = i_inum (t j) \<longrightarrow> i = j)"

lemma itable_ok_upd:
  assumes "itable_ok t"
    and "\<And>j. j < NINODE \<Longrightarrow> j \<noteq> ip \<Longrightarrow> \<not> (0 < i_ref (t j) \<and> i_dev (t j) = i_dev x \<and> i_inum (t j) = i_inum x)"
  shows "itable_ok (t(ip := x))"
  using assms unfolding itable_ok_def by (metis fun_upd_apply)

lemma iget_scan_result:
  "case iget_scan t dev inum js e of
     Inl i \<Rightarrow> i \<in> set js \<and> 0 < i_ref (t i) \<and> i_dev (t i) = dev \<and> i_inum (t i) = inum
   | Inr r \<Rightarrow> (\<forall>i\<in>set js. \<not> (0 < i_ref (t i) \<and> i_dev (t i) = dev \<and> i_inum (t i) = inum))
       \<and> r = (if e = None then find (\<lambda>i. i_ref (t i) = 0) js else e)"
  by (induction t dev inum js e rule: iget_scan.induct) (auto split: sum.splits)

text \<open>
  C25: \<open>iget\<close> keeps the inode table a set: it never creates a second entry for an inode. If the
  inode has an entry its reference count goes up by one and nothing else changes; otherwise the
  first free entry becomes an invalid entry with one reference; it panics exactly when the inode
  has no entry and no entry is free.
\<close>

theorem iget_unique:
  assumes "itable_ok (itable s)"
  shows "case iget dev inum s of
     Inl err \<Rightarrow> err = Panic ''iget: no inodes'' \<and> (\<forall>i<NINODE. i_ref (itable s i) \<noteq> 0
         \<and> \<not> (0 < i_ref (itable s i) \<and> i_dev (itable s i) = dev \<and> i_inum (itable s i) = inum))
   | Inr (ip, s') \<Rightarrow> ip < NINODE \<and> itable_ok (itable s') \<and> i_dev (itable s' ip) = dev \<and> i_inum (itable s' ip) = inum
       \<and> (\<forall>i. i \<noteq> ip \<longrightarrow> itable s' i = itable s i) \<and> content s' = content s
       \<and> (if \<exists>i<NINODE. 0 < i_ref (itable s i) \<and> i_dev (itable s i) = dev \<and> i_inum (itable s i) = inum
          then itable s' ip = (itable s ip)\<lparr>i_ref := i_ref (itable s ip) + 1\<rparr> \<and> 0 < i_ref (itable s ip)
          else i_ref (itable s ip) = 0 \<and> i_ref (itable s' ip) = 1 \<and> \<not> i_valid (itable s' ip))"
proof (cases "iget_scan (itable s) dev inum [0..<NINODE] None")
  case (Inl ip)
  then have "ip < NINODE \<and> 0 < i_ref (itable s ip) \<and> i_dev (itable s ip) = dev \<and> i_inum (itable s ip) = inum"
    using iget_scan_result [where t = "itable s" and dev = dev and inum = inum and js = "[0..<NINODE]" and e = None] by simp
  moreover from this have "itable_ok ((itable s)(ip := (itable s ip)\<lparr>i_ref := i_ref (itable s ip) + 1\<rparr>))"
    using assms by (intro itable_ok_upd) (auto simp: itable_ok_def)
  ultimately show ?thesis using Inl by (auto simp: iget_def)
next
  case (Inr r)
  then have none: "\<forall>i<NINODE. \<not> (0 < i_ref (itable s i) \<and> i_dev (itable s i) = dev \<and> i_inum (itable s i) = inum)"
    and r: "r = find (\<lambda>i. i_ref (itable s i) = 0) [0..<NINODE]"
    using iget_scan_result [where t = "itable s" and dev = dev and inum = inum and js = "[0..<NINODE]" and e = None] by simp_all
  show ?thesis
  proof (cases r)
    case None
    then have "\<forall>i<NINODE. i_ref (itable s i) \<noteq> 0" using r by (auto simp: find_None_iff)
    then show ?thesis using Inr None none by (simp add: iget_def)
  next
    case (Some ip)
    then have ip: "ip < NINODE" "i_ref (itable s ip) = 0" using r by (auto simp: find_Some_iff)
    moreover have "itable_ok ((itable s)(ip := (itable s ip)\<lparr>i_dev := dev, i_inum := inum, i_ref := 1, i_valid := False\<rparr>))"
      using assms none by (intro itable_ok_upd) auto
    moreover have "\<not> (\<exists>i<NINODE. 0 < i_ref (itable s i) \<and> i_dev (itable s i) = dev \<and> i_inum (itable s i) = inum)"
      using none by blast
    ultimately show ?thesis using Inr Some by (simp add: iget_def)
  qed
qed

theorem iget_unique_witness:
  "\<exists>s :: fstate. \<exists>s'. iget 1 9 s = Inr (1, s') \<and> i_inum (itable s' 1) = 9"
proof -
  let ?t = "\<lambda>i. if i = 0 then example_inode else example_inode\<lparr>i_ref := 0\<rparr>"
  obtain s :: fstate where s: "itable s = ?t" using example_state [of 1 undefined example_sb ?t] by blast
  have "itable_ok (itable s)" by (simp add: s itable_ok_def example_inode_def)
  moreover obtain ip s' where g: "iget 1 9 s = Inr (ip, s')" "ip = 1"
    by (auto simp: iget_def s NINODE_def example_inode_def upt_conv_Cons)
  ultimately show ?thesis using iget_unique [of s 1 9] by auto
qed

end
