(* ===== verification/FsDir.thy ===== *)
theory FsDir
  imports FsBlocks
begin

text \<open>
  \<open>kernel/fs.c\<close>, directories and path names. A path is the list of its bytes before the NUL; a
  name buffer is a list of \<open>DIRSIZ\<close> bytes, of which the code may leave a tail unwritten. The copies
  to and from the \<open>struct dirent\<close> on the kernel stack are the two copy functions below.
\<close>

subsection \<open>Copies to and from kernel memory\<close>

text \<open>\<open>either_copyout\<close> and \<open>either_copyin\<close> for a kernel buffer: consecutive \<open>memmove\<close>s.\<close>

definition to_kernel :: "u64 \<Rightarrow> byte list \<Rightarrow> byte list \<Rightarrow> (bool \<times> byte list) res" where
  "to_kernel dst bs m = Inr (True, m @ bs)"

definition from_kernel :: "byte list \<Rightarrow> u64 \<Rightarrow> nat \<Rightarrow> unit \<Rightarrow> (bool \<times> byte list \<times> unit) res" where
  "from_kernel bytes src m u = Inr (True, take m (drop (unat src) bytes), u)"

subsection \<open>Directory entries\<close>

definition DIRSIZ :: nat where [layout_simps]: "DIRSIZ = 14"
definition DIRENT_SIZE :: nat where [layout_simps]: "DIRENT_SIZE = 16"

definition de_inum :: "byte list \<Rightarrow> u16" where
  "de_inum de = ucast (de ! 0) OR push_bit 8 (ucast (de ! 1))"

definition mk_dirent :: "u32 \<Rightarrow> byte list \<Rightarrow> byte list" where
  "mk_dirent inum name = [ucast inum, ucast (drop_bit 8 inum)] @ name"

fun strncmp_list :: "byte list \<Rightarrow> byte list \<Rightarrow> nat \<Rightarrow> int" where
  "strncmp_list s t 0 = 0"
| "strncmp_list s t (Suc n) =
     (let p = (case s of [] \<Rightarrow> 0 | c # _ \<Rightarrow> c); q = (case t of [] \<Rightarrow> 0 | c # _ \<Rightarrow> c) in
      if p \<noteq> 0 \<and> p = q then strncmp_list (tl s) (tl t) n else uint p - uint q)"

definition namecmp :: "byte list \<Rightarrow> byte list \<Rightarrow> int" where
  "namecmp s t = strncmp_list s t DIRSIZ"

text \<open>\<open>strncpy(de.name, name, DIRSIZ)\<close>: the bytes before the NUL, then zeros.\<close>

definition strncpy_name :: "byte list \<Rightarrow> byte list" where
  "strncpy_name name = take DIRSIZ (takeWhile (\<lambda>c. c \<noteq> 0) name @ replicate DIRSIZ 0)"

function dirlookup_loop :: "int \<Rightarrow> nat \<Rightarrow> byte list \<Rightarrow> nat \<Rightarrow> nat \<Rightarrow> 'a fstate_scheme
    \<Rightarrow> ((nat \<times> nat) option \<times> 'a fstate_scheme) res" where
  "dirlookup_loop pid dp name sz off s =
     (if off < sz
      then bindR (readi to_kernel pid dp 0 (of_nat off) (of_nat DIRENT_SIZE) ([], s)) (\<lambda>(r, de, s).
        if r \<noteq> int DIRENT_SIZE then panic ''dirlookup read''
        else if de_inum de = 0 then dirlookup_loop pid dp name sz (off + DIRENT_SIZE) s
        else if namecmp name (drop 2 de) = 0
        then bindR (iget (i_dev (itable s dp)) (ucast (de_inum de)) s) (\<lambda>(ip, s). Inr (Some (ip, off), s))
        else dirlookup_loop pid dp name sz (off + DIRENT_SIZE) s)
      else Inr (None, s))"
  by pat_completeness auto
termination
  by (relation "measure (\<lambda>(pid, dp, name, sz, off, s). sz - off)")
    (auto simp: layout_simps intro!: diff_less_mono2)

declare dirlookup_loop.simps [simp del]

definition dirlookup :: "int \<Rightarrow> nat \<Rightarrow> byte list \<Rightarrow> 'a fstate_scheme
    \<Rightarrow> ((nat \<times> nat) option \<times> 'a fstate_scheme) res" where
  "dirlookup pid dp name s =
     (if i_type (itable s dp) \<noteq> T_DIR then panic ''dirlookup not DIR''
      else dirlookup_loop pid dp name (unat (i_size (itable s dp))) 0 s)"

text \<open>The offset of the first free entry of a directory, or its size.\<close>

function dirlink_slot :: "int \<Rightarrow> nat \<Rightarrow> nat \<Rightarrow> nat \<Rightarrow> 'a fstate_scheme \<Rightarrow> (nat \<times> 'a fstate_scheme) res" where
  "dirlink_slot pid dp sz off s =
     (if off < sz
      then bindR (readi to_kernel pid dp 0 (of_nat off) (of_nat DIRENT_SIZE) ([], s)) (\<lambda>(r, de, s).
        if r \<noteq> int DIRENT_SIZE then panic ''dirlink read''
        else if de_inum de = 0 then Inr (off, s)
        else dirlink_slot pid dp sz (off + DIRENT_SIZE) s)
      else Inr (off, s))"
  by pat_completeness auto
termination
  by (relation "measure (\<lambda>(pid, dp, sz, off, s). sz - off)")
    (auto simp: layout_simps intro!: diff_less_mono2)

declare dirlink_slot.simps [simp del]

definition dirlink :: "int \<Rightarrow> nat \<Rightarrow> byte list \<Rightarrow> u32 \<Rightarrow> 'a fstate_scheme \<Rightarrow> (int \<times> 'a fstate_scheme) res" where
  "dirlink pid dp name inum s =
     bindR (dirlookup pid dp name s) (\<lambda>(r, s).
       case r of
         Some (ip, _) \<Rightarrow> bindR (iput pid ip s) (\<lambda>s. Inr (-1, s))
       | None \<Rightarrow>
           bindR (dirlink_slot pid dp (unat (i_size (itable s dp))) 0 s) (\<lambda>(off, s).
           bindR (writei (from_kernel (mk_dirent inum (strncpy_name name))) pid dp 0 (of_nat off)
                   (of_nat DIRENT_SIZE) ((), s)) (\<lambda>(w, _, s).
             Inr (if w \<noteq> int DIRENT_SIZE then -1 else 0, s))))"

subsection \<open>Paths\<close>

definition slash :: byte where "slash = 47"

definition skipelem :: "byte list \<Rightarrow> byte list \<Rightarrow> (byte list \<times> byte list) option" where
  "skipelem path name =
     (let path = dropWhile (\<lambda>c. c = slash) path in
      if path = [] then None
      else let s = takeWhile (\<lambda>c. c \<noteq> slash) path;
               path = dropWhile (\<lambda>c. c \<noteq> slash) path;
               len = length s;
               name = (if DIRSIZ \<le> len then take DIRSIZ s else s @ [0] @ drop (len + 1) name)
           in Some (dropWhile (\<lambda>c. c = slash) path, name))"

lemma skipelem_shorter:
  assumes "skipelem path name = Some (path', name')"
  shows "length path' < length path"
proof -
  let ?p = "dropWhile (\<lambda>c. c = slash) path"
  have ne: "?p \<noteq> []" "path' = dropWhile (\<lambda>c. c = slash) (dropWhile (\<lambda>c. c \<noteq> slash) ?p)"
    using assms by (auto simp: skipelem_def Let_def split: if_splits)
  have "hd ?p \<noteq> slash" using ne(1) hd_dropWhile by blast
  then obtain c cs where cs: "?p = c # cs" "c \<noteq> slash" using ne(1) by (cases ?p) auto
  have "length path' \<le> length (dropWhile (\<lambda>c. c \<noteq> slash) ?p)" unfolding ne(2) by (rule length_dropWhile_le)
  also have "\<dots> \<le> length cs" unfolding cs(1) using cs(2) by (simp add: length_dropWhile_le)
  also have "\<dots> < length ?p" by (simp add: cs(1))
  also have "\<dots> \<le> length path" by (rule length_dropWhile_le)
  finally show ?thesis .
qed

function namex_loop :: "int \<Rightarrow> bool \<Rightarrow> nat \<Rightarrow> byte list \<Rightarrow> byte list \<Rightarrow> 'a fstate_scheme
    \<Rightarrow> (nat option \<times> byte list \<times> 'a fstate_scheme) res" where
  "namex_loop pid parent ip path name s =
     (case skipelem path name of
        None \<Rightarrow>
          if parent then bindR (iput pid ip s) (\<lambda>s. Inr (None, name, s)) else Inr (Some ip, name, s)
      | Some (path', name') \<Rightarrow>
          bindR (ilock pid ip s) (\<lambda>s.
          if i_type (itable s ip) \<noteq> T_DIR
          then bindR (iunlockput pid ip s) (\<lambda>s. Inr (None, name', s))
          else if parent \<and> path' = []
          then bindR (iunlock pid ip s) (\<lambda>s. Inr (Some ip, name', s))
          else bindR (dirlookup pid ip name' s) (\<lambda>(r, s).
            case r of
              None \<Rightarrow> bindR (iunlockput pid ip s) (\<lambda>s. Inr (None, name', s))
            | Some (next, _) \<Rightarrow>
                bindR (iunlockput pid ip s) (namex_loop pid parent next path' name'))))"
  by pat_completeness auto
termination
  by (relation "measure (\<lambda>(pid, parent, ip, path, name, s). length path)") (auto dest: skipelem_shorter)

declare namex_loop.simps [simp del]

definition namex :: "int \<Rightarrow> nat \<Rightarrow> byte list \<Rightarrow> bool \<Rightarrow> byte list \<Rightarrow> 'a fstate_scheme
    \<Rightarrow> (nat option \<times> byte list \<times> 'a fstate_scheme) res" where
  "namex pid cwd path parent name s =
     bindR (if take 1 path = [slash] then iget ROOTDEV ROOTINO s else Inr (idup cwd s)) (\<lambda>(ip, s).
       namex_loop pid parent ip path name s)"

definition namei :: "int \<Rightarrow> nat \<Rightarrow> byte list \<Rightarrow> 'a fstate_scheme \<Rightarrow> (nat option \<times> 'a fstate_scheme) res" where
  "namei pid cwd path s =
     bindR (namex pid cwd path False (replicate DIRSIZ 0) s) (\<lambda>(r, _, s). Inr (r, s))"

definition nameiparent :: "int \<Rightarrow> nat \<Rightarrow> byte list \<Rightarrow> byte list \<Rightarrow> 'a fstate_scheme
    \<Rightarrow> (nat option \<times> byte list \<times> 'a fstate_scheme) res" where
  "nameiparent pid cwd path name s = namex pid cwd path True name s"

subsection \<open>Path elements\<close>

text \<open>The elements of a path: the non-empty pieces between slashes.\<close>

fun pieces :: "byte list \<Rightarrow> byte list list" where
  "pieces [] = [[]]"
| "pieces (c # cs) = (if c = slash then [] # pieces cs else (c # hd (pieces cs)) # tl (pieces cs))"

definition elements :: "byte list \<Rightarrow> byte list list" where
  "elements p = filter (\<lambda>e. e \<noteq> []) (pieces p)"

lemma pieces_ne: "pieces p \<noteq> []"
  by (cases p) auto

lemma elements_slash: "elements (dropWhile (\<lambda>c. c = slash) p) = elements p"
  by (induction p) (auto simp: elements_def)

lemma pieces_take:
  "pieces p = takeWhile (\<lambda>c. c \<noteq> slash) p #
     (case dropWhile (\<lambda>c. c \<noteq> slash) p of [] \<Rightarrow> [] | _ # r \<Rightarrow> pieces r)"
  by (induction p) (auto simp: pieces_ne split: list.splits)

lemma elements_take:
  assumes "p \<noteq> []" "hd p \<noteq> slash"
  shows "elements p = takeWhile (\<lambda>c. c \<noteq> slash) p # elements (dropWhile (\<lambda>c. c \<noteq> slash) p)"
proof -
  have t: "takeWhile (\<lambda>c. c \<noteq> slash) p \<noteq> []" using assms by (cases p) auto
  show ?thesis
  proof (cases "dropWhile (\<lambda>c. c \<noteq> slash) p")
    case Nil
    have "elements p = [takeWhile (\<lambda>c. c \<noteq> slash) p]"
      using t unfolding elements_def by (subst pieces_take) (simp only: Nil list.case, simp)
    then show ?thesis unfolding Nil by (simp add: elements_def)
  next
    case (Cons c r)
    then have "c = slash" by (metis (mono_tags, lifting) hd_dropWhile list.distinct(1) list.sel(1))
    then show ?thesis using Cons t pieces_take [of p] by (simp add: elements_def)
  qed
qed

lemma elements_Nil: "elements p = [] \<longleftrightarrow> dropWhile (\<lambda>c. c = slash) p = []"
proof (cases "dropWhile (\<lambda>c. c = slash) p")
  case Nil
  have "elements p = elements []" using elements_slash [of p] unfolding Nil by simp
  then show ?thesis unfolding Nil by (simp add: elements_def)
next
  case (Cons c cs)
  then have "c \<noteq> slash" by (metis (mono_tags, lifting) hd_dropWhile list.distinct(1) list.sel(1))
  then have "elements (c # cs) \<noteq> []" by (subst elements_take) simp_all
  then show ?thesis using elements_slash [of p] Cons by simp
qed

text \<open>
  C26: \<open>skipelem\<close> peels off exactly one path element. On a path without elements it returns 0;
  otherwise the name buffer receives the first element (cut to \<open>DIRSIZ\<close> bytes, or NUL-terminated
  if shorter), the returned path has the remaining elements and no leading slash, and it is
  shorter, so the loop of \<open>namex\<close> ends after one round per element.
\<close>

theorem skipelem_correct:
  "case skipelem path name of
     None \<Rightarrow> elements path = []
   | Some (path', name') \<Rightarrow>
       elements path = hd (elements path) # elements path' \<and> length path' < length path
       \<and> (path' \<noteq> [] \<longrightarrow> hd path' \<noteq> slash)
       \<and> (if DIRSIZ \<le> length (hd (elements path)) then name' = take DIRSIZ (hd (elements path))
          else \<exists>tail. name' = hd (elements path) @ 0 # tail)"
proof (cases "dropWhile (\<lambda>c. c = slash) path = []")
  case True
  then show ?thesis by (simp add: skipelem_def elements_Nil)
next
  case False
  let ?p = "dropWhile (\<lambda>c. c = slash) path"
  let ?r = "dropWhile (\<lambda>c. c = slash) (dropWhile (\<lambda>c. c \<noteq> slash) ?p)"
  have "hd ?p \<noteq> slash" using False hd_dropWhile by blast
  then have e: "elements path = takeWhile (\<lambda>c. c \<noteq> slash) ?p # elements ?r"
    using elements_take [OF False] elements_slash by metis
  moreover have "hd ?r \<noteq> slash" if "?r \<noteq> []" using that hd_dropWhile by blast
  ultimately show ?thesis
    using False skipelem_shorter [of path name] by (auto simp: skipelem_def Let_def)
qed

theorem skipelem_correct_witness:
  "skipelem [47, 47, 97, 47, 47, 98, 98] (replicate 14 0) = Some ([98, 98], [97, 0] @ replicate 12 0)
     \<and> elements [47, 47, 97, 47, 47, 98, 98] = [97] # elements [98, 98]"
proof -
  have "skipelem [47, 47, 97, 47, 47, 98, 98] (replicate 14 0) = Some ([98, 98], [97, 0] @ replicate 12 0)"
    by (simp add: skipelem_def slash_def layout_simps)
  moreover have "hd (elements [47, 47, 97, 47, 47, 98, 98]) = [97]"
    by (simp add: elements_def slash_def)
  ultimately show ?thesis
    using skipelem_correct [of "[47, 47, 97, 47, 47, 98, 98]" "replicate 14 0"] by auto
qed

end
