(* ===== verification/Pipe.thy ===== *)
theory Pipe
  imports Prelude
begin

text \<open>
  \<open>kernel/pipe.c\<close>: the ring buffer of a pipe. \<open>nread\<close> and \<open>nwrite\<close> are 32-bit counters that wrap
  around. \<open>pipewrite\<close> and \<open>piperead\<close> take the copy of one byte from or to the user as an argument,
  with the memory it works on; when the code would sleep they return \<open>Sleeping i\<close>, and the call goes
  on from index \<open>i\<close> when the process is woken. The locale \<open>bounded_queue\<close> is the contract of the
  ring; the pipe's FIFO order is proved from it. Allocation and closing of the pipe object, which
  also touch the file table and the page allocator, are in \<open>File\<close>.
\<close>

subsection \<open>The pipe\<close>

definition PIPESIZE :: u32 where [layout_simps]: "PIPESIZE = 512"

record pipe =
  p_data :: "nat \<Rightarrow> byte"
  p_nread :: u32
  p_nwrite :: u32
  p_readopen :: bool
  p_writeopen :: bool

definition new_pipe :: "(nat \<Rightarrow> byte) \<Rightarrow> pipe" where
  "new_pipe d = \<lparr>p_data = d, p_nread = 0, p_nwrite = 0, p_readopen = True, p_writeopen = True\<rparr>"

definition pipe_full :: "pipe \<Rightarrow> bool" where
  "pipe_full pi \<longleftrightarrow> p_nwrite pi = p_nread pi + PIPESIZE"

definition pipe_empty :: "pipe \<Rightarrow> bool" where
  "pipe_empty pi \<longleftrightarrow> p_nread pi = p_nwrite pi"

text \<open>\<open>pi->data[pi->nwrite++ % PIPESIZE] = ch\<close> and \<open>ch = pi->data[pi->nread++ % PIPESIZE]\<close>.\<close>

definition pipe_put :: "byte \<Rightarrow> pipe \<Rightarrow> pipe" where
  "pipe_put ch pi = pi\<lparr>p_data := (p_data pi)(unat (p_nwrite pi mod PIPESIZE) := ch), p_nwrite := p_nwrite pi + 1\<rparr>"

definition pipe_get :: "pipe \<Rightarrow> byte \<times> pipe" where
  "pipe_get pi = (p_data pi (unat (p_nread pi mod PIPESIZE)), pi\<lparr>p_nread := p_nread pi + 1\<rparr>)"

datatype outcome = Returned int | Sleeping nat

function pipewrite :: "(nat \<Rightarrow> 'm \<Rightarrow> (byte option \<times> 'm) res) \<Rightarrow> bool \<Rightarrow> int \<Rightarrow> nat \<Rightarrow> pipe \<times> 'm
    \<Rightarrow> (outcome \<times> pipe \<times> 'm) res" where
  "pipewrite cp killed n i (pi, m) =
     (if int i < n
      then if \<not> p_readopen pi \<or> killed then Inr (Returned (-1), pi, m)
        else if pipe_full pi then Inr (Sleeping i, pi, m)
        else bindR (cp i m) (\<lambda>(ch, m).
          case ch of None \<Rightarrow> Inr (Returned (int i), pi, m)
          | Some ch \<Rightarrow> pipewrite cp killed n (Suc i) (pipe_put ch pi, m))
      else Inr (Returned (int i), pi, m))"
  by pat_completeness auto
termination
  by (relation "measure (\<lambda>(cp, k, n, i, x). nat (n - int i))") auto

declare pipewrite.simps [simp del]

function piperead_loop :: "(nat \<Rightarrow> byte \<Rightarrow> 'm \<Rightarrow> (bool \<times> 'm) res) \<Rightarrow> int \<Rightarrow> nat \<Rightarrow> pipe \<times> 'm
    \<Rightarrow> (outcome \<times> pipe \<times> 'm) res" where
  "piperead_loop cp n i (pi, m) =
     (if int i < n
      then if pipe_empty pi then Inr (Returned (int i), pi, m)
        else let (ch, pi) = pipe_get pi in
          bindR (cp i ch m) (\<lambda>(ok, m).
            if \<not> ok then Inr (Returned (int i), pi, m) else piperead_loop cp n (Suc i) (pi, m))
      else Inr (Returned (int i), pi, m))"
  by pat_completeness auto
termination
  by (relation "measure (\<lambda>(cp, n, i, x). nat (n - int i))") auto

declare piperead_loop.simps [simp del]

definition piperead :: "(nat \<Rightarrow> byte \<Rightarrow> 'm \<Rightarrow> (bool \<times> 'm) res) \<Rightarrow> bool \<Rightarrow> int \<Rightarrow> pipe \<times> 'm
    \<Rightarrow> (outcome \<times> pipe \<times> 'm) res" where
  "piperead cp killed n = (\<lambda>(pi, m).
     if pipe_empty pi \<and> p_writeopen pi
     then if killed then Inr (Returned (-1), pi, m) else Inr (Sleeping 0, pi, m)
     else piperead_loop cp n 0 (pi, m))"

subsection \<open>The contract of a bounded queue\<close>

locale bounded_queue =
  fixes put :: "byte \<Rightarrow> 'q \<Rightarrow> 'q" and get :: "'q \<Rightarrow> byte \<times> 'q"
    and full :: "'q \<Rightarrow> bool" and empty :: "'q \<Rightarrow> bool"
    and elems :: "'q \<Rightarrow> byte list" and inv :: "'q \<Rightarrow> bool" and bound :: nat
  assumes put: "inv q \<Longrightarrow> \<not> full q \<Longrightarrow> inv (put b q) \<and> elems (put b q) = elems q @ [b]"
    and get: "inv q \<Longrightarrow> \<not> empty q \<Longrightarrow> inv (snd (get q)) \<and> elems q = fst (get q) # elems (snd (get q))"
    and full_iff: "inv q \<Longrightarrow> full q \<longleftrightarrow> length (elems q) = bound"
    and empty_iff: "inv q \<Longrightarrow> empty q \<longleftrightarrow> elems q = []"
    and bounded: "inv q \<Longrightarrow> length (elems q) \<le> bound"
begin

fun put_all :: "byte list \<Rightarrow> 'q \<Rightarrow> 'q" where
  "put_all [] q = q"
| "put_all (b # bs) q = put_all bs (put b q)"

fun get_n :: "nat \<Rightarrow> 'q \<Rightarrow> byte list \<times> 'q" where
  "get_n 0 q = ([], q)"
| "get_n (Suc n) q = (let (b, q) = get q; (bs, q) = get_n n q in (b # bs, q))"

lemma put_all_elems:
  "inv q \<Longrightarrow> length (elems q) + length bs \<le> bound \<Longrightarrow> inv (put_all bs q) \<and> elems (put_all bs q) = elems q @ bs"
proof (induction bs arbitrary: q)
  case (Cons b bs)
  then have "\<not> full q" using full_iff by simp
  then show ?case using Cons.IH [of "put b q"] Cons.prems put by simp
qed simp

lemma get_n_elems:
  "inv q \<Longrightarrow> n \<le> length (elems q) \<Longrightarrow>
   fst (get_n n q) = take n (elems q) \<and> inv (snd (get_n n q)) \<and> elems (snd (get_n n q)) = drop n (elems q)"
proof (induction n arbitrary: q)
  case (Suc n)
  then have ne: "\<not> empty q" using empty_iff by auto
  obtain b r where g: "get q = (b, r)" by fastforce
  have r: "inv r" "elems q = b # elems r" using get [OF Suc.prems(1) ne] g by auto
  then show ?case using Suc.IH [of r] Suc.prems(2) g by (simp add: split_beta)
qed simp

text \<open>First in, first out: what was put comes out in the same order, after what was there before.\<close>

lemma fifo:
  assumes "inv q" "length (elems q) + length bs \<le> bound"
  shows "fst (get_n (length (elems q) + length bs) (put_all bs q)) = elems q @ bs"
  using get_n_elems [of "put_all bs q" "length (elems q) + length bs"] put_all_elems [OF assms] by simp

end

subsection \<open>The ring is a bounded queue\<close>

definition pipe_bytes :: "pipe \<Rightarrow> byte list" where
  "pipe_bytes pi = map (\<lambda>k. p_data pi (unat ((p_nread pi + of_nat k) mod PIPESIZE)))
     [0..<unat (p_nwrite pi - p_nread pi)]"

definition pipe_inv :: "pipe \<Rightarrow> bool" where
  "pipe_inv pi \<longleftrightarrow> unat (p_nwrite pi - p_nread pi) \<le> 512"

lemma mod_512: "unat ((a :: u32) mod PIPESIZE) = unat a mod 512"
  by (simp add: PIPESIZE_def unat_mod_distrib)

lemma slot_unat:
  "unat ((r + of_nat k :: u32) mod PIPESIZE) = (unat r + k) mod 512"
proof -
  have "unat (r + of_nat k :: u32) = (unat r + k) mod 2 ^ 32"
    by (simp add: unat_word_ariths unat_of_nat mod_simps)
  then show ?thesis unfolding mod_512 by (simp add: mod_mod_cancel)
qed

lemma slot_neq: "k < 512 \<Longrightarrow> j < k \<Longrightarrow> (r + j) mod 512 \<noteq> (r + k) mod (512 :: nat)"
proof
  assume *: "k < 512" "j < k" "(r + j) mod 512 = (r + k) mod 512"
  then have "512 dvd (r + k) - (r + j)" by (intro mod_eq_dvd_iff_nat [THEN iffD1]) auto
  then show False using * by (auto dest: dvd_imp_le)
qed

lemma count_512: "unat (w - r) = 512 \<longleftrightarrow> w = r + PIPESIZE" for w r :: u32
proof -
  have "unat (w - r) = 512 \<longleftrightarrow> w - r = 512" by (simp add: word_unat_eq_iff)
  then show ?thesis by (auto simp: PIPESIZE_def algebra_simps)
qed

lemma put_slots:
  assumes "pipe_inv pi" "\<not> pipe_full pi"
  shows "pipe_inv (pipe_put ch pi) \<and> pipe_bytes (pipe_put ch pi) = pipe_bytes pi @ [ch]"
proof -
  let ?r = "p_nread pi" and ?w = "p_nwrite pi" let ?n = "unat (?w - ?r)"
  have n: "?n < 512"
    using assms count_512 [of ?w ?r] by (simp add: pipe_inv_def pipe_full_def)
  then have "unat (?w - ?r + 1) = Suc ?n" by (simp add: unat_plus_if')
  then have Suc: "unat (?w + 1 - ?r) = Suc ?n" by (simp add: algebra_simps)
  have w: "unat (?w mod PIPESIZE) = (unat ?r + ?n) mod 512"
    using slot_unat [of ?r ?n] by simp
  have "pipe_bytes (pipe_put ch pi) ! k = (pipe_bytes pi @ [ch]) ! k" if "k < Suc ?n" for k
    using that slot_neq [of ?n k "unat ?r"] n
    by (cases "k = ?n") (auto simp: pipe_bytes_def pipe_put_def Suc nth_append slot_unat w simp del: upt_Suc)
  then have "pipe_bytes (pipe_put ch pi) = pipe_bytes pi @ [ch]"
    by (intro nth_equalityI) (simp_all add: pipe_bytes_def pipe_put_def Suc)
  then show ?thesis using n by (simp add: pipe_inv_def pipe_put_def Suc)
qed

lemma get_slots:
  assumes "pipe_inv pi" "\<not> pipe_empty pi"
  shows "pipe_inv (snd (pipe_get pi)) \<and> pipe_bytes pi = fst (pipe_get pi) # pipe_bytes (snd (pipe_get pi))"
proof -
  let ?r = "p_nread pi" and ?w = "p_nwrite pi" let ?n = "unat (?w - ?r)"
  have "?w - ?r \<noteq> 0" using assms(2) by (auto simp: pipe_empty_def)
  then obtain m where m: "?n = Suc m" by (metis not0_implies_Suc unat_0_iff)
  have pred: "unat (?w - (?r + 1)) = m"
  proof -
    have "?w - (?r + 1) = (?w - ?r) - 1" by simp
    then show ?thesis using m unat_minus_one [OF \<open>?w - ?r \<noteq> 0\<close>] by (simp only: diff_Suc_1)
  qed
  have "(\<lambda>k. p_data pi (unat ((?r + of_nat (Suc k)) mod PIPESIZE))) =
      (\<lambda>k. p_data pi (unat ((?r + 1 + of_nat k) mod PIPESIZE)))"
    by (simp add: add_ac)
  then have "pipe_bytes pi = fst (pipe_get pi) # pipe_bytes (snd (pipe_get pi))"
    by (simp add: pipe_bytes_def pipe_get_def m pred upt_conv_Cons map_Suc_upt [symmetric] o_def
        del: upt_Suc of_nat_Suc)
  then show ?thesis using assms(1) m by (simp add: pipe_inv_def pipe_get_def pred)
qed

interpretation ring: bounded_queue pipe_put pipe_get pipe_full pipe_empty pipe_bytes pipe_inv 512
proof (unfold_locales, goal_cases)
  case (1 q b) then show ?case by (rule put_slots)
next
  case (2 q) then show ?case by (rule get_slots)
next
  case (3 q) then show ?case by (simp add: pipe_full_def pipe_bytes_def count_512)
next
  case (4 q) then show ?case by (auto simp: pipe_empty_def pipe_bytes_def unat_eq_0)
next
  case (5 q) then show ?case by (simp add: pipe_inv_def pipe_bytes_def)
qed

subsection \<open>Reading and writing\<close>

text \<open>The bytes the loop of \<open>pipewrite\<close> takes from a user buffer whose bytes are \<open>buf\<close>.\<close>

lemma pipewrite_appends:
  assumes "\<And>j m. \<exists>m'. cp j m = Inr (buf j, m')" and "pipe_inv pi"
  shows "\<exists>out pi' m' k. pipewrite cp kl n i (pi, m) = Inr (out, pi', m') \<and> pipe_inv pi'
    \<and> pipe_bytes pi' = pipe_bytes pi @ map (\<lambda>j. the (buf j)) [i..<i + k]
    \<and> p_readopen pi' = p_readopen pi \<and> p_writeopen pi' = p_writeopen pi
    \<and> (case out of
         Sleeping j \<Rightarrow> j = i + k \<and> int j < n \<and> length (pipe_bytes pi') = 512 \<and> p_readopen pi \<and> \<not> kl
       | Returned r \<Rightarrow> if int i < n \<and> (\<not> p_readopen pi \<or> kl) then r = -1 \<and> k = 0
                     else r = int (i + k) \<and> (n \<le> int (i + k) \<or> buf (i + k) = None))"
  using assms(2)
proof (induction "nat (n - int i)" arbitrary: i pi m rule: less_induct)
  case less
  show ?case
  proof (cases "int i < n \<and> p_readopen pi \<and> \<not> kl \<and> \<not> pipe_full pi")
    case False
    then show ?thesis
      using less.prems ring.full_iff [OF less.prems]
      by (auto simp: pipewrite.simps [of _ _ _ i] intro!: exI [of _ 0])
  next
    case True
    obtain m' where m': "cp i m = Inr (buf i, m')" using assms(1) by blast
    show ?thesis
    proof (cases "buf i")
      case None
      then show ?thesis
        using True m' less.prems by (auto simp: pipewrite.simps [of _ _ _ i] intro!: exI [of _ 0])
    next
      case (Some ch)
      let ?pi = "pipe_put ch pi"
      have put: "pipe_inv ?pi" "pipe_bytes ?pi = pipe_bytes pi @ [ch]"
        using ring.put [OF less.prems] True by auto
      have open_same: "p_readopen ?pi = p_readopen pi" "p_writeopen ?pi = p_writeopen pi"
        by (simp_all add: pipe_put_def)
      obtain out pi' m2 k where r: "pipewrite cp kl n (Suc i) (?pi, m') = Inr (out, pi', m2)" "pipe_inv pi'"
        "pipe_bytes pi' = pipe_bytes ?pi @ map (\<lambda>j. the (buf j)) [Suc i..<Suc i + k]"
        "p_readopen pi' = p_readopen ?pi" "p_writeopen pi' = p_writeopen ?pi"
        "case out of
         Sleeping j \<Rightarrow> j = Suc i + k \<and> int j < n \<and> length (pipe_bytes pi') = 512 \<and> p_readopen ?pi \<and> \<not> kl
       | Returned r \<Rightarrow> if int (Suc i) < n \<and> (\<not> p_readopen ?pi \<or> kl) then r = -1 \<and> k = 0
                     else r = int (Suc i + k) \<and> (n \<le> int (Suc i + k) \<or> buf (Suc i + k) = None)"
        using less.hyps [of "Suc i" ?pi m'] True put(1) by auto
      have "pipewrite cp kl n i (pi, m) = Inr (out, pi', m2)"
        using True m' Some r(1) by (simp add: pipewrite.simps [of _ _ _ i])
      moreover have "pipe_bytes pi' = pipe_bytes pi @ map (\<lambda>j. the (buf j)) [i..<i + Suc k]"
        using r(3) put(2) Some by (simp add: upt_conv_Cons del: upt_Suc)
      ultimately show ?thesis
        using r(2,4,5,6) open_same True
        by (intro exI [of _ out] exI [of _ pi'] exI [of _ m2] exI [of _ "Suc k"]) (auto split: outcome.splits)
    qed
  qed
qed

lemma piperead_loop_takes:
  assumes "\<And>j ch m. cp j ch m = Inr (True, f j ch m)" and "pipe_inv pi"
  shows "\<exists>pi'. piperead_loop cp n i (pi, m) =
      (let k = min (nat (n - int i)) (length (pipe_bytes pi)) in
       Inr (Returned (int (i + k)), pi', fold (\<lambda>(j, ch). f j ch) (enumerate i (take k (pipe_bytes pi))) m))
    \<and> pipe_inv pi' \<and> pipe_bytes pi' = drop (min (nat (n - int i)) (length (pipe_bytes pi))) (pipe_bytes pi)
    \<and> p_readopen pi' = p_readopen pi \<and> p_writeopen pi' = p_writeopen pi"
  using assms(2)
proof (induction "nat (n - int i)" arbitrary: i pi m rule: less_induct)
  case less
  show ?case
  proof (cases "int i < n \<and> \<not> pipe_empty pi")
    case False
    then show ?thesis
      using less.prems ring.empty_iff [OF less.prems] by (auto simp: piperead_loop.simps [of _ _ i])
  next
    case True
    obtain ch q where g: "pipe_get pi = (ch, q)" by fastforce
    have q: "pipe_inv q" "pipe_bytes pi = ch # pipe_bytes q" using ring.get [OF less.prems] True g by auto
    have same: "p_readopen q = p_readopen pi" "p_writeopen q = p_writeopen pi"
      using g by (auto simp: pipe_get_def)
    let ?k = "min (nat (n - int (Suc i))) (length (pipe_bytes q))"
    have k: "min (nat (n - int i)) (length (pipe_bytes pi)) = Suc ?k" using True q(2) by auto
    obtain pi' where r: "piperead_loop cp n (Suc i) (q, f i ch m) =
        Inr (Returned (int (Suc i + ?k)), pi',
             fold (\<lambda>(j, ch). f j ch) (enumerate (Suc i) (take ?k (pipe_bytes q))) (f i ch m))"
      "pipe_inv pi'" "pipe_bytes pi' = drop ?k (pipe_bytes q)" "p_readopen pi' = p_readopen q"
      "p_writeopen pi' = p_writeopen q"
      using less.hyps [of "Suc i" q "f i ch m"] True q(1) unfolding Let_def by auto
    show ?thesis
      unfolding k using r True g q(2) same assms(1)
      by (intro exI [of _ pi']) (simp add: piperead_loop.simps [of _ _ i])
  qed
qed

text \<open>
  C11: a pipe delivers bytes in order and exactly once, across wrap-around of its 32-bit counters
  and for every division of the data into calls: a \<open>pipewrite\<close> appends a prefix of the caller's
  bytes to the queue, sleeping only when all 512 slots are full and returning early only if the
  copy from the user fails, the read end is closed or the caller was killed; a \<open>piperead\<close> removes
  the oldest bytes and hands them out in order, sleeping only on an empty pipe whose write end is
  open.
\<close>

theorem pipe_fifo:
  assumes "pipe_inv pi"
    and "\<And>j m. \<exists>m'. cpin j m = Inr (buf j, m')" and "\<And>j ch m. cpout j ch m = Inr (True, f j ch m)"
  shows "(\<exists>out pi' m' k. pipewrite cpin kl n i (pi, m) = Inr (out, pi', m') \<and> pipe_inv pi'
      \<and> pipe_bytes pi' = pipe_bytes pi @ map (\<lambda>j. the (buf j)) [i..<i + k]
      \<and> p_readopen pi' = p_readopen pi \<and> p_writeopen pi' = p_writeopen pi
      \<and> (case out of
           Sleeping j \<Rightarrow> j = i + k \<and> int j < n \<and> length (pipe_bytes pi') = 512 \<and> p_readopen pi \<and> \<not> kl
         | Returned r \<Rightarrow> if int i < n \<and> (\<not> p_readopen pi \<or> kl) then r = -1 \<and> k = 0
                       else r = int (i + k) \<and> (n \<le> int (i + k) \<or> buf (i + k) = None)))
    \<and> (if pipe_bytes pi = [] \<and> p_writeopen pi
       then piperead cpout kl n (pi, m) = Inr (if kl then Returned (-1) else Sleeping 0, pi, m)
       else \<exists>pi'. piperead cpout kl n (pi, m) = Inr (Returned (int (min (nat n) (length (pipe_bytes pi)))), pi',
              fold (\<lambda>(j, ch). f j ch) (enumerate 0 (take (nat n) (pipe_bytes pi))) m)
            \<and> pipe_inv pi' \<and> pipe_bytes pi' = drop (nat n) (pipe_bytes pi))"
proof
  show "\<exists>out pi' m' k. pipewrite cpin kl n i (pi, m) = Inr (out, pi', m') \<and> pipe_inv pi'
      \<and> pipe_bytes pi' = pipe_bytes pi @ map (\<lambda>j. the (buf j)) [i..<i + k]
      \<and> p_readopen pi' = p_readopen pi \<and> p_writeopen pi' = p_writeopen pi
      \<and> (case out of
           Sleeping j \<Rightarrow> j = i + k \<and> int j < n \<and> length (pipe_bytes pi') = 512 \<and> p_readopen pi \<and> \<not> kl
         | Returned r \<Rightarrow> if int i < n \<and> (\<not> p_readopen pi \<or> kl) then r = -1 \<and> k = 0
                       else r = int (i + k) \<and> (n \<le> int (i + k) \<or> buf (i + k) = None))"
    by (rule pipewrite_appends) (rule assms)+
next
  have take_min: "take (min a (length xs)) xs = take a xs" "drop (min a (length xs)) xs = drop a xs"
    for a and xs :: "byte list" by (simp_all add: min_def)
  show "if pipe_bytes pi = [] \<and> p_writeopen pi
       then piperead cpout kl n (pi, m) = Inr (if kl then Returned (-1) else Sleeping 0, pi, m)
       else \<exists>pi'. piperead cpout kl n (pi, m) = Inr (Returned (int (min (nat n) (length (pipe_bytes pi)))), pi',
              fold (\<lambda>(j, ch). f j ch) (enumerate 0 (take (nat n) (pipe_bytes pi))) m)
            \<and> pipe_inv pi' \<and> pipe_bytes pi' = drop (nat n) (pipe_bytes pi)"
    using piperead_loop_takes [where cp = cpout and f = f and n = n and i = 0 and m = m, OF assms(3,1)] ring.empty_iff [OF assms(1)]
    by (auto simp: piperead_def Let_def take_min)
qed

theorem pipe_fifo_witness:
  "\<exists>pi'. piperead (\<lambda>j ch m. Inr (True, m @ [ch])) False 5
       (pipe_put 8 (pipe_put 7 (new_pipe (\<lambda>_. 0))\<lparr>p_writeopen := False\<rparr>), []) = Inr (Returned 2, pi', [7, 8])"
proof -
  let ?p = "new_pipe (\<lambda>_. 0)"
  let ?q = "pipe_put 8 (pipe_put 7 ?p\<lparr>p_writeopen := False\<rparr>)"
  have "pipe_inv ?q" "pipe_bytes ?q = [7, 8]"
    by (simp_all add: pipe_inv_def pipe_bytes_def pipe_put_def new_pipe_def PIPESIZE_def upt_conv_Cons)
  then show ?thesis
    using pipe_fifo [of ?q "\<lambda>j m. Inr (None, m)" "\<lambda>_. None" "\<lambda>j ch m. Inr (True, m @ [ch])"
        "\<lambda>j ch m. m @ [ch]" False 5 0 "[]"] by auto
qed

text \<open>
  C37: a failed copy to the user loses a byte: \<open>piperead\<close> has already advanced \<open>nread\<close> when
  \<open>copyout\<close> fails, so it reports 0 bytes read while the first byte of the pipe is gone.
\<close>

theorem piperead_fault_loses_byte:
  assumes "pipe_inv pi" and "pipe_bytes pi = b # bs" and "0 < n" and "cp 0 b m = Inr (False, m')"
  shows "\<exists>pi'. piperead cp kl n (pi, m) = Inr (Returned 0, pi', m') \<and> pipe_bytes pi' = bs"
proof -
  have ne: "\<not> pipe_empty pi" using ring.empty_iff [OF assms(1)] assms(2) by simp
  obtain ch q where g: "pipe_get pi = (ch, q)" by fastforce
  then have "ch = b" "pipe_bytes q = bs" using ring.get [OF assms(1) ne] assms(2) by auto
  then show ?thesis using ne g assms(3,4) by (simp add: piperead_def piperead_loop.simps [of _ _ 0])
qed

theorem piperead_fault_loses_byte_witness:
  "\<exists>pi'. piperead (\<lambda>j ch m. Inr (False, m)) False 1 (pipe_put 7 (new_pipe (\<lambda>_. 0)), ()) = Inr (Returned 0, pi', ())
     \<and> pipe_bytes pi' = []"
  by (rule piperead_fault_loses_byte [of _ 7])
    (simp_all add: pipe_inv_def pipe_bytes_def pipe_put_def new_pipe_def PIPESIZE_def upt_conv_Cons)

end
