(* ===== verification/KString.thy ===== *)
theory KString
  imports Prelude
begin

text \<open>
  \<open>kernel/string.c\<close> over flat byte memory. Pointers are 64-bit addresses, every store is a
  memory update in the order of the source, so that overlapping arguments behave as in the code.
  The locale \<open>byte_copy\<close> is the contract of a \<open>memmove\<close>; the kernel's and the user
  library's versions are its interpretations.
\<close>

subsection \<open>Definitions\<close>

fun memset_loop :: "mem \<Rightarrow> u64 \<Rightarrow> byte \<Rightarrow> nat \<Rightarrow> nat \<Rightarrow> mem" where
  "memset_loop m dst c i 0 = m"
| "memset_loop m dst c i (Suc k) = memset_loop (m(dst + of_nat i := c)) dst c (Suc i) k"

definition memset :: "mem \<Rightarrow> u64 \<Rightarrow> u32 \<Rightarrow> u32 \<Rightarrow> mem" where
  "memset m dst c n = memset_loop m dst (ucast c) 0 (unat n)"

fun memcmp_loop :: "mem \<Rightarrow> u64 \<Rightarrow> u64 \<Rightarrow> nat \<Rightarrow> int" where
  "memcmp_loop m s1 s2 0 = 0"
| "memcmp_loop m s1 s2 (Suc n) =
     (if m s1 \<noteq> m s2 then uint (m s1) - uint (m s2) else memcmp_loop m (s1 + 1) (s2 + 1) n)"

definition memcmp :: "mem \<Rightarrow> u64 \<Rightarrow> u64 \<Rightarrow> u32 \<Rightarrow> int" where
  "memcmp m v1 v2 n = memcmp_loop m v1 v2 (unat n)"

text \<open>The two loops of \<open>memmove\<close>: upwards from \<open>d\<close>, \<open>s\<close>, and downwards from the ends.\<close>

fun copy_up :: "mem \<Rightarrow> u64 \<Rightarrow> u64 \<Rightarrow> nat \<Rightarrow> mem" where
  "copy_up m d s 0 = m"
| "copy_up m d s (Suc n) = copy_up (m(d := m s)) (d + 1) (s + 1) n"

fun copy_down :: "mem \<Rightarrow> u64 \<Rightarrow> u64 \<Rightarrow> nat \<Rightarrow> mem" where
  "copy_down m d s 0 = m"
| "copy_down m d s (Suc n) = copy_down (m(d - 1 := m (s - 1))) (d - 1) (s - 1) n"

definition memmove :: "mem \<Rightarrow> u64 \<Rightarrow> u64 \<Rightarrow> u32 \<Rightarrow> mem" where
  "memmove m dst src n =
     (if n = 0 then m
      else if src < dst \<and> src + ucast n > dst
      then copy_down m (dst + ucast n) (src + ucast n) (unat n)
      else copy_up m dst src (unat n))"

definition memcpy :: "mem \<Rightarrow> u64 \<Rightarrow> u64 \<Rightarrow> u32 \<Rightarrow> mem" where
  "memcpy m dst src n = memmove m dst src n"

fun strncmp_loop :: "mem \<Rightarrow> u64 \<Rightarrow> u64 \<Rightarrow> nat \<Rightarrow> int" where
  "strncmp_loop m p q 0 = 0"
| "strncmp_loop m p q (Suc n) =
     (if m p \<noteq> 0 \<and> m p = m q then strncmp_loop m (p + 1) (q + 1) n
      else uint (m p) - uint (m q))"

definition strncmp :: "mem \<Rightarrow> u64 \<Rightarrow> u64 \<Rightarrow> u32 \<Rightarrow> int" where
  "strncmp m p q n = strncmp_loop m p q (unat n)"

fun zero_fill :: "mem \<Rightarrow> u64 \<Rightarrow> nat \<Rightarrow> mem" where
  "zero_fill m s 0 = m"
| "zero_fill m s (Suc n) = zero_fill (m(s := 0)) (s + 1) n"

fun strncpy_loop :: "mem \<Rightarrow> u64 \<Rightarrow> u64 \<Rightarrow> nat \<Rightarrow> mem" where
  "strncpy_loop m s t 0 = m"
| "strncpy_loop m s t (Suc n) =
     (let c = m t; m' = m(s := c)
      in if c \<noteq> 0 then strncpy_loop m' (s + 1) (t + 1) n else zero_fill m' (s + 1) n)"

definition strncpy :: "mem \<Rightarrow> u64 \<Rightarrow> u64 \<Rightarrow> int \<Rightarrow> mem" where
  "strncpy m s t n = strncpy_loop m s t (nat n)"

text \<open>
  The loop of \<open>safestrcpy\<close> runs with \<open>n - 1\<close> bytes left. When it stops at a NUL the
  pointer \<open>s\<close> has already passed it, so the final \<open>*s = 0\<close> writes the next byte.
\<close>

fun safestrcpy_loop :: "mem \<Rightarrow> u64 \<Rightarrow> u64 \<Rightarrow> nat \<Rightarrow> mem" where
  "safestrcpy_loop m s t 0 = m(s := 0)"
| "safestrcpy_loop m s t (Suc n) =
     (let c = m t; m' = m(s := c)
      in if c \<noteq> 0 then safestrcpy_loop m' (s + 1) (t + 1) n else m'(s + 1 := 0))"

definition safestrcpy :: "mem \<Rightarrow> u64 \<Rightarrow> u64 \<Rightarrow> int \<Rightarrow> mem" where
  "safestrcpy m s t n = (if n \<le> 0 then m else safestrcpy_loop m s t (nat n - 1))"

partial_function (option) strlen_from :: "mem \<Rightarrow> u64 \<Rightarrow> nat \<Rightarrow> nat option" where
  "strlen_from m s n = (if m (s + of_nat n) = 0 then Some n else strlen_from m s (Suc n))"

definition strlen :: "mem \<Rightarrow> u64 \<Rightarrow> nat option" where
  "strlen m s = strlen_from m s 0"

subsection \<open>Reading memory as a list of bytes\<close>

definition bytes_at :: "mem \<Rightarrow> u64 \<Rightarrow> nat \<Rightarrow> byte list" where
  "bytes_at m a n = map (\<lambda>i. m (a + of_nat i)) [0..<n]"

lemma bytes_at_0 [simp]: "bytes_at m a 0 = []"
  by (simp add: bytes_at_def)

lemma length_bytes_at [simp]: "length (bytes_at m a n) = n"
  by (simp add: bytes_at_def)

lemma nth_bytes_at [simp]: "i < n \<Longrightarrow> bytes_at m a n ! i = m (a + of_nat i)"
  by (simp add: bytes_at_def)

lemma bytes_at_Suc: "bytes_at m a (Suc n) = m a # bytes_at m (a + 1) n"
  by (rule nth_equalityI) (auto simp: nth_Cons add.assoc split: nat.split)

lemma bytes_at_eqI: "(\<And>i. i < n \<Longrightarrow> m (a + of_nat i) = m' (b + of_nat i)) \<Longrightarrow>
  bytes_at m a n = bytes_at m' b n"
  by (rule nth_equalityI) auto

text \<open>The first \<open>n\<close> bytes of a C string cut at its NUL.\<close>

definition cstr :: "byte list \<Rightarrow> byte list" where
  "cstr bs = takeWhile (\<lambda>c. c \<noteq> 0) bs"

subsection \<open>Filling\<close>

lemma memset_loop_at:
  "i + n \<le> 2 ^ 64 \<Longrightarrow>
   memset_loop m dst c i n a = (if i \<le> unat (a - dst) \<and> unat (a - dst) < i + n then c else m a)"
proof (induction m dst c i n rule: memset_loop.induct)
  case (2 m dst c i k)
  have eq: "a = dst + of_nat i \<longleftrightarrow> unat (a - dst) = i"
    using "2.prems" by (intro eq_offset_iff) simp
  have "memset_loop (m(dst + of_nat i := c)) dst c (Suc i) k a =
    (if Suc i \<le> unat (a - dst) \<and> unat (a - dst) < Suc i + k then c
     else (m(dst + of_nat i := c)) a)"
    using "2.prems" by (intro "2.IH") simp
  with eq show ?case by auto
qed auto

lemma memset_at: "memset m dst c n a = (if unat (a - dst) < unat n then ucast c else m a)"
proof -
  have "unat n \<le> 2 ^ 64" using unat_bound [of n] by simp
  then show ?thesis by (simp add: memset_def memset_loop_at)
qed

lemma zero_fill_at:
  "n < 2 ^ 64 \<Longrightarrow> zero_fill m s n a = (if unat (a - s) < n then 0 else m a)"
proof (induction m s n rule: zero_fill.induct)
  case (2 m s n)
  have IH: "zero_fill (m(s := 0)) (s + 1) n a =
    (if unat (a - (s + 1)) < n then 0 else (m(s := 0)) a)"
    using "2.prems" by (intro "2.IH") simp
  show ?case
  proof (cases "a = s")
    case True with IH "2.prems" show ?thesis by (simp add: not_less_unat_minus1)
  next
    case False with IH show ?thesis by (simp add: unat_minus_Suc)
  qed
qed simp

subsection \<open>Copying\<close>

text \<open>An upward copy is right unless the destination starts inside the source, above it.\<close>

lemma copy_up_at:
  "n < 2 ^ 64 \<Longrightarrow> d = s \<or> n \<le> unat (d - s) \<Longrightarrow>
   copy_up m d s n a = (if unat (a - d) < n then m (s + (a - d)) else m a)"
proof (induction m d s n rule: copy_up.induct)
  case (2 m d s n)
  have IH: "copy_up (m(d := m s)) (d + 1) (s + 1) n a =
     (if unat (a - (d + 1)) < n then (m(d := m s)) (s + 1 + (a - (d + 1))) else (m(d := m s)) a)"
    using "2.prems" by (intro "2.IH") auto
  show ?case
  proof (cases "a = d")
    case True with IH "2.prems" show ?thesis by (simp add: not_less_unat_minus1)
  next
    case False
    have "unat (a - d) < Suc n \<Longrightarrow> s + (a - d) \<noteq> d"
      using "2.prems"(2) False by (metis add_diff_cancel_left' diff_self eq_iff_diff_eq_0 leD)
    with IH False show ?thesis by (auto simp: unat_minus_Suc [OF False])
  qed
qed simp

text \<open>A downward copy from the ends is right unless the source starts inside the destination.\<close>

lemma copy_down_at:
  "n < 2 ^ 64 \<Longrightarrow> d = s \<or> n \<le> unat (s - d) \<Longrightarrow>
   copy_down m (d + of_nat n) (s + of_nat n) n a =
     (if unat (a - d) < n then m (s + (a - d)) else m a)"
proof (induction n arbitrary: m)
  case (Suc n)
  let ?m = "m(d + of_nat n := m (s + of_nat n))"
  have "copy_down m (d + of_nat (Suc n)) (s + of_nat (Suc n)) (Suc n) a
     = copy_down ?m (d + of_nat n) (s + of_nat n) n a"
    by (simp add: algebra_simps)
  also have "\<dots> = (if unat (a - d) < n then ?m (s + (a - d)) else ?m a)"
    using Suc.prems by (intro Suc.IH) auto
  also have "\<dots> = (if unat (a - d) < Suc n then m (s + (a - d)) else m a)"
  proof -
    have top: "a = d + of_nat n \<longleftrightarrow> unat (a - d) = n"
      using Suc.prems(1) by (intro eq_offset_iff) simp
    have "s + (a - d) \<noteq> d + of_nat n" if "unat (a - d) < n"
    proof
      assume "s + (a - d) = d + of_nat n"
      then have eq: "of_nat n - (a - d) = s - d" by (simp add: algebra_simps)
      have "unat (of_nat n - (a - d)) = n - unat (a - d)"
        using that Suc.prems(1) by (subst unat_sub) (auto simp: word_le_nat_alt unat_of_nat_small)
      with eq have "unat (s - d) = n - unat (a - d)" by metis
      then show False using Suc.prems(2) that by auto
    qed
    with top show ?thesis by auto
  qed
  finally show ?case .
qed simp

subsection \<open>The contract of a memory move\<close>

text \<open>
  A move of \<open>n\<close> bytes makes the destination hold what the source held before, whether or not
  the two ranges overlap, and changes nothing else.
\<close>

locale byte_copy =
  fixes mv :: "mem \<Rightarrow> u64 \<Rightarrow> u64 \<Rightarrow> nat \<Rightarrow> mem"
  assumes mv_at: "unat s + n < 2 ^ 64 \<Longrightarrow> unat d + n < 2 ^ 64 \<Longrightarrow> n < 2 ^ 31 \<Longrightarrow>
    mv m d s n a = (if unat (a - d) < n then m (s + (a - d)) else m a)"
begin

lemma mv_bytes:
  assumes "unat s + n < 2 ^ 64" "unat d + n < 2 ^ 64" "n < 2 ^ 31"
  shows "bytes_at (mv m d s n) d n = bytes_at m s n"
  using assms by (intro bytes_at_eqI) (simp add: mv_at unat_of_nat_small)

lemma mv_frame:
  assumes "unat s + n < 2 ^ 64" "unat d + n < 2 ^ 64" "n < 2 ^ 31" "n \<le> unat (a - d)"
  shows "mv m d s n a = m a"
  using assms by (simp add: mv_at)

end

lemma memmove_at:
  assumes s: "unat src + unat n < 2 ^ 64" and d: "unat dst + unat n < 2 ^ 64"
  shows "memmove m dst src n a = (if unat (a - dst) < unat n then m (src + (a - dst)) else m a)"
proof -
  have n: "unat n < 2 ^ 64" using s by simp
  have ucast_n: "(ucast n :: u64) = of_nat (unat n)" by simp
  have sn: "unat (src + ucast n) = unat src + unat n"
    using s by (simp add: unat_plus_if')
  consider (down) "src < dst" "src + ucast n > dst" | (zero) "n = 0"
    | (up) "n \<noteq> 0" "\<not> (src < dst \<and> src + ucast n > dst)" by blast
  then show ?thesis
  proof cases
    case down
    then have "unat n \<le> unat (src - dst)"
      using d by (simp add: unat_sub_if' word_less_nat_alt)
    with down n show ?thesis
      by (auto simp: memmove_def ucast_n copy_down_at simp del: of_nat_unat)
  next
    case zero then show ?thesis by (simp add: memmove_def)
  next
    case up
    then have "dst = src \<or> unat n \<le> unat (dst - src)"
      using s sn by (auto simp: unat_sub_if' word_less_nat_alt not_less)
    with up n show ?thesis by (auto simp: memmove_def copy_up_at)
  qed
qed

interpretation kmove: byte_copy "\<lambda>m d s n. memmove m d s (of_nat n)"
  by unfold_locales (simp add: memmove_at unat_of_nat_small)

subsection \<open>Comparing, copying and measuring strings\<close>

lemma memcmp_loop_0: "memcmp_loop m s1 s2 n = 0 \<longleftrightarrow> bytes_at m s1 n = bytes_at m s2 n"
  by (induction m s1 s2 n rule: memcmp_loop.induct) (auto simp: bytes_at_Suc)

lemma cstr_Cons [simp]: "cstr (c # cs) = (if c = 0 then [] else c # cstr cs)"
  by (simp add: cstr_def)

lemma cstr_Nil [simp]: "cstr [] = []"
  by (simp add: cstr_def)

lemma cstr_Nil_iff: "cstr bs = [] \<longleftrightarrow> bs = [] \<or> hd bs = 0"
  by (cases bs) simp_all

lemma strncmp_loop_0: "strncmp_loop m p q n = 0 \<longleftrightarrow> cstr (bytes_at m p n) = cstr (bytes_at m q n)"
proof (induction m p q n rule: strncmp_loop.induct)
  case (2 m p q n)
  then show ?case by (auto simp: bytes_at_Suc)
qed simp

lemma strncpy_loop_at:
  assumes "n < 2 ^ 64" and "\<And>i j. i < n \<Longrightarrow> j < n \<Longrightarrow> s + of_nat i \<noteq> t + of_nat j"
  shows "strncpy_loop m s t n a =
    (if unat (a - s) < n
     then if unat (a - s) < length (cstr (bytes_at m t n)) then m (t + (a - s)) else 0
     else m a)"
  using assms
proof (induction m s t n rule: strncpy_loop.induct)
  case (2 m s t n)
  have disj: "s + 1 + of_nat i \<noteq> t + 1 + of_nat j" if "i < n" "j < n" for i j
    using "2.prems"(2) [of "Suc i" "Suc j"] that by (simp add: add.assoc)
  have "s \<noteq> t + 1 + of_nat j" if "j < n" for j
    using "2.prems"(2) [of 0 "Suc j"] that by (simp add: add.assoc)
  then have same: "bytes_at (m(s := m t)) (t + 1) n = bytes_at m (t + 1) n"
    by (intro bytes_at_eqI) auto
  show ?case
  proof (cases "m t = 0")
    case True
    then show ?thesis
      using "2.prems"(1)
      by (cases "a = s") (auto simp: bytes_at_Suc zero_fill_at not_less_unat_minus1 unat_minus_Suc)
  next
    case False
    have "strncpy_loop (m(s := m t)) (s + 1) (t + 1) n a =
      (if unat (a - (s + 1)) < n
       then if unat (a - (s + 1)) < length (cstr (bytes_at m (t + 1) n))
            then (m(s := m t)) (t + 1 + (a - (s + 1))) else 0
       else (m(s := m t)) a)"
      using "2.prems"(1) False disj by (subst same [symmetric], intro "2.IH") auto
    moreover have "t + (a - s) \<noteq> s" if "unat (a - s) < Suc n" "a \<noteq> s"
      using "2.prems"(2) [of 0 "unat (a - s)"] that by auto
    ultimately show ?thesis
      using "2.prems"(1) False
      by (cases "a = s") (auto simp: bytes_at_Suc not_less_unat_minus1 unat_minus_Suc)
  qed
qed simp

lemma safestrcpy_loop_frame:
  assumes "n < 2 ^ 64 - 1" and "n < unat (a - s)"
  shows "safestrcpy_loop m s t n a = m a"
  using assms
proof (induction m s t n rule: safestrcpy_loop.induct)
  case (1 m s t)
  then have "a \<noteq> s" by auto
  then show ?case by simp
next
  case (2 m s t n)
  then have neq: "a \<noteq> s" by auto
  have "n < unat (a - (s + 1))" using "2.prems"(2) by (simp add: unat_minus_Suc [OF neq])
  moreover from this have "a \<noteq> s + 1" by auto
  moreover have "safestrcpy_loop (m(s := m t)) (s + 1) (t + 1) n a = (m(s := m t)) a"
    if "m t \<noteq> 0" "n < unat (a - (s + 1))"
    by (rule "2.IH" [OF refl refl that(1)]) (use "2.prems"(1) that(2) in auto)
  ultimately show ?case using neq by (simp add: Let_def)
qed

lemma safestrcpy_loop_nul:
  "n < 2 ^ 64 - 1 \<Longrightarrow> \<exists>i \<le> n. safestrcpy_loop m s t n (s + of_nat i) = 0"
proof (induction m s t n rule: safestrcpy_loop.induct)
  case (2 m s t n)
  show ?case
  proof (cases "m t = 0")
    case True
    then show ?thesis by (intro exI [of _ 0]) (simp add: Let_def)
  next
    case False
    have "\<exists>i \<le> n. safestrcpy_loop (m(s := m t)) (s + 1) (t + 1) n (s + 1 + of_nat i) = 0"
      by (rule "2.IH" [OF refl refl False]) (use "2.prems" in simp)
    then obtain i where "i \<le> n"
      "safestrcpy_loop (m(s := m t)) (s + 1) (t + 1) n (s + 1 + of_nat i) = 0" by blast
    then show ?thesis using False by (intro exI [of _ "Suc i"]) (simp add: add.assoc)
  qed
qed (auto intro: exI [of _ 0])

lemma strlen_from_Some:
  assumes "m (s + of_nat k) = 0" and "\<And>i. n \<le> i \<Longrightarrow> i < k \<Longrightarrow> m (s + of_nat i) \<noteq> 0" and "n \<le> k"
  shows "strlen_from m s n = Some k"
  using assms
proof (induction "k - n" arbitrary: n)
  case 0
  then show ?case by (subst strlen_from.simps) simp
next
  case (Suc d)
  then have "strlen_from m s (Suc n) = Some k" by (intro Suc.hyps(1)) auto
  moreover have "m (s + of_nat n) \<noteq> 0" using Suc by auto
  ultimately show ?case by (subst strlen_from.simps) simp
qed

lemma strlen_SomeI:
  "m (s + of_nat k) = 0 \<Longrightarrow> (\<And>i. i < k \<Longrightarrow> m (s + of_nat i) \<noteq> 0) \<Longrightarrow> strlen m s = Some k"
  by (simp add: strlen_def strlen_from_Some)

subsection \<open>Properties\<close>

text \<open>
  C33: \<open>memmove\<close> of \<open>n\<close> bytes, for ranges that do not wrap around the address space, makes
  \<open>dst[i]\<close> equal to the old \<open>src[i]\<close> for every \<open>i < n\<close> even when the ranges overlap (it copies
  downwards exactly when an upward copy would clobber its source), and leaves every byte
  outside the destination unchanged.
\<close>

theorem memmove_correct:
  assumes "unat src + unat n < 2 ^ 64" and "unat dst + unat n < 2 ^ 64"
  shows "memmove m dst src n a = (if unat (a - dst) < unat n then m (src + (a - dst)) else m a)"
  by (rule memmove_at [OF assms])

theorem memmove_correct_witness:
  "memmove ((\<lambda>_. 0)(100 := 7, 101 := 8, 102 := 9)) 101 100 3 103 = 9"
  using memmove_correct [of 100 3 101 "(\<lambda>_. 0)(100 := 7, 101 := 8, 102 := 9)" 103] by simp

text \<open>
  \<open>strncpy(s, t, n)\<close> with disjoint buffers writes exactly the \<open>n\<close> bytes at \<open>s\<close>: the
  characters of \<open>t\<close> up to its NUL (or \<open>n\<close> of them), then zeros up to \<open>n\<close>; so a later
  \<open>strncmp\<close> with the same bound finds the two strings equal.
\<close>

theorem strncpy_correct:
  assumes "0 \<le> n" and "n < 2 ^ 31"
    and "\<And>i j. i < nat n \<Longrightarrow> j < nat n \<Longrightarrow> s + of_nat i \<noteq> t + of_nat j"
  shows "bytes_at (strncpy m s t n) s (nat n) =
           (let cs = cstr (bytes_at m t (nat n)) in cs @ replicate (nat n - length cs) 0)
       \<and> (\<forall>a. nat n \<le> unat (a - s) \<longrightarrow> strncpy m s t n a = m a)
       \<and> strncmp (strncpy m s t n) s t (of_int n) = 0"
proof -
  let ?k = "nat n" and ?m = "strncpy m s t n"
  let ?cs = "cstr (bytes_at m t ?k)"
  have k: "?k < 2 ^ 64" using assms(2) by simp
  have at: "?m a = (if unat (a - s) < ?k then if unat (a - s) < length ?cs then m (t + (a - s)) else 0
     else m a)" for a
    unfolding strncpy_def by (rule strncpy_loop_at) (use k assms(3) in auto)
  have len: "length ?cs \<le> ?k"
    unfolding cstr_def by (metis length_bytes_at length_takeWhile_le)
  have "bytes_at ?m s ?k = ?cs @ replicate (?k - length ?cs) 0"
  proof (rule nth_equalityI)
    fix i assume "i < length (bytes_at ?m s ?k)"
    then have i: "i < ?k" by simp
    show "bytes_at ?m s ?k ! i = (?cs @ replicate (?k - length ?cs) 0) ! i"
    proof (cases "i < length ?cs")
      case True
      then have "?cs ! i = m (t + of_nat i)" using i by (simp add: cstr_def takeWhile_nth)
      with True i k show ?thesis by (simp add: at unat_of_nat_small nth_append)
    next
      case False
      with i k show ?thesis by (simp add: at unat_of_nat_small nth_append)
    qed
  qed (use len in simp)
  moreover have same: "bytes_at ?m t ?k = bytes_at m t ?k"
  proof (rule bytes_at_eqI)
    fix j assume "j < ?k"
    then have "t + of_nat j \<noteq> s + of_nat i" if "i < ?k" for i using assms(3) that by metis
    moreover have "t + of_nat j = s + of_nat (unat (t + of_nat j - s))" by simp
    ultimately have "\<not> unat (t + of_nat j - s) < ?k" by metis
    then show "?m (t + of_nat j) = m (t + of_nat j)" by (simp add: at)
  qed
  moreover have "unat (of_int n :: u32) = ?k"
    using assms(1,2) by (simp add: unat_eq_nat_uint uint_word_of_int_eq take_bit_int_eq_self)
  moreover have "cstr (?cs @ replicate (?k - length ?cs) 0) = ?cs"
    by (cases "?k - length ?cs") (auto simp: cstr_def takeWhile_append dest: set_takeWhileD)
  ultimately show ?thesis
    by (simp add: Let_def at strncmp_def strncmp_loop_0)
qed

text \<open>The hypotheses of C2 hold, for instance, for the name field of a directory entry.\<close>

theorem strncpy_correct_witness:
  "bytes_at (strncpy ((\<lambda>_. 9)(200 := 97, 201 := 0)) 100 200 4) 100 4 = [97, 0, 0, 0]"
proof -
  have disj: "(100 :: u64) + of_nat i \<noteq> 200 + of_nat j" if "i < nat 4" "j < nat 4" for i j
  proof
    assume "(100 :: u64) + of_nat i = 200 + of_nat j"
    then have "unat ((100 :: u64) + of_nat i) = unat ((200 :: u64) + of_nat j)" by simp
    with that show False by (simp add: unat_plus_if' unat_of_nat_small)
  qed
  have "bytes_at ((\<lambda>_. 9)(200 := 97, 201 := 0)) (200 :: u64) 4 = [97, 0, 9, 9]"
    by (simp add: bytes_at_def upt_rec)
  then show ?thesis
    using strncpy_correct [of 4 100 200 "(\<lambda>_. 9)(200 := 97, 201 := 0)", OF _ _ disj]
    by (simp add: Let_def numeral_3_eq_3)
qed

text \<open>
  C34: \<open>safestrcpy(s, t, n)\<close> with \<open>n > 0\<close> never writes outside the \<open>n\<close> bytes at \<open>s\<close> and
  always leaves a NUL among them, whatever \<open>t\<close> holds and wherever it lies.
\<close>

theorem safestrcpy_terminates_string:
  assumes "0 < n" and "n < 2 ^ 31"
  shows "(\<exists>i < nat n. safestrcpy m s t n (s + of_nat i) = 0)
       \<and> (\<forall>a. nat n \<le> unat (a - s) \<longrightarrow> safestrcpy m s t n a = m a)"
proof -
  have lt: "nat n - 1 < 2 ^ 64 - 1" using assms by simp
  have "\<exists>i \<le> nat n - 1. safestrcpy m s t n (s + of_nat i) = 0"
    using assms safestrcpy_loop_nul [OF lt] by (simp add: safestrcpy_def)
  moreover have "safestrcpy m s t n a = m a" if "nat n \<le> unat (a - s)" for a
    using assms that safestrcpy_loop_frame [OF lt, of a s m t] by (simp add: safestrcpy_def)
  ultimately show ?thesis using assms by (metis Suc_pred' le_imp_less_Suc zero_less_nat_eq)
qed

theorem safestrcpy_terminates_string_witness:
  "(\<exists>i < nat 3. safestrcpy (\<lambda>_. 65) 100 200 3 (100 + of_nat i) = 0)"
  using safestrcpy_terminates_string [of 3 "\<lambda>_. 65" 100 200] by simp

end
