(* ===== verification/Riscv.thy ===== *)
theory Riscv
  imports Prelude
begin

text \<open>
  The Sv39 macros of \<open>kernel/riscv.h\<close> (page rounding, page-table entries, index extraction,
  \<open>MAXVA\<close>) and the memory layout of \<open>kernel/memlayout.h\<close>, as functions on 64-bit words.
\<close>

subsection \<open>Definitions\<close>

definition PGSIZE :: u64 where [layout_simps]: "PGSIZE = 4096"
definition PGROUNDUP :: "u64 \<Rightarrow> u64" where "PGROUNDUP sz = (sz + PGSIZE - 1) AND NOT (PGSIZE - 1)"
definition PGROUNDDOWN :: "u64 \<Rightarrow> u64" where "PGROUNDDOWN a = a AND NOT (PGSIZE - 1)"

definition PTE_V :: u64 where [layout_simps]: "PTE_V = 1"
definition PTE_R :: u64 where [layout_simps]: "PTE_R = 2"
definition PTE_W :: u64 where [layout_simps]: "PTE_W = 4"
definition PTE_X :: u64 where [layout_simps]: "PTE_X = 8"
definition PTE_U :: u64 where [layout_simps]: "PTE_U = 16"

definition PA2PTE :: "u64 \<Rightarrow> u64" where "PA2PTE pa = push_bit 10 (drop_bit 12 pa)"
definition PTE2PA :: "u64 \<Rightarrow> u64" where "PTE2PA pte = push_bit 12 (drop_bit 10 pte)"
definition PTE_FLAGS :: "u64 \<Rightarrow> u64" where "PTE_FLAGS pte = pte AND 0x3FF"

definition PXSHIFT :: "nat \<Rightarrow> nat" where "PXSHIFT level = 12 + 9 * level"
definition PX :: "nat \<Rightarrow> u64 \<Rightarrow> u64" where "PX level va = drop_bit (PXSHIFT level) va AND 0x1FF"

definition MAXVA :: u64 where [layout_simps]: "MAXVA = 0x4000000000"
definition KERNBASE :: u64 where [layout_simps]: "KERNBASE = 0x80000000"
definition PHYSTOP :: u64 where [layout_simps]: "PHYSTOP = KERNBASE + 128 * 1024 * 1024"
definition TRAMPOLINE :: u64 where [layout_simps]: "TRAMPOLINE = MAXVA - PGSIZE"
definition TRAPFRAME :: u64 where [layout_simps]: "TRAPFRAME = TRAMPOLINE - PGSIZE"
definition KSTACK :: "nat \<Rightarrow> u64" where
  "KSTACK p = TRAMPOLINE - of_nat (p + 1) * 2 * PGSIZE"
definition MAKE_SATP :: "u64 \<Rightarrow> u64" where
  "MAKE_SATP pagetable = push_bit 60 8 OR drop_bit 12 pagetable"

subsection \<open>Page rounding\<close>

lemma mask_12: "(mask 12 :: u64) = 4095"
  by (simp add: mask_eq_exp_minus_1)

lemma and_not_mask_eq: "a AND NOT (mask n) = (push_bit n (drop_bit n a) :: 'a::len word)"
  by (rule bit_word_eqI) (auto simp: bit_simps)

lemma unat_take_bit: "unat (take_bit n a :: 'a::len word) = unat a mod 2 ^ n"
  unfolding unsigned_take_bit_eq by (rule take_bit_eq_mod)

lemma unat_push_drop: "unat (push_bit n (drop_bit n a) :: 'a::len word) = unat a - unat a mod 2 ^ n"
proof -
  have "push_bit n (drop_bit n a) = a - take_bit n a"
    using bits_ident [of n a] by (simp add: algebra_simps)
  moreover have "unat a mod 2 ^ n \<le> unat a" by simp
  ultimately show ?thesis by (simp add: unat_sub_if' unat_take_bit)
qed

lemma unat_PGROUNDDOWN: "unat (PGROUNDDOWN a) = unat a - unat a mod 4096"
proof -
  have "PGROUNDDOWN a = push_bit 12 (drop_bit 12 a)"
    using and_not_mask_eq [of a 12] by (simp add: PGROUNDDOWN_def PGSIZE_def mask_12)
  then show ?thesis by (simp add: unat_push_drop)
qed

lemma PGROUNDUP_eq: "PGROUNDUP a = PGROUNDDOWN (a + 4095)"
  by (simp add: PGROUNDUP_def PGROUNDDOWN_def PGSIZE_def add.commute)

lemma unat_PGROUNDUP:
  assumes "unat a + 4095 < 2 ^ 64"
  shows "unat (PGROUNDUP a) = (unat a + 4095) div 4096 * 4096"
proof -
  have "unat (a + 4095) = unat a + 4095" using assms by (simp add: unat_plus_if')
  then show ?thesis
    by (simp add: PGROUNDUP_eq unat_PGROUNDDOWN minus_mod_eq_div_mult)
qed

lemma PGROUNDDOWN_idem: "unat a mod 4096 = 0 \<Longrightarrow> PGROUNDDOWN a = a"
  by (simp flip: unat_inject add: unat_PGROUNDDOWN)

lemma aligned_mod_iff: "a mod PGSIZE = 0 \<longleftrightarrow> unat a mod 4096 = 0"
  by (simp flip: unat_inject add: PGSIZE_def unat_mod)

lemma PGROUNDDOWN_aligned [simp]: "unat (PGROUNDDOWN a) mod 4096 = 0"
  by (simp add: unat_PGROUNDDOWN minus_mod_eq_div_mult)

lemma PGROUNDDOWN_le: "PGROUNDDOWN a \<le> a"
  by (simp add: word_le_nat_alt unat_PGROUNDDOWN)

lemma PGROUNDDOWN_offset: "unat (a - PGROUNDDOWN a) = unat a mod 4096"
  by (simp add: unat_sub_if' unat_PGROUNDDOWN)

subsection \<open>Page-table entries\<close>

lemma aligned_low_bits: "unat pa mod 4096 = 0 \<Longrightarrow> n < 12 \<Longrightarrow> \<not> bit (pa :: u64) n"
proof -
  assume "unat pa mod 4096 = 0" "n < 12"
  then have "unat (take_bit 12 pa) = 0" by (simp add: unat_take_bit)
  then have "take_bit 12 pa = 0" by (simp add: unat_0_iff)
  then have "\<not> bit (take_bit 12 pa) n" by simp
  with \<open>n < 12\<close> show ?thesis by (simp add: bit_take_bit_iff)
qed

lemma small_high_bits: "unat (w :: u64) < 2 ^ k \<Longrightarrow> k \<le> n \<Longrightarrow> \<not> bit w n"
proof -
  assume "unat w < 2 ^ k" "k \<le> n"
  then have "take_bit k w = w"
    by (simp flip: unat_inject add: unat_take_bit)
  then have "bit w n = (n < k \<and> bit w n)" by (metis bit_take_bit_iff)
  with \<open>k \<le> n\<close> show ?thesis by simp
qed

lemma PTE2PA_PA2PTE:
  assumes "unat pa mod 4096 = 0" and "unat flags < 1024"
  shows "PTE2PA (PA2PTE pa OR flags) = pa"
proof (rule bit_word_eqI)
  fix n :: nat assume "n < LENGTH(64)"
  have "\<not> bit pa n" if "n < 12" using aligned_low_bits assms(1) that .
  moreover have "\<not> bit flags (10 + (n - 12))"
    by (rule small_high_bits [of _ 10]) (use assms(2) in auto)
  ultimately show "bit (PTE2PA (PA2PTE pa OR flags)) n = bit pa n"
    using \<open>n < LENGTH(64)\<close>
    by (cases "n < 12") (auto simp: PTE2PA_def PA2PTE_def bit_simps)
qed

lemma PTE_FLAGS_PA2PTE:
  assumes "unat flags < 1024"
  shows "PTE_FLAGS (PA2PTE pa OR flags) = flags"
proof -
  have m: "(0x3FF :: u64) = mask 10" by (simp add: mask_eq_exp_minus_1)
  show ?thesis
  proof (rule bit_word_eqI)
    fix n :: nat assume "n < LENGTH(64)"
    have "\<not> bit flags n" if "\<not> n < 10"
      by (rule small_high_bits [of _ 10]) (use assms that in auto)
    with \<open>n < LENGTH(64)\<close> show "bit (PTE_FLAGS (PA2PTE pa OR flags)) n = bit flags n"
      by (cases "n < 10") (auto simp: PTE_FLAGS_def PA2PTE_def m bit_simps)
  qed
qed

lemma unat_PX: "unat (PX level va) = unat va div 2 ^ (12 + 9 * level) mod 512"
proof -
  have "(0x1FF :: u64) = mask 9" by (simp add: mask_eq_exp_minus_1)
  then have "PX level va = take_bit 9 (drop_bit (PXSHIFT level) va)"
    by (simp add: PX_def take_bit_eq_mask)
  then show ?thesis
    by (simp add: PXSHIFT_def unat_take_bit unat_drop_bit_eq drop_bit_nat_def)
qed

lemma PX_less: "unat (PX level va) < 512"
  by (simp add: unat_PX)

subsection \<open>Pages\<close>

text \<open>For a page-aligned \<open>p\<close>, the addresses within 4096 bytes of \<open>p\<close> are those that round down to it.\<close>

lemma in_page_iff:
  assumes "unat p mod 4096 = 0"
  shows "unat (a - p) < 4096 \<longleftrightarrow> PGROUNDDOWN a = p"
proof
  assume lt: "unat (a - p) < 4096"
  obtain k where k: "unat p = 4096 * k" using assms by (metis mod_0_imp_dvd dvdE)
  then have "4096 * k < 4096 * 4503599627370496" using unat_bound [of p] by simp
  then have "k < 4503599627370496" by simp
  with lt k have "unat (p + (a - p)) = unat p + unat (a - p)"
    by (subst unat_plus_if') simp
  then have "unat a = 4096 * k + unat (a - p)" using k by simp
  with lt have "unat a mod 4096 = unat (a - p)" by (simp add: mod_mult_self3)
  with \<open>unat a = _\<close> k have "unat a - unat a mod 4096 = unat p" by simp
  then show "PGROUNDDOWN a = p" by (simp flip: unat_inject add: unat_PGROUNDDOWN)
next
  assume "PGROUNDDOWN a = p"
  then have "unat (a - p) = unat a mod 4096" using PGROUNDDOWN_offset by blast
  then show "unat (a - p) < 4096" by simp
qed

lemma PGROUNDDOWN_in_page:
  assumes "unat p mod 4096 = 0" and "i < 4096"
  shows "PGROUNDDOWN (p + of_nat i) = p"
  using in_page_iff [OF assms(1), of "p + of_nat i"] assms(2) by (simp add: unat_of_nat_small)

lemma PX_split:
  assumes "va < MAXVA"
  shows "unat va = unat (PX 2 va) * 2 ^ 30 + unat (PX 1 va) * 2 ^ 21 + unat (PX 0 va) * 4096
     + unat va mod 4096"
proof -
  let ?v = "unat va"
  have v: "?v < 2 ^ 39" using assms by (simp add: layout_simps word_less_nat_alt)
  have "?v div 2 ^ 21 = ?v div 4096 div 512" "?v div 2 ^ 30 = ?v div 4096 div 512 div 512"
    by (simp_all flip: div_mult2_eq)
  moreover have "?v div 4096 div 512 div 512 < 512"
    using v by (simp flip: div_mult2_eq add: less_mult_imp_div_less)
  ultimately have px: "unat (PX 2 va) = ?v div 4096 div 512 div 512"
    "unat (PX 1 va) = ?v div 4096 div 512 mod 512" "unat (PX 0 va) = ?v div 4096 mod 512"
    by (simp_all add: unat_PX)
  have "x = x div 512 * 512 + x mod 512" for x :: nat by simp
  then have "?v div 4096 = (unat (PX 2 va) * 512 + unat (PX 1 va)) * 512 + unat (PX 0 va)"
    unfolding px by metis
  moreover have "?v = ?v div 4096 * 4096 + ?v mod 4096" by simp
  ultimately show ?thesis by (simp add: algebra_simps)
qed

subsection \<open>Properties\<close>

text \<open>
  A leaf entry built as \<open>PA2PTE(pa) | flags\<close> from a page-aligned physical address and
  ten flag bits gives back exactly that address by \<open>PTE2PA\<close> and those flags by \<open>PTE_FLAGS\<close>.
\<close>

theorem pte_roundtrip:
  assumes "pa mod PGSIZE = 0" and "unat flags < 1024"
  shows "PTE2PA (PA2PTE pa OR flags) = pa \<and> PTE_FLAGS (PA2PTE pa OR flags) = flags"
  using assms by (simp add: PTE2PA_PA2PTE PTE_FLAGS_PA2PTE aligned_mod_iff)

theorem pte_roundtrip_witness:
  "PTE2PA (PA2PTE 0x87654000 OR 7) = 0x87654000"
  by (rule pte_roundtrip [THEN conjunct1]) (simp_all add: PGSIZE_def)

text \<open>
  Below \<open>MAXVA\<close> the three 9-bit indices \<open>PX(2,va)\<close>, \<open>PX(1,va)\<close>, \<open>PX(0,va)\<close> determine the
  virtual page: two addresses with the same indices round down to the same page, and each
  index is below 512, the number of entries of a page-table page.
\<close>

theorem PX_determines_page:
  assumes "va < MAXVA" and "va' < MAXVA"
  shows "(PX 2 va = PX 2 va' \<and> PX 1 va = PX 1 va' \<and> PX 0 va = PX 0 va')
           \<longleftrightarrow> PGROUNDDOWN va = PGROUNDDOWN va'"
proof
  assume "PX 2 va = PX 2 va' \<and> PX 1 va = PX 1 va' \<and> PX 0 va = PX 0 va'"
  then have "unat va - unat va mod 4096 = unat va' - unat va' mod 4096"
    using PX_split [OF assms(1)] PX_split [OF assms(2)] by (metis diff_add_inverse2)
  then show "PGROUNDDOWN va = PGROUNDDOWN va'"
    by (simp flip: unat_inject add: unat_PGROUNDDOWN)
next
  assume "PGROUNDDOWN va = PGROUNDDOWN va'"
  then have "unat va - unat va mod 4096 = unat va' - unat va' mod 4096"
    using unat_PGROUNDDOWN by metis
  then have q: "unat va div 4096 = unat va' div 4096"
    by (simp add: minus_mod_eq_mult_div)
  have div: "unat x div 2 ^ (12 + 9 * l) = unat x div 4096 div 2 ^ (9 * l)" for x :: u64 and l
    by (simp add: power_add div_mult2_eq)
  show "PX 2 va = PX 2 va' \<and> PX 1 va = PX 1 va' \<and> PX 0 va = PX 0 va'"
    unfolding unat_inject [symmetric] unat_PX div q by simp
qed

theorem PX_determines_page_witness:
  "PX 2 0x40201003 = PX 2 0x40201ff0 \<and> PX 1 0x40201003 = PX 1 0x40201ff0
     \<and> PX 0 0x40201003 = PX 0 0x40201ff0"
  by (rule PX_determines_page [THEN iffD2]) (simp_all add: layout_simps PGROUNDDOWN_def)

end
