(* ===== verification/Kalloc.thy ===== *)
theory Kalloc
  imports KString Riscv
begin

text \<open>
  \<open>kernel/kalloc.c\<close>: the physical page allocator. The free list is the linked list the code
  keeps inside the free pages themselves (\<open>struct run\<close>, the link in the first eight bytes),
  over the flat memory of \<open>Prelude\<close>. The linker symbol \<open>end\<close> is the parameter \<open>kend\<close>. The
  critical sections under \<open>kmem.lock\<close> are single steps. The locale \<open>page_allocator\<close> is what
  the other components rely on.
\<close>

subsection \<open>Definitions\<close>

record kmem =
  pmem :: mem
  freelist :: u64

definition kfree :: "u64 \<Rightarrow> u64 \<Rightarrow> kmem \<Rightarrow> kmem res" where
  "kfree kend pa s =
     (if pa mod PGSIZE \<noteq> 0 \<or> pa < kend \<or> pa \<ge> PHYSTOP then panic ''kfree''
      else let m = memset (pmem s) pa 1 4096
           in Inr (s\<lparr>pmem := store64 m pa (freelist s), freelist := pa\<rparr>))"

definition kalloc :: "kmem \<Rightarrow> u64 \<times> kmem" where
  "kalloc s =
     (let r = freelist s in
      if r \<noteq> 0 then (r, s\<lparr>freelist := load64 (pmem s) r, pmem := memset (pmem s) r 5 4096\<rparr>)
      else (r, s))"

text \<open>The loop of \<open>freerange\<close> stops: every page it frees lies below \<open>PHYSTOP\<close>.\<close>

function freerange_loop :: "u64 \<Rightarrow> u64 \<Rightarrow> u64 \<Rightarrow> kmem \<Rightarrow> kmem res" where
  "freerange_loop kend p pa_end s =
     (if p + PGSIZE \<le> pa_end
      then bindR (kfree kend p s) (\<lambda>s'. freerange_loop kend (p + PGSIZE) pa_end s')
      else Inr s)"
  by pat_completeness auto
termination
proof (relation "measure (\<lambda>(kend, p, pa_end, s). unat PHYSTOP - unat p)", goal_cases)
  case (2 kend p pa_end s s')
  then have "p < PHYSTOP" by (auto simp: kfree_def split: if_splits)
  then have "unat p < 2281701376" by (simp add: layout_simps word_less_nat_alt)
  moreover from this have "unat (p + PGSIZE) = unat p + 4096"
    by (simp add: PGSIZE_def unat_plus_if')
  ultimately show ?case by (simp add: layout_simps)
qed simp

definition freerange :: "u64 \<Rightarrow> u64 \<Rightarrow> u64 \<Rightarrow> kmem \<Rightarrow> kmem res" where
  "freerange kend pa_start pa_end s = freerange_loop kend (PGROUNDUP pa_start) pa_end s"

definition kinit :: "u64 \<Rightarrow> mem \<Rightarrow> kmem res" where
  "kinit kend m = freerange kend kend PHYSTOP \<lparr>pmem = m, freelist = 0\<rparr>"

declare freerange_loop.simps [simp del]

subsection \<open>The free list as a list of pages\<close>

definition page_ok :: "u64 \<Rightarrow> u64 \<Rightarrow> bool" where
  "page_ok kend p \<longleftrightarrow> unat p mod 4096 = 0 \<and> kend \<le> p \<and> p < PHYSTOP"

fun free_path :: "mem \<Rightarrow> u64 \<Rightarrow> u64 list \<Rightarrow> bool" where
  "free_path m a [] \<longleftrightarrow> a = 0"
| "free_path m a (p # ps) \<longleftrightarrow> a = p \<and> p \<noteq> 0 \<and> free_path m (load64 m p) ps"

definition free_pages :: "u64 \<Rightarrow> kmem \<Rightarrow> u64 list \<Rightarrow> bool" where
  "free_pages kend s ps \<longleftrightarrow>
     0 < kend \<and> free_path (pmem s) (freelist s) ps \<and> distinct ps \<and> (\<forall>p\<in>set ps. page_ok kend p)"

lemma load64_cong:
  assumes "\<And>i. i < 8 \<Longrightarrow> m (a + of_nat i) = m' (a + of_nat i)"
  shows "load64 m a = load64 m' a"
proof -
  have "m (a + k) = m' (a + k)" if "k \<in> {0, 1, 2, 3, 4, 5, 6, 7}" for k :: u64
    using assms [of "unat k"] that by auto
  then show ?thesis by (simp add: load64_def) (metis add.right_neutral insertI1)
qed

text \<open>Memory that agrees on a page gives the same link in that page.\<close>

lemma load64_page_cong:
  assumes "unat p mod 4096 = 0" and "\<And>a. PGROUNDDOWN a = p \<Longrightarrow> m a = m' a"
  shows "load64 m p = load64 m' p"
  by (rule load64_cong) (use assms PGROUNDDOWN_in_page in simp)

lemma free_path_cong:
  assumes "\<And>p a. p \<in> set ps \<Longrightarrow> PGROUNDDOWN a = p \<Longrightarrow> m a = m' a"
    and "\<And>p. p \<in> set ps \<Longrightarrow> unat p mod 4096 = 0"
  shows "free_path m a ps = free_path m' a ps"
  using assms
proof (induction ps arbitrary: a)
  case (Cons p ps)
  have "load64 m p = load64 m' p" by (rule load64_page_cong) (use Cons.prems in auto)
  with Cons show ?case by auto
qed simp

lemma memset_page_at:
  assumes "unat p mod 4096 = 0"
  shows "memset m p c 4096 a = (if PGROUNDDOWN a = p then ucast c else m a)"
  using in_page_iff [OF assms, of a] by (simp add: memset_at)

lemma store64_page:
  assumes "unat p mod 4096 = 0" and "PGROUNDDOWN a \<noteq> p"
  shows "store64 m p v a = m a"
  by (rule store64_other) (use in_page_iff [OF assms(1), of a] assms(2) in simp)

lemma page_ok_mod: "page_ok kend p \<Longrightarrow> unat p mod 4096 = 0"
  by (simp add: page_ok_def)

lemma kfree_Inr_iff:
  "kfree kend pa s = Inr s' \<longleftrightarrow> page_ok kend pa
     \<and> s' = s\<lparr>pmem := store64 (memset (pmem s) pa 1 4096) pa (freelist s), freelist := pa\<rparr>"
  by (auto simp: kfree_def page_ok_def aligned_mod_iff Let_def not_le not_less)

lemma kfree_Inl_iff: "kfree kend pa s = Inl e \<longleftrightarrow> \<not> page_ok kend pa \<and> e = Panic ''kfree''"
  by (auto simp: kfree_def page_ok_def aligned_mod_iff Let_def not_le not_less)

lemma kfree_free_pages:
  assumes "free_pages kend s ps" and "pa \<notin> set ps" and "kfree kend pa s = Inr s'"
  shows "free_pages kend s' (pa # ps)"
proof -
  let ?m = "store64 (memset (pmem s) pa 1 4096) pa (freelist s)"
  from assms(3) have ok: "page_ok kend pa" and s': "pmem s' = ?m" "freelist s' = pa"
    by (auto simp: kfree_Inr_iff)
  have "free_path ?m (freelist s) ps = free_path (pmem s) (freelist s) ps"
  proof (rule free_path_cong)
    fix p a assume "p \<in> set ps" "PGROUNDDOWN a = p"
    with assms(2) have "PGROUNDDOWN a \<noteq> pa" by auto
    then show "?m a = pmem s a" using page_ok_mod [OF ok] by (simp add: store64_page memset_page_at)
  qed (use assms(1) in \<open>auto simp: free_pages_def page_ok_def\<close>)
  moreover have "pa \<noteq> 0" using ok assms(1) by (auto simp: page_ok_def free_pages_def)
  ultimately show ?thesis using assms(1,2) ok s' by (simp add: free_pages_def)
qed

lemma kalloc_free_pages:
  assumes "free_pages kend s (p # ps)"
  shows "fst (kalloc s) = p" "free_pages kend (snd (kalloc s)) ps"
    "\<And>a. pmem (snd (kalloc s)) a = (if PGROUNDDOWN a = p then 5 else pmem s a)"
proof -
  from assms have p: "freelist s = p" "p \<noteq> 0" and al: "unat p mod 4096 = 0"
    and path: "free_path (pmem s) (load64 (pmem s) p) ps"
    by (auto simp: free_pages_def page_ok_def)
  let ?m = "memset (pmem s) p 5 4096"
  have "free_path ?m (load64 (pmem s) p) ps = free_path (pmem s) (load64 (pmem s) p) ps"
    by (rule free_path_cong) (use assms al in \<open>auto simp: free_pages_def page_ok_def memset_page_at\<close>)
  then show "fst (kalloc s) = p" "free_pages kend (snd (kalloc s)) ps"
    "\<And>a. pmem (snd (kalloc s)) a = (if PGROUNDDOWN a = p then 5 else pmem s a)"
    using assms p path al by (simp_all add: kalloc_def Let_def free_pages_def memset_page_at)
qed

lemma kalloc_empty:
  "free_pages kend s [] \<Longrightarrow> kalloc s = (0, s)"
  by (simp add: kalloc_def free_pages_def)

subsection \<open>The contract of the allocator\<close>

fun alloc_many :: "('s \<Rightarrow> u64 \<times> 's) \<Rightarrow> nat \<Rightarrow> 's \<Rightarrow> u64 list \<times> 's" where
  "alloc_many alloc 0 s = ([], s)"
| "alloc_many alloc (Suc n) s =
     (let (p, s1) = alloc s; (ps, s2) = alloc_many alloc n s1 in (p # ps, s2))"

locale page_allocator =
  fixes alloc :: "'s \<Rightarrow> u64 \<times> 's"
    and free :: "u64 \<Rightarrow> 's \<Rightarrow> 's res"
    and pages :: "'s \<Rightarrow> u64 list \<Rightarrow> bool"
    and ok :: "u64 \<Rightarrow> bool"
  assumes alloc_page: "pages s (p # ps) \<Longrightarrow> fst (alloc s) = p \<and> pages (snd (alloc s)) ps"
    and alloc_none: "pages s [] \<Longrightarrow> alloc s = (0, s)"
    and free_page: "pages s ps \<Longrightarrow> p \<notin> set ps \<Longrightarrow> ok p \<Longrightarrow> \<exists>s'. free p s = Inr s' \<and> pages s' (p # ps)"
    and free_bad: "\<not> ok p \<Longrightarrow> \<exists>msg. free p s = panic msg"
    and pages_ok: "pages s ps \<Longrightarrow> distinct ps \<and> (\<forall>p\<in>set ps. ok p \<and> p \<noteq> 0)"
begin

text \<open>While free pages last, \<open>n\<close> allocations return the first \<open>n\<close> free pages.\<close>

lemma alloc_many_take:
  "pages s ps \<Longrightarrow> n \<le> length ps \<Longrightarrow>
   fst (alloc_many alloc n s) = take n ps \<and> pages (snd (alloc_many alloc n s)) (drop n ps)"
proof (induction n arbitrary: s ps)
  case (Suc n)
  then obtain p qs where ps: "ps = p # qs" by (cases ps) auto
  have "fst (alloc s) = p" "pages (snd (alloc s)) qs" using alloc_page Suc.prems(1) ps by blast+
  with Suc.IH [of "snd (alloc s)" qs] Suc.prems(2) ps show ?case
    by (auto simp: Let_def split: prod.splits)
qed simp

text \<open>No page is handed out twice, and none that is still free.\<close>

lemma alloc_many_fresh:
  assumes "pages s ps" and "n \<le> length ps" and "alloc_many alloc n s = (qs, s')"
  shows "distinct qs \<and> length qs = n \<and> (\<forall>q\<in>set qs. ok q \<and> q \<noteq> 0)
     \<and> (\<exists>rs. pages s' rs \<and> set qs \<inter> set rs = {} \<and> set qs \<union> set rs = set ps)"
proof -
  have qs: "qs = take n ps" and s': "pages s' (drop n ps)"
    using alloc_many_take [OF assms(1,2)] assms(3) by auto
  have "distinct ps" and ok: "\<forall>p\<in>set ps. ok p \<and> p \<noteq> 0" using pages_ok [OF assms(1)] by auto
  then have "set (take n ps) \<inter> set (drop n ps) = {}"
    by (simp add: set_take_disj_set_drop_if_distinct)
  moreover have "set (take n ps) \<union> set (drop n ps) = set ps"
    by (metis append_take_drop_id set_append)
  moreover have "\<forall>q\<in>set (take n ps). ok q \<and> q \<noteq> 0" using ok by (meson in_set_takeD)
  ultimately show ?thesis using qs s' \<open>distinct ps\<close> assms(2) by auto
qed

text \<open>A page just freed is the next one allocated.\<close>

lemma alloc_after_free:
  assumes "pages s ps" and "p \<notin> set ps" and "free p s = Inr s'"
  shows "fst (alloc s') = p \<and> pages (snd (alloc s')) ps"
proof -
  have "ok p" using free_bad [of p s] assms(3) by (metis Inl_Inr_False)
  then have "pages s' (p # ps)" using free_page [OF assms(1,2)] assms(3) by auto
  then show ?thesis by (rule alloc_page)
qed

end

interpretation kpages: page_allocator kalloc "kfree kend" "free_pages kend" "page_ok kend" for kend
proof (unfold_locales, goal_cases)
  case (1 s p ps) then show ?case using kalloc_free_pages by blast
next
  case (2 s) then show ?case by (rule kalloc_empty)
next
  case (3 s ps p) then show ?case using kfree_free_pages kfree_Inr_iff by blast
next
  case (4 p s) then show ?case using kfree_Inl_iff by blast
next
  case (5 s ps) then show ?case by (auto simp: free_pages_def page_ok_def)
qed

subsection \<open>Initialisation\<close>

lemma page_ok_less_next:
  assumes "unat p mod 4096 = 0" and "p < PHYSTOP"
  shows "{q. page_ok kend q \<and> q < p + PGSIZE} = {q. page_ok kend q \<and> q < p} \<union> {q. page_ok kend q \<and> q = p}"
proof -
  have up: "unat (p + PGSIZE) = unat p + 4096"
    using assms(2) by (simp add: layout_simps word_less_nat_alt unat_plus_if')
  have "q < p + PGSIZE \<longleftrightarrow> q < p \<or> q = p" if "unat q mod 4096 = 0" for q
  proof -
    have "unat q = 4096 * (unat q div 4096)" "unat p = 4096 * (unat p div 4096)"
      using that assms(1) by (simp_all add: mult_div_mod_eq [symmetric] dvd_mult_div_cancel mod_0_imp_dvd)
    then obtain i j where "unat q = 4096 * i" "unat p = 4096 * j" by blast
    moreover have "4096 * i < 4096 * j + 4096 \<longleftrightarrow> i < j \<or> i = j" for i j :: nat by arith
    ultimately show ?thesis using up by (simp add: word_less_nat_alt flip: unat_inject)
  qed
  then show ?thesis by (auto simp: page_ok_def)
qed

lemma freerange_loop_all:
  assumes "free_pages kend s ps" and "unat p mod 4096 = 0" and "kend \<le> p" and "p \<le> PHYSTOP"
    and "set ps = {q. page_ok kend q \<and> q < p}"
  shows "\<exists>s' ps'. freerange_loop kend p PHYSTOP s = Inr s' \<and> free_pages kend s' ps'
           \<and> set ps' = {q. page_ok kend q}"
  using assms
proof (induction kend p PHYSTOP s arbitrary: ps rule: freerange_loop.induct)
  case (1 kend p s)
  obtain k where k: "unat p = 4096 * k" using "1.prems"(2) by (metis mod_0_imp_dvd dvdE)
  have le: "4096 * k \<le> 2281701376" using "1.prems"(4) k by (simp add: layout_simps word_le_nat_alt)
  then have up: "unat (p + PGSIZE) = unat p + 4096"
    using k by (simp add: PGSIZE_def unat_plus_if')
  show ?case
  proof (cases "p + PGSIZE \<le> PHYSTOP")
    case True
    then have lt: "p < PHYSTOP" using up by (simp add: word_less_nat_alt word_le_nat_alt)
    have ok: "page_ok kend p" using lt "1.prems"(2,3) by (simp add: page_ok_def)
    obtain s1 where s1: "kfree kend p s = Inr s1" using kfree_Inr_iff ok by blast
    have "free_pages kend s1 (p # ps)"
      using kfree_free_pages [OF "1.prems"(1) _ s1] "1.prems"(5) by simp
    moreover have "set (p # ps) = {q. page_ok kend q \<and> q < p + PGSIZE}"
      using page_ok_less_next [OF "1.prems"(2) lt] ok "1.prems"(5) by auto
    moreover have "unat (p + PGSIZE) mod 4096 = 0" using up "1.prems"(2) by simp
    moreover have "kend \<le> p + PGSIZE" using "1.prems"(3) up by (simp add: word_le_nat_alt)
    ultimately obtain s' ps' where "freerange_loop kend (p + PGSIZE) PHYSTOP s1 = Inr s'"
      "free_pages kend s' ps'" "set ps' = {q. page_ok kend q}"
      using "1.hyps" [OF True s1] True by metis
    then show ?thesis using True s1 by (subst freerange_loop.simps) auto
  next
    case False
    then have "unat PHYSTOP < 4096 * k + 4096" using up k by (simp add: word_le_nat_alt not_le)
    with le have "unat p = unat PHYSTOP" using k by (simp add: layout_simps)
    then have "p = PHYSTOP" by simp
    then show ?thesis
      using False "1.prems"(1,5) by (subst freerange_loop.simps) (auto simp: page_ok_def)
  qed
qed

subsection \<open>Properties\<close>

text \<open>
  C31: after \<open>kinit\<close> the free list holds every page-aligned physical page between the end
  of the kernel and \<open>PHYSTOP\<close>, each once, and initialisation does not panic.
\<close>

theorem kinit_frees_all_pages:
  assumes "0 < kend" and "kend \<le> PHYSTOP"
  shows "\<exists>s ps. kinit kend m = Inr s \<and> free_pages kend s ps
           \<and> (\<forall>p. p \<in> set ps \<longleftrightarrow> p mod PGSIZE = 0 \<and> kend \<le> p \<and> p < PHYSTOP)"
proof -
  let ?s = "\<lparr>pmem = m, freelist = 0\<rparr>" and ?p = "PGROUNDUP kend"
  have k: "unat kend \<le> 2281701376" using assms(2) by (simp add: layout_simps word_le_nat_alt)
  then have up: "unat ?p = (unat kend + 4095) div 4096 * 4096" by (intro unat_PGROUNDUP) simp
  have le: "unat kend \<le> unat ?p" "unat ?p \<le> 2281701376" 
    unfolding up using k by (simp_all add: div_mult_swap [symmetric] less_eq_div_iff_mult_less_eq)
  have none: "\<not> (page_ok kend q \<and> q < ?p)" for q
  proof
    assume q: "page_ok kend q \<and> q < ?p"
    then obtain i where "unat q = 4096 * i" unfolding page_ok_def by (metis mod_0_imp_dvd dvdE)
    with q have "unat kend \<le> 4096 * i" "4096 * i < unat ?p"
      by (auto simp: page_ok_def word_le_nat_alt word_less_nat_alt)
    moreover from this have "(unat kend + 4095) div 4096 < Suc i"
      by (intro less_mult_imp_div_less) simp
    ultimately show False unfolding up by simp
  qed
  have "\<exists>s' ps'. freerange_loop kend ?p PHYSTOP ?s = Inr s' \<and> free_pages kend s' ps'
      \<and> set ps' = {q. page_ok kend q}"
  proof (rule freerange_loop_all)
    show "free_pages kend ?s []" using assms(1) by (simp add: free_pages_def)
    show "unat ?p mod 4096 = 0" using up by simp
    show "kend \<le> ?p" "?p \<le> PHYSTOP" using le by (simp_all add: word_le_nat_alt layout_simps)
    show "set [] = {q. page_ok kend q \<and> q < ?p}" using none by auto
  qed
  then obtain s' ps' where "freerange_loop kend ?p PHYSTOP ?s = Inr s'" "free_pages kend s' ps'"
    "set ps' = {q. page_ok kend q}" by blast
  then show ?thesis
    by (intro exI [of _ s'] exI [of _ ps'])
      (simp add: kinit_def freerange_def page_ok_def aligned_mod_iff)
qed

theorem kinit_frees_all_pages_witness:
  "\<exists>s ps. kinit 0x80021d00 (\<lambda>_. 0) = Inr s \<and> free_pages 0x80021d00 s ps \<and> 0x80022000 \<in> set ps"
proof -
  obtain s ps where "kinit 0x80021d00 (\<lambda>_. 0) = Inr s" "free_pages 0x80021d00 s ps"
    "\<forall>p. p \<in> set ps \<longleftrightarrow> p mod PGSIZE = 0 \<and> 0x80021d00 \<le> p \<and> p < PHYSTOP"
    using kinit_frees_all_pages [of "0x80021d00" "\<lambda>_. 0"] by (auto simp: layout_simps)
  moreover from this have "0x80022000 \<in> set ps" by (simp add: layout_simps)
  ultimately show ?thesis by blast
qed

text \<open>
  C30: as long as pages are free, any run of \<open>n\<close> calls of \<open>kalloc\<close> returns \<open>n\<close> distinct,
  non-null pages taken from the free ones, and the pages still free afterwards are exactly the
  others: no page is handed out twice, and none is lost.
\<close>

theorem kalloc_hands_out_each_page_once:
  assumes "free_pages kend s ps" and "n \<le> length ps" and "alloc_many kalloc n s = (qs, s')"
  shows "distinct qs \<and> length qs = n \<and> (\<forall>q\<in>set qs. page_ok kend q \<and> q \<noteq> 0)
     \<and> (\<exists>rs. free_pages kend s' rs \<and> set qs \<inter> set rs = {} \<and> set qs \<union> set rs = set ps)"
  by (rule kpages.alloc_many_fresh [OF assms])

theorem kalloc_hands_out_each_page_once_witness:
  "\<exists>s'. alloc_many kalloc 1 \<lparr>pmem = \<lambda>_. 0, freelist = 0x80001000\<rparr> = ([0x80001000], s')
     \<and> page_ok 0x80000000 0x80001000"
proof -
  let ?s = "\<lparr>pmem = \<lambda>_. 0, freelist = 0x80001000\<rparr> :: kmem"
  have fp: "free_pages 0x80000000 ?s [0x80001000]"
    by (simp add: free_pages_def page_ok_def load64_def layout_simps)
  obtain s' where s': "alloc_many kalloc 1 ?s = ([0x80001000], s')"
    by (simp add: kalloc_def Let_def)
  from kalloc_hands_out_each_page_once [OF fp _ s'] s' show ?thesis by auto
qed



end
