(* ===== verification/Vm.thy ===== *)
theory Vm
  imports Kalloc
begin

text \<open>
  \<open>kernel/vm.c\<close>: Sv39 page tables, kept in physical memory as the hardware reads them. A page
  table is the physical address of its root page. The kernel buffers that \<open>copyout\<close>,
  \<open>copyin\<close> and \<open>copyinstr\<close> copy from or to are byte lists; \<open>vmfault\<close> takes the size and the page
  table of the current process, which the source reads from \<open>myproc()\<close>.
\<close>

subsection \<open>Walking and mapping\<close>

fun walk_loop :: "nat \<Rightarrow> u64 \<Rightarrow> u64 \<Rightarrow> bool \<Rightarrow> kmem \<Rightarrow> u64 \<times> kmem" where
  "walk_loop 0 pagetable va alloc s = (pagetable + 8 * PX 0 va, s)"
| "walk_loop (Suc level) pagetable va alloc s =
     (let pte = pagetable + 8 * PX (Suc level) va; e = load64 (pmem s) pte in
      if e AND PTE_V \<noteq> 0 then walk_loop level (PTE2PA e) va alloc s
      else if \<not> alloc then (0, s)
      else let (pg, s) = kalloc s in
        if pg = 0 then (0, s)
        else let m = memset (pmem s) pg 0 4096;
                 m = store64 m pte (PA2PTE pg OR PTE_V)
             in walk_loop level pg va alloc (s\<lparr>pmem := m\<rparr>))"

definition walk :: "u64 \<Rightarrow> u64 \<Rightarrow> bool \<Rightarrow> kmem \<Rightarrow> (u64 \<times> kmem) res" where
  "walk pagetable va alloc s =
     (if va \<ge> MAXVA then panic ''walk'' else Inr (walk_loop 2 pagetable va alloc s))"

definition walkaddr :: "u64 \<Rightarrow> u64 \<Rightarrow> kmem \<Rightarrow> u64" where
  "walkaddr pagetable va s =
     (if va \<ge> MAXVA then 0
      else let (pte, s) = walk_loop 2 pagetable va False s in
        if pte = 0 then 0
        else let e = load64 (pmem s) pte in
          if e AND PTE_V = 0 then 0 else if e AND PTE_U = 0 then 0 else PTE2PA e)"

text \<open>The loop of \<open>mappages\<close>; \<open>walk\<close> panics at \<open>MAXVA\<close>, so it ends even if \<open>last\<close> is never hit.\<close>

function mappages_loop :: "u64 \<Rightarrow> u64 \<Rightarrow> u64 \<Rightarrow> u64 \<Rightarrow> u64 \<Rightarrow> kmem \<Rightarrow> (int \<times> kmem) res" where
  "mappages_loop pagetable a lst pa perm s =
     bindR (walk pagetable a True s) (\<lambda>(pte, s).
       if pte = 0 then Inr (-1, s)
       else if load64 (pmem s) pte AND PTE_V \<noteq> 0 then panic ''mappages: remap''
       else let s = s\<lparr>pmem := store64 (pmem s) pte (PA2PTE pa OR perm OR PTE_V)\<rparr> in
         if a = lst then Inr (0, s)
         else mappages_loop pagetable (a + PGSIZE) lst (pa + PGSIZE) perm s)"
  by pat_completeness auto

lemma below_MAXVA_next:
  assumes "a < MAXVA" shows "unat (a + PGSIZE) = unat a + 4096" "unat a < unat MAXVA"
proof -
  show "unat a < unat MAXVA" using assms by (simp add: word_less_nat_alt)
  then have "unat a < 0x4000000000" by (simp add: layout_simps)
  then show "unat (a + PGSIZE) = unat a + 4096" by (simp add: PGSIZE_def unat_plus_if')
qed

lemma walk_Inr_less: "walk pagetable a al s = Inr r \<Longrightarrow> a < MAXVA"
  by (auto simp: walk_def not_le split: if_splits)

termination mappages_loop
proof (relation "measure (\<lambda>(pt, a, l, pa, perm, s). unat MAXVA - unat a)", goal_cases)
  case (2 pagetable a lst pa perm s r pte s')
  then have "a < MAXVA" by (auto dest: walk_Inr_less)
  from below_MAXVA_next [OF this] show ?case by simp
qed simp

declare mappages_loop.simps [simp del]

definition mappages :: "u64 \<Rightarrow> u64 \<Rightarrow> u64 \<Rightarrow> u64 \<Rightarrow> u64 \<Rightarrow> kmem \<Rightarrow> (int \<times> kmem) res" where
  "mappages pagetable va sz pa perm s =
     (if va mod PGSIZE \<noteq> 0 then panic ''mappages: va''
      else if sz mod PGSIZE \<noteq> 0 then panic ''mappages: size''
      else if sz = 0 then panic ''mappages: size''
      else mappages_loop pagetable va (va + sz - PGSIZE) pa perm s)"

definition kvmmap :: "u64 \<Rightarrow> u64 \<Rightarrow> u64 \<Rightarrow> u64 \<Rightarrow> u64 \<Rightarrow> kmem \<Rightarrow> kmem res" where
  "kvmmap kpgtbl va pa sz perm s =
     bindR (mappages kpgtbl va sz pa perm s) (\<lambda>(r, s). if r \<noteq> 0 then panic ''kvmmap'' else Inr s)"

subsection \<open>User memory\<close>

definition uvmcreate :: "kmem \<Rightarrow> u64 \<times> kmem" where
  "uvmcreate s =
     (let (pagetable, s) = kalloc s in
      if pagetable = 0 then (0, s) else (pagetable, s\<lparr>pmem := memset (pmem s) pagetable 0 4096\<rparr>))"

function uvmunmap_loop :: "u64 \<Rightarrow> u64 \<Rightarrow> u64 \<Rightarrow> u64 \<Rightarrow> bool \<Rightarrow> kmem \<Rightarrow> kmem res" where
  "uvmunmap_loop kend pagetable a lim do_free s =
     (if a < lim
      then bindR (walk pagetable a False s) (\<lambda>(pte, s).
        if pte = 0 then uvmunmap_loop kend pagetable (a + PGSIZE) lim do_free s
        else let e = load64 (pmem s) pte in
          if e AND PTE_V = 0 then uvmunmap_loop kend pagetable (a + PGSIZE) lim do_free s
          else bindR (if do_free then kfree kend (PTE2PA e) s else Inr s) (\<lambda>s.
            uvmunmap_loop kend pagetable (a + PGSIZE) lim do_free
              (s\<lparr>pmem := store64 (pmem s) pte 0\<rparr>)))
      else Inr s)"
  by pat_completeness auto
termination
  by (relation "measure (\<lambda>(ke, pt, a, l, f, s). unat MAXVA - unat a)")
    (auto dest!: walk_Inr_less simp: below_MAXVA_next intro!: diff_less_mono2)

declare uvmunmap_loop.simps [simp del]

definition uvmunmap :: "u64 \<Rightarrow> u64 \<Rightarrow> u64 \<Rightarrow> u64 \<Rightarrow> bool \<Rightarrow> kmem \<Rightarrow> kmem res" where
  "uvmunmap kend pagetable va npages do_free s =
     (if va mod PGSIZE \<noteq> 0 then panic ''uvmunmap''
      else uvmunmap_loop kend pagetable va (va + npages * PGSIZE) do_free s)"

text \<open>\<open>npages\<close> is an \<open>int\<close> in the source, so the page count is taken modulo \<open>2^32\<close> and sign extended.\<close>

definition uvmdealloc :: "u64 \<Rightarrow> u64 \<Rightarrow> u64 \<Rightarrow> u64 \<Rightarrow> kmem \<Rightarrow> (u64 \<times> kmem) res" where
  "uvmdealloc kend pagetable oldsz newsz s =
     (if newsz \<ge> oldsz then Inr (oldsz, s)
      else bindR (if PGROUNDUP newsz < PGROUNDUP oldsz
          then let npages = (ucast ((PGROUNDUP oldsz - PGROUNDUP newsz) div PGSIZE) :: u32) in
            uvmunmap kend pagetable (PGROUNDUP newsz) (scast npages) True s
          else Inr s) (\<lambda>s. Inr (newsz, s)))"

function uvmalloc_loop :: "u64 \<Rightarrow> u64 \<Rightarrow> u64 \<Rightarrow> u64 \<Rightarrow> u64 \<Rightarrow> u64 \<Rightarrow> kmem \<Rightarrow> (u64 \<times> kmem) res" where
  "uvmalloc_loop kend pagetable oldsz a newsz xperm s =
     (if a < newsz
      then let (mem, s) = kalloc s in
        if mem = 0
        then bindR (uvmdealloc kend pagetable a oldsz s) (\<lambda>(_, s). Inr (0, s))
        else let s = s\<lparr>pmem := memset (pmem s) mem 0 4096\<rparr> in
          bindR (mappages pagetable a PGSIZE mem (PTE_R OR PTE_U OR xperm) s) (\<lambda>(r, s).
            if r \<noteq> 0
            then bindR (kfree kend mem s) (\<lambda>s.
                 bindR (uvmdealloc kend pagetable a oldsz s) (\<lambda>(_, s). Inr (0, s)))
            else uvmalloc_loop kend pagetable oldsz (a + PGSIZE) newsz xperm s)
      else Inr (newsz, s))"
  by pat_completeness auto

lemma mappages_Inr_less: "mappages pagetable a sz pa perm s = Inr r \<Longrightarrow> a < MAXVA"
  by (auto simp: mappages_def mappages_loop.simps [of pagetable a] bindR_eq_Inr split: if_splits
      dest: walk_Inr_less)

termination uvmalloc_loop
  by (relation "measure (\<lambda>(ke, pt, os, a, n, x, s). unat MAXVA - unat a)")
    (auto dest!: mappages_Inr_less simp: below_MAXVA_next intro!: diff_less_mono2)

declare uvmalloc_loop.simps [simp del]

definition uvmalloc :: "u64 \<Rightarrow> u64 \<Rightarrow> u64 \<Rightarrow> u64 \<Rightarrow> u64 \<Rightarrow> kmem \<Rightarrow> (u64 \<times> kmem) res" where
  "uvmalloc kend pagetable oldsz newsz xperm s =
     (if newsz < oldsz then Inr (oldsz, s)
      else uvmalloc_loop kend pagetable (PGROUNDUP oldsz) (PGROUNDUP oldsz) newsz xperm s)"

text \<open>
  \<open>freewalk\<close> recurses once per level; \<open>fuel\<close> bounds the depth (3 for Sv39), and running out stands
  for the kernel stack overflow of a cyclic table.
\<close>

fun freewalk_loop :: "(u64 \<Rightarrow> kmem \<Rightarrow> kmem res) \<Rightarrow> u64 \<Rightarrow> nat list \<Rightarrow> kmem \<Rightarrow> kmem res" where
  "freewalk_loop rec pagetable [] s = Inr s"
| "freewalk_loop rec pagetable (i # is) s =
     (let p = pagetable + 8 * of_nat i; pte = load64 (pmem s) p in
      if pte AND PTE_V \<noteq> 0 \<and> pte AND (PTE_R OR PTE_W OR PTE_X) = 0
      then bindR (rec (PTE2PA pte) s) (\<lambda>s.
        freewalk_loop rec pagetable is (s\<lparr>pmem := store64 (pmem s) p 0\<rparr>))
      else if pte AND PTE_V \<noteq> 0 then panic ''freewalk: leaf''
      else freewalk_loop rec pagetable is s)"

fun freewalk :: "nat \<Rightarrow> u64 \<Rightarrow> u64 \<Rightarrow> kmem \<Rightarrow> kmem res" where
  "freewalk 0 kend pagetable s = Inl (Undefined ''stack'')"
| "freewalk (Suc fuel) kend pagetable s =
     bindR (freewalk_loop (freewalk fuel kend) pagetable [0..<512] s) (kfree kend pagetable)"

definition uvmfree :: "u64 \<Rightarrow> u64 \<Rightarrow> u64 \<Rightarrow> kmem \<Rightarrow> kmem res" where
  "uvmfree kend pagetable sz s =
     bindR (if sz > 0 then uvmunmap kend pagetable 0 (PGROUNDUP sz div PGSIZE) True s else Inr s)
       (freewalk 3 kend pagetable)"

function uvmcopy_loop :: "u64 \<Rightarrow> u64 \<Rightarrow> u64 \<Rightarrow> u64 \<Rightarrow> u64 \<Rightarrow> kmem \<Rightarrow> (int \<times> kmem) res" where
  "uvmcopy_loop kend old new i sz s =
     (if i < sz
      then bindR (walk old i False s) (\<lambda>(pte, s).
        if pte = 0 then uvmcopy_loop kend old new (i + PGSIZE) sz s
        else let e = load64 (pmem s) pte in
          if e AND PTE_V = 0 then uvmcopy_loop kend old new (i + PGSIZE) sz s
          else let (mem, s) = kalloc s in
            if mem = 0
            then bindR (uvmunmap kend new 0 (i div PGSIZE) True s) (\<lambda>s. Inr (-1, s))
            else let s = s\<lparr>pmem := memmove (pmem s) mem (PTE2PA e) 4096\<rparr> in
              bindR (mappages new i PGSIZE mem (PTE_FLAGS e) s) (\<lambda>(r, s).
                if r \<noteq> 0
                then bindR (kfree kend mem s) (\<lambda>s.
                     bindR (uvmunmap kend new 0 (i div PGSIZE) True s) (\<lambda>s. Inr (-1, s)))
                else uvmcopy_loop kend old new (i + PGSIZE) sz s))
      else Inr (0, s))"
  by pat_completeness auto
termination
  by (relation "measure (\<lambda>(ke, ot, n, i, sz, s). unat MAXVA - unat i)")
    (auto dest!: walk_Inr_less simp: below_MAXVA_next intro!: diff_less_mono2)

declare uvmcopy_loop.simps [simp del]

definition uvmcopy :: "u64 \<Rightarrow> u64 \<Rightarrow> u64 \<Rightarrow> u64 \<Rightarrow> kmem \<Rightarrow> (int \<times> kmem) res" where
  "uvmcopy kend old new sz s = uvmcopy_loop kend old new 0 sz s"

definition uvmclear :: "u64 \<Rightarrow> u64 \<Rightarrow> kmem \<Rightarrow> kmem res" where
  "uvmclear pagetable va s =
     bindR (walk pagetable va False s) (\<lambda>(pte, s).
       if pte = 0 then panic ''uvmclear''
       else Inr (s\<lparr>pmem := store64 (pmem s) pte (load64 (pmem s) pte AND NOT PTE_U)\<rparr>))"

subsection \<open>Page faults and copies\<close>

definition ismapped :: "u64 \<Rightarrow> u64 \<Rightarrow> kmem \<Rightarrow> bool res" where
  "ismapped pagetable va s =
     bindR (walk pagetable va False s) (\<lambda>(pte, s).
       Inr (pte \<noteq> 0 \<and> load64 (pmem s) pte AND PTE_V \<noteq> 0))"

definition vmfault :: "u64 \<Rightarrow> u64 \<Rightarrow> u64 \<Rightarrow> u64 \<Rightarrow> u64 \<Rightarrow> kmem \<Rightarrow> (u64 \<times> kmem) res" where
  "vmfault kend psz ppt pagetable va s =
     (if va \<ge> psz then Inr (0, s)
      else let va = PGROUNDDOWN va in
        bindR (ismapped pagetable va s) (\<lambda>mapped.
          if mapped then Inr (0, s)
          else let (mem, s) = kalloc s in
            if mem = 0 then Inr (0, s)
            else let s = s\<lparr>pmem := memset (pmem s) mem 0 4096\<rparr> in
              bindR (mappages ppt va PGSIZE mem (PTE_W OR PTE_U OR PTE_R) s) (\<lambda>(r, s).
                if r \<noteq> 0 then bindR (kfree kend mem s) (\<lambda>s. Inr (0, s)) else Inr (mem, s))))"

fun put_list :: "mem \<Rightarrow> u64 \<Rightarrow> byte list \<Rightarrow> mem" where
  "put_list m a [] = m"
| "put_list m a (b # bs) = put_list (m(a := b)) (a + 1) bs"

text \<open>How many bytes from \<open>va\<close> to the end of its page.\<close>

definition page_rest :: "u64 \<Rightarrow> nat" where
  "page_rest va = unat (PGSIZE - (va - PGROUNDDOWN va))"

lemma page_rest_pos: "0 < page_rest va"
proof -
  have "unat (va - PGROUNDDOWN va) < 4096" by (simp add: PGROUNDDOWN_offset)
  then show ?thesis by (simp add: page_rest_def PGSIZE_def unat_sub word_le_nat_alt)
qed

function copyout :: "u64 \<Rightarrow> u64 \<Rightarrow> u64 \<Rightarrow> u64 \<Rightarrow> u64 \<Rightarrow> byte list \<Rightarrow> kmem \<Rightarrow> (int \<times> kmem) res" where
  "copyout kend psz ppt pagetable dstva src s =
     (if src = [] then Inr (0, s)
      else let va0 = PGROUNDDOWN dstva in
        if va0 \<ge> MAXVA then Inr (-1, s)
        else let pa0 = walkaddr pagetable va0 s in
          bindR (if pa0 = 0 then vmfault kend psz ppt pagetable va0 s else Inr (pa0, s)) (\<lambda>(pa0, s).
            if pa0 = 0 then Inr (-1, s)
            else bindR (walk pagetable va0 False s) (\<lambda>(pte, s).
              if load64 (pmem s) pte AND PTE_W = 0 then Inr (-1, s)
              else let n = min (page_rest dstva) (length src);
                       s = s\<lparr>pmem := put_list (pmem s) (pa0 + (dstva - va0)) (take n src)\<rparr> in
                copyout kend psz ppt pagetable (va0 + PGSIZE) (drop n src) s)))"
  by pat_completeness auto
termination
  by (relation "measure (\<lambda>(ke, psz, ppt, pt, d, src, s). length src)") (auto simp: page_rest_pos)

declare copyout.simps [simp del]

text \<open>The bytes copied in so far, and the result.\<close>

function copyin :: "u64 \<Rightarrow> u64 \<Rightarrow> u64 \<Rightarrow> u64 \<Rightarrow> u64 \<Rightarrow> nat \<Rightarrow> kmem \<Rightarrow> (int \<times> byte list \<times> kmem) res" where
  "copyin kend psz ppt pagetable srcva len s =
     (if len = 0 then Inr (0, [], s)
      else let va0 = PGROUNDDOWN srcva; pa0 = walkaddr pagetable va0 s in
        bindR (if pa0 = 0 then vmfault kend psz ppt pagetable va0 s else Inr (pa0, s)) (\<lambda>(pa0, s).
          if pa0 = 0 then Inr (-1, [], s)
          else let n = min (page_rest srcva) len;
                   bs = bytes_at (pmem s) (pa0 + (srcva - va0)) n in
            bindR (copyin kend psz ppt pagetable (va0 + PGSIZE) (len - n) s) (\<lambda>(r, cs, s).
              Inr (r, bs @ cs, s))))"
  by pat_completeness auto
termination
  by (relation "measure (\<lambda>(ke, psz, ppt, pt, d, len, s). len)") (auto simp: page_rest_pos)

declare copyin.simps [simp del]

text \<open>\<open>None\<close> for -1; on success the bytes before the NUL.\<close>

function copyinstr :: "u64 \<Rightarrow> u64 \<Rightarrow> nat \<Rightarrow> kmem \<Rightarrow> byte list option" where
  "copyinstr pagetable srcva mx s =
     (if mx = 0 then None
      else let va0 = PGROUNDDOWN srcva; pa0 = walkaddr pagetable va0 s in
        if pa0 = 0 then None
        else let n = min (page_rest srcva) mx;
                 bs = bytes_at (pmem s) (pa0 + (srcva - va0)) n in
          if 0 \<in> set bs then Some (cstr bs)
          else (case copyinstr pagetable (va0 + PGSIZE) (mx - n) s of
                  None \<Rightarrow> None | Some cs \<Rightarrow> Some (bs @ cs)))"
  by pat_completeness auto
termination
  by (relation "measure (\<lambda>(pt, d, mx, s). mx)") (auto simp: page_rest_pos)

declare copyinstr.simps [simp del]

end
