(* ===== verification/Spinlock.thy ===== *)
theory Spinlock
  imports Prelude
begin

text \<open>
  \<open>kernel/spinlock.c\<close>: spin locks and the interrupt nesting of \<open>push_off\<close>/\<open>pop_off\<close>. The functions
  come first as whole calls; the step relation \<open>lstep\<close> then interleaves the calls of all CPUs at
  the granularity of their memory accesses to a lock. The CPU's SSTATUS.SIE bit is \<open>c_sie\<close>.
\<close>

subsection \<open>Interrupt nesting\<close>

record cpu =
  c_sie :: bool
  c_noff :: int
  c_intena :: bool

definition push_off :: "cpu \<Rightarrow> cpu" where
  "push_off c =
     (let old = c_sie c; c = c\<lparr>c_sie := False\<rparr>;
          c = (if c_noff c = 0 then c\<lparr>c_intena := old\<rparr> else c)
      in c\<lparr>c_noff := c_noff c + 1\<rparr>)"

definition pop_off :: "cpu \<Rightarrow> cpu res" where
  "pop_off c =
     (if c_sie c then panic ''pop_off - interruptible''
      else if c_noff c < 1 then panic ''pop_off''
      else let c = c\<lparr>c_noff := c_noff c - 1\<rparr> in
        Inr (if c_noff c = 0 \<and> c_intena c then c\<lparr>c_sie := True\<rparr> else c))"

subsection \<open>Spin locks\<close>

record spinlock =
  locked :: bool
  lk_cpu :: "nat option"

definition initlock :: spinlock where
  "initlock = \<lparr>locked = False, lk_cpu = None\<rparr>"

definition holding :: "nat \<Rightarrow> spinlock \<Rightarrow> bool" where
  "holding me lk \<longleftrightarrow> locked lk \<and> lk_cpu lk = Some me"

text \<open>A whole call of \<open>acquire\<close> by CPU \<open>me\<close>; it spins while another CPU has the lock.\<close>

definition acquire :: "nat \<Rightarrow> spinlock \<Rightarrow> cpu \<Rightarrow> (spinlock \<times> cpu) res" where
  "acquire me lk c =
     (let c = push_off c in
      if holding me lk then panic ''acquire''
      else if locked lk then Inl (Blocked ''acquire'')
      else Inr (lk\<lparr>locked := True, lk_cpu := Some me\<rparr>, c))"

definition release :: "nat \<Rightarrow> spinlock \<Rightarrow> cpu \<Rightarrow> (spinlock \<times> cpu) res" where
  "release me lk c =
     (if \<not> holding me lk then panic ''release''
      else let lk = lk\<lparr>lk_cpu := None\<rparr>; lk = lk\<lparr>locked := False\<rparr> in
        bindR (pop_off c) (\<lambda>c. Inr (lk, c)))"

subsection \<open>Interleaved execution\<close>

text \<open>
  Where a CPU is: outside the lock functions, in the test-and-set loop of \<open>acquire\<close>, between the
  successful swap and the store of \<open>lk->cpu\<close>, or in \<open>release\<close> between the store to \<open>lk->cpu\<close> and the
  store to \<open>lk->locked\<close>. \<open>held\<close> lists the locks a CPU has acquired and not begun to release.
\<close>

datatype pc = Outside | Spinning nat | Swapped nat | Releasing nat

record smp =
  cpus :: "nat \<Rightarrow> cpu"
  locks :: "nat \<Rightarrow> spinlock"
  pcs :: "nat \<Rightarrow> pc"
  held :: "nat \<Rightarrow> nat list"

inductive lstep :: "smp \<Rightarrow> smp \<Rightarrow> bool" where
  acquire_enter: "pcs s c = Outside \<Longrightarrow> \<not> holding c (locks s l) \<Longrightarrow>
    lstep s (s\<lparr>cpus := (cpus s)(c := push_off (cpus s c)), pcs := (pcs s)(c := Spinning l)\<rparr>)"
| swap_lost: "pcs s c = Spinning l \<Longrightarrow> locked (locks s l) \<Longrightarrow> lstep s s"
| swap_won: "pcs s c = Spinning l \<Longrightarrow> \<not> locked (locks s l) \<Longrightarrow>
    lstep s (s\<lparr>locks := (locks s)(l := (locks s l)\<lparr>locked := True\<rparr>), pcs := (pcs s)(c := Swapped l)\<rparr>)"
| acquire_leave: "pcs s c = Swapped l \<Longrightarrow>
    lstep s (s\<lparr>locks := (locks s)(l := (locks s l)\<lparr>lk_cpu := Some c\<rparr>), pcs := (pcs s)(c := Outside),
               held := (held s)(c := l # held s c)\<rparr>)"
| release_enter: "pcs s c = Outside \<Longrightarrow> holding c (locks s l) \<Longrightarrow>
    lstep s (s\<lparr>locks := (locks s)(l := (locks s l)\<lparr>lk_cpu := None\<rparr>), pcs := (pcs s)(c := Releasing l),
               held := (held s)(c := remove1 l (held s c))\<rparr>)"
| release_leave: "pcs s c = Releasing l \<Longrightarrow> pop_off (cpus s c) = Inr cp \<Longrightarrow>
    lstep s (s\<lparr>locks := (locks s)(l := (locks s l)\<lparr>locked := False\<rparr>), pcs := (pcs s)(c := Outside),
               cpus := (cpus s)(c := cp)\<rparr>)"

definition boot_cpu :: cpu where
  "boot_cpu = \<lparr>c_sie = False, c_noff = 0, c_intena = False\<rparr>"

definition smp_boot :: "smp \<Rightarrow> bool" where
  "smp_boot s \<longleftrightarrow> (\<forall>c. c_noff (cpus s c) = 0 \<and> pcs s c = Outside \<and> held s c = [])
     \<and> (\<forall>l. locks s l = initlock)"

inductive reachable :: "smp \<Rightarrow> bool" where
  boot: "smp_boot s \<Longrightarrow> reachable s"
| step: "reachable s \<Longrightarrow> lstep s s' \<Longrightarrow> reachable s'"

subsection \<open>The invariant\<close>

text \<open>Who owns lock \<open>l\<close>: from its successful swap to its store of 0 to \<open>lk->locked\<close>.\<close>

definition owns :: "smp \<Rightarrow> nat \<Rightarrow> nat \<Rightarrow> bool" where
  "owns s c l \<longleftrightarrow> l \<in> set (held s c) \<or> pcs s c = Swapped l \<or> pcs s c = Releasing l"

text \<open>How many \<open>push_off\<close>s of CPU \<open>c\<close> are not yet undone.\<close>

definition depth :: "smp \<Rightarrow> nat \<Rightarrow> nat" where
  "depth s c = length (held s c) + (if pcs s c = Outside then 0 else 1)"

definition smp_inv :: "smp \<Rightarrow> bool" where
  "smp_inv s \<longleftrightarrow>
     (\<forall>l. locked (locks s l) \<longleftrightarrow> (\<exists>c. owns s c l))
     \<and> (\<forall>c d l. owns s c l \<and> owns s d l \<longrightarrow> c = d)
     \<and> (\<forall>c l. l \<in> set (held s c) \<longleftrightarrow> lk_cpu (locks s l) = Some c)
     \<and> (\<forall>c. distinct (held s c))
     \<and> (\<forall>c l. (pcs s c = Swapped l \<or> pcs s c = Releasing l) \<longrightarrow> l \<notin> set (held s c))
     \<and> (\<forall>c. c_noff (cpus s c) = int (depth s c) \<and> (0 < depth s c \<longrightarrow> \<not> c_sie (cpus s c)))"

lemma smp_invD:
  assumes "smp_inv s"
  shows "locked (locks s l) \<longleftrightarrow> (\<exists>c. owns s c l)"
    and "owns s c l \<Longrightarrow> owns s d l \<Longrightarrow> c = d"
    and "l \<in> set (held s c) \<longleftrightarrow> lk_cpu (locks s l) = Some c"
    and "distinct (held s c)"
    and "pcs s c = Swapped l \<or> pcs s c = Releasing l \<Longrightarrow> l \<notin> set (held s c)"
    and "c_noff (cpus s c) = int (depth s c)"
    and "0 < depth s c \<Longrightarrow> \<not> c_sie (cpus s c)"
  using assms unfolding smp_inv_def by metis+

lemma smp_invI:
  assumes "\<And>l. locked (locks s l) \<longleftrightarrow> (\<exists>c. owns s c l)"
    and "\<And>c d l. owns s c l \<Longrightarrow> owns s d l \<Longrightarrow> c = d"
    and "\<And>c l. l \<in> set (held s c) \<longleftrightarrow> lk_cpu (locks s l) = Some c"
    and "\<And>c. distinct (held s c)"
    and "\<And>c l. pcs s c = Swapped l \<or> pcs s c = Releasing l \<Longrightarrow> l \<notin> set (held s c)"
    and "\<And>c. c_noff (cpus s c) = int (depth s c)"
    and "\<And>c. 0 < depth s c \<Longrightarrow> \<not> c_sie (cpus s c)"
  shows "smp_inv s"
  unfolding smp_inv_def using assms by blast

lemma push_off_simps [simp]:
  "c_noff (push_off c) = c_noff c + 1" "\<not> c_sie (push_off c)"
  by (simp_all add: push_off_def Let_def)

lemma pop_off_Inr:
  "pop_off c = Inr c' \<Longrightarrow> c_noff c' = c_noff c - 1 \<and> 1 \<le> c_noff c \<and> \<not> c_sie c \<and> (0 < c_noff c' \<longrightarrow> \<not> c_sie c')"
  by (auto simp: pop_off_def Let_def split: if_splits)

lemma holding_held: "smp_inv s \<Longrightarrow> holding c (locks s l) \<longleftrightarrow> l \<in> set (held s c)"
  using smp_invD(1,3) unfolding holding_def owns_def by blast

lemma lstep_inv:
  assumes "lstep s s'" "smp_inv s"
  shows "smp_inv s'"
  using assms
proof (induction rule: lstep.induct)
  case (acquire_enter s c l)
  note I = smp_invD [OF acquire_enter(3)]
  show ?case
  proof (rule smp_invI, goal_cases)
    have O: "owns (s\<lparr>cpus := (cpus s)(c := push_off (cpus s c)), pcs := (pcs s)(c := Spinning l)\<rparr>) d l' \<longleftrightarrow> owns s d l'" for d l'
      using acquire_enter(1) by (auto simp: owns_def)
    { case (1 l') show ?case unfolding O using I(1) [of l'] by auto
    next
      case (2 d e l') then show ?case unfolding O using I(2) [of d l' e] by auto }
  next
    case (3 d l') then show ?case using I(3) by simp
  next
    case (4 d) then show ?case using I(4) by simp
  next
    case (5 d l') then show ?case using I(5) by (auto split: if_splits)
  next
    case (6 d) then show ?case using I(6) [of d] acquire_enter(1) by (auto simp: depth_def)
  next
    case (7 d) then show ?case using I(7) [of d] by (auto simp: depth_def split: if_splits)
  qed
next
  case (swap_lost s c l)
  then show ?case by simp
next
  case (swap_won s c l)
  note I = smp_invD [OF swap_won(3)]
  have free: "\<not> owns s d l" for d using I(1) swap_won(2) by blast
  show ?case
  proof (rule smp_invI, goal_cases)
    have O: "owns (s\<lparr>locks := (locks s)(l := (locks s l)\<lparr>locked := True\<rparr>), pcs := (pcs s)(c := Swapped l)\<rparr>) d l' \<longleftrightarrow> owns s d l' \<or> d = c \<and> l' = l" for d l'
      using swap_won(1) by (auto simp: owns_def)
    { case (1 l') show ?case unfolding O using I(1) [of l'] swap_won(2) by auto
    next
      case (2 d e l') then show ?case unfolding O using I(2) [of d l' e] free by auto }
  next
    case (3 d l') then show ?case using I(3) by simp
  next
    case (4 d) then show ?case using I(4) by simp
  next
    case (5 d l') then show ?case using I(5) free by (auto simp: owns_def split: if_splits)
  next
    case (6 d) then show ?case using I(6) [of d] swap_won(1) by (auto simp: depth_def)
  next
    case (7 d) then show ?case using I(7) [of d] swap_won(1) by (auto simp: depth_def split: if_splits)
  qed
next
  case (acquire_leave s c l)
  note I = smp_invD [OF acquire_leave(2)]
  have own: "owns s d l \<longleftrightarrow> d = c" for d using I(2) [of c l] acquire_leave(1) by (auto simp: owns_def)
  show ?case
  proof (rule smp_invI, goal_cases)
    have O: "owns (s\<lparr>locks := (locks s)(l := (locks s l)\<lparr>lk_cpu := Some c\<rparr>), pcs := (pcs s)(c := Outside), held := (held s)(c := l # held s c)\<rparr>) d l' \<longleftrightarrow> owns s d l'" for d l'
      using acquire_leave(1) by (auto simp: owns_def)
    { case (1 l') show ?case unfolding O using I(1) [of l'] by auto
    next
      case (2 d e l') then show ?case unfolding O using I(2) [of d l' e] by auto }
  next
    case (3 d l')
    then show ?case using I(3) [of l' d] own [of d] acquire_leave(1) by (auto simp: owns_def)
  next
    case (4 d) then show ?case using I(4) I(5) [of c l] acquire_leave(1) by simp
  next
    case (5 d l') then show ?case using I(5) by (auto split: if_splits)
  next
    case (6 d) then show ?case using I(6) [of d] acquire_leave(1) by (auto simp: depth_def)
  next
    case (7 d) then show ?case using I(7) [of d] acquire_leave(1) by (auto simp: depth_def split: if_splits)
  qed
next
  case (release_enter s c l)
  note I = smp_invD [OF release_enter(3)]
  have mem: "l \<in> set (held s c)" using holding_held [OF release_enter(3)] release_enter(2) by blast
  then have own: "owns s d l \<longleftrightarrow> d = c" for d using I(2) [of c l] by (auto simp: owns_def)
  show ?case
  proof (rule smp_invI, goal_cases)
    have O: "owns (s\<lparr>locks := (locks s)(l := (locks s l)\<lparr>lk_cpu := None\<rparr>), pcs := (pcs s)(c := Releasing l), held := (held s)(c := remove1 l (held s c))\<rparr>) d l' \<longleftrightarrow> owns s d l'" for d l'
      using release_enter(1) mem I(4) by (auto simp: owns_def)
    { case (1 l') show ?case unfolding O using I(1) [of l'] by auto
    next
      case (2 d e l') then show ?case unfolding O using I(2) [of d l' e] by auto }
  next
    case (3 d l')
    then show ?case using I(3) [of l' d] I(4) [of c] own [of d] mem by (auto simp: owns_def)
  next
    case (4 d) then show ?case using I(4) by simp
  next
    case (5 d l') then show ?case using I(5) [of d l'] I(4) [of c] by (auto split: if_splits)
  next
    case (6 d)
    have "0 < length (held s c)" using mem by (rule length_pos_if_in_set)
    then show ?case using I(6) [of d] release_enter(1) mem
      by (auto simp: depth_def length_remove1 of_nat_diff Suc_le_eq)
  next
    case (7 d)
    have "0 < length (held s c)" using mem by (auto dest: length_pos_if_in_set)
    then show ?case using I(7) [of d] 7 by (auto simp: depth_def split: if_splits)
  qed
next
  case (release_leave s c l cp)
  note I = smp_invD [OF release_leave(3)] and P = pop_off_Inr [OF release_leave(2)]
  have own: "owns s d l \<longleftrightarrow> d = c" for d using I(2) [of c l] release_leave(1) by (auto simp: owns_def)
  have nh: "l \<notin> set (held s d)" for d
    using I(5) [of c l] release_leave(1) own [of d] by (auto simp: owns_def)
  show ?case
  proof (rule smp_invI, goal_cases)
    have O: "owns (s\<lparr>locks := (locks s)(l := (locks s l)\<lparr>locked := False\<rparr>), pcs := (pcs s)(c := Outside), cpus := (cpus s)(c := cp)\<rparr>) d l' \<longleftrightarrow> owns s d l' \<and> \<not> (d = c \<and> l' = l)" for d l'
      using release_leave(1) nh by (auto simp: owns_def)
    { case (1 l') show ?case unfolding O using I(1) [of l'] own by auto
    next
      case (2 d e l') then show ?case unfolding O using I(2) [of d l' e] by auto }
  next
    case (3 d l') then show ?case using I(3) by simp
  next
    case (4 d) then show ?case using I(4) by simp
  next
    case (5 d l') then show ?case using I(5) by (auto split: if_splits)
  next
    case (6 d) then show ?case using I(6) [of d] release_leave(1) P by (auto simp: depth_def)
  next
    case (7 d)
    then show ?case using I(7) [of d] I(6) [of c] release_leave(1) P by (auto simp: depth_def split: if_splits)
  qed
qed

lemma boot_inv_smp: "smp_boot s \<Longrightarrow> smp_inv s"
  by (rule smp_invI) (auto simp: smp_boot_def owns_def depth_def initlock_def)

lemma reachable_inv: "reachable s \<Longrightarrow> smp_inv s"
  by (induction rule: reachable.induct) (auto intro: boot_inv_smp lstep_inv)

text \<open>An uncontended call of \<open>acquire\<close> and a call of \<open>release\<close> are sequences of these steps.\<close>

lemma acquire_steps:
  assumes "reachable s" "pcs s c = Outside" "acquire c (locks s l) (cpus s c) = Inr (lk, cp)"
  shows "reachable (s\<lparr>cpus := (cpus s)(c := cp), locks := (locks s)(l := lk), held := (held s)(c := l # held s c)\<rparr>)"
proof -
  have a: "\<not> holding c (locks s l)" "\<not> locked (locks s l)" "lk = (locks s l)\<lparr>locked := True, lk_cpu := Some c\<rparr>"
    "cp = push_off (cpus s c)"
    using assms(3) by (auto simp: acquire_def Let_def split: if_splits)
  note 1 = reachable.step [OF assms(1) lstep.acquire_enter [of s c l, OF assms(2) a(1)]]
  note 2 = reachable.step [OF 1 lstep.swap_won [of _ c l]]
  note 3 = reachable.step [OF 2 lstep.acquire_leave [of _ c l]]
  have "(pcs s)(c := Outside) = pcs s" using assms(2) by auto
  then show ?thesis using 3 a by simp
qed

lemma release_steps:
  assumes "reachable s" "pcs s c = Outside" "release c (locks s l) (cpus s c) = Inr (lk, cp)"
  shows "reachable (s\<lparr>held := (held s)(c := remove1 l (held s c)), locks := (locks s)(l := lk), cpus := (cpus s)(c := cp)\<rparr>)"
proof -
  have a: "holding c (locks s l)" "lk = (locks s l)\<lparr>lk_cpu := None, locked := False\<rparr>" "pop_off (cpus s c) = Inr cp"
    using assms(3) by (auto simp: release_def Let_def bindR_eq_Inr split: if_splits)
  note 1 = reachable.step [OF assms(1) lstep.release_enter [of s c l, OF assms(2) a(1)]]
  note 2 = reachable.step [OF 1 lstep.release_leave [of _ c l cp]]
  have "(pcs s)(c := Outside) = pcs s" using assms(2) by auto
  then show ?thesis using 2 a by simp
qed

text \<open>
  C17: spin locks exclude each other on any number of CPUs and for every interleaving of their
  accesses to the lock word. In a reachable state no lock is held by two CPUs; \<open>holding\<close> tells a
  CPU exactly which locks it holds; while a CPU holds a lock its interrupts are off and its nesting
  depth counts its locks; the \<open>pop_off\<close> at the end of a \<open>release\<close> never panics; and whole calls of \<open>acquire\<close>
  and \<open>release\<close> lead to such states.
\<close>

theorem spinlock_mutual_exclusion:
  assumes "reachable s"
  shows "(\<forall>c d l. l \<in> set (held s c) \<and> l \<in> set (held s d) \<longrightarrow> c = d)
    \<and> (\<forall>c l. holding c (locks s l) \<longleftrightarrow> l \<in> set (held s c))
    \<and> (\<forall>c. held s c \<noteq> [] \<longrightarrow> \<not> c_sie (cpus s c) \<and> int (length (held s c)) \<le> c_noff (cpus s c))
    \<and> (\<forall>c l. pcs s c = Releasing l \<longrightarrow> (\<exists>cp. pop_off (cpus s c) = Inr cp))
    \<and> (\<forall>c l lk cp. pcs s c = Outside \<and> acquire c (locks s l) (cpus s c) = Inr (lk, cp) \<longrightarrow>
         reachable (s\<lparr>cpus := (cpus s)(c := cp), locks := (locks s)(l := lk), held := (held s)(c := l # held s c)\<rparr>))
    \<and> (\<forall>c l lk cp. pcs s c = Outside \<and> release c (locks s l) (cpus s c) = Inr (lk, cp) \<longrightarrow>
         reachable (s\<lparr>held := (held s)(c := remove1 l (held s c)), locks := (locks s)(l := lk), cpus := (cpus s)(c := cp)\<rparr>))"
proof -
  note inv = reachable_inv [OF assms]
  note I = smp_invD [OF inv]
  show ?thesis
  proof (intro conjI allI impI)
    show "c = d" if "l \<in> set (held s c) \<and> l \<in> set (held s d)" for c d l
      using I(2) [of c l d] that by (auto simp: owns_def)
    show "holding c (locks s l) \<longleftrightarrow> l \<in> set (held s c)" for c l by (rule holding_held [OF inv])
    show "\<not> c_sie (cpus s c)" "int (length (held s c)) \<le> c_noff (cpus s c)" if "held s c \<noteq> []" for c
      using I(6,7) [of c] that by (auto simp: depth_def)
    show "\<exists>cp. pop_off (cpus s c) = Inr cp" if "pcs s c = Releasing l" for c l
      using I(6,7) [of c] that by (auto simp: depth_def pop_off_def Let_def)
  qed (use acquire_steps release_steps assms in blast)+
qed

theorem spinlock_mutual_exclusion_witness:
  "\<exists>s. reachable s \<and> pcs s 1 = Spinning 0 \<and> held s 0 = [0] \<and> holding 0 (locks s 0)
     \<and> \<not> holding 1 (locks s 0)"
proof -
  define s0 where "s0 = \<lparr>cpus = (\<lambda>_. boot_cpu), locks = (\<lambda>_. initlock), pcs = (\<lambda>_. Outside), held = (\<lambda>_. [])\<rparr>"
  have "reachable s0" by (rule reachable.boot) (simp add: smp_boot_def s0_def boot_cpu_def)
  note 1 = reachable.step [OF this lstep.acquire_enter [of s0 0 0]]
  note 2 = reachable.step [OF 1 lstep.swap_won [of _ 0 0]]
  note 3 = reachable.step [OF 2 lstep.acquire_leave [of _ 0 0]]
  note 4 = reachable.step [OF 3 lstep.acquire_enter [of _ 1 0]]
  have "\<exists>s. reachable s \<and> pcs s 1 = Spinning 0 \<and> held s 0 = [0]"
    by (rule exI, rule conjI, rule 4) (simp_all add: s0_def holding_def initlock_def)
  then show ?thesis using spinlock_mutual_exclusion by (metis insertCI list.set(2) zero_neq_one)
qed

subsection \<open>Nesting of interrupt disabling\<close>

fun pop_n :: "nat \<Rightarrow> cpu \<Rightarrow> cpu res" where
  "pop_n 0 c = Inr c"
| "pop_n (Suc n) c = bindR (pop_off c) (pop_n n)"

lemma push_n: "c_noff ((push_off ^^ n) c) = c_noff c + int n"
  by (induction n) auto

lemma push_n_intena:
  "0 \<le> c_noff c \<Longrightarrow> 0 < n \<Longrightarrow> c_intena ((push_off ^^ n) c) = (if c_noff c = 0 then c_sie c else c_intena c)
    \<and> \<not> c_sie ((push_off ^^ n) c)"
proof (induction n)
  case (Suc n)
  show ?case
  proof (cases n)
    case 0
    then show ?thesis by (simp add: push_off_def Let_def)
  next
    case (Suc k)
    then have "c_noff ((push_off ^^ n) c) \<noteq> 0" using push_n [of n c] Suc.prems by simp
    then have "c_intena (push_off ((push_off ^^ n) c)) = c_intena ((push_off ^^ n) c)"
      by (simp add: push_off_def Let_def)
    then show ?thesis using Suc.IH Suc.prems Suc by simp
  qed
qed simp

lemma pop_n_result:
  "\<not> c_sie c \<Longrightarrow> int n \<le> c_noff c \<Longrightarrow> 0 < n \<Longrightarrow>
   \<exists>c'. pop_n n c = Inr c' \<and> c_noff c' = c_noff c - int n \<and> c_sie c' = (c_noff c = int n \<and> c_intena c)"
proof (induction n arbitrary: c)
  case (Suc n)
  let ?c = "c\<lparr>c_noff := c_noff c - 1\<rparr>"
  show ?case
  proof (cases n)
    case 0
    then show ?thesis using Suc.prems by (auto simp: pop_off_def Let_def)
  next
    case (Suc k)
    then have "pop_off c = Inr ?c" using Suc.prems by (auto simp: pop_off_def Let_def)
    then show ?thesis using Suc.IH [of ?c] Suc.prems Suc by auto
  qed
qed simp

text \<open>
  \<open>push_off\<close> and \<open>pop_off\<close> are matched: after any number of nested pairs the CPU's interrupt
  flag is what it was before the outermost \<open>push_off\<close>, and in between interrupts are off.
\<close>

lemma push_pop_matched:
  assumes "0 < n"
  shows "\<exists>c'. pop_n n ((push_off ^^ n) (c\<lparr>c_noff := 0\<rparr>)) = Inr c' \<and> c_sie c' = c_sie c \<and> c_noff c' = 0
    \<and> (\<forall>k. 0 < k \<and> k \<le> n \<longrightarrow> \<not> c_sie ((push_off ^^ k) (c\<lparr>c_noff := 0\<rparr>)))"
proof -
  let ?c = "c\<lparr>c_noff := 0\<rparr>"
  have "c_noff ((push_off ^^ n) ?c) = int n" using push_n [of n ?c] by simp
  then show ?thesis
    using pop_n_result [of "(push_off ^^ n) ?c" n] push_n_intena [of ?c n] push_n_intena [of ?c] assms by auto
qed

lemma push_pop_matched_witness:
  "\<exists>c'. pop_n 3 ((push_off ^^ 3) \<lparr>c_sie = True, c_noff = 0, c_intena = False\<rparr>) = Inr c' \<and> c_sie c'"
  using push_pop_matched [of 3 "\<lparr>c_sie = True, c_noff = 0, c_intena = False\<rparr>"] by auto

end
