(* ===== verification/Proc.thy ===== *)
theory Proc
  imports Vm Spinlock
begin

text \<open>
  \<open>kernel/proc.c\<close>: the process table. A process is its index in \<open>proc[]\<close>; the sections under
  \<open>p->lock\<close>, \<open>wait_lock\<close> and \<open>pid_lock\<close> are single steps. \<open>kfork\<close> and \<open>kexit\<close> also touch the file table
  and the inode table: they take the operations they call there (\<open>filedup\<close>, \<open>idup\<close>, \<open>fileclose\<close> and
  the transaction around \<open>iput\<close>) as arguments, over a state \<open>'f\<close> that \<open>Kernel\<close> makes the file
  system's. \<open>kend\<close> and \<open>tramp\<close> are the linker symbols \<open>end\<close> and \<open>trampoline\<close>.
\<close>

subsection \<open>State\<close>

definition NPROC :: nat where "NPROC = 64"
definition NOFILE :: nat where "NOFILE = 16"

datatype procstate = UNUSED | USED | SLEEPING | RUNNABLE | RUNNING | ZOMBIE

text \<open>Sleep channels: the null pointer, a process, or another kernel address.\<close>

datatype chan = NoChan | ProcChan nat | AddrChan u64

record proc =
  p_state :: procstate
  p_chan :: chan
  p_killed :: bool
  p_xstate :: int
  p_pid :: int
  p_parent :: "nat option"
  p_kstack :: u64
  p_sz :: u64
  p_pagetable :: u64
  p_trapframe :: u64
  p_ctx_ra :: u64
  p_ctx_sp :: u64
  p_ofile :: "nat \<Rightarrow> nat option"
  p_cwd :: "nat option"
  p_name :: "byte list"

record psys =
  ptab :: "nat \<Rightarrow> proc"
  nextpid :: int
  initproc :: "nat option"
  pkm :: kmem

definition upd_proc :: "nat \<Rightarrow> (proc \<Rightarrow> proc) \<Rightarrow> psys \<Rightarrow> psys" where
  "upd_proc p f s = s\<lparr>ptab := (ptab s)(p := f (ptab s p))\<rparr>"

subsection \<open>Creating and freeing processes\<close>

fun mapstacks_loop :: "u64 \<Rightarrow> nat list \<Rightarrow> kmem \<Rightarrow> kmem res" where
  "mapstacks_loop kpgtbl [] s = Inr s"
| "mapstacks_loop kpgtbl (p # ps) s =
     (let (pa, s) = kalloc s in
      if pa = 0 then panic ''kalloc''
      else bindR (kvmmap kpgtbl (KSTACK p) pa PGSIZE (PTE_R OR PTE_W) s) (mapstacks_loop kpgtbl ps))"

definition proc_mapstacks :: "u64 \<Rightarrow> kmem \<Rightarrow> kmem res" where
  "proc_mapstacks kpgtbl s = mapstacks_loop kpgtbl [0..<NPROC] s"

definition procinit :: "psys \<Rightarrow> psys" where
  "procinit s = fold (\<lambda>p. upd_proc p (\<lambda>x. x\<lparr>p_state := UNUSED, p_kstack := KSTACK p\<rparr>)) [0..<NPROC] s"

definition allocpid :: "psys \<Rightarrow> int \<times> psys" where
  "allocpid s = (nextpid s, s\<lparr>nextpid := nextpid s + 1\<rparr>)"

definition proc_pagetable :: "u64 \<Rightarrow> u64 \<Rightarrow> u64 \<Rightarrow> kmem \<Rightarrow> (u64 \<times> kmem) res" where
  "proc_pagetable kend tramp trapframe s =
     (let (pagetable, s) = uvmcreate s in
      if pagetable = 0 then Inr (0, s)
      else bindR (mappages pagetable TRAMPOLINE PGSIZE tramp (PTE_R OR PTE_X) s) (\<lambda>(r, s).
        if r < 0 then bindR (uvmfree kend pagetable 0 s) (\<lambda>s. Inr (0, s))
        else bindR (mappages pagetable TRAPFRAME PGSIZE trapframe (PTE_R OR PTE_W) s) (\<lambda>(r, s).
          if r < 0
          then bindR (uvmunmap kend pagetable TRAMPOLINE 1 False s) (\<lambda>s.
               bindR (uvmfree kend pagetable 0 s) (\<lambda>s. Inr (0, s)))
          else Inr (pagetable, s))))"

definition proc_freepagetable :: "u64 \<Rightarrow> u64 \<Rightarrow> u64 \<Rightarrow> kmem \<Rightarrow> kmem res" where
  "proc_freepagetable kend pagetable sz s =
     bindR (uvmunmap kend pagetable TRAMPOLINE 1 False s) (\<lambda>s.
     bindR (uvmunmap kend pagetable TRAPFRAME 1 False s) (uvmfree kend pagetable sz))"

definition freeproc :: "u64 \<Rightarrow> nat \<Rightarrow> psys \<Rightarrow> psys res" where
  "freeproc kend p s =
     (let x = ptab s p in
      bindR (if p_trapframe x \<noteq> 0 then kfree kend (p_trapframe x) (pkm s) else Inr (pkm s)) (\<lambda>m.
      bindR (if p_pagetable x \<noteq> 0 then proc_freepagetable kend (p_pagetable x) (p_sz x) m else Inr m) (\<lambda>m.
      Inr (upd_proc p (\<lambda>x. x\<lparr>p_trapframe := 0, p_pagetable := 0, p_sz := 0, p_pid := 0, p_parent := None,
             p_name := 0 # tl (p_name x), p_chan := NoChan, p_killed := False, p_xstate := 0,
             p_state := UNUSED\<rparr>) (s\<lparr>pkm := m\<rparr>)))))"

definition allocproc :: "u64 \<Rightarrow> u64 \<Rightarrow> u64 \<Rightarrow> psys \<Rightarrow> (nat option \<times> psys) res" where
  "allocproc kend tramp forkret s =
     (case find (\<lambda>p. p_state (ptab s p) = UNUSED) [0..<NPROC] of
        None \<Rightarrow> Inr (None, s)
      | Some p \<Rightarrow>
          let (pid, s) = allocpid s;
              s = upd_proc p (\<lambda>x. x\<lparr>p_pid := pid, p_state := USED\<rparr>) s;
              (tf, m) = kalloc (pkm s);
              s = upd_proc p (\<lambda>x. x\<lparr>p_trapframe := tf\<rparr>) (s\<lparr>pkm := m\<rparr>) in
          if tf = 0 then bindR (freeproc kend p s) (\<lambda>s. Inr (None, s))
          else bindR (proc_pagetable kend tramp tf (pkm s)) (\<lambda>(pt, m).
            let s = upd_proc p (\<lambda>x. x\<lparr>p_pagetable := pt\<rparr>) (s\<lparr>pkm := m\<rparr>) in
            if pt = 0 then bindR (freeproc kend p s) (\<lambda>s. Inr (None, s))
            else Inr (Some p, upd_proc p (\<lambda>x. x\<lparr>p_ctx_ra := forkret, p_ctx_sp := p_kstack x + PGSIZE\<rparr>) s)))"

definition userinit :: "u64 \<Rightarrow> u64 \<Rightarrow> u64 \<Rightarrow> nat option \<Rightarrow> psys \<Rightarrow> psys res" where
  "userinit kend tramp forkret rootdir s =
     bindR (allocproc kend tramp forkret s) (\<lambda>(r, s).
       case r of None \<Rightarrow> Inl (Undefined ''userinit'')
       | Some p \<Rightarrow> Inr (upd_proc p (\<lambda>x. x\<lparr>p_cwd := rootdir, p_state := RUNNABLE\<rparr>) (s\<lparr>initproc := Some p\<rparr>)))"

definition growproc :: "u64 \<Rightarrow> nat \<Rightarrow> int \<Rightarrow> psys \<Rightarrow> (int \<times> psys) res" where
  "growproc kend p n s =
     (let x = ptab s p; sz = p_sz x in
      if n > 0
      then bindR (uvmalloc kend (p_pagetable x) sz (sz + of_int n) PTE_W (pkm s)) (\<lambda>(sz, m).
        if sz = 0 then Inr (-1, s\<lparr>pkm := m\<rparr>)
        else Inr (0, upd_proc p (\<lambda>x. x\<lparr>p_sz := sz\<rparr>) (s\<lparr>pkm := m\<rparr>)))
      else if n < 0
      then bindR (uvmdealloc kend (p_pagetable x) sz (sz + of_int n) (pkm s)) (\<lambda>(sz, m).
        Inr (0, upd_proc p (\<lambda>x. x\<lparr>p_sz := sz\<rparr>) (s\<lparr>pkm := m\<rparr>)))
      else Inr (0, s))"

text \<open>\<open>safestrcpy(np->name, p->name, 16)\<close> on name buffers.\<close>

definition copy_name :: "byte list \<Rightarrow> byte list" where
  "copy_name nm = take 15 (cstr nm) @ [0]"

fun dup_files :: "(nat \<Rightarrow> 'f \<Rightarrow> 'f res) \<Rightarrow> nat \<Rightarrow> nat \<Rightarrow> nat list \<Rightarrow> psys \<times> 'f \<Rightarrow> (psys \<times> 'f) res" where
  "dup_files filedup p np [] sf = Inr sf"
| "dup_files filedup p np (i # is) (s, f) =
     (case p_ofile (ptab s p) i of
        None \<Rightarrow> dup_files filedup p np is (s, f)
      | Some fl \<Rightarrow> bindR (filedup fl f) (\<lambda>f.
          dup_files filedup p np is (upd_proc np (\<lambda>x. x\<lparr>p_ofile := (p_ofile x)(i := Some fl)\<rparr>) s, f)))"

text \<open>\<open>kfork\<close> after \<open>allocproc\<close> has returned \<open>np\<close>.\<close>

definition kfork_child :: "u64 \<Rightarrow> (nat \<Rightarrow> 'f \<Rightarrow> 'f res) \<Rightarrow> (nat option \<Rightarrow> 'f \<Rightarrow> 'f) \<Rightarrow> nat \<Rightarrow> nat \<Rightarrow> psys \<times> 'f
    \<Rightarrow> (int \<times> psys \<times> 'f) res" where
  "kfork_child kend filedup idup p np = (\<lambda>(s, f).
     bindR (uvmcopy kend (p_pagetable (ptab s p)) (p_pagetable (ptab s np)) (p_sz (ptab s p)) (pkm s)) (\<lambda>(c, m).
       let s = s\<lparr>pkm := m\<rparr> in
       if c < 0 then bindR (freeproc kend np s) (\<lambda>s. Inr (-1, s, f))
       else let s = upd_proc np (\<lambda>x. x\<lparr>p_sz := p_sz (ptab s p)\<rparr>) s;
                m = memmove (pmem (pkm s)) (p_trapframe (ptab s np)) (p_trapframe (ptab s p)) 288;
                m = store64 m (p_trapframe (ptab s np) + 112) 0;
                s = s\<lparr>pkm := (pkm s)\<lparr>pmem := m\<rparr>\<rparr> in
         bindR (dup_files filedup p np [0..<NOFILE] (s, f)) (\<lambda>(s, f).
           let f = idup (p_cwd (ptab s p)) f;
               s = upd_proc np (\<lambda>x. x\<lparr>p_cwd := p_cwd (ptab s p), p_name := copy_name (p_name (ptab s p))\<rparr>) s;
               pid = p_pid (ptab s np);
               s = upd_proc np (\<lambda>x. x\<lparr>p_parent := Some p\<rparr>) s;
               s = upd_proc np (\<lambda>x. x\<lparr>p_state := RUNNABLE\<rparr>) s in
           Inr (pid, s, f))))"

definition kfork :: "u64 \<Rightarrow> u64 \<Rightarrow> u64 \<Rightarrow> (nat \<Rightarrow> 'f \<Rightarrow> 'f res) \<Rightarrow> (nat option \<Rightarrow> 'f \<Rightarrow> 'f) \<Rightarrow> nat \<Rightarrow> psys \<times> 'f
    \<Rightarrow> (int \<times> psys \<times> 'f) res" where
  "kfork kend tramp forkret filedup idup p = (\<lambda>(s, f).
     bindR (allocproc kend tramp forkret s) (\<lambda>(r, s).
       case r of None \<Rightarrow> Inr (-1, s, f) | Some np \<Rightarrow> kfork_child kend filedup idup p np (s, f)))"

subsection \<open>Sleep, wakeup and scheduling\<close>

definition wakeup :: "nat option \<Rightarrow> chan \<Rightarrow> psys \<Rightarrow> psys" where
  "wakeup me ch s =
     fold (\<lambda>p s. if Some p \<noteq> me \<and> p_state (ptab s p) = SLEEPING \<and> p_chan (ptab s p) = ch
                then upd_proc p (\<lambda>x. x\<lparr>p_state := RUNNABLE\<rparr>) s else s) [0..<NPROC] s"

text \<open>The part of \<open>sleep\<close> before the switch and the part after it.\<close>

definition sleep_enter :: "nat \<Rightarrow> chan \<Rightarrow> psys \<Rightarrow> psys" where
  "sleep_enter p ch s = upd_proc p (\<lambda>x. x\<lparr>p_chan := ch, p_state := SLEEPING\<rparr>) s"

definition sleep_leave :: "nat \<Rightarrow> psys \<Rightarrow> psys" where
  "sleep_leave p s = upd_proc p (\<lambda>x. x\<lparr>p_chan := NoChan\<rparr>) s"

text \<open>The checks of \<open>sched\<close> before it switches to the scheduler.\<close>

definition sched_check :: "nat \<Rightarrow> spinlock \<Rightarrow> cpu \<Rightarrow> procstate \<Rightarrow> unit res" where
  "sched_check me lk c st =
     (if \<not> holding me lk then panic ''sched p->lock''
      else if c_noff c \<noteq> 1 then panic ''sched locks''
      else if st = RUNNING then panic ''sched RUNNING''
      else if c_sie c then panic ''sched interruptible''
      else Inr ())"

definition yield_enter :: "nat \<Rightarrow> psys \<Rightarrow> psys" where
  "yield_enter p s = upd_proc p (\<lambda>x. x\<lparr>p_state := RUNNABLE\<rparr>) s"

text \<open>One round of the inner loop of \<open>scheduler\<close>: whether it switches to \<open>p\<close>.\<close>

definition scheduler_try :: "nat \<Rightarrow> psys \<Rightarrow> psys option" where
  "scheduler_try p s =
     (if p_state (ptab s p) = RUNNABLE then Some (upd_proc p (\<lambda>x. x\<lparr>p_state := RUNNING\<rparr>) s) else None)"

definition reparent :: "nat \<Rightarrow> nat option \<Rightarrow> psys \<Rightarrow> psys" where
  "reparent p me s =
     fold (\<lambda>pp s. if p_parent (ptab s pp) = Some p
                 then wakeup me (case initproc s of Some i \<Rightarrow> ProcChan i | None \<Rightarrow> NoChan)
                        (upd_proc pp (\<lambda>x. x\<lparr>p_parent := initproc s\<rparr>) s)
                 else s) [0..<NPROC] s"

fun close_files :: "(nat \<Rightarrow> psys \<times> 'f \<Rightarrow> (psys \<times> 'f) res) \<Rightarrow> nat \<Rightarrow> nat list \<Rightarrow> psys \<times> 'f \<Rightarrow> (psys \<times> 'f) res" where
  "close_files fileclose p [] sf = Inr sf"
| "close_files fileclose p (fd # fds) (s, f) =
     (case p_ofile (ptab s p) fd of
        None \<Rightarrow> close_files fileclose p fds (s, f)
      | Some fl \<Rightarrow> bindR (fileclose fl (s, f)) (\<lambda>(s, f).
          close_files fileclose p fds (upd_proc p (\<lambda>x. x\<lparr>p_ofile := (p_ofile x)(fd := None)\<rparr>) s, f)))"

text \<open>\<open>kexit\<close> up to its switch to the scheduler; \<open>put_cwd\<close> is \<open>begin_op; iput; end_op\<close>.\<close>

definition kexit :: "(nat \<Rightarrow> psys \<times> 'f \<Rightarrow> (psys \<times> 'f) res) \<Rightarrow> (nat option \<Rightarrow> 'f \<Rightarrow> 'f res) \<Rightarrow> nat \<Rightarrow> int \<Rightarrow> psys \<times> 'f \<Rightarrow> (psys \<times> 'f) res" where
  "kexit fileclose put_cwd p status = (\<lambda>(s, f).
     if Some p = initproc s then panic ''init exiting''
     else bindR (close_files fileclose p [0..<NOFILE] (s, f)) (\<lambda>(s, f).
       bindR (put_cwd (p_cwd (ptab s p)) f) (\<lambda>f.
         let s = upd_proc p (\<lambda>x. x\<lparr>p_cwd := None\<rparr>) s;
             s = reparent p (Some p) s;
             s = wakeup (Some p) (case p_parent (ptab s p) of Some q \<Rightarrow> ProcChan q | None \<Rightarrow> NoChan) s in
         Inr (upd_proc p (\<lambda>x. x\<lparr>p_xstate := status, p_state := ZOMBIE\<rparr>) s, f))))"

definition killed :: "nat \<Rightarrow> psys \<Rightarrow> bool" where
  "killed p s = p_killed (ptab s p)"

definition setkilled :: "nat \<Rightarrow> psys \<Rightarrow> psys" where
  "setkilled p s = upd_proc p (\<lambda>x. x\<lparr>p_killed := True\<rparr>) s"

definition kkill :: "int \<Rightarrow> psys \<Rightarrow> int \<times> psys" where
  "kkill pid s =
     (case find (\<lambda>p. p_pid (ptab s p) = pid) [0..<NPROC] of
        None \<Rightarrow> (-1, s)
      | Some p \<Rightarrow> (0, upd_proc p (\<lambda>x. let x = x\<lparr>p_killed := True\<rparr> in
          if p_state x = SLEEPING then x\<lparr>p_state := RUNNABLE\<rparr> else x) s))"

definition int_bytes :: "int \<Rightarrow> byte list" where
  "int_bytes x = (let w = (of_int x :: u32) in
     [ucast w, ucast (drop_bit 8 w), ucast (drop_bit 16 w), ucast (drop_bit 24 w)])"

text \<open>
  One scan of the table by \<open>kwait\<close>: \<open>Some r\<close> when the call returns \<open>r\<close>, \<open>None\<close> when the parent goes to
  sleep on itself and scans again after a wakeup.
\<close>

fun kwait_scan :: "u64 \<Rightarrow> nat \<Rightarrow> u64 \<Rightarrow> nat list \<Rightarrow> bool \<Rightarrow> psys \<Rightarrow> (int option \<times> psys) res" where
  "kwait_scan kend p addr [] havekids s =
     (if \<not> havekids \<or> killed p s then Inr (Some (-1), s) else Inr (None, sleep_enter p (ProcChan p) s))"
| "kwait_scan kend p addr (pp # pps) havekids s =
     (if p_parent (ptab s pp) = Some p
      then if p_state (ptab s pp) = ZOMBIE
        then let pid = p_pid (ptab s pp); x = ptab s p in
          bindR (if addr \<noteq> 0
                 then copyout kend (p_sz x) (p_pagetable x) (p_pagetable x) addr (int_bytes (p_xstate (ptab s pp))) (pkm s)
                 else Inr (0, pkm s)) (\<lambda>(r, m).
            let s = s\<lparr>pkm := m\<rparr> in
            if r < 0 then Inr (Some (-1), s)
            else bindR (freeproc kend pp s) (\<lambda>s. Inr (Some pid, s)))
        else kwait_scan kend p addr pps True s
      else kwait_scan kend p addr pps havekids s)"

definition kwait :: "u64 \<Rightarrow> nat \<Rightarrow> u64 \<Rightarrow> psys \<Rightarrow> (int option \<times> psys) res" where
  "kwait kend p addr s = kwait_scan kend p addr [0..<NPROC] False s"

definition either_copyout :: "u64 \<Rightarrow> nat \<Rightarrow> bool \<Rightarrow> u64 \<Rightarrow> byte list \<Rightarrow> psys \<Rightarrow> (int \<times> psys) res" where
  "either_copyout kend p user_dst dst src s =
     (let x = ptab s p in
      if user_dst
      then bindR (copyout kend (p_sz x) (p_pagetable x) (p_pagetable x) dst src (pkm s)) (\<lambda>(r, m).
        Inr (r, s\<lparr>pkm := m\<rparr>))
      else Inr (0, s\<lparr>pkm := (pkm s)\<lparr>pmem := put_list (pmem (pkm s)) dst src\<rparr>\<rparr>))"

definition either_copyin :: "u64 \<Rightarrow> nat \<Rightarrow> bool \<Rightarrow> u64 \<Rightarrow> nat \<Rightarrow> psys \<Rightarrow> (int \<times> byte list \<times> psys) res" where
  "either_copyin kend p user_src src len s =
     (let x = ptab s p in
      if user_src
      then bindR (copyin kend (p_sz x) (p_pagetable x) (p_pagetable x) src len (pkm s)) (\<lambda>(r, bs, m).
        Inr (r, bs, s\<lparr>pkm := m\<rparr>))
      else Inr (0, bytes_at (pmem (pkm s)) src len, s))"

text \<open>The lines \<open>procdump\<close> prints.\<close>

definition procdump :: "psys \<Rightarrow> (int \<times> procstate \<times> byte list) list" where
  "procdump s = map (\<lambda>p. (p_pid (ptab s p), p_state (ptab s p), cstr (p_name (ptab s p))))
     (filter (\<lambda>p. p_state (ptab s p) \<noteq> UNUSED) [0..<NPROC])"

subsection \<open>Effect on the process table\<close>

lemma upd_proc_simps [simp]:
  "ptab (upd_proc p f s) = (ptab s)(p := f (ptab s p))" "nextpid (upd_proc p f s) = nextpid s"
  "initproc (upd_proc p f s) = initproc s" "pkm (upd_proc p f s) = pkm s"
  by (simp_all add: upd_proc_def)

text \<open>The fields the life cycle is about.\<close>

definition life :: "proc \<Rightarrow> procstate \<times> int \<times> nat option" where
  "life x = (p_state x, p_pid x, p_parent x)"

abbreviation lives :: "psys \<Rightarrow> nat \<Rightarrow> procstate \<times> int \<times> nat option" where
  "lives s p \<equiv> life (ptab s p)"

lemma freeproc_Inr:
  "freeproc kend p s = Inr s' \<Longrightarrow> (\<forall>q. q \<noteq> p \<longrightarrow> ptab s' q = ptab s q) \<and> life (ptab s' p) = (UNUSED, 0, None)
     \<and> p_killed (ptab s' p) = False \<and> nextpid s' = nextpid s \<and> initproc s' = initproc s"
  by (auto simp: freeproc_def Let_def bindR_eq_Inr life_def)

lemma allocproc_Inr:
  assumes "allocproc kend tramp fr s = Inr (r, s')"
  shows "initproc s' = initproc s \<and> nextpid s \<le> nextpid s' \<and>
    (case r of
       None \<Rightarrow> \<forall>q. lives s' q = lives s q \<or> q < NPROC \<and> p_state (ptab s q) = UNUSED \<and> lives s' q = (UNUSED, 0, None)
     | Some p \<Rightarrow> p < NPROC \<and> p_state (ptab s p) = UNUSED \<and> (\<forall>q. q \<noteq> p \<longrightarrow> ptab s' q = ptab s q)
         \<and> lives s' p = (USED, nextpid s, p_parent (ptab s p)) \<and> p_killed (ptab s' p) = p_killed (ptab s p)
         \<and> nextpid s' = nextpid s + 1 \<and> find (\<lambda>p. p_state (ptab s p) = UNUSED) [0..<NPROC] = Some p)"
proof (cases "find (\<lambda>p. p_state (ptab s p) = UNUSED) [0..<NPROC]")
  case None
  then show ?thesis using assms by (auto simp: allocproc_def)
next
  case (Some p)
  then have p: "p < NPROC" "p_state (ptab s p) = UNUSED" by (auto simp: find_Some_iff)
  have freed: "lives s' q = lives s q \<or> q < NPROC \<and> p_state (ptab s q) = UNUSED \<and> lives s' q = (UNUSED, 0, None)"
    if "\<forall>q. q \<noteq> p \<longrightarrow> ptab s' q = ptab s q" "lives s' p = (UNUSED, 0, None)" for q
    using that p by (cases "q = p") auto
  obtain tf m where k: "kalloc (pkm s) = (tf, m)" by fastforce
  let ?s = "upd_proc p (\<lambda>x. x\<lparr>p_trapframe := tf\<rparr>)
    ((upd_proc p (\<lambda>x. x\<lparr>p_pid := nextpid s, p_state := USED\<rparr>) (s\<lparr>nextpid := nextpid s + 1\<rparr>))\<lparr>pkm := m\<rparr>)"
  consider "r = None" "freeproc kend p ?s = Inr s'"
    | pt m2 where "r = None" "freeproc kend p (upd_proc p (\<lambda>x. x\<lparr>p_pagetable := pt\<rparr>) (?s\<lparr>pkm := m2\<rparr>)) = Inr s'"
    | pt m2 where "r = Some p" "s' = upd_proc p (\<lambda>x. x\<lparr>p_ctx_ra := fr, p_ctx_sp := p_kstack x + PGSIZE\<rparr>)
        (upd_proc p (\<lambda>x. x\<lparr>p_pagetable := pt\<rparr>) (?s\<lparr>pkm := m2\<rparr>))"
    using assms Some k
    by (auto simp: allocproc_def allocpid_def Let_def bindR_eq_Inr split: if_splits)
  then show ?thesis
  proof cases
    case 1
    then show ?thesis using freeproc_Inr [OF 1(2)] freed by auto
  next
    case 2
    then show ?thesis using freeproc_Inr [OF 2(2)] freed by auto
  next
    case 3
    then show ?thesis using p Some by (auto simp: life_def)
  qed
qed

lemma dup_files_Inr:
  "dup_files fd p np is (s, f) = Inr (s', f') \<Longrightarrow> lives s' = lives s \<and> nextpid s' = nextpid s
     \<and> initproc s' = initproc s \<and> (\<forall>q. p_killed (ptab s' q) = p_killed (ptab s q))"
proof (induction "is" arbitrary: s f)
  case (Cons i "is")
  show ?case
  proof (cases "p_ofile (ptab s p) i")
    case None
    then show ?thesis using Cons by simp
  next
    case (Some fl)
    let ?s = "upd_proc np (\<lambda>x. x\<lparr>p_ofile := (p_ofile x)(i := Some fl)\<rparr>) s"
    obtain f2 where "dup_files fd p np is (?s, f2) = Inr (s', f')"
      using Cons.prems Some by (auto simp: bindR_eq_Inr)
    from Cons.IH [OF this] show ?thesis by (auto simp: life_def fun_eq_iff split: if_splits)
  qed
qed simp

text \<open>A fork that fails leaves the table as it was up to unused entries.\<close>

definition unused_only :: "psys \<Rightarrow> psys \<Rightarrow> bool" where
  "unused_only s s' \<longleftrightarrow> (\<forall>q. lives s' q = lives s q
     \<or> q < NPROC \<and> p_state (ptab s q) = UNUSED \<and> lives s' q = (UNUSED, 0, None))"

lemma kfork_child_Inr:
  assumes "kfork_child kend fd idp p np (s, f) = Inr (r, s', f')"
  shows "initproc s' = initproc s \<and> nextpid s' = nextpid s \<and> (\<forall>q. q \<noteq> np \<longrightarrow> lives s' q = lives s q) \<and>
    (lives s' np = (UNUSED, 0, None) \<and> r = -1
     \<or> lives s' np = (RUNNABLE, p_pid (ptab s np), Some p) \<and> r = p_pid (ptab s np)
       \<and> p_killed (ptab s' np) = p_killed (ptab s np))"
proof -
  obtain c m where u: "uvmcopy kend (p_pagetable (ptab s p)) (p_pagetable (ptab s np)) (p_sz (ptab s p)) (pkm s) = Inr (c, m)"
    using assms by (auto simp: kfork_child_def bindR_eq_Inr)
  show ?thesis
  proof (cases "c < 0")
    case True
    then have "r = -1" "freeproc kend np (s\<lparr>pkm := m\<rparr>) = Inr s'"
      using assms u by (auto simp: kfork_child_def bindR_eq_Inr)
    from this(1) freeproc_Inr [OF this(2)] show ?thesis by auto
  next
    case False
    then show ?thesis
      using assms u
      by (auto simp: kfork_child_def Let_def bindR_eq_Inr life_def fun_eq_iff dest!: dup_files_Inr split: if_splits)
  qed
qed

lemma kfork_Inr:
  assumes "kfork kend tramp fr fd idp p (s, f) = Inr (r, s', f')"
  shows "initproc s' = initproc s \<and> nextpid s \<le> nextpid s' \<and>
    (unused_only s s' \<and> r = -1 \<or>
     (\<exists>np<NPROC. p_state (ptab s np) = UNUSED \<and> (\<forall>q. q \<noteq> np \<longrightarrow> lives s' q = lives s q)
        \<and> lives s' np = (RUNNABLE, nextpid s, Some p) \<and> nextpid s' = nextpid s + 1 \<and> r = nextpid s
        \<and> p_killed (ptab s' np) = p_killed (ptab s np) \<and> find (\<lambda>p. p_state (ptab s p) = UNUSED) [0..<NPROC] = Some np))"
proof -
  obtain np s1 where a: "allocproc kend tramp fr s = Inr (np, s1)"
    and rest: "(case np of None \<Rightarrow> Inr (-1, s1, f) | Some np \<Rightarrow> kfork_child kend fd idp p np (s1, f)) = Inr (r, s', f')"
    using assms by (auto simp: kfork_def bindR_eq_Inr)
  note A = allocproc_Inr [OF a]
  show ?thesis
  proof (cases np)
    case None
    then show ?thesis using A rest by (auto simp: unused_only_def)
  next
    case (Some q)
    then have q: "q < NPROC" "p_state (ptab s q) = UNUSED" "\<forall>x. x \<noteq> q \<longrightarrow> ptab s1 x = ptab s x"
      "p_pid (ptab s1 q) = nextpid s" "nextpid s1 = nextpid s + 1" "initproc s1 = initproc s"
      "p_killed (ptab s1 q) = p_killed (ptab s q)" "find (\<lambda>p. p_state (ptab s p) = UNUSED) [0..<NPROC] = Some q"
      using A by (auto simp: life_def)
    have K: "kfork_child kend fd idp p q (s1, f) = Inr (r, s', f')" using rest Some by simp
    from kfork_child_Inr [OF K] show ?thesis
    proof (elim conjE disjE)
      assume "lives s' q = (UNUSED, 0, None)" "r = -1" "\<forall>x. x \<noteq> q \<longrightarrow> lives s' x = lives s1 x"
        "initproc s' = initproc s1" "nextpid s' = nextpid s1"
      then show ?thesis using q unfolding unused_only_def by (metis order_refl zle_add1_eq_le add_increasing2 zero_le_one)
    next
      assume "lives s' q = (RUNNABLE, p_pid (ptab s1 q), Some p)" "r = p_pid (ptab s1 q)"
        "p_killed (ptab s' q) = p_killed (ptab s1 q)" "\<forall>x. x \<noteq> q \<longrightarrow> lives s' x = lives s1 x"
        "initproc s' = initproc s1" "nextpid s' = nextpid s1"
      then show ?thesis using q by auto
    qed
  qed
qed

text \<open>\<open>wakeup\<close> only turns sleeping processes into runnable ones.\<close>

definition woken :: "procstate \<times> int \<times> nat option \<Rightarrow> procstate \<times> int \<times> nat option \<Rightarrow> bool" where
  "woken x y \<longleftrightarrow> snd y = snd x \<and> (fst y = fst x \<or> fst x = SLEEPING \<and> fst y = RUNNABLE)"

lemma woken_refl [simp]: "woken x x" by (simp add: woken_def)

lemma woken_trans: "woken x y \<Longrightarrow> woken y z \<Longrightarrow> woken x z"
  by (auto simp: woken_def)

lemma wakeup_fold:
  fixes me :: "nat option" and ch :: chan
  defines "g \<equiv> (\<lambda>p s. if Some p \<noteq> me \<and> p_state (ptab s p) = SLEEPING \<and> p_chan (ptab s p) = ch
                then upd_proc p (\<lambda>x. x\<lparr>p_state := RUNNABLE\<rparr>) s else s)"
  shows "ptab (fold g ps s) q = (if q \<in> set ps \<and> Some q \<noteq> me \<and> p_state (ptab s q) = SLEEPING \<and> p_chan (ptab s q) = ch
      then (ptab s q)\<lparr>p_state := RUNNABLE\<rparr> else ptab s q)
    \<and> nextpid (fold g ps s) = nextpid s \<and> initproc (fold g ps s) = initproc s"
proof (induction ps arbitrary: s)
  case (Cons p ps)
  show ?case using Cons [of "g p s"] by (auto simp: g_def)
qed simp

lemma wakeup_simps:
  "ptab (wakeup me ch s) q = (if q < NPROC \<and> Some q \<noteq> me \<and> p_state (ptab s q) = SLEEPING \<and> p_chan (ptab s q) = ch
      then (ptab s q)\<lparr>p_state := RUNNABLE\<rparr> else ptab s q)"
  "nextpid (wakeup me ch s) = nextpid s" "initproc (wakeup me ch s) = initproc s"
  using wakeup_fold [of me ch "[0..<NPROC]" s q] by (auto simp: wakeup_def)

lemma woken_wakeup: "woken (lives s q) (lives (wakeup me ch s) q)"
  by (simp add: wakeup_simps woken_def life_def)

text \<open>\<open>reparent\<close> also replaces the parent \<open>p\<close> by \<open>initproc\<close>.\<close>

definition adopt :: "nat \<Rightarrow> nat option \<Rightarrow> procstate \<times> int \<times> nat option \<Rightarrow> procstate \<times> int \<times> nat option" where
  "adopt p i = (\<lambda>(st, pid, par). (st, pid, if par = Some p then i else par))"

lemma adopt_woken: "woken x y \<Longrightarrow> woken (adopt p i x) (adopt p i y)"
  by (auto simp: woken_def adopt_def split: prod.splits)

lemma reparent_fold:
  fixes i p :: nat and me :: "nat option"
  defines "g \<equiv> (\<lambda>pp s. if p_parent (ptab s pp) = Some p
                 then wakeup me (case initproc s of Some i \<Rightarrow> ProcChan i | None \<Rightarrow> NoChan)
                        (upd_proc pp (\<lambda>x. x\<lparr>p_parent := initproc s\<rparr>) s)
                 else s)"
  assumes "initproc s = Some i" "i \<noteq> p" "distinct ps"
  shows "initproc (fold g ps s) = Some i \<and> nextpid (fold g ps s) = nextpid s
    \<and> (\<forall>q. woken (if q \<in> set ps then adopt p (Some i) (lives s q) else lives s q) (lives (fold g ps s) q))"
  using assms(2-)
proof (induction ps arbitrary: s)
  case (Cons pp ps)
  let ?t = "g pp s"
  have t: "initproc ?t = Some i" "nextpid ?t = nextpid s"
    using Cons.prems by (auto simp: g_def wakeup_simps)
  have l: "woken (if q = pp then adopt p (Some i) (lives s q) else lives s q) (lives ?t q)" for q
    using Cons.prems(1,2) by (auto simp: g_def wakeup_simps woken_def life_def adopt_def)
  have "woken (if q \<in> set (pp # ps) then adopt p (Some i) (lives s q) else lives s q) (lives (fold g ps ?t) q)" for q
  proof -
    have IH: "woken (if q \<in> set ps then adopt p (Some i) (lives ?t q) else lives ?t q) (lives (fold g ps ?t) q)"
      using Cons.IH [OF t(1)] Cons.prems by simp
    show ?thesis
    proof (cases "q \<in> set ps")
      case True
      then have "q \<noteq> pp" using Cons.prems(3) by auto
      then have "woken (adopt p (Some i) (lives s q)) (adopt p (Some i) (lives ?t q))" using l [of q] adopt_woken by simp
      then show ?thesis using IH True woken_trans by auto
    next
      case False
      then show ?thesis using IH l [of q] woken_trans by (auto split: if_splits)
    qed
  qed
  then show ?case using Cons.IH [OF t(1)] t Cons.prems by simp
qed simp

lemma reparent_lives:
  assumes "initproc s = Some i" "i \<noteq> p"
  shows "initproc (reparent p me s) = Some i" "nextpid (reparent p me s) = nextpid s"
    "q < NPROC \<Longrightarrow> woken (adopt p (Some i) (lives s q)) (lives (reparent p me s) q)"
proof -
  have R: "initproc (reparent p me s) = Some i \<and> nextpid (reparent p me s) = nextpid s
    \<and> (\<forall>q. woken (if q < NPROC then adopt p (Some i) (lives s q) else lives s q) (lives (reparent p me s) q))"
    using reparent_fold [OF assms, of "[0..<NPROC]" me] unfolding reparent_def by simp
  then show "initproc (reparent p me s) = Some i" "nextpid (reparent p me s) = nextpid s" by simp_all
  assume "q < NPROC"
  then show "woken (adopt p (Some i) (lives s q)) (lives (reparent p me s) q)"
    using R [THEN conjunct2, THEN conjunct2, THEN spec, of q] by simp
qed

lemma kwait_scan_Inr:
  assumes "kwait_scan kend p addr pps hk s = Inr (r, s')" and "set pps \<subseteq> {..<NPROC}"
  shows "initproc s' = initproc s \<and> nextpid s' = nextpid s \<and>
    (case r of
       None \<Rightarrow> lives s' = (lives s)(p := (SLEEPING, snd (lives s p))) \<and> (hk \<or> (\<exists>q<NPROC. p_parent (ptab s q) = Some p))
     | Some v \<Rightarrow> lives s' = lives s \<and> v = -1
         \<or> (\<exists>q<NPROC. p_state (ptab s q) = ZOMBIE \<and> p_parent (ptab s q) = Some p \<and> v = p_pid (ptab s q)
              \<and> lives s' = (lives s)(q := (UNUSED, 0, None))))"
  using assms
proof (induction pps arbitrary: hk)
  case Nil
  then show ?case by (auto simp: sleep_enter_def life_def fun_eq_iff split: if_splits)
next
  case (Cons pp pps)
  show ?case
  proof (cases "p_parent (ptab s pp) = Some p")
    case False
    then show ?thesis using Cons by (auto split: option.splits)
  next
    case par: True
    show ?thesis
    proof (cases "p_state (ptab s pp) = ZOMBIE")
      case False
      then have "kwait_scan kend p addr pps True s = Inr (r, s')" using Cons.prems(1) par by simp
      from Cons.IH [OF this] show ?thesis using Cons.prems(2) par by (auto split: option.splits)
    next
      case True
      obtain c m where
        c: "(if addr \<noteq> 0 then copyout kend (p_sz (ptab s p)) (p_pagetable (ptab s p)) (p_pagetable (ptab s p)) addr
              (int_bytes (p_xstate (ptab s pp))) (pkm s) else Inr (0, pkm s)) = Inr (c, m)"
        and ret: "c < 0 \<and> r = Some (-1) \<and> s' = s\<lparr>pkm := m\<rparr>
          \<or> freeproc kend pp (s\<lparr>pkm := m\<rparr>) = Inr s' \<and> r = Some (p_pid (ptab s pp))"
        using Cons.prems(1) par True
        unfolding kwait_scan.simps Let_def if_P [OF par] if_P [OF True] by (auto simp: bindR_eq_Inr split: if_splits)
      have fr: "lives s' = (lives s)(pp := (UNUSED, 0, None)) \<and> initproc s' = initproc s \<and> nextpid s' = nextpid s"
        if "freeproc kend pp (s\<lparr>pkm := m\<rparr>) = Inr s'"
        using freeproc_Inr [OF that] by (auto simp: fun_eq_iff)
      from ret show ?thesis
        using par True Cons.prems(2) fr by fastforce
    qed
  qed
qed

lemma growproc_Inr:
  assumes "growproc kend p n s = Inr (r, s')"
  shows "lives s' q = lives s q \<and> nextpid s' = nextpid s \<and> initproc s' = initproc s"
proof -
  have "s' = s \<or> (\<exists>m. s' = s\<lparr>pkm := m\<rparr>) \<or> (\<exists>m z. s' = upd_proc p (\<lambda>x. x\<lparr>p_sz := z\<rparr>) (s\<lparr>pkm := m\<rparr>))"
    using assms unfolding growproc_def Let_def by (force simp: bindR_eq_Inr split: if_splits)
  then show ?thesis by (auto simp: life_def)
qed

lemma kkill_lives:
  "kkill pid s = (r, s') \<Longrightarrow> initproc s' = initproc s \<and> nextpid s' = nextpid s \<and> (\<forall>q. woken (lives s q) (lives s' q))"
  by (auto simp: kkill_def Let_def woken_def life_def split: option.splits if_splits)

subsection \<open>The life cycle as a state machine\<close>

text \<open>
  The abstract machine: per process its state, pid and parent, the next pid, and which process each
  CPU runs. \<open>alive\<close> processes are those that can still be a parent.
\<close>

type_synonym lifemap = "nat \<Rightarrow> procstate \<times> int \<times> nat option"

abbreviation alive :: "procstate \<Rightarrow> bool" where
  "alive st \<equiv> st \<noteq> UNUSED \<and> st \<noteq> ZOMBIE"

inductive life_step :: "nat \<Rightarrow> lifemap \<times> int \<times> (nat \<Rightarrow> nat option) \<Rightarrow> lifemap \<times> int \<times> (nat \<Rightarrow> nat option) \<Rightarrow> bool"
  for i where
  Dispatch: "cur c = None \<Longrightarrow> p < NPROC \<Longrightarrow> fst (L p) = RUNNABLE
    \<Longrightarrow> life_step i (L, n, cur) (L(p := (RUNNING, snd (L p))), n, cur(c := Some p))"
| Park: "cur c = Some p \<Longrightarrow> st = RUNNABLE \<or> st = SLEEPING
    \<Longrightarrow> life_step i (L, n, cur) (L(p := (st, snd (L p))), n, cur(c := None))"
| Wake: "(\<And>q. woken (L q) (L' q)) \<Longrightarrow> life_step i (L, n, cur) (L', n, cur)"
| Fork: "cur c = Some p \<Longrightarrow> np < NPROC \<Longrightarrow> fst (L np) = UNUSED
    \<Longrightarrow> life_step i (L, n, cur) (L(np := (RUNNABLE, n, Some p)), n + 1, cur)"
| Exit: "cur c = Some p \<Longrightarrow> p \<noteq> i \<Longrightarrow> (\<And>q. q \<noteq> p \<Longrightarrow> woken (adopt p (Some i) (L q)) (L' q))
    \<Longrightarrow> L' p = (ZOMBIE, snd (adopt p (Some i) (L p)))
    \<Longrightarrow> life_step i (L, n, cur) (L', n, cur(c := None))"
| Reap: "cur c = Some p \<Longrightarrow> fst (L q) = ZOMBIE \<Longrightarrow> snd (snd (L q)) = Some p
    \<Longrightarrow> life_step i (L, n, cur) (L(q := (UNUSED, 0, None)), n, cur)"
| Fail: "(\<And>q. L' q = L q \<or> fst (L q) = UNUSED \<and> L' q = (UNUSED, 0, None)) \<Longrightarrow> n \<le> n'
    \<Longrightarrow> life_step i (L, n, cur) (L', n', cur)"

text \<open>
  The invariant. Unused slots carry neither pid nor parent; pids of the others are positive, below
  \<open>nextpid\<close> and distinct; \<open>init\<close> is alive and an orphan by nature; every other process has a parent
  that is alive, so a zombie always has somebody to reap it; the running processes are exactly those
  the CPUs run, each on one CPU.
\<close>

definition ids_ok :: "lifemap \<Rightarrow> int \<Rightarrow> bool" where
  "ids_ok L n \<longleftrightarrow> 0 < n \<and> (\<forall>p. fst (L p) = UNUSED \<longrightarrow> snd (L p) = (0, None))
     \<and> (\<forall>p. fst (L p) \<noteq> UNUSED \<longrightarrow> p < NPROC \<and> 0 < fst (snd (L p)) \<and> fst (snd (L p)) < n)
     \<and> (\<forall>p q. fst (L p) \<noteq> UNUSED \<longrightarrow> fst (L q) \<noteq> UNUSED \<longrightarrow> fst (snd (L p)) = fst (snd (L q)) \<longrightarrow> p = q)"

definition family_ok :: "nat \<Rightarrow> lifemap \<Rightarrow> bool" where
  "family_ok i L \<longleftrightarrow> i < NPROC \<and> alive (fst (L i)) \<and> snd (snd (L i)) = None
     \<and> (\<forall>p. fst (L p) \<noteq> UNUSED \<longrightarrow> p \<noteq> i \<longrightarrow> (\<exists>q. snd (snd (L p)) = Some q \<and> alive (fst (L q)) \<and> q \<noteq> p))"

definition cpus_ok :: "lifemap \<Rightarrow> (nat \<Rightarrow> nat option) \<Rightarrow> bool" where
  "cpus_ok L cur \<longleftrightarrow> (\<forall>p. fst (L p) = RUNNING \<longleftrightarrow> (\<exists>c. cur c = Some p))
     \<and> (\<forall>c d p. cur c = Some p \<longrightarrow> cur d = Some p \<longrightarrow> c = d)"

definition life_inv :: "nat \<Rightarrow> lifemap \<times> int \<times> (nat \<Rightarrow> nat option) \<Rightarrow> bool" where
  "life_inv i = (\<lambda>(L, n, cur). ids_ok L n \<and> family_ok i L \<and> cpus_ok L cur)"

text \<open>Only the state part of an entry changes, and neither to nor from \<open>UNUSED\<close>.\<close>

lemma ids_ok_cong:
  assumes "ids_ok L n" "\<And>q. (fst (L' q) = UNUSED) = (fst (L q) = UNUSED)" "\<And>q. fst (snd (L' q)) = fst (snd (L q))"
    "\<And>q. fst (L q) = UNUSED \<Longrightarrow> L' q = L q"
  shows "ids_ok L' n"
  using assms unfolding ids_ok_def by metis

lemma family_ok_cong:
  assumes "family_ok i L" "\<And>q. (fst (L' q) = UNUSED) = (fst (L q) = UNUSED)" "\<And>q. (fst (L' q) = ZOMBIE) = (fst (L q) = ZOMBIE)"
    "\<And>q. snd (snd (L' q)) = snd (snd (L q))"
  shows "family_ok i L'"
  using assms unfolding family_ok_def by metis

lemma cpus_ok_cong:
  assumes "cpus_ok L cur" "\<And>q. (fst (L' q) = RUNNING) = (fst (L q) = RUNNING)"
  shows "cpus_ok L' cur"
  using assms unfolding cpus_ok_def by simp

lemma cpus_ok_leave:
  assumes "cpus_ok L cur" "cur c = Some p" "\<And>q. (fst (L' q) = RUNNING) = (fst (L q) = RUNNING \<and> q \<noteq> p)"
  shows "cpus_ok L' (cur(c := None))"
  using assms(1,2) unfolding cpus_ok_def assms(3) by (auto split: if_splits) (metis option.inject)

lemma life_step_inv:
  assumes "life_step i x y" "life_inv i x" shows "life_inv i y"
  using assms
proof (cases rule: life_step.cases)
  case (Dispatch cur c p L n)
  have I: "ids_ok L n" "family_ok i L" "cpus_ok L cur" using assms(2) Dispatch by (simp_all add: life_inv_def)
  let ?L = "L(p := (RUNNING, snd (L p)))"
  have "ids_ok ?L n" by (rule ids_ok_cong [OF I(1)]) (use Dispatch in auto)
  moreover have "family_ok i ?L" by (rule family_ok_cong [OF I(2)]) (use Dispatch in auto)
  moreover have "cpus_ok ?L (cur(c := Some p))"
  proof -
    have "cur d \<noteq> Some p" for d using I(3) Dispatch unfolding cpus_ok_def by (metis procstate.distinct(25))
    then show ?thesis using I(3) Dispatch unfolding cpus_ok_def
      by (auto split: if_splits) (metis option.distinct(1))
  qed
  ultimately show ?thesis using Dispatch by (simp add: life_inv_def)
next
  case (Park cur c p st L n)
  have I: "ids_ok L n" "family_ok i L" "cpus_ok L cur" using assms(2) Park by (simp_all add: life_inv_def)
  let ?L = "L(p := (st, snd (L p)))"
  have r: "fst (L p) = RUNNING" using I(3) Park unfolding cpus_ok_def by auto
  have "ids_ok ?L n" by (rule ids_ok_cong [OF I(1)]) (use Park r in auto)
  moreover have "family_ok i ?L" by (rule family_ok_cong [OF I(2)]) (use Park r in auto)
  moreover have "cpus_ok ?L (cur(c := None))" by (rule cpus_ok_leave [OF I(3)]) (use Park in auto)
  ultimately show ?thesis using Park by (simp add: life_inv_def)
next
  case (Wake L L' n cur)
  have I: "ids_ok L n" "family_ok i L" "cpus_ok L cur" using assms(2) Wake by (simp_all add: life_inv_def)
  have w: "snd (L' q) = snd (L q)" "fst (L' q) = fst (L q) \<or> fst (L q) = SLEEPING \<and> fst (L' q) = RUNNABLE" for q
    using Wake(3) [of q] by (auto simp: woken_def)
  have un: "(fst (L' q) = UNUSED) = (fst (L q) = UNUSED)" "fst (L q) = UNUSED \<Longrightarrow> L' q = L q" for q
    using w [of q] by (auto simp: prod_eq_iff)
  have "ids_ok L' n" by (rule ids_ok_cong [OF I(1)]) (use w un in auto)
  moreover have "(fst (L' q) = ZOMBIE) = (fst (L q) = ZOMBIE)" "(fst (L' q) = RUNNING) = (fst (L q) = RUNNING)" for q
    using w [of q] by auto
  then have "family_ok i L'" "cpus_ok L' cur"
    using family_ok_cong [OF I(2) un(1)] cpus_ok_cong [OF I(3)] w(1) by auto
  ultimately show ?thesis using Wake by (simp add: life_inv_def)
next
  case (Fork cur c p np L n)
  have I: "ids_ok L n" "family_ok i L" "cpus_ok L cur" using assms(2) Fork by (simp_all add: life_inv_def)
  let ?L = "L(np := (RUNNABLE, n, Some p))"
  have r: "fst (L p) = RUNNING" using I(3) Fork unfolding cpus_ok_def by auto
  then have "p \<noteq> np" using Fork(5) by auto
  have "ids_ok ?L (n + 1)" using I(1) Fork unfolding ids_ok_def by (force split: if_splits)
  moreover have "family_ok i ?L" using I(2) Fork r \<open>p \<noteq> np\<close> unfolding family_ok_def by auto
  moreover have "cpus_ok ?L cur" by (rule cpus_ok_cong [OF I(3)]) (use Fork in auto)
  ultimately show ?thesis using Fork by (simp add: life_inv_def)
next
  case (Exit cur c p L L' n)
  have I: "ids_ok L n" "family_ok i L" "cpus_ok L cur" using assms(2) Exit by (simp_all add: life_inv_def)
  have r: "fst (L p) = RUNNING" using I(3) Exit unfolding cpus_ok_def by auto
  have ad: "fst (adopt p (Some i) z) = fst z" "fst (snd (adopt p (Some i) z)) = fst (snd z)"
    "snd (snd (adopt p (Some i) z)) = (if snd (snd z) = Some p then Some i else snd (snd z))" for z
    by (simp_all add: adopt_def split: prod.splits)
  have w: "fst (L' q) = fst (L q) \<or> fst (L q) = SLEEPING \<and> fst (L' q) = RUNNABLE" if "q \<noteq> p" for q
    using Exit(5) [OF that] by (auto simp: woken_def ad)
  have d: "fst (snd (L' q)) = fst (snd (L q))"
    "snd (snd (L' q)) = (if snd (snd (L q)) = Some p then Some i else snd (snd (L q)))" for q
    using Exit(5) [of q] Exit(6) ad by (cases "q = p"; simp add: woken_def)+
  have al: "alive (fst (L' q)) = alive (fst (L q))" if "q \<noteq> p" for q using w [OF that] by auto
  have un: "(fst (L' q) = UNUSED) = (fst (L q) = UNUSED)" for q using w [of q] Exit(6) r by (cases "q = p") auto
  have "ids_ok L' n"
  proof (rule ids_ok_cong [OF I(1) un d(1)])
    fix q assume u: "fst (L q) = UNUSED"
    then have "snd (L q) = (0, None)" using I(1) unfolding ids_ok_def by blast
    then show "L' q = L q" using u d [of q] un [of q] by (simp add: prod_eq_iff)
  qed
  moreover have "family_ok i L'"
  proof -
    have i: "i < NPROC" "alive (fst (L' i))" "snd (snd (L' i)) = None"
      using I(2) al [of i] d(2) [of i] Exit(4) unfolding family_ok_def by auto
    have "\<exists>b. snd (snd (L' q)) = Some b \<and> alive (fst (L' b)) \<and> b \<noteq> q" if q: "fst (L' q) \<noteq> UNUSED" "q \<noteq> i" for q
    proof -
      obtain b where b: "snd (snd (L q)) = Some b" "alive (fst (L b))" "b \<noteq> q"
        using I(2) q un unfolding family_ok_def by blast
      show ?thesis using b d(2) [of q] al [of b] i q(2) by (cases "b = p") auto
    qed
    then show ?thesis using i unfolding family_ok_def by blast
  qed
  moreover have "cpus_ok L' (cur(c := None))"
  proof (rule cpus_ok_leave [OF I(3) Exit(3)])
    show "(fst (L' q) = RUNNING) = (fst (L q) = RUNNING \<and> q \<noteq> p)" for q
      using w [of q] Exit(6) by (cases "q = p") auto
  qed
  ultimately show ?thesis using Exit by (simp add: life_inv_def)
next
  case (Reap cur c p L q n)
  have I: "ids_ok L n" "family_ok i L" "cpus_ok L cur" using assms(2) Reap by (simp_all add: life_inv_def)
  let ?L = "L(q := (UNUSED, 0, None))"
  have "ids_ok ?L n" using I(1) unfolding ids_ok_def by auto
  moreover have "family_ok i ?L" using I(2) Reap unfolding family_ok_def by auto
  moreover have "cpus_ok ?L cur" by (rule cpus_ok_cong [OF I(3)]) (use Reap in auto)
  ultimately show ?thesis using Reap by (simp add: life_inv_def)
next
  case (Fail L' L n n' cur)
  have I: "ids_ok L n" "family_ok i L" "cpus_ok L cur" using assms(2) Fail by (simp_all add: life_inv_def)
  have "L' = L"
    using Fail(3) I(1) unfolding ids_ok_def by (metis (no_types) ext prod.collapse)
  moreover have "ids_ok L n'" using I(1) Fail(4) unfolding ids_ok_def by fastforce
  ultimately show ?thesis using Fail I by (simp add: life_inv_def)
qed

subsection \<open>The kernel's operations as a step relation\<close>

text \<open>
  The steps of the machine: \<open>cur c\<close> is the process CPU \<open>c\<close> runs. A wakeup may come from any CPU,
  an interrupt handler included; other system calls may change the file state \<open>f\<close> and the memory.
\<close>

inductive pstep :: "u64 \<Rightarrow> u64 \<Rightarrow> u64 \<Rightarrow> (nat \<Rightarrow> 'f \<Rightarrow> 'f res) \<Rightarrow> (nat option \<Rightarrow> 'f \<Rightarrow> 'f)
    \<Rightarrow> (nat \<Rightarrow> nat \<Rightarrow> psys \<times> 'f \<Rightarrow> (psys \<times> 'f) res) \<Rightarrow> (int \<Rightarrow> nat option \<Rightarrow> 'f \<Rightarrow> 'f res) \<Rightarrow> psys \<times> 'f \<times> (nat \<Rightarrow> nat option) \<Rightarrow> psys \<times> 'f \<times> (nat \<Rightarrow> nat option) \<Rightarrow> bool"
  for kend tramp forkret fdup idp fclose pcwd where
  schedule: "cur c = None \<Longrightarrow> p < NPROC \<Longrightarrow> scheduler_try p s = Some s'
    \<Longrightarrow> pstep kend tramp forkret fdup idp fclose pcwd (s, f, cur) (s', f, cur(c := Some p))"
| yield: "cur c = Some p \<Longrightarrow> pstep kend tramp forkret fdup idp fclose pcwd (s, f, cur) (yield_enter p s, f, cur(c := None))"
| sleep: "cur c = Some p \<Longrightarrow> pstep kend tramp forkret fdup idp fclose pcwd (s, f, cur) (sleep_enter p ch s, f, cur(c := None))"
| awake: "cur c = Some p \<Longrightarrow> pstep kend tramp forkret fdup idp fclose pcwd (s, f, cur) (sleep_leave p s, f, cur)"
| wakeup: "pstep kend tramp forkret fdup idp fclose pcwd (s, f, cur) (wakeup (cur c) ch s, f, cur)"
| fork: "cur c = Some p \<Longrightarrow> kfork kend tramp forkret fdup idp p (s, f) = Inr (r, s', f')
    \<Longrightarrow> pstep kend tramp forkret fdup idp fclose pcwd (s, f, cur) (s', f', cur)"
| exit: "cur c = Some p \<Longrightarrow> kexit (fclose p) (pcwd (p_pid (ptab s p))) p status (s, f) = Inr (s', f')
    \<Longrightarrow> pstep kend tramp forkret fdup idp fclose pcwd (s, f, cur) (s', f', cur(c := None))"
| wait: "cur c = Some p \<Longrightarrow> kwait kend p addr s = Inr (Some r, s')
    \<Longrightarrow> pstep kend tramp forkret fdup idp fclose pcwd (s, f, cur) (s', f, cur)"
| wait_sleep: "cur c = Some p \<Longrightarrow> kwait kend p addr s = Inr (None, s')
    \<Longrightarrow> pstep kend tramp forkret fdup idp fclose pcwd (s, f, cur) (s', f, cur(c := None))"
| kill: "kkill pid s = (r, s') \<Longrightarrow> pstep kend tramp forkret fdup idp fclose pcwd (s, f, cur) (s', f, cur)"
| set_killed: "cur c = Some p \<Longrightarrow> pstep kend tramp forkret fdup idp fclose pcwd (s, f, cur) (setkilled p s, f, cur)"
| grow: "cur c = Some p \<Longrightarrow> growproc kend p n s = Inr (r, s')
    \<Longrightarrow> pstep kend tramp forkret fdup idp fclose pcwd (s, f, cur) (s', f, cur)"
| other: "pstep kend tramp forkret fdup idp fclose pcwd (s, f, cur) (s\<lparr>pkm := m\<rparr>, f', cur)"

definition ptable :: "psys \<Rightarrow> lifemap" where
  "ptable s = (\<lambda>p. if p < NPROC then lives s p else (UNUSED, 0, None))"

definition abs_proc :: "psys \<times> 'f \<times> (nat \<Rightarrow> nat option) \<Rightarrow> lifemap \<times> int \<times> (nat \<Rightarrow> nat option)" where
  "abs_proc = (\<lambda>(s, f, cur). (ptable s, nextpid s, cur))"

lemma abs_wake:
  assumes "\<And>q. q < NPROC \<Longrightarrow> woken (lives s q) (lives s' q)" "nextpid s' = nextpid s"
  shows "life_step i (abs_proc (s, f, cur)) (abs_proc (s', f', cur))"
  unfolding abs_proc_def prod.case assms(2) by (rule Wake) (simp add: ptable_def assms(1))

lemma abs_park:
  assumes "cur c = Some p" "p < NPROC" "lives s' = (lives s)(p := (st, snd (lives s p)))" "nextpid s' = nextpid s"
    "st = RUNNABLE \<or> st = SLEEPING"
  shows "life_step i (abs_proc (s, f, cur)) (abs_proc (s', f', cur(c := None)))"
proof -
  have "ptable s' = (ptable s)(p := (st, snd (ptable s p)))" using assms(2,3) by (auto simp: ptable_def fun_eq_iff)
  then show ?thesis unfolding abs_proc_def prod.case assms(4) using Park [of cur c p st i "ptable s"] assms(1,5) by simp
qed

lemma abs_fail:
  assumes "unused_only s s'" "nextpid s \<le> nextpid s'"
  shows "life_step i (abs_proc (s, f, cur)) (abs_proc (s', f', cur))"
  unfolding abs_proc_def prod.case
proof (rule Fail)
  show "ptable s' q = ptable s q \<or> fst (ptable s q) = UNUSED \<and> ptable s' q = (UNUSED, 0, None)" for q
    using assms(1) [unfolded unused_only_def, rule_format, of q] by (auto simp: life_def ptable_def)
qed (rule assms(2))

lemma abs_fork:
  assumes "cur c = Some p" "np < NPROC" "p_state (ptab s np) = UNUSED" "\<forall>q. q \<noteq> np \<longrightarrow> lives s' q = lives s q"
    "lives s' np = (RUNNABLE, nextpid s, Some p)" "nextpid s' = nextpid s + 1"
  shows "life_step i (abs_proc (s, f, cur)) (abs_proc (s', f', cur))"
proof -
  have "ptable s' = (ptable s)(np := (RUNNABLE, nextpid s, Some p))" using assms by (auto simp: ptable_def fun_eq_iff)
  then show ?thesis unfolding abs_proc_def prod.case assms(6)
    using Fork [of cur c p np "ptable s"] assms(1-3) by (simp add: ptable_def life_def)
qed

lemma abs_reap:
  assumes "cur c = Some p" "q < NPROC" "p_state (ptab s q) = ZOMBIE" "p_parent (ptab s q) = Some p"
    "lives s' = (lives s)(q := (UNUSED, 0, None))" "nextpid s' = nextpid s"
  shows "life_step i (abs_proc (s, f, cur)) (abs_proc (s', f', cur))"
proof -
  have "ptable s' = (ptable s)(q := (UNUSED, 0, None))" using assms by (auto simp: ptable_def fun_eq_iff)
  then show ?thesis unfolding abs_proc_def prod.case assms(6)
    using Reap [of cur c p "ptable s" q] assms(1-4) by (simp add: ptable_def life_def)
qed

lemma abs_dispatch:
  assumes "cur c = None" "p < NPROC" "scheduler_try p s = Some s'"
  shows "life_step i (abs_proc (s, f, cur)) (abs_proc (s', f', cur(c := Some p)))"
proof -
  have s': "p_state (ptab s p) = RUNNABLE" "s' = upd_proc p (\<lambda>x. x\<lparr>p_state := RUNNING\<rparr>) s"
    using assms(3) by (auto simp: scheduler_try_def split: if_splits)
  then have "ptable s' = (ptable s)(p := (RUNNING, snd (ptable s p)))"
    using assms by (auto simp: ptable_def fun_eq_iff life_def)
  then show ?thesis unfolding abs_proc_def prod.case
    using Dispatch [of cur c p "ptable s"] assms(1,2) s' by (simp add: ptable_def life_def)
qed

text \<open>A table with \<open>init\<close> running on CPU 0 and a zombie child, for the examples.\<close>

definition example_proc :: "procstate \<Rightarrow> int \<Rightarrow> nat option \<Rightarrow> proc" where
  "example_proc st pid par = \<lparr>p_state = st, p_chan = NoChan, p_killed = False, p_xstate = 0, p_pid = pid, p_parent = par,
     p_kstack = 0, p_sz = 0, p_pagetable = 0, p_trapframe = 0, p_ctx_ra = 0, p_ctx_sp = 0, p_ofile = (\<lambda>_. None),
     p_cwd = None, p_name = [0]\<rparr>"

definition example_procs :: psys where
  "example_procs = \<lparr>ptab = (\<lambda>p. if p = 0 then example_proc RUNNING 1 None
       else if p = 1 then example_proc ZOMBIE 2 (Some 0) else example_proc UNUSED 0 None),
     nextpid = 3, initproc = Some 0, pkm = \<lparr>pmem = (\<lambda>_. 0), freelist = 0\<rparr>\<rparr>"

lemma example_inv: "life_inv 0 (abs_proc (example_procs, (), (\<lambda>_. None)(0 := Some 0)))"
  by (auto simp: life_inv_def abs_proc_def ptable_def ids_ok_def family_ok_def cpus_ok_def example_procs_def
      example_proc_def life_def NPROC_def)

text \<open>What \<open>userinit\<close> leaves behind satisfies the invariant.\<close>

lemma userinit_life:
  assumes "\<forall>p<NPROC. lives s p = (UNUSED, 0, None)" "nextpid s = 1" "userinit kend tramp fr root s = Inr s'"
  shows "\<exists>i. initproc s' = Some i \<and> life_inv i (abs_proc (s', f, \<lambda>_. None))"
proof -
  obtain p s1 where a: "allocproc kend tramp fr s = Inr (Some p, s1)"
    and s': "s' = upd_proc p (\<lambda>x. x\<lparr>p_cwd := root, p_state := RUNNABLE\<rparr>) (s1\<lparr>initproc := Some p\<rparr>)"
    using assms(3) by (auto simp: userinit_def bindR_eq_Inr split: option.splits)
  have p: "p < NPROC" "\<forall>q. q \<noteq> p \<longrightarrow> ptab s1 q = ptab s q" "lives s1 p = (USED, 1, None)" "nextpid s1 = 2"
    using allocproc_Inr [OF a] assms(1,2) by (auto simp: life_def)
  have "ptable s' q = (if q = p then (RUNNABLE, 1, None) else (UNUSED, 0, None))" for q
    using p assms(1) by (auto simp: ptable_def s' life_def)
  then show ?thesis
    using p by (auto simp: s' life_inv_def abs_proc_def ids_ok_def family_ok_def cpus_ok_def split: if_splits)
qed

subsection \<open>The file layer\<close>

text \<open>
  What \<open>exit\<close> relies on: closing a file may wake processes up, since a pipe end may go away, and changes
  nothing else of the life cycle.
\<close>

locale file_layer =
  fixes fclose :: "nat \<Rightarrow> nat \<Rightarrow> psys \<times> 'f \<Rightarrow> (psys \<times> 'f) res"
  assumes fclose_wakes: "fclose me fl (s, f) = Inr (s', f') \<Longrightarrow> woken (lives s q) (lives s' q)"
    and fclose_globals: "fclose me fl (s, f) = Inr (s', f') \<Longrightarrow> nextpid s' = nextpid s \<and> initproc s' = initproc s"
begin

lemma close_files_wakes:
  "close_files (fclose me) p fds (s, f) = Inr (s', f') \<Longrightarrow>
   (\<forall>q. woken (lives s q) (lives s' q)) \<and> nextpid s' = nextpid s \<and> initproc s' = initproc s"
proof (induction fds arbitrary: s f)
  case (Cons fd fds)
  show ?case
  proof (cases "p_ofile (ptab s p) fd")
    case None
    then show ?thesis using Cons by simp
  next
    case (Some fl)
    then obtain s1 f1 where c: "fclose me fl (s, f) = Inr (s1, f1)"
      and r: "close_files (fclose me) p fds (upd_proc p (\<lambda>x. x\<lparr>p_ofile := (p_ofile x)(fd := None)\<rparr>) s1, f1) = Inr (s', f')"
      using Cons.prems by (auto simp: bindR_eq_Inr)
    have "lives (upd_proc p (\<lambda>x. x\<lparr>p_ofile := (p_ofile x)(fd := None)\<rparr>) s1) q = lives s1 q" for q
      by (simp add: life_def)
    then have "woken (lives s q) (lives s' q)" for q
      using Cons.IH [OF r] woken_trans [OF fclose_wakes [OF c]] by (metis (no_types))
    then show ?thesis using Cons.IH [OF r] fclose_globals [OF c] by simp
  qed
qed simp

lemma kexit_Inr:
  assumes "kexit (fclose me) pc p status (s, f) = Inr (s', f')" and "initproc s = Some i"
  shows "i \<noteq> p \<and> initproc s' = Some i \<and> nextpid s' = nextpid s
    \<and> (\<forall>q<NPROC. q \<noteq> p \<longrightarrow> woken (adopt p (Some i) (lives s q)) (lives s' q))
    \<and> lives s' p = (ZOMBIE, snd (lives s' p)) \<and> (p < NPROC \<longrightarrow> snd (lives s' p) = snd (adopt p (Some i) (lives s p)))"
proof -
  have ip: "i \<noteq> p" using assms by (auto simp: kexit_def split: if_splits)
  obtain s1 f1 where c: "close_files (fclose me) p [0..<NOFILE] (s, f) = Inr (s1, f1)"
    using assms ip by (auto simp: kexit_def bindR_eq_Inr)
  note C = close_files_wakes [OF c]
  let ?s2 = "upd_proc p (\<lambda>x. x\<lparr>p_cwd := None\<rparr>) s1"
  let ?s3 = "reparent p (Some p) ?s2"
  let ?s4 = "wakeup (Some p) (case p_parent (ptab ?s3 p) of Some q \<Rightarrow> ProcChan q | None \<Rightarrow> NoChan) ?s3"
  have s': "s' = upd_proc p (\<lambda>x. x\<lparr>p_xstate := status, p_state := ZOMBIE\<rparr>) ?s4"
    using assms c by (auto simp: kexit_def bindR_eq_Inr Let_def split: if_splits)
  have l2: "lives ?s2 q = lives s1 q" for q by (simp add: life_def)
  have i2: "initproc ?s2 = Some i" using C assms(2) by simp
  note R = reparent_lives [OF i2 ip, where me = "Some p"]
  have l4: "woken (adopt p (Some i) (lives s q)) (lives ?s4 q)" if "q < NPROC" for q
  proof -
    have "woken (adopt p (Some i) (lives s q)) (adopt p (Some i) (lives ?s2 q))"
      using C adopt_woken unfolding l2 by blast
    from this woken_trans [OF R(3) [OF that] woken_wakeup] show ?thesis by (rule woken_trans)
  qed
  have "snd (lives ?s4 p) = snd (adopt p (Some i) (lives s p))" if "p < NPROC"
    using l4 [OF that] by (simp add: woken_def)
  then show ?thesis
    using ip R(1,2) C l4 by (auto simp: s' wakeup_simps(2,3) life_def)
qed

lemma abs_exit:
  assumes "cur c = Some p" "p < NPROC" "kexit (fclose me) pcwd p status (s, f) = Inr (s', f')" "initproc s = Some i"
  shows "life_step i (abs_proc (s, f, cur)) (abs_proc (s', f', cur(c := None)))"
proof -
  note K = kexit_Inr [OF assms(3,4)]
  have n: "nextpid s' = nextpid s" using K by blast
  show ?thesis unfolding abs_proc_def prod.case n
  proof (rule Exit [where p = p and c = c])
    show "cur c = Some p" "p \<noteq> i" using assms(1) K by auto
    show "woken (adopt p (Some i) (ptable s q)) (ptable s' q)" if "q \<noteq> p" for q
      using K that by (auto simp: adopt_def ptable_def)
    show "ptable s' p = (ZOMBIE, snd (adopt p (Some i) (ptable s p)))"
      using K assms(2) unfolding ptable_def by metis
  qed
qed

lemma pstep_life_step:
  assumes "pstep kend tramp forkret fdup idp fclose pcwd x y" "initproc (fst x) = Some i"
    and "\<forall>c p. snd (snd x) c = Some p \<longrightarrow> p < NPROC"
  shows "life_step i (abs_proc x) (abs_proc y) \<and> initproc (fst y) = Some i"
  using assms
proof (cases rule: pstep.cases)
  case (schedule cur c p s s' f)
  then show ?thesis using abs_dispatch [of cur c p s s'] assms(2)
    by (auto simp: scheduler_try_def split: if_splits)
next
  case (yield cur c p s f)
  then show ?thesis using assms(2,3)
    by (auto simp: yield_enter_def life_def fun_eq_iff intro!: abs_park [where p = p and st = RUNNABLE])
next
  case (sleep cur c p s f ch)
  then show ?thesis using assms(2,3)
    by (auto simp: sleep_enter_def life_def fun_eq_iff intro!: abs_park [where p = p and st = SLEEPING])
next
  case (awake cur c p s f)
  then show ?thesis using assms(2) by (auto simp: sleep_leave_def life_def intro!: abs_wake)
next
  case (wakeup s f cur c ch)
  then show ?thesis using assms(2) by (auto simp: wakeup_simps(2,3) woken_wakeup intro!: abs_wake)
next
  case (fork cur c p s f r s' f')
  note K = kfork_Inr [OF fork(4)]
  then show ?thesis using fork(1,2) assms(2) abs_fail [of s s'] abs_fork [of cur c p _ s s', OF fork(3)] by auto
next
  case (exit cur c p status s f s' f')
  then show ?thesis using assms(2,3) abs_exit [of cur c p, OF exit(3) _ exit(4)] kexit_Inr [OF exit(4)] by auto
next
  case (wait cur c p addr s r s' f)
  have K: "initproc s' = initproc s" "nextpid s' = nextpid s" "lives s' = lives s \<or>
    (\<exists>q<NPROC. p_state (ptab s q) = ZOMBIE \<and> p_parent (ptab s q) = Some p \<and> lives s' = (lives s)(q := (UNUSED, 0, None)))"
    using kwait_scan_Inr [OF wait(4) [unfolded kwait_def]] by (auto simp: lessThan_atLeast0)
  then show ?thesis using wait(1,2) assms(2) abs_wake [of s s'] abs_reap [of cur c p _ s s', OF wait(3)]
    by (metis fst_conv woken_refl)
next
  case (wait_sleep cur c p addr s s' f)
  have K: "initproc s' = initproc s" "nextpid s' = nextpid s" "lives s' = (lives s)(p := (SLEEPING, snd (lives s p)))"
    using kwait_scan_Inr [OF wait_sleep(4) [unfolded kwait_def]] by (auto simp: lessThan_atLeast0)
  then show ?thesis using wait_sleep(1,2,3) assms(2,3) abs_park [of cur c p, OF wait_sleep(3) _ K(3,2)] by auto
next
  case (kill pid s r s' f cur)
  then show ?thesis using kkill_lives [OF kill(3)] assms(2) by (auto intro!: abs_wake)
next
  case (set_killed cur c p s f)
  then show ?thesis using assms(2) by (auto simp: setkilled_def life_def intro!: abs_wake)
next
  case (grow cur c p n s r s' f)
  then show ?thesis using growproc_Inr [OF grow(4)] assms(2) by (auto intro!: abs_wake)
next
  case (other s f cur m f')
  then show ?thesis using assms(2) by (auto intro!: abs_wake)
qed

text \<open>The invariant along every run.\<close>

lemma run_life_inv:
  assumes "(pstep kend tramp forkret fdup idp fclose pcwd)\<^sup>*\<^sup>* x y"
    and "initproc (fst x) = Some i" "life_inv i (abs_proc x)"
  shows "initproc (fst y) = Some i \<and> life_inv i (abs_proc y)"
  using assms(1)
proof (induction rule: rtranclp_induct)
  case base
  then show ?case using assms(2,3) by simp
next
  case (step y z)
  have "\<forall>c p. snd (snd y) c = Some p \<longrightarrow> p < NPROC"
  proof (intro allI impI)
    fix c p assume "snd (snd y) c = Some p"
    then have "fst (ptable (fst y) p) = RUNNING"
      using step.IH by (auto simp: life_inv_def abs_proc_def cpus_ok_def split: prod.splits)
    then show "p < NPROC" by (auto simp: ptable_def split: if_splits)
  qed
  then have "life_step i (abs_proc y) (abs_proc z) \<and> initproc (fst z) = Some i"
    using pstep_life_step step by blast
  then show ?case using life_step_inv step.IH by blast
qed

end

subsection \<open>Reaping and killing\<close>

lemma kwait_scan_zombie:
  "find (\<lambda>q. p_parent (ptab s q) = Some p \<and> p_state (ptab s q) = ZOMBIE) qs = Some z
   \<Longrightarrow> kwait_scan kend p 0 qs hk s = bindR (freeproc kend z s) (\<lambda>s'. Inr (Some (p_pid (ptab s z)), s'))"
  by (induction qs arbitrary: hk) (auto split: if_splits)

lemma kwait_scan_none:
  "find (\<lambda>q. p_parent (ptab s q) = Some p \<and> p_state (ptab s q) = ZOMBIE) qs = None
   \<Longrightarrow> kwait_scan kend p addr qs hk s =
     (if (\<not> hk \<and> (\<forall>q\<in>set qs. p_parent (ptab s q) \<noteq> Some p)) \<or> killed p s then Inr (Some (-1), s)
      else Inr (None, sleep_enter p (ProcChan p) s))"
  by (induction qs arbitrary: hk) (auto split: if_splits)



text \<open>
  C36: \<open>kkill(0)\<close> reports success and marks an unused slot, whose pid is 0, as killed; nothing clears the mark when the
  slot is allocated, so the next process forked there is born killed.\<close>

theorem kill_zero_poisons_next_fork:
  assumes "ids_ok (ptable s) n" "find (\<lambda>p. p_state (ptab s p) = UNUSED) [0..<NPROC] = Some z"
  shows "fst (kkill 0 s) = 0
    \<and> (\<forall>f r s' f'. kfork kend tramp fr fd idp p (snd (kkill 0 s), f) = Inr (r, s', f') \<longrightarrow>
         r = -1 \<or> lives s' z = (RUNNABLE, nextpid s, Some p) \<and> p_killed (ptab s' z))"
proof (rule conjI)
  have pid0: "p_pid (ptab s q) = 0 \<longleftrightarrow> p_state (ptab s q) = UNUSED" if "q < NPROC" for q
    using assms(1) that unfolding ids_ok_def ptable_def life_def by (force split: if_splits)
  have "find (\<lambda>q. p_pid (ptab s q) = 0) [0..<NPROC] = Some z"
    using assms(2) pid0 by (subst find_cong [OF refl, where Q = "\<lambda>p. p_state (ptab s p) = UNUSED"]) auto
  moreover have z: "p_state (ptab s z) = UNUSED" using assms(2) by (auto simp: find_Some_iff)
  ultimately have K: "kkill 0 s = (0, upd_proc z (\<lambda>x. x\<lparr>p_killed := True\<rparr>) s)"
    by (simp add: kkill_def upd_proc_def)
  then show "fst (kkill 0 s) = 0" by simp
  let ?s = "upd_proc z (\<lambda>x. x\<lparr>p_killed := True\<rparr>) s"
  have F: "find (\<lambda>p. p_state (ptab ?s p) = UNUSED) [0..<NPROC] = Some z"
    using assms(2) by (subst find_cong [OF refl, where Q = "\<lambda>p. p_state (ptab s p) = UNUSED"]) auto
  show "\<forall>f r s' f'. kfork kend tramp fr fd idp p (snd (kkill 0 s), f) = Inr (r, s', f') \<longrightarrow>
      r = -1 \<or> lives s' z = (RUNNABLE, nextpid s, Some p) \<and> p_killed (ptab s' z)"
    unfolding K snd_conv
  proof (intro allI impI)
    fix f r s' f' assume k: "kfork kend tramp fr fd idp p (?s, f) = Inr (r, s', f')"
    show "r = -1 \<or> lives s' z = (RUNNABLE, nextpid s, Some p) \<and> p_killed (ptab s' z)"
      using kfork_Inr [OF k] F by auto
  qed
qed

lemma kill_zero_poisons_next_fork_witness:
  "fst (kkill 0 example_procs) = 0 \<and> p_state (ptab example_procs 2) = UNUSED
   \<and> p_killed (ptab (snd (kkill 0 example_procs)) 2)"
proof -
  have f: "find (\<lambda>p. p_state (ptab example_procs p) = UNUSED) [0..<NPROC] = Some 2"
    by (simp add: example_procs_def example_proc_def NPROC_def upt_rec)
  have i: "ids_ok (ptable example_procs) 3" using example_inv by (simp add: life_inv_def abs_proc_def example_procs_def)
  show ?thesis
    using kill_zero_poisons_next_fork [OF i f]
    by (simp add: kkill_def example_procs_def example_proc_def NPROC_def upt_rec)
qed

end
