(* ===== verification/File.thy ===== *)
theory File
  imports FsDir Pipe Proc
begin

text \<open>
  \<open>kernel/file.c\<close> and the rest of \<open>kernel/pipe.c\<close>: the open-file table over inodes, pipes and devices.
  The kernel's state is the process table with the physical memory (\<open>psys\<close>) and the file state
  (\<open>kfiles\<close>: disk, cache, log, inode table, open files and pipes). A pipe object lives in a page of
  its own and is named by the page's address. \<open>me\<close> is the current process; \<open>devsw\<close> gives the
  handlers of a device. A read or write that goes to sleep returns \<open>Sleeping\<close>.
\<close>

subsection \<open>State\<close>

definition NFILE :: nat where "NFILE = 100"
definition NDEV :: nat where "NDEV = 10"

datatype filetype = FD_NONE | FD_PIPE | FD_INODE | FD_DEVICE

record ofile =
  f_type :: filetype
  f_ref :: int
  f_readable :: bool
  f_writable :: bool
  f_pipe :: u64
  f_ip :: nat
  f_off :: u32
  f_major :: u16

record kfiles = fstate +
  ftable :: "nat \<Rightarrow> ofile"
  pipes :: "u64 \<Rightarrow> pipe"

definition upd_file :: "nat \<Rightarrow> (ofile \<Rightarrow> ofile) \<Rightarrow> 'a kfiles_scheme \<Rightarrow> 'a kfiles_scheme" where
  "upd_file f g k = k\<lparr>ftable := (ftable k)(f := g (ftable k f))\<rparr>"

definition upd_pipe :: "u64 \<Rightarrow> (pipe \<Rightarrow> pipe) \<Rightarrow> 'a kfiles_scheme \<Rightarrow> 'a kfiles_scheme" where
  "upd_pipe pi g k = k\<lparr>pipes := (pipes k)(pi := g (pipes k pi))\<rparr>"

text \<open>The addresses of the fields \<open>nread\<close> and \<open>nwrite\<close> of a pipe, used as sleep channels.\<close>

definition nread_chan :: "u64 \<Rightarrow> chan" where "nread_chan pi = AddrChan (pi + 536)"
definition nwrite_chan :: "u64 \<Rightarrow> chan" where "nwrite_chan pi = AddrChan (pi + 540)"

subsection \<open>Pipes as files\<close>

definition filealloc :: "'a kfiles_scheme \<Rightarrow> nat option \<times> 'a kfiles_scheme" where
  "filealloc k =
     (case find (\<lambda>f. f_ref (ftable k f) = 0) [0..<NFILE] of
        None \<Rightarrow> (None, k)
      | Some f \<Rightarrow> (Some f, upd_file f (\<lambda>x. x\<lparr>f_ref := 1\<rparr>) k))"

definition filedup :: "nat \<Rightarrow> 'a kfiles_scheme \<Rightarrow> 'a kfiles_scheme res" where
  "filedup f k =
     (if f_ref (ftable k f) < 1 then panic ''filedup''
      else Inr (upd_file f (\<lambda>x. x\<lparr>f_ref := f_ref x + 1\<rparr>) k))"

definition pipeclose :: "u64 \<Rightarrow> nat \<Rightarrow> u64 \<Rightarrow> bool \<Rightarrow> psys \<times> 'a kfiles_scheme \<Rightarrow> (psys \<times> 'a kfiles_scheme) res" where
  "pipeclose kend me pi writable = (\<lambda>(s, k).
     let (k, s) = (if writable
           then (upd_pipe pi (\<lambda>x. x\<lparr>p_writeopen := False\<rparr>) k, wakeup (Some me) (nread_chan pi) s)
           else (upd_pipe pi (\<lambda>x. x\<lparr>p_readopen := False\<rparr>) k, wakeup (Some me) (nwrite_chan pi) s)) in
     if \<not> p_readopen (pipes k pi) \<and> \<not> p_writeopen (pipes k pi)
     then bindR (kfree kend pi (pkm s)) (\<lambda>m. Inr (s\<lparr>pkm := m\<rparr>, k))
     else Inr (s, k))"

text \<open>\<open>begin_op(); iput(ip); end_op()\<close>.\<close>

definition put_inode :: "int \<Rightarrow> nat \<Rightarrow> 'a fstate_scheme \<Rightarrow> 'a fstate_scheme res" where
  "put_inode pid ip k = bindR (begin_op k) (\<lambda>k. bindR (iput pid ip k) (end_op pid))"

definition fileclose :: "u64 \<Rightarrow> nat \<Rightarrow> nat \<Rightarrow> psys \<times> 'a kfiles_scheme \<Rightarrow> (psys \<times> 'a kfiles_scheme) res" where
  "fileclose kend me f = (\<lambda>(s, k).
     if f_ref (ftable k f) < 1 then panic ''fileclose''
     else let k = upd_file f (\<lambda>x. x\<lparr>f_ref := f_ref x - 1\<rparr>) k in
       if f_ref (ftable k f) > 0 then Inr (s, k)
       else let ff = ftable k f;
                k = upd_file f (\<lambda>x. x\<lparr>f_ref := 0, f_type := FD_NONE\<rparr>) k in
         (case f_type ff of
            FD_PIPE \<Rightarrow> pipeclose kend me (f_pipe ff) (f_writable ff) (s, k)
          | FD_INODE \<Rightarrow> bindR (put_inode (p_pid (ptab s me)) (f_ip ff) k) (\<lambda>k. Inr (s, k))
          | FD_DEVICE \<Rightarrow> bindR (put_inode (p_pid (ptab s me)) (f_ip ff) k) (\<lambda>k. Inr (s, k))
          | FD_NONE \<Rightarrow> Inr (s, k)))"

text \<open>The \<open>bad:\<close> exit of \<open>pipealloc\<close>, and \<open>pipealloc\<close>.\<close>

definition pipealloc_bad :: "u64 \<Rightarrow> nat \<Rightarrow> nat option \<Rightarrow> nat option \<Rightarrow> psys \<times> 'a kfiles_scheme
    \<Rightarrow> ((nat \<times> nat) option \<times> psys \<times> 'a kfiles_scheme) res" where
  "pipealloc_bad kend me f0 f1 sk =
     bindR (case f0 of None \<Rightarrow> Inr sk | Some f \<Rightarrow> fileclose kend me f sk) (\<lambda>sk.
     bindR (case f1 of None \<Rightarrow> Inr sk | Some f \<Rightarrow> fileclose kend me f sk) (\<lambda>sk. Inr (None, sk)))"

definition pipealloc :: "u64 \<Rightarrow> nat \<Rightarrow> psys \<times> 'a kfiles_scheme \<Rightarrow> ((nat \<times> nat) option \<times> psys \<times> 'a kfiles_scheme) res" where
  "pipealloc kend me = (\<lambda>(s, k).
     case filealloc k of
       (None, k) \<Rightarrow> pipealloc_bad kend me None None (s, k)
     | (Some f0, k) \<Rightarrow>
         (case filealloc k of
            (None, k) \<Rightarrow> pipealloc_bad kend me (Some f0) None (s, k)
          | (Some f1, k) \<Rightarrow>
              let (pi, m) = kalloc (pkm s); s = s\<lparr>pkm := m\<rparr> in
              if pi = 0 then pipealloc_bad kend me (Some f0) (Some f1) (s, k)
              else let k = upd_pipe pi (\<lambda>x. new_pipe (p_data x)) k;
                       k = upd_file f0 (\<lambda>x. x\<lparr>f_type := FD_PIPE, f_readable := True, f_writable := False, f_pipe := pi\<rparr>) k;
                       k = upd_file f1 (\<lambda>x. x\<lparr>f_type := FD_PIPE, f_readable := False, f_writable := True, f_pipe := pi\<rparr>) k
                   in Inr (Some (f0, f1), s, k)))"

text \<open>
  The ring operations with the copies of one byte from and to the user, and with the wakeups and
  the sleep around them.
\<close>

definition fetch_byte :: "u64 \<Rightarrow> nat \<Rightarrow> u64 \<Rightarrow> nat \<Rightarrow> psys \<Rightarrow> (byte option \<times> psys) res" where
  "fetch_byte kend me addr i s =
     (let x = ptab s me in
      bindR (copyin kend (p_sz x) (p_pagetable x) (p_pagetable x) (addr + of_nat i) 1 (pkm s)) (\<lambda>(r, bs, m).
        Inr (if r = -1 then None else Some (hd bs), s\<lparr>pkm := m\<rparr>)))"

definition store_byte :: "u64 \<Rightarrow> nat \<Rightarrow> u64 \<Rightarrow> nat \<Rightarrow> byte \<Rightarrow> psys \<Rightarrow> (bool \<times> psys) res" where
  "store_byte kend me addr i ch s =
     (let x = ptab s me in
      bindR (copyout kend (p_sz x) (p_pagetable x) (p_pagetable x) (addr + of_nat i) [ch] (pkm s)) (\<lambda>(r, m).
        Inr (r \<noteq> -1, s\<lparr>pkm := m\<rparr>)))"

definition file_pipewrite :: "u64 \<Rightarrow> nat \<Rightarrow> u64 \<Rightarrow> u64 \<Rightarrow> int \<Rightarrow> nat \<Rightarrow> psys \<times> 'a kfiles_scheme
    \<Rightarrow> (outcome \<times> psys \<times> 'a kfiles_scheme) res" where
  "file_pipewrite kend me pi addr n i = (\<lambda>(s, k).
     bindR (pipewrite (fetch_byte kend me addr) (killed me s) n i (pipes k pi, s)) (\<lambda>(r, q, s).
       let k = upd_pipe pi (\<lambda>_. q) k in
       Inr (r, (case r of
           Returned v \<Rightarrow> if v = -1 then s else wakeup (Some me) (nread_chan pi) s
         | Sleeping _ \<Rightarrow> sleep_enter me (nwrite_chan pi) (wakeup (Some me) (nread_chan pi) s)), k)))"

definition file_piperead :: "u64 \<Rightarrow> nat \<Rightarrow> u64 \<Rightarrow> u64 \<Rightarrow> int \<Rightarrow> psys \<times> 'a kfiles_scheme
    \<Rightarrow> (outcome \<times> psys \<times> 'a kfiles_scheme) res" where
  "file_piperead kend me pi addr n = (\<lambda>(s, k).
     bindR (piperead (store_byte kend me addr) (killed me s) n (pipes k pi, s)) (\<lambda>(r, q, s).
       let k = upd_pipe pi (\<lambda>_. q) k in
       Inr (r, (case r of
           Returned v \<Rightarrow> if v = -1 then s else wakeup (Some me) (nwrite_chan pi) s
         | Sleeping _ \<Rightarrow> sleep_enter me (nread_chan pi) s), k)))"

subsection \<open>Reading and writing files\<close>

text \<open>
  The bytes of a \<open>struct stat\<close>; the four bytes of padding before \<open>size\<close> are whatever the kernel
  stack held.
\<close>

definition u32_bytes :: "u32 \<Rightarrow> byte list" where
  "u32_bytes w = [ucast w, ucast (drop_bit 8 w), ucast (drop_bit 16 w), ucast (drop_bit 24 w)]"

definition stat_bytes :: "byte list \<Rightarrow> stat \<Rightarrow> byte list" where
  "stat_bytes pad st = u32_bytes (st_dev st) @ u32_bytes (st_ino st)
     @ [ucast (st_type st), ucast (drop_bit 8 (st_type st)), ucast (st_nlink st), ucast (drop_bit 8 (st_nlink st))]
     @ take 4 (pad @ replicate 4 0)
     @ u32_bytes (ucast (st_size st)) @ u32_bytes (ucast (drop_bit 32 (st_size st)))"

definition filestat :: "u64 \<Rightarrow> byte list \<Rightarrow> nat \<Rightarrow> nat \<Rightarrow> u64 \<Rightarrow> psys \<times> 'a kfiles_scheme
    \<Rightarrow> (int \<times> psys \<times> 'a kfiles_scheme) res" where
  "filestat kend pad me f addr = (\<lambda>(s, k).
     let x = ftable k f; pid = p_pid (ptab s me) in
     if f_type x = FD_INODE \<or> f_type x = FD_DEVICE
     then bindR (ilock pid (f_ip x) k) (\<lambda>k.
       let st = stati (f_ip x) k in
       bindR (iunlock pid (f_ip x) k) (\<lambda>k.
       bindR (either_copyout kend me True addr (stat_bytes pad st) s) (\<lambda>(r, s).
         Inr (if r < 0 then -1 else 0, s, k))))
     else Inr (-1, s, k))"

type_synonym 'a handler = "u64 \<Rightarrow> int \<Rightarrow> psys \<times> 'a kfiles_scheme \<Rightarrow> (outcome \<times> psys \<times> 'a kfiles_scheme) res"

definition copy_to_user :: "u64 \<Rightarrow> nat \<Rightarrow> u64 \<Rightarrow> byte list \<Rightarrow> psys \<Rightarrow> (bool \<times> psys) res" where
  "copy_to_user kend me dst bs s = bindR (either_copyout kend me True dst bs s) (\<lambda>(r, s). Inr (r \<noteq> -1, s))"

definition copy_from_user :: "u64 \<Rightarrow> nat \<Rightarrow> u64 \<Rightarrow> nat \<Rightarrow> psys \<Rightarrow> (bool \<times> byte list \<times> psys) res" where
  "copy_from_user kend me src n s =
     bindR (either_copyin kend me True src n s) (\<lambda>(r, bs, s). Inr (r \<noteq> -1, bs, s))"

definition fileread :: "u64 \<Rightarrow> (nat \<Rightarrow> 'a handler option) \<Rightarrow> nat \<Rightarrow> nat \<Rightarrow> 'a handler" where
  "fileread kend devread me f addr n = (\<lambda>(s, k).
     let x = ftable k f; pid = p_pid (ptab s me) in
     if \<not> f_readable x then Inr (Returned (-1), s, k)
     else case f_type x of
       FD_PIPE \<Rightarrow> file_piperead kend me (f_pipe x) addr n (s, k)
     | FD_DEVICE \<Rightarrow>
         if sint (f_major x) < 0 \<or> sint (f_major x) \<ge> int NDEV then Inr (Returned (-1), s, k)
         else (case devread (unat (f_major x)) of
                 None \<Rightarrow> Inr (Returned (-1), s, k) | Some h \<Rightarrow> h addr n (s, k))
     | FD_INODE \<Rightarrow>
         bindR (ilock pid (f_ip x) k) (\<lambda>k.
         bindR (readi (copy_to_user kend me) pid (f_ip x) addr (f_off x) (of_int n) (s, k)) (\<lambda>(r, s, k).
           let k = (if r > 0 then upd_file f (\<lambda>x. x\<lparr>f_off := f_off x + of_int r\<rparr>) k else k) in
           bindR (iunlock pid (f_ip x) k) (\<lambda>k. Inr (Returned r, s, k))))
     | FD_NONE \<Rightarrow> panic ''fileread'')"

text \<open>A regular file is written in transactions of at most \<open>WMAX\<close> bytes.\<close>

definition WMAX :: int where "WMAX = ((int MAXOPBLOCKS - 1 - 1 - 2) div 2) * int BSIZE"

lemma WMAX_eq: "WMAX = 3072"
  by (simp add: WMAX_def MAXOPBLOCKS_def BSIZE_def)

function filewrite_loop :: "u64 \<Rightarrow> nat \<Rightarrow> nat \<Rightarrow> u64 \<Rightarrow> int \<Rightarrow> int \<Rightarrow> psys \<times> 'a kfiles_scheme
    \<Rightarrow> (int \<times> psys \<times> 'a kfiles_scheme) res" where
  "filewrite_loop kend me f addr n i (s, k) =
     (if i < n
      then let n1 = min (n - i) WMAX; ip = f_ip (ftable k f); pid = p_pid (ptab s me) in
        bindR (begin_op k) (\<lambda>k.
        bindR (ilock pid ip k) (\<lambda>k.
        bindR (writei (copy_from_user kend me) pid ip (addr + of_int i) (f_off (ftable k f)) (of_int n1) (s, k)) (\<lambda>(r, s, k).
          let k = (if r > 0 then upd_file f (\<lambda>x. x\<lparr>f_off := f_off x + of_int r\<rparr>) k else k) in
          bindR (iunlock pid ip k) (\<lambda>k.
          bindR (end_op pid k) (\<lambda>k.
            if r \<noteq> n1 then Inr (i, s, k) else filewrite_loop kend me f addr n (i + r) (s, k))))))
      else Inr (i, s, k))"
  by pat_completeness auto
termination
  by (relation "measure (\<lambda>(ke, me, f, addr, n, i, x). nat (n - i))") (auto simp: WMAX_eq)

declare filewrite_loop.simps [simp del]

definition filewrite :: "u64 \<Rightarrow> (nat \<Rightarrow> 'a handler option) \<Rightarrow> nat \<Rightarrow> nat \<Rightarrow> 'a handler" where
  "filewrite kend devwrite me f addr n = (\<lambda>(s, k).
     let x = ftable k f in
     if \<not> f_writable x then Inr (Returned (-1), s, k)
     else case f_type x of
       FD_PIPE \<Rightarrow> file_pipewrite kend me (f_pipe x) addr n 0 (s, k)
     | FD_DEVICE \<Rightarrow>
         if sint (f_major x) < 0 \<or> sint (f_major x) \<ge> int NDEV then Inr (Returned (-1), s, k)
         else (case devwrite (unat (f_major x)) of
                 None \<Rightarrow> Inr (Returned (-1), s, k) | Some h \<Rightarrow> h addr n (s, k))
     | FD_INODE \<Rightarrow>
         bindR (filewrite_loop kend me f addr n 0 (s, k)) (\<lambda>(i, s, k).
           Inr (Returned (if i = n then n else -1), s, k))
     | FD_NONE \<Rightarrow> panic ''filewrite'')"

subsection \<open>Closing only wakes\<close>

lemma pipeclose_wakes:
  assumes "pipeclose kend me pi w (s, k) = Inr (s', k')"
  shows "woken (lives s q) (lives s' q) \<and> nextpid s' = nextpid s \<and> initproc s' = initproc s"
proof -
  obtain ch m where "s' = wakeup (Some me) ch s \<or> s' = (wakeup (Some me) ch s)\<lparr>pkm := m\<rparr>"
    using assms unfolding pipeclose_def Let_def by (auto simp: bindR_eq_Inr split: if_splits)
  then show ?thesis using woken_wakeup by (auto simp: wakeup_simps(2,3))
qed

lemma fileclose_wakes:
  assumes "fileclose kend me fl (s, k) = Inr (s', k')"
  shows "woken (lives s q) (lives s' q) \<and> nextpid s' = nextpid s \<and> initproc s' = initproc s"
  using assms unfolding fileclose_def Let_def prod.case
  by (auto simp: bindR_eq_Inr pipeclose_wakes split: if_splits filetype.splits)

interpretation kernel_files: file_layer "fileclose kend" for kend
  using fileclose_wakes by unfold_locales blast+

end
