(* ===== verification/Printf.thy ===== *)
theory Printf
  imports Prelude
begin

text \<open>
  \<open>kernel/printf.c\<close> and the console output routine it prints with. What a call prints is the list of
  bytes handed to the UART; a format string is the list of its bytes before the NUL; the variable
  arguments are a list of machine words and string pointers, and reading one of the wrong kind is undefined. The
  lock around \<open>printf\<close> makes a call one step.
\<close>

subsection \<open>Characters\<close>

definition ch :: "char \<Rightarrow> byte" where "ch c = of_char c"

definition str :: "string \<Rightarrow> byte list" where "str = map ch"

lemma str_simps [simp]: "str [] = []" "str (c # cs) = ch c # str cs"
  by (simp_all add: str_def)

definition BACKSPACE :: u32 where "BACKSPACE = 0x100"

definition consputc :: "u32 \<Rightarrow> byte list" where
  "consputc c = (if c = BACKSPACE then [8, 32, 8] else [ucast c])"

subsection \<open>Numbers\<close>

definition digits :: "byte list" where "digits = str ''0123456789abcdef''"

text \<open>
  The digits of \<open>x\<close>, least significant first, into a buffer with room for so many bytes; writing
  past the buffer is undefined.
\<close>

fun print_digits :: "byte list \<Rightarrow> nat \<Rightarrow> u64 \<Rightarrow> u64 \<Rightarrow> byte list res" where
  "print_digits ds 0 base x = Inl (Undefined ''printint'')"
| "print_digits ds (Suc room) base x =
     (let d = ds ! unat (x mod base); x = x div base in
      if x \<noteq> 0 then bindR (print_digits ds room base x) (\<lambda>buf. Inr (d # buf)) else Inr [d])"

definition printint_buf :: "byte list \<Rightarrow> u64 \<Rightarrow> u64 \<Rightarrow> bool \<Rightarrow> byte list res" where
  "printint_buf ds xx base sign =
     (let neg = (sign \<and> sint xx < 0); x = (if neg then - xx else xx) in
      bindR (print_digits ds 20 base x) (\<lambda>buf.
        if neg then if length buf < 20 then Inr (buf @ [ch (CHR ''-'')]) else Inl (Undefined ''printint'')
        else Inr buf))"

definition printint :: "u64 \<Rightarrow> u64 \<Rightarrow> bool \<Rightarrow> byte list res" where
  "printint xx base sign =
     bindR (printint_buf digits xx base sign) (\<lambda>buf. Inr (concat (map (\<lambda>c. consputc (ucast c)) (rev buf))))"

fun ptr_digits :: "byte list \<Rightarrow> nat \<Rightarrow> u64 \<Rightarrow> byte list" where
  "ptr_digits ds 0 x = []"
| "ptr_digits ds (Suc n) x = ds ! unat (drop_bit 60 x) # ptr_digits ds n (push_bit 4 x)"

definition printptr :: "u64 \<Rightarrow> byte list" where
  "printptr x = str ''0x'' @ ptr_digits digits 16 x"

subsection \<open>Formats\<close>

datatype varg = VWord u64 | VStr "byte list option"

fun va_word :: "varg list \<Rightarrow> (u64 \<times> varg list) res" where
  "va_word (VWord w # args) = Inr (w, args)"
| "va_word args = Inl (Undefined ''va_arg'')"

fun va_str :: "varg list \<Rightarrow> (byte list option \<times> varg list) res" where
  "va_str (VStr s # args) = Inr (s, args)"
| "va_str args = Inl (Undefined ''va_arg'')"

text \<open>An argument read as \<open>int\<close> and as \<open>uint32\<close>, widened to 64 bits.\<close>

definition as_int :: "u64 \<Rightarrow> u64" where "as_int w = scast (ucast w :: u32)"
definition as_uint32 :: "u64 \<Rightarrow> u64" where "as_uint32 w = ucast (ucast w :: u32)"

text \<open>
  One conversion: \<open>c0\<close>, \<open>c1\<close>, \<open>c2\<close> are the characters after the percent sign (0 past the end). The
  result is what is printed, how many characters beyond \<open>c0\<close> are consumed, and the arguments left.
\<close>

definition print_conv :: "byte \<Rightarrow> byte \<Rightarrow> byte \<Rightarrow> varg list \<Rightarrow> (byte list \<times> nat \<times> varg list) res" where
  "print_conv c0 c1 c2 args =
     (let num = (\<lambda>f base sign k. bindR (va_word args) (\<lambda>(w, args).
            bindR (printint (f w) base sign) (\<lambda>bs. Inr (bs, k, args))));
          l = ch (CHR ''l''); d = ch (CHR ''d''); u = ch (CHR ''u''); x = ch (CHR ''x'') in
      if c0 = d then num as_int 10 True 0
      else if c0 = l \<and> c1 = d then num id 10 True 1
      else if c0 = l \<and> c1 = l \<and> c2 = d then num id 10 True 2
      else if c0 = u then num as_uint32 10 False 0
      else if c0 = l \<and> c1 = u then num id 10 False 1
      else if c0 = l \<and> c1 = l \<and> c2 = u then num id 10 False 2
      else if c0 = x then num as_uint32 16 False 0
      else if c0 = l \<and> c1 = x then num id 16 False 1
      else if c0 = l \<and> c1 = l \<and> c2 = x then num id 16 False 2
      else if c0 = ch (CHR ''p'') then bindR (va_word args) (\<lambda>(w, args). Inr (printptr w, 0, args))
      else if c0 = ch (CHR ''c'') then bindR (va_word args) (\<lambda>(w, args). Inr (consputc (ucast w), 0, args))
      else if c0 = ch (CHR ''s'') then bindR (va_str args) (\<lambda>(s, args).
        Inr (concat (map (\<lambda>c. consputc (ucast c)) (case s of None \<Rightarrow> str ''(null)'' | Some s \<Rightarrow> s)), 0, args))
      else if c0 = ch (CHR ''%'') then Inr ([ch (CHR ''%'')], 0, args)
      else Inr (ch (CHR ''%'') # consputc (ucast c0), 0, args))"

definition at :: "byte list \<Rightarrow> nat \<Rightarrow> byte" where
  "at fmt i = (if i < length fmt then fmt ! i else 0)"

function printf_loop :: "byte list \<Rightarrow> nat \<Rightarrow> varg list \<Rightarrow> byte list res" where
  "printf_loop fmt i args =
     (let cx = at fmt i in
      if cx = 0 then Inr []
      else if cx \<noteq> ch (CHR ''%'')
      then bindR (printf_loop fmt (i + 1) args) (\<lambda>bs. Inr (consputc (ucast cx) @ bs))
      else let c0 = at fmt (i + 1);
               c1 = (if c0 \<noteq> 0 then at fmt (i + 2) else 0);
               c2 = (if c1 \<noteq> 0 then at fmt (i + 3) else 0) in
        if c0 = 0 then Inr []
        else bindR (print_conv c0 c1 c2 args) (\<lambda>(bs, k, args).
             bindR (printf_loop fmt (i + 2 + k) args) (\<lambda>cs. Inr (bs @ cs))))"
  by pat_completeness auto
termination
  by (relation "measure (\<lambda>(fmt, i, args). length fmt - i)") (auto simp: at_def split: if_splits)

declare printf_loop.simps [simp del]

definition printf :: "byte list \<Rightarrow> varg list \<Rightarrow> byte list res" where
  "printf fmt args = printf_loop fmt 0 args"

text \<open>What \<open>panic\<close> prints before it stops the machine.\<close>

definition panic_message :: "byte list \<Rightarrow> byte list res" where
  "panic_message s =
     bindR (printf (str ''panic: '') []) (\<lambda>a.
     bindR (printf (str ''%s'' @ [10]) [VStr (Some s)]) (\<lambda>b. Inr (a @ b)))"

subsection \<open>Printed numbers\<close>

text \<open>The numeral of \<open>n\<close> to base \<open>b\<close>, least significant digit first, and the value of a numeral.\<close>

function num_digits :: "nat \<Rightarrow> nat \<Rightarrow> nat list" where
  "num_digits b n = (if n < b \<or> b < 2 then [n] else n mod b # num_digits b (n div b))"
  by pat_completeness auto
termination
  by (relation "measure snd") auto

declare num_digits.simps [simp del]

fun num_value :: "nat \<Rightarrow> nat list \<Rightarrow> nat" where
  "num_value b [] = 0"
| "num_value b (d # ds) = d + b * num_value b ds"

lemma num_value_digits: "2 \<le> b \<Longrightarrow> num_value b (num_digits b n) = n"
proof (induction b n rule: num_digits.induct)
  case (1 b n)
  show ?case
  proof (cases "n < b")
    case True
    then show ?thesis by (subst num_digits.simps) simp
  next
    case False
    then have "num_value b (num_digits b (n div b)) = n div b" using 1 by simp
    then show ?thesis using False 1(2) by (subst num_digits.simps) simp
  qed
qed

lemma num_digits_less: "2 \<le> b \<Longrightarrow> d \<in> set (num_digits b n) \<Longrightarrow> d < b"
proof (induction b n rule: num_digits.induct)
  case (1 b n)
  show ?case
  proof (cases "n < b")
    case True
    then show ?thesis using 1(3) by (subst (asm) num_digits.simps) simp
  next
    case False
    then have "d \<in> set (num_digits b (n div b)) \<Longrightarrow> d < b" using 1 by simp
    then show ?thesis using False 1(2,3) by (subst (asm) num_digits.simps) auto
  qed
qed

text \<open>The loop of \<open>printint\<close> writes that numeral, and its buffer is large enough.\<close>

lemma print_digits_ok:
  "2 \<le> unat base \<Longrightarrow> unat x < unat base ^ room \<Longrightarrow> 0 < room \<Longrightarrow>
   print_digits ds room base x = Inr (map (\<lambda>d. ds ! d) (num_digits (unat base) (unat x)))
   \<and> length (num_digits (unat base) (unat x)) \<le> room"
proof (induction ds room base x rule: print_digits.induct)
  case (2 ds room base x)
  have div: "unat (x div base) = unat x div unat base" "unat (x mod base) = unat x mod unat base"
    by (simp_all add: unat_div unat_mod)
  have zero: "x div base = 0 \<longleftrightarrow> unat x < unat base"
    using 2(2) by (simp flip: unat_eq_0 add: div div_eq_0_iff)
  show ?case
  proof (cases "unat x < unat base")
    case True
    then show ?thesis using 2(2) zero div(2) by (subst (1 2) num_digits.simps) simp
  next
    case False
    have r: "0 < room" using 2(3) False by (cases room) auto
    have "unat (x div base) < unat base ^ room"
      using 2(3) unfolding div by (simp add: less_mult_imp_div_less mult.commute)
    then have IH: "print_digits ds room base (x div base) = Inr (map (\<lambda>d. ds ! d) (num_digits (unat base) (unat x div unat base)))"
      "length (num_digits (unat base) (unat x div unat base)) \<le> room"
      using 2(1) [OF refl refl _ 2(2) _ r] zero False div by simp_all
    show ?thesis using IH zero False 2(2) div(2) by (subst (1 2) num_digits.simps) simp
  qed
qed simp

lemma consputc_byte [simp]: "consputc (ucast (c :: byte)) = [c]"
proof -
  have "unat (ucast c :: u32) < 256" using unat_bound [of c] by (simp add: unat_ucast_up)
  then have "(ucast c :: u32) \<noteq> BACKSPACE" by (auto simp: BACKSPACE_def)
  moreover have "ucast (ucast c :: u32) = c" by (rule bit_word_eqI) (auto simp: bit_simps)
  ultimately show ?thesis by (simp add: consputc_def)
qed

lemma concat_single: "concat (map (\<lambda>c. [c]) xs) = xs"
  by (induction xs) simp_all

text \<open>Reading a printed number back: an optional minus sign and digits, most significant first.\<close>

definition digit_value :: "byte \<Rightarrow> nat" where
  "digit_value c = (if c \<le> 57 then unat (c - 48) else unat (c - 87))"

definition read_number :: "nat \<Rightarrow> byte list \<Rightarrow> int" where
  "read_number b s =
     (let value = (\<lambda>cs. int (num_value b (map digit_value (rev cs)))) in
      if s \<noteq> [] \<and> hd s = ch (CHR ''-'') then - value (tl s) else value s)"

lemma digits_nth: "d < 16 \<Longrightarrow> digit_value (digits ! d) = d \<and> digits ! d \<noteq> ch (CHR ''-'')"
proof -
  assume "d < 16"
  then have "d = 0 \<or> d = 1 \<or> d = 2 \<or> d = 3 \<or> d = 4 \<or> d = 5 \<or> d = 6 \<or> d = 7 \<or> d = 8 \<or> d = 9 \<or> d = 10 \<or> d = 11
    \<or> d = 12 \<or> d = 13 \<or> d = 14 \<or> d = 15" by arith
  then show ?thesis by (elim disjE) (simp_all add: digits_def ch_def digit_value_def)
qed

lemma num_digits_ne: "num_digits b n \<noteq> []"
  by (subst num_digits.simps) simp

lemma map_digit_value:
  "2 \<le> b \<Longrightarrow> b \<le> 16 \<Longrightarrow> map digit_value (map (\<lambda>d. digits ! d) (num_digits b n)) = num_digits b n"
  using num_digits_less [of b _ n] digits_nth by (fastforce intro!: map_idI)

text \<open>The magnitude of a negative word and the value of a non-negative one.\<close>

lemma uint_neg_sint: "sint (xx :: u64) < 0 \<Longrightarrow> uint (- xx) = - sint xx"
proof -
  assume n: "sint xx < 0"
  have "- xx = of_int (- sint xx)" by simp
  moreover have "- sint xx < 2 ^ 64" using sint_greater_eq [of xx] by simp
  ultimately show ?thesis using n by (simp add: unsigned_of_int take_bit_int_eq_self del: of_int_minus)
qed

lemma uint_nonneg_sint: "0 \<le> sint (xx :: u64) \<Longrightarrow> uint xx = sint xx"
proof -
  assume n: "0 \<le> sint xx"
  moreover have "sint xx < 2 ^ 64" using sint_less [of xx] by simp
  ultimately have "uint (of_int (sint xx) :: u64) = sint xx" by (simp add: unsigned_of_int take_bit_int_eq_self del: of_int_sint)
  then show ?thesis by simp
qed

text \<open>
  C39: \<open>printint\<close> in base 10 and 16 never writes past its 20-byte buffer, for every 64-bit argument including the most
  negative one, and prints the number: reading the output back gives the signed or unsigned value of
  the argument.\<close>

theorem printint_roundtrip:
  assumes "base = 10 \<or> base = 16"
  shows "\<exists>out. printint xx base sign = Inr out \<and> length out \<le> 20
    \<and> read_number (unat base) out = (if sign then sint xx else uint xx)"
proof -
  define neg where "neg = (sign \<and> sint xx < 0)"
  define x where "x = (if neg then - xx else xx)"
  let ?ns = "num_digits (unat base) (unat x)"
  let ?ds = "map (\<lambda>d. digits ! d) ?ns"
  have b: "2 \<le> unat base" "unat base \<le> 16" using assms by auto
  have pw: "10 ^ k \<le> unat base ^ k" for k :: nat using assms by (intro power_mono) auto
  have val: "int (unat x) = (if neg then - sint xx else if sign then sint xx else uint xx)"
    unfolding x_def neg_def using uint_neg_sint [of xx] uint_nonneg_sint [of xx] by auto
  have "unat x < 2 ^ 64" using unat_bound [of x] by simp
  then have "unat x < unat base ^ 20" using pw [of 20] by simp
  then have P: "print_digits digits 20 base x = Inr ?ds" "length ?ns \<le> 20"
    using print_digits_ok [OF b(1)] by auto
  have neg19: "length ?ns \<le> 19" if neg
  proof -
    have "int (unat x) \<le> 2 ^ 63" using val that sint_greater_eq [of xx] by (simp add: neg_def)
    then have "int (unat x) < int (10 ^ 19)" by simp
    then have "unat x < 10 ^ 19" by (simp only: of_nat_less_iff)
    then have "unat x < unat base ^ 19" using pw [of 19] by simp
    then show ?thesis using print_digits_ok [OF b(1)] by auto
  qed
  let ?buf = "if neg then ?ds @ [ch (CHR ''-'')] else ?ds"
  have "printint_buf digits xx base sign = Inr ?buf"
    using P neg19 by (auto simp: printint_buf_def Let_def neg_def x_def)
  then have out: "printint xx base sign = Inr (rev ?buf)"
    by (simp add: printint_def concat_single)
  have v: "int (num_value (unat base) (map digit_value ?ds)) = int (unat x)"
    using map_digit_value [OF b] num_value_digits [OF b(1)] by simp
  have hd: "\<not> neg \<Longrightarrow> hd (rev ?ds) \<noteq> ch (CHR ''-'')"
  proof -
    have "last ?ns \<in> set ?ns" using num_digits_ne by simp
    then have "last ?ns < 16" using num_digits_less [OF b(1)] b(2) by fastforce
    then show ?thesis using digits_nth num_digits_ne by (simp add: hd_rev last_map)
  qed
  have "read_number (unat base) (rev ?buf) = (if sign then sint xx else uint xx)"
    using v val hd by (auto simp: read_number_def Let_def neg_def)
  then show ?thesis using out P(2) neg19 by auto
qed

theorem printint_roundtrip_witness:
  "\<exists>out. printint (- 42) 10 True = Inr out \<and> read_number 10 out = - 42"
  using printint_roundtrip [of 10 "- 42" True] by auto

end
