(* ===== verification/Console.thy ===== *)
theory Console
  imports Proc Pipe Printf
begin

text \<open>
  \<open>kernel/console.c\<close> and the transmit side of \<open>kernel/uart.c\<close>. The console keeps typed characters in a ring of
  128 bytes with three wrapping 32-bit indices: what lies between \<open>r\<close> and \<open>w\<close> may be read, what lies
  between \<open>w\<close> and \<open>e\<close> is still being edited. The bytes sent to the UART are a list. The sections under
  \<open>cons.lock\<close> are single steps; a read that goes to sleep returns \<open>Sleeping\<close> with the number of bytes
  it has copied.
\<close>

subsection \<open>State\<close>

definition INPUT_BUF_SIZE :: u32 where "INPUT_BUF_SIZE = 128"

record cons =
  c_buf :: "nat \<Rightarrow> byte"
  c_r :: u32
  c_w :: u32
  c_e :: u32

text \<open>\<open>C(x)\<close>, the address of \<open>cons.r\<close> as sleep channel, and the newline.\<close>

definition ctrl :: "char \<Rightarrow> byte" where "ctrl x = ch x - ch (CHR ''@'')"
definition newline :: byte where "newline = 10"

definition slot :: "u32 \<Rightarrow> nat" where
  "slot i = unat (i mod INPUT_BUF_SIZE)"

subsection \<open>The UART\<close>

record uart =
  tx_busy :: bool
  u_out :: "byte list"

text \<open>
  \<open>uartwrite\<close> sleeps while the transmitter is busy, until \<open>uartintr\<close> has cleared \<open>tx_busy\<close>; the
  model takes the interrupt as having arrived.
\<close>

fun uartwrite :: "byte list \<Rightarrow> uart \<Rightarrow> uart" where
  "uartwrite [] u = u"
| "uartwrite (b # bs) u =
     (let u = (if tx_busy u then u\<lparr>tx_busy := False\<rparr> else u) in
      uartwrite bs (u\<lparr>u_out := u_out u @ [b], tx_busy := True\<rparr>))"

subsection \<open>Reading and writing\<close>

function consolewrite_loop :: "u64 \<Rightarrow> nat \<Rightarrow> bool \<Rightarrow> u64 \<Rightarrow> int \<Rightarrow> int \<Rightarrow> psys \<times> uart \<Rightarrow> (int \<times> psys \<times> uart) res" where
  "consolewrite_loop kend me user_src src n i (s, u) =
     (if i < n
      then let nn = min 32 (n - i) in
        bindR (either_copyin kend me user_src (src + of_int i) (nat nn) s) (\<lambda>(r, buf, s).
          if r = -1 then Inr (i, s, u)
          else consolewrite_loop kend me user_src src n (i + nn) (s, uartwrite buf u))
      else Inr (i, s, u))"
  by pat_completeness auto
termination
  by (relation "measure (\<lambda>(ke, me, us, src, n, i, x). nat (n - i))") auto

declare consolewrite_loop.simps [simp del]

definition consolewrite :: "u64 \<Rightarrow> nat \<Rightarrow> bool \<Rightarrow> u64 \<Rightarrow> int \<Rightarrow> psys \<times> uart \<Rightarrow> (int \<times> psys \<times> uart) res" where
  "consolewrite kend me user_src src n = consolewrite_loop kend me user_src src n 0"

function consoleread_loop :: "u64 \<Rightarrow> chan \<Rightarrow> nat \<Rightarrow> bool \<Rightarrow> u64 \<Rightarrow> int \<Rightarrow> int \<Rightarrow> psys \<times> cons
    \<Rightarrow> (outcome \<times> psys \<times> cons) res" where
  "consoleread_loop kend rchan me user_dst dst target n (s, c) =
     (if n > 0
      then if c_r c = c_w c
        then if killed me s then Inr (Returned (-1), s, c)
             else Inr (Sleeping (nat (target - n)), sleep_enter me rchan s, c)
        else let x = c_buf c (slot (c_r c)); c = c\<lparr>c_r := c_r c + 1\<rparr> in
          if x = ctrl (CHR ''D'')
          then Inr (Returned (target - n), s, if n < target then c\<lparr>c_r := c_r c - 1\<rparr> else c)
          else bindR (either_copyout kend me user_dst dst [x] s) (\<lambda>(r, s).
            if r = -1 then Inr (Returned (target - n), s, c)
            else if x = newline then Inr (Returned (target - (n - 1)), s, c)
            else consoleread_loop kend rchan me user_dst (dst + 1) target (n - 1) (s, c))
      else Inr (Returned (target - n), s, c))"
  by pat_completeness auto
termination
  by (relation "measure (\<lambda>(ke, rc, me, ud, dst, t, n, x). nat n)") auto

declare consoleread_loop.simps [simp del]

definition consoleread :: "u64 \<Rightarrow> chan \<Rightarrow> nat \<Rightarrow> bool \<Rightarrow> u64 \<Rightarrow> int \<Rightarrow> psys \<times> cons
    \<Rightarrow> (outcome \<times> psys \<times> cons) res" where
  "consoleread kend rchan me user_dst dst n = consoleread_loop kend rchan me user_dst dst n n"

subsection \<open>Input\<close>

text \<open>The loop that erases a line: the bytes echoed and the console afterwards.\<close>

function kill_line :: "cons \<Rightarrow> byte list \<times> cons" where
  "kill_line c =
     (if c_e c \<noteq> c_w c \<and> c_buf c (slot (c_e c - 1)) \<noteq> newline
      then let (bs, c) = kill_line (c\<lparr>c_e := c_e c - 1\<rparr>) in (consputc BACKSPACE @ bs, c)
      else ([], c))"
  by pat_completeness auto
termination
proof (relation "measure (\<lambda>c. unat (c_e c - c_w c))", goal_cases)
  case (2 c)
  then have "c_e c - c_w c \<noteq> 0" by simp
  then have "unat (c_e c - c_w c - 1) = unat (c_e c - c_w c) - 1" "0 < unat (c_e c - c_w c)"
    using unat_minus_one by (blast, metis neq0_conv unat_0_iff)
  then show ?case by (simp add: algebra_simps)
qed simp

declare kill_line.simps [simp del]

text \<open>
  The interrupt handler for one character: the echo, the process table and the console. The listing that
  control-P prints is \<open>procdump\<close> of the process table.
\<close>

definition consoleintr :: "chan \<Rightarrow> nat option \<Rightarrow> byte \<Rightarrow> psys \<times> cons \<Rightarrow> byte list \<times> psys \<times> cons" where
  "consoleintr rchan me x = (\<lambda>(s, c).
     if x = ctrl (CHR ''P'') then ([], s, c)
     else if x = ctrl (CHR ''U'') then let (bs, c) = kill_line c in (bs, s, c)
     else if x = ctrl (CHR ''H'') \<or> x = 0x7f
     then if c_e c \<noteq> c_w c then (consputc BACKSPACE, s, c\<lparr>c_e := c_e c - 1\<rparr>) else ([], s, c)
     else if x \<noteq> 0 \<and> c_e c - c_r c < INPUT_BUF_SIZE
     then let x = (if x = 13 then newline else x);
              c = c\<lparr>c_buf := (c_buf c)(slot (c_e c) := x), c_e := c_e c + 1\<rparr> in
       if x = newline \<or> x = ctrl (CHR ''D'') \<or> c_e c - c_r c = INPUT_BUF_SIZE
       then (consputc (ucast x), wakeup me rchan s, c\<lparr>c_w := c_e c\<rparr>)
       else (consputc (ucast x), s, c)
     else ([], s, c))"

subsection \<open>The line editor\<close>

text \<open>
  What the console promises: \<open>C\<close> is the input that can be read, \<open>E\<close> the line being typed. A newline, an
  end-of-file or a full buffer makes the line readable; erasing never touches readable input.
\<close>

definition editor :: "byte \<Rightarrow> byte list \<times> byte list \<Rightarrow> byte list \<times> byte list" where
  "editor x = (\<lambda>(C, E).
     if x = ctrl (CHR ''P'') then (C, E)
     else if x = ctrl (CHR ''U'') then (C, [])
     else if x = ctrl (CHR ''H'') \<or> x = 0x7f then (C, butlast E)
     else if x \<noteq> 0 \<and> length C + length E < 128
     then let x = (if x = 13 then newline else x); E = E @ [x] in
       if x = newline \<or> x = ctrl (CHR ''D'') \<or> length C + length E = 128 then (C @ E, []) else (C, E)
     else (C, E))"

definition segment :: "cons \<Rightarrow> u32 \<Rightarrow> u32 \<Rightarrow> byte list" where
  "segment c a b = map (\<lambda>k. c_buf c (slot (a + of_nat k))) [0..<unat (b - a)]"

definition readable :: "cons \<Rightarrow> byte list" where "readable c = segment c (c_r c) (c_w c)"
definition edited :: "cons \<Rightarrow> byte list" where "edited c = segment c (c_w c) (c_e c)"

definition cons_inv :: "cons \<Rightarrow> bool" where
  "cons_inv c \<longleftrightarrow> unat (c_w c - c_r c) + unat (c_e c - c_w c) \<le> 128 \<and> newline \<notin> set (edited c)"

lemma slot_unat_128: "slot (a + of_nat k) = (unat a + k) mod 128"
proof -
  have "unat (a + of_nat k) = (unat a + k) mod 2 ^ 32" by (simp add: unat_word_ariths unat_of_nat mod_simps)
  then show ?thesis by (simp add: slot_def INPUT_BUF_SIZE_def unat_mod mod_mod_cancel)
qed

lemma mod_128_neq: "(i :: nat) < j \<Longrightarrow> j < i + 128 \<Longrightarrow> i mod 128 \<noteq> j mod 128"
proof
  assume *: "i < j" "j < i + 128" "i mod 128 = j mod 128"
  then have "128 dvd j - i" by (intro mod_eq_dvd_iff_nat [THEN iffD1]) auto
  then show False using * by (auto dest: dvd_imp_le)
qed

lemma index_split:
  fixes r w e :: u32
  assumes "unat (w - r) + unat (e - w) \<le> 128"
  shows "unat (e - r) = unat (w - r) + unat (e - w)"
proof -
  have "e - r = (w - r) + (e - w)" by simp
  then show ?thesis using assms by (simp only: unat_plus_if') simp
qed

lemma length_segment [simp]: "length (segment c a b) = unat (b - a)"
  by (simp add: segment_def)

lemma unat_next: "unat (b - a) < 128 \<Longrightarrow> unat (b + 1 - a) = Suc (unat (b - a))" for a b :: u32
proof -
  assume "unat (b - a) < 128"
  then have "unat (b - a + 1) = Suc (unat (b - a))" by (simp add: unat_plus_if')
  then show ?thesis by (simp add: algebra_simps)
qed

text \<open>Storing at \<open>e\<close> extends a segment that ends there and keeps those behind it.\<close>

lemma segment_store_keep:
  assumes "unat (b - a) + unat (e - b) < 128"
  shows "segment (c\<lparr>c_buf := (c_buf c)(slot e := x)\<rparr>) a b = segment c a b"
proof -
  have "slot (a + of_nat k) \<noteq> slot e" if k: "k < unat (b - a)" for k
  proof -
    have "e = a + of_nat (unat (e - a))" by simp
    then have "slot e = (unat a + unat (e - a)) mod 128" using slot_unat_128 by metis
    moreover have "unat (e - a) = unat (b - a) + unat (e - b)" using assms by (intro index_split) simp
    ultimately show ?thesis
      using mod_128_neq [of "unat a + k" "unat a + unat (e - a)"] k assms unfolding slot_unat_128 by simp
  qed
  then show ?thesis by (auto simp: segment_def)
qed

lemma segment_store_snoc:
  assumes "unat (e - a) < 128"
  shows "segment (c\<lparr>c_buf := (c_buf c)(slot e := x)\<rparr>) a (e + 1) = segment c a e @ [x]"
proof -
  have "segment (c\<lparr>c_buf := (c_buf c)(slot e := x)\<rparr>) a (e + 1)
      = segment (c\<lparr>c_buf := (c_buf c)(slot e := x)\<rparr>) a e @ [x]"
    using unat_next [OF assms] by (simp add: segment_def)
  moreover have "segment (c\<lparr>c_buf := (c_buf c)(slot e := x)\<rparr>) a e = segment c a e"
    using assms by (intro segment_store_keep) simp
  ultimately show ?thesis by simp
qed

lemma segment_append:
  assumes "unat (w - r) + unat (e - w) \<le> 128"
  shows "segment c r e = segment c r w @ segment c w e"
proof -
  have "slot (r + of_nat (unat (w - r) + k)) = slot (w + of_nat k)" for k
  proof -
    have "r + of_nat (unat (w - r) + k) = w + of_nat k" by simp
    then show ?thesis by metis
  qed
  then show ?thesis
    unfolding segment_def index_split [OF assms]
    by (subst upt_add_eq_append) (auto simp: map_add_upt [symmetric] add.commute intro!: nth_equalityI)
qed

lemma segment_cong: "c_buf c = c_buf d \<Longrightarrow> segment c a b = segment d a b"
  by (simp add: segment_def)

lemma edited_back:
  assumes "c_e c \<noteq> c_w c"
  shows "edited (c\<lparr>c_e := c_e c - 1\<rparr>) = butlast (edited c)" "c_buf c (slot (c_e c - 1)) = last (edited c)" "edited c \<noteq> []"
    "unat (c_e c - 1 - c_w c) = unat (c_e c - c_w c) - 1"
proof -
  let ?d = "c_e c - c_w c"
  have nz: "?d \<noteq> 0" using assms by simp
  have "c_e c - 1 - c_w c = ?d - 1" by simp
  then show n: "unat (c_e c - 1 - c_w c) = unat ?d - 1" using unat_minus_one [OF nz] by (simp only:)
  obtain m where m: "unat ?d = Suc m" using nz by (metis not0_implies_Suc unat_0_iff)
  have "of_nat (unat ?d) = ?d" by simp
  then have "of_nat m = ?d - 1" unfolding m by (simp add: algebra_simps)
  then have e: "c_w c + of_nat m = c_e c - 1" by simp
  show "edited c \<noteq> []" using m by (simp add: edited_def flip: length_0_conv)
  show "edited (c\<lparr>c_e := c_e c - 1\<rparr>) = butlast (edited c)"
    using n m by (simp add: edited_def segment_def)
  show "c_buf c (slot (c_e c - 1)) = last (edited c)"
    using m e by (simp add: edited_def segment_def)
qed

lemma kill_line_ok:
  "newline \<notin> set (edited c) \<Longrightarrow> snd (kill_line c) = c\<lparr>c_e := c_w c\<rparr>"
proof (induction c rule: kill_line.induct)
  case (1 c)
  show ?case
  proof (cases "c_e c = c_w c")
    case True
    then have "c\<lparr>c_e := c_w c\<rparr> = c" by simp
    then show ?thesis using True by (subst kill_line.simps) simp
  next
    case False
    note B = edited_back [OF False]
    have nl: "c_buf c (slot (c_e c - 1)) \<noteq> newline" using B(2,3) 1(2) last_in_set by metis
    have "newline \<notin> set (edited (c\<lparr>c_e := c_e c - 1\<rparr>))" using B(1) 1(2) by (metis in_set_butlastD)
    then have "snd (kill_line (c\<lparr>c_e := c_e c - 1\<rparr>)) = c\<lparr>c_e := c_w c\<rparr>" using 1(1) False nl by simp
    then show ?thesis using False nl by (subst kill_line.simps) (simp add: split_beta)
  qed
qed

text \<open>The four things a typed character can do, each on the ring buffer and in the editor.\<close>

definition typed :: "byte \<Rightarrow> cons \<Rightarrow> cons" where
  "typed y c = c\<lparr>c_buf := (c_buf c)(slot (c_e c) := y), c_e := c_e c + 1\<rparr>"

abbreviation ends_line :: "byte \<Rightarrow> cons \<Rightarrow> bool" where
  "ends_line y d \<equiv> y = newline \<or> y = ctrl (CHR ''D'') \<or> c_e d - c_r d = INPUT_BUF_SIZE"

lemma lengths: "length (readable c) = unat (c_w c - c_r c)" "length (edited c) = unat (c_e c - c_w c)"
  by (simp_all add: readable_def edited_def)

lemma pending_room:
  assumes "cons_inv c"
  shows "c_e c - c_r c < INPUT_BUF_SIZE \<longleftrightarrow> length (readable c) + length (edited c) < 128"
proof -
  have "unat (c_e c - c_r c) = unat (c_w c - c_r c) + unat (c_e c - c_w c)"
    using assms index_split unfolding cons_inv_def by blast
  then show ?thesis by (simp add: word_less_nat_alt INPUT_BUF_SIZE_def lengths)
qed

lemma consoleintr_cases:
  assumes "cons_inv c" "consoleintr rchan me x (s, c) = (out, s', c')"
  obtains (idle) "c' = c" "editor x (readable c, edited c) = (readable c, edited c)"
    | (kill) "c' = snd (kill_line c)" "editor x (readable c, edited c) = (readable c, [])"
    | (erase) "c_e c \<noteq> c_w c" "c' = c\<lparr>c_e := c_e c - 1\<rparr>"
        "editor x (readable c, edited c) = (readable c, butlast (edited c))"
    | (store) y d where "d = typed y c" "length (readable c) + length (edited c) < 128"
        "c' = (if ends_line y d then d\<lparr>c_w := c_e d\<rparr> else d)"
        "editor x (readable c, edited c) =
          (if y = newline \<or> y = ctrl (CHR ''D'') \<or> length (readable c) + length (edited c @ [y]) = 128
           then (readable c @ edited c @ [y], []) else (readable c, edited c @ [y]))"
proof -
  note room = pending_room [OF assms(1)]
  have e: "edited c = []" if "c_e c = c_w c" using that lengths(2) [of c] by simp
  consider "x = ctrl (CHR ''P'')" | "x \<noteq> ctrl (CHR ''P'')" "x = ctrl (CHR ''U'')"
    | "x \<noteq> ctrl (CHR ''P'')" "x \<noteq> ctrl (CHR ''U'')" "x = ctrl (CHR ''H'') \<or> x = 0x7f" "c_e c = c_w c"
    | "x \<noteq> ctrl (CHR ''P'')" "x \<noteq> ctrl (CHR ''U'')" "x = ctrl (CHR ''H'') \<or> x = 0x7f" "c_e c \<noteq> c_w c"
    | "x \<noteq> ctrl (CHR ''P'')" "x \<noteq> ctrl (CHR ''U'')" "\<not> (x = ctrl (CHR ''H'') \<or> x = 0x7f)"
        "\<not> (x \<noteq> 0 \<and> c_e c - c_r c < INPUT_BUF_SIZE)"
    | "x \<noteq> ctrl (CHR ''P'')" "x \<noteq> ctrl (CHR ''U'')" "\<not> (x = ctrl (CHR ''H'') \<or> x = 0x7f)"
        "x \<noteq> 0 \<and> c_e c - c_r c < INPUT_BUF_SIZE"
    by blast
  then show ?thesis
  proof cases
    case 1
    then show ?thesis using assms(2) by (intro idle) (simp_all add: consoleintr_def editor_def)
  next
    case 2
    then show ?thesis using assms(2) by (intro kill) (simp_all add: consoleintr_def editor_def split_beta)
  next
    case 3
    then show ?thesis using assms(2) e by (intro idle) (simp_all add: consoleintr_def editor_def)
  next
    case 4
    then show ?thesis using assms(2) by (intro erase) (simp_all add: consoleintr_def editor_def)
  next
    case 5
    then have "\<not> (x \<noteq> 0 \<and> length (readable c) + length (edited c) < 128)" using room by simp
    then have "editor x (readable c, edited c) = (readable c, edited c)"
      using 5(1-3) unfolding editor_def prod.case by (simp only: if_False simp_thms)
    moreover have "c' = c"
      using 5 assms(2) unfolding consoleintr_def prod.case by (simp only: if_False simp_thms prod.inject)
    ultimately show ?thesis by (intro idle)
  next
    case 6
    define y where "y = (if x = 13 then newline else x)"
    have r: "length (readable c) + length (edited c) < 128" using 6 room by simp
    have "c' = (if ends_line y (typed y c) then (typed y c)\<lparr>c_w := c_e (typed y c)\<rparr> else typed y c)"
      using 6 assms(2) by (auto simp: consoleintr_def Let_def typed_def y_def split: if_splits)
    moreover have "editor x (readable c, edited c) =
        (if y = newline \<or> y = ctrl (CHR ''D'') \<or> length (readable c) + length (edited c @ [y]) = 128
         then (readable c @ edited c @ [y], []) else (readable c, edited c @ [y]))"
      using 6 r by (simp add: editor_def Let_def y_def)
    ultimately show ?thesis using store [OF refl r] by blast
  qed
qed

lemma typed_segments:
  assumes "length (readable c) + length (edited c) < 128"
  shows "segment (typed y c) (c_r c) (c_w c) = readable c"
    and "segment (typed y c) (c_w c) (c_e c + 1) = edited c @ [y]"
    and "segment (typed y c) (c_r c) (c_e c + 1) = readable c @ edited c @ [y]"
    and "unat (c_e c + 1 - c_w c) = Suc (unat (c_e c - c_w c))"
    and "unat (c_e c + 1 - c_r c) = length (readable c) + length (edited c @ [y])"
proof -
  have l: "unat (c_w c - c_r c) + unat (c_e c - c_w c) < 128" using assms by (simp add: lengths)
  show d: "segment (typed y c) (c_r c) (c_w c) = readable c" "segment (typed y c) (c_w c) (c_e c + 1) = edited c @ [y]"
    using segment_store_keep [OF l, of c y] segment_store_snoc [of "c_e c" "c_w c" c y] l
    unfolding typed_def readable_def edited_def by (auto simp: segment_def)
  show n: "unat (c_e c + 1 - c_w c) = Suc (unat (c_e c - c_w c))" using unat_next l by simp
  show "segment (typed y c) (c_r c) (c_e c + 1) = readable c @ edited c @ [y]"
    using segment_append [of "c_w c" "c_r c" "c_e c + 1" "typed y c"] n l d by simp
  show "unat (c_e c + 1 - c_r c) = length (readable c) + length (edited c @ [y])"
    using index_split [of "c_w c" "c_r c" "c_e c + 1"] n l by (simp add: lengths del: unat_plus_if')
qed

lemma typed_line:
  assumes "cons_inv c" and "d = typed y c" and "length (readable c) + length (edited c) < 128"
    and "c' = (if ends_line y d then d\<lparr>c_w := c_e d\<rparr> else d)"
  shows "cons_inv c' \<and> (readable c', edited c') =
    (if y = newline \<or> y = ctrl (CHR ''D'') \<or> length (readable c) + length (edited c @ [y]) = 128
     then (readable c @ edited c @ [y], []) else (readable c, edited c @ [y]))"
proof -
  note T = typed_segments(1-3) [OF assms(3), of y, folded assms(2)] typed_segments(4) [OF assms(3)]
    typed_segments(5) [OF assms(3), of y]
  have f: "c_r d = c_r c" "c_w d = c_w c" "c_e d = c_e c + 1" by (simp_all add: assms(2) typed_def)
  have "c_e c + 1 - c_r c = INPUT_BUF_SIZE \<longleftrightarrow> unat (c_e c + 1 - c_r c) = 128"
    unfolding INPUT_BUF_SIZE_def word_unat_eq_iff by simp
  then have full: "c_e d - c_r d = INPUT_BUF_SIZE \<longleftrightarrow> length (readable c) + length (edited c @ [y]) = 128"
    unfolding f T(5) by (simp only:)
  show ?thesis
  proof (cases "ends_line y d")
    case True
    then have "c' = d\<lparr>c_w := c_e d\<rparr>" using assms(4) by simp
    then have "readable c' = readable c @ edited c @ [y]" "edited c' = []" "cons_inv c'"
      using T(3,5) f assms(3) by (simp_all add: readable_def edited_def cons_inv_def segment_def)
    then show ?thesis using True full by auto
  next
    case False
    then have c': "c' = d" using assms(4) by simp
    have "readable c' = readable c" "edited c' = edited c @ [y]"
      using T f c' by (simp_all add: readable_def edited_def)
    moreover have "cons_inv c'"
      using calculation False assms(1,3) T(4) f c' lengths [of c] by (auto simp: cons_inv_def)
    ultimately show ?thesis using False full by auto
  qed
qed

text \<open>
  C38: the console is a line editor: for every typed character \<open>consoleintr\<close> does on its ring buffer what the editor does
  on the readable input and the line being typed. Erasing stays within the unfinished line, a line
  becomes readable as a whole, nothing is stored when 128 bytes are pending, and the wrapping indices never let
  input overwrite unread bytes.\<close>

theorem console_line_editor:
  assumes "cons_inv c" "consoleintr rchan me x (s, c) = (out, s', c')"
  shows "cons_inv c' \<and> (readable c', edited c') = editor x (readable c, edited c)"
  using assms
proof (cases rule: consoleintr_cases)
  case idle
  then show ?thesis using assms(1) by simp
next
  case kill
  then have "c' = c\<lparr>c_e := c_w c\<rparr>" using kill_line_ok assms(1) by (simp add: cons_inv_def)
  then show ?thesis using kill(2) assms(1) by (simp add: cons_inv_def readable_def edited_def segment_def)
next
  case erase
  note inv = assms(1) [unfolded cons_inv_def] and B = edited_back [OF erase(1)]
  have "newline \<notin> set (edited c')" using B(1) erase(2) inv by (metis in_set_butlastD)
  moreover have "unat (c_w c - c_r c) + (unat (c_e c - c_w c) - 1) \<le> 128" using inv by linarith
  ultimately have "cons_inv c'" using B(4) erase(2) by (simp add: cons_inv_def)
  moreover have "readable c' = readable c" using erase(2) by (simp add: readable_def segment_def)
  ultimately show ?thesis using erase B(1) by simp
next
  case (store y d)
  then show ?thesis using typed_line [OF assms(1) store(1-3)] by simp
qed

definition cons0 :: cons where
  "cons0 = \<lparr>c_buf = (\<lambda>_. 0), c_r = 0, c_w = 0, c_e = 0\<rparr>"

theorem console_line_editor_witness:
  "readable (snd (snd (consoleintr NoChan None 13 (example_procs, cons0)))) = [10]"
proof -
  obtain out s' c' where i: "consoleintr NoChan None 13 (example_procs, cons0) = (out, s', c')" by (metis prod_cases3)
  have "cons_inv cons0" by (simp add: cons_inv_def cons0_def edited_def segment_def)
  from console_line_editor [OF this i] i show ?thesis
    by (simp add: editor_def readable_def edited_def segment_def cons0_def ctrl_def ch_def newline_def)
qed

end
