(* ===== verification/Sysproc.thy ===== *)
theory Sysproc
  imports File Console
begin

text \<open>
  The state of the whole kernel, the fetching of system call arguments (\<open>kernel/syscall.c\<close>) and the
  process system calls (\<open>kernel/sysproc.c\<close>). Arguments are read from the trap frame in the memory of the
  process. A system call returns a value, goes to sleep, or, for \<open>exit\<close>, never comes back.
\<close>

subsection \<open>Kernel state\<close>

record kernel = kfiles +
  ticks :: u32
  console :: cons
  uart0 :: uart

type_synonym kst = "psys \<times> kernel"

text \<open>
  Addresses the linker fixes, and the bytes an uninitialised stack slot happens to hold.
\<close>

record kimage =
  im_end :: u64
  im_trampoline :: u64
  im_forkret :: u64
  im_ticks :: u64
  im_cons_r :: u64
  im_tx_chan :: u64
  im_pad :: "byte list"

datatype sysres = Value u64 | Asleep nat | Gone

definition sys_ret :: "int \<Rightarrow> 'b \<Rightarrow> (sysres \<times> 'b) res" where
  "sys_ret v x = Inr (Value (of_int v), x)"

definition of_outcome :: "outcome \<Rightarrow> sysres" where
  "of_outcome r = (case r of Returned v \<Rightarrow> Value (of_int v) | Sleeping i \<Rightarrow> Asleep i)"

subsection \<open>Arguments\<close>

definition TF_A0 :: u64 where "TF_A0 = 112"

definition argraw :: "nat \<Rightarrow> nat \<Rightarrow> psys \<Rightarrow> u64 res" where
  "argraw me n s =
     (if n \<le> 5 then Inr (load64 (pmem (pkm s)) (p_trapframe (ptab s me) + TF_A0 + 8 * of_nat n))
      else panic ''argraw'')"

definition argint :: "nat \<Rightarrow> nat \<Rightarrow> psys \<Rightarrow> int res" where
  "argint me n s = bindR (argraw me n s) (\<lambda>w. Inr (sint (ucast w :: u32)))"

definition argaddr :: "nat \<Rightarrow> nat \<Rightarrow> psys \<Rightarrow> u64 res" where
  "argaddr me n s = argraw me n s"

definition u64_of_bytes :: "byte list \<Rightarrow> u64" where
  "u64_of_bytes bs = foldr (\<lambda>b w. push_bit 8 w OR ucast b) bs 0"

definition fetchaddr :: "u64 \<Rightarrow> nat \<Rightarrow> u64 \<Rightarrow> psys \<Rightarrow> (u64 option \<times> psys) res" where
  "fetchaddr kend me addr s =
     (let x = ptab s me in
      if addr \<ge> p_sz x \<or> addr + 8 > p_sz x then Inr (None, s)
      else bindR (copyin kend (p_sz x) (p_pagetable x) (p_pagetable x) addr 8 (pkm s)) (\<lambda>(r, bs, m).
        Inr (if r \<noteq> 0 then None else Some (u64_of_bytes bs), s\<lparr>pkm := m\<rparr>)))"

text \<open>The string at \<open>addr\<close> when it ends within \<open>max\<close> bytes.\<close>

definition fetchstr :: "nat \<Rightarrow> u64 \<Rightarrow> nat \<Rightarrow> psys \<Rightarrow> byte list option" where
  "fetchstr me addr mx s = copyinstr (p_pagetable (ptab s me)) addr mx (pkm s)"

definition argstr :: "nat \<Rightarrow> nat \<Rightarrow> nat \<Rightarrow> psys \<Rightarrow> byte list option res" where
  "argstr me n mx s = bindR (argaddr me n s) (\<lambda>addr. Inr (fetchstr me addr mx s))"

subsection \<open>Process system calls\<close>

definition idup_cwd :: "nat option \<Rightarrow> 'a fstate_scheme \<Rightarrow> 'a fstate_scheme" where
  "idup_cwd cwd k = (case cwd of None \<Rightarrow> k | Some ip \<Rightarrow> snd (idup ip k))"

definition put_cwd :: "int \<Rightarrow> nat option \<Rightarrow> 'a fstate_scheme \<Rightarrow> 'a fstate_scheme res" where
  "put_cwd pid cwd k = (case cwd of None \<Rightarrow> Inl (Undefined ''iput'') | Some ip \<Rightarrow> put_inode pid ip k)"

definition exit_process :: "kimage \<Rightarrow> nat \<Rightarrow> int \<Rightarrow> psys \<times> 'a kfiles_scheme \<Rightarrow> (psys \<times> 'a kfiles_scheme) res" where
  "exit_process im me status = (\<lambda>(s, k).
     kexit (fileclose (im_end im) me) (put_cwd (p_pid (ptab s me))) me status (s, k))"

definition sys_exit :: "kimage \<Rightarrow> nat \<Rightarrow> kst \<Rightarrow> (sysres \<times> kst) res" where
  "sys_exit im me = (\<lambda>(s, k).
     bindR (argint me 0 s) (\<lambda>n. bindR (exit_process im me n (s, k)) (\<lambda>sk. Inr (Gone, sk))))"

definition sys_getpid :: "nat \<Rightarrow> kst \<Rightarrow> (sysres \<times> kst) res" where
  "sys_getpid me sk = sys_ret (p_pid (ptab (fst sk) me)) sk"

definition fork_process :: "kimage \<Rightarrow> nat \<Rightarrow> psys \<times> 'a kfiles_scheme \<Rightarrow> (int \<times> psys \<times> 'a kfiles_scheme) res" where
  "fork_process im me = kfork (im_end im) (im_trampoline im) (im_forkret im) filedup idup_cwd me"

definition sys_fork :: "kimage \<Rightarrow> nat \<Rightarrow> kst \<Rightarrow> (sysres \<times> kst) res" where
  "sys_fork im me sk = bindR (fork_process im me sk) (\<lambda>(pid, sk). sys_ret pid sk)"

definition sys_wait :: "kimage \<Rightarrow> nat \<Rightarrow> kst \<Rightarrow> (sysres \<times> kst) res" where
  "sys_wait im me = (\<lambda>(s, k).
     bindR (argaddr me 0 s) (\<lambda>p.
     bindR (kwait (im_end im) me p s) (\<lambda>(r, s).
       case r of None \<Rightarrow> Inr (Asleep 0, s, k) | Some v \<Rightarrow> sys_ret v (s, k))))"

definition SBRK_EAGER :: int where "SBRK_EAGER = 1"

definition sys_sbrk :: "kimage \<Rightarrow> nat \<Rightarrow> kst \<Rightarrow> (sysres \<times> kst) res" where
  "sys_sbrk im me = (\<lambda>(s, k).
     bindR (argint me 0 s) (\<lambda>n.
     bindR (argint me 1 s) (\<lambda>t.
       let addr = p_sz (ptab s me) in
       if t = SBRK_EAGER \<or> n < 0
       then bindR (growproc (im_end im) me n s) (\<lambda>(r, s).
         if r < 0 then sys_ret (-1) (s, k) else Inr (Value addr, s, k))
       else if addr + of_int n < addr then sys_ret (-1) (s, k)
       else Inr (Value addr, upd_proc me (\<lambda>x. x\<lparr>p_sz := p_sz x + of_int n\<rparr>) s, k))))"

text \<open>The loop of \<open>sys_pause\<close>, run at the call and again after each wakeup.\<close>

definition pause_loop :: "chan \<Rightarrow> nat \<Rightarrow> u32 \<Rightarrow> int \<Rightarrow> kst \<Rightarrow> (sysres \<times> kst) res" where
  "pause_loop tchan me ticks0 n = (\<lambda>(s, k).
     if ticks k - ticks0 < of_int n
     then if killed me s then sys_ret (-1) (s, k) else Inr (Asleep 0, sleep_enter me tchan s, k)
     else sys_ret 0 (s, k))"

definition sys_pause :: "kimage \<Rightarrow> nat \<Rightarrow> kst \<Rightarrow> (sysres \<times> kst) res" where
  "sys_pause im me = (\<lambda>(s, k).
     bindR (argint me 0 s) (\<lambda>n. pause_loop (AddrChan (im_ticks im)) me (ticks k) (if n < 0 then 0 else n) (s, k)))"

definition sys_kill :: "nat \<Rightarrow> kst \<Rightarrow> (sysres \<times> kst) res" where
  "sys_kill me = (\<lambda>(s, k).
     bindR (argint me 0 s) (\<lambda>pid. let (r, s) = kkill pid s in sys_ret r (s, k)))"

definition sys_uptime :: "nat \<Rightarrow> kst \<Rightarrow> (sysres \<times> kst) res" where
  "sys_uptime me = (\<lambda>(s, k). Inr (Value (ucast (ticks k)), s, k))"

subsection \<open>The life cycle of processes\<close>

text \<open>The kernel's process steps, with the file layer of this kernel.\<close>

abbreviation kstep :: "u64 \<Rightarrow> u64 \<Rightarrow> u64 \<Rightarrow> psys \<times> kfiles \<times> (nat \<Rightarrow> nat option) \<Rightarrow> psys \<times> kfiles \<times> (nat \<Rightarrow> nat option) \<Rightarrow> bool" where
  "kstep kend tramp forkret \<equiv> pstep kend tramp forkret filedup idup_cwd (fileclose kend) put_cwd"


lemma example_yield:
  "kstep 0 0 0 (example_procs, f, (\<lambda>_. None)(0 := Some 0))
     (yield_enter 0 example_procs, f, ((\<lambda>_. None)(0 := Some 0))(0 := None))"
  by (rule pstep.yield [where c = 0]) simp




end
