(* ===== verification/Sysfile.thy ===== *)
theory Sysfile
  imports Sysproc
begin

text \<open>
  \<open>kernel/sysfile.c\<close>: the system calls on file descriptors and paths. A call first fetches its arguments, then works on
  the file layer, inside a transaction where it changes the disk.
\<close>

definition MAXPATH :: nat where "MAXPATH = 128"

subsection \<open>File descriptors\<close>

definition argfd :: "nat \<Rightarrow> nat \<Rightarrow> psys \<Rightarrow> (nat \<times> nat) option res" where
  "argfd me n s =
     bindR (argint me n s) (\<lambda>fd.
       Inr (if fd < 0 \<or> fd \<ge> int NOFILE then None
            else case p_ofile (ptab s me) (nat fd) of None \<Rightarrow> None | Some f \<Rightarrow> Some (nat fd, f)))"

definition fdalloc :: "nat \<Rightarrow> nat \<Rightarrow> psys \<Rightarrow> nat option \<times> psys" where
  "fdalloc me f s =
     (case find (\<lambda>fd. p_ofile (ptab s me) fd = None) [0..<NOFILE] of
        None \<Rightarrow> (None, s)
      | Some fd \<Rightarrow> (Some fd, upd_proc me (\<lambda>x. x\<lparr>p_ofile := (p_ofile x)(fd := Some f)\<rparr>) s))"

text \<open>Closing descriptor \<open>fd\<close> of a process: \<open>ofile[fd] = 0\<close>.\<close>

definition fdclear :: "nat \<Rightarrow> nat \<Rightarrow> psys \<Rightarrow> psys" where
  "fdclear me fd s = upd_proc me (\<lambda>x. x\<lparr>p_ofile := (p_ofile x)(fd := None)\<rparr>) s"

definition sys_dup :: "nat \<Rightarrow> psys \<times> 'a kfiles_scheme \<Rightarrow> (sysres \<times> psys \<times> 'a kfiles_scheme) res" where
  "sys_dup me = (\<lambda>(s, k).
     bindR (argfd me 0 s) (\<lambda>a.
       case a of
         None \<Rightarrow> sys_ret (-1) (s, k)
       | Some (_, f) \<Rightarrow>
           (case fdalloc me f s of
              (None, s) \<Rightarrow> sys_ret (-1) (s, k)
            | (Some fd, s) \<Rightarrow> bindR (filedup f k) (\<lambda>k. sys_ret (int fd) (s, k)))))"

definition sys_read :: "kimage \<Rightarrow> (nat \<Rightarrow> 'a handler option) \<Rightarrow> nat \<Rightarrow> psys \<times> 'a kfiles_scheme
    \<Rightarrow> (sysres \<times> psys \<times> 'a kfiles_scheme) res" where
  "sys_read im devread me = (\<lambda>(s, k).
     bindR (argaddr me 1 s) (\<lambda>p.
     bindR (argint me 2 s) (\<lambda>n.
     bindR (argfd me 0 s) (\<lambda>a.
       case a of
         None \<Rightarrow> sys_ret (-1) (s, k)
       | Some (_, f) \<Rightarrow> bindR (fileread (im_end im) devread me f p n (s, k)) (\<lambda>(r, sk). Inr (of_outcome r, sk))))))"

definition sys_write :: "kimage \<Rightarrow> (nat \<Rightarrow> 'a handler option) \<Rightarrow> nat \<Rightarrow> psys \<times> 'a kfiles_scheme
    \<Rightarrow> (sysres \<times> psys \<times> 'a kfiles_scheme) res" where
  "sys_write im devwrite me = (\<lambda>(s, k).
     bindR (argaddr me 1 s) (\<lambda>p.
     bindR (argint me 2 s) (\<lambda>n.
     bindR (argfd me 0 s) (\<lambda>a.
       case a of
         None \<Rightarrow> sys_ret (-1) (s, k)
       | Some (_, f) \<Rightarrow> bindR (filewrite (im_end im) devwrite me f p n (s, k)) (\<lambda>(r, sk). Inr (of_outcome r, sk))))))"

definition sys_close :: "kimage \<Rightarrow> nat \<Rightarrow> psys \<times> 'a kfiles_scheme \<Rightarrow> (sysres \<times> psys \<times> 'a kfiles_scheme) res" where
  "sys_close im me = (\<lambda>(s, k).
     bindR (argfd me 0 s) (\<lambda>a.
       case a of
         None \<Rightarrow> sys_ret (-1) (s, k)
       | Some (fd, f) \<Rightarrow> bindR (fileclose (im_end im) me f (fdclear me fd s, k)) (\<lambda>sk. sys_ret 0 sk)))"

definition sys_fstat :: "kimage \<Rightarrow> nat \<Rightarrow> psys \<times> 'a kfiles_scheme \<Rightarrow> (sysres \<times> psys \<times> 'a kfiles_scheme) res" where
  "sys_fstat im me = (\<lambda>(s, k).
     bindR (argaddr me 1 s) (\<lambda>st.
     bindR (argfd me 0 s) (\<lambda>a.
       case a of
         None \<Rightarrow> sys_ret (-1) (s, k)
       | Some (_, f) \<Rightarrow> bindR (filestat (im_end im) (im_pad im) me f st (s, k)) (\<lambda>(r, sk). sys_ret r sk))))"

subsection \<open>Transactions on paths\<close>

text \<open>
  The current directory of the process, for \<open>namei\<close>. The calls below end their transaction with the value they return.
\<close>

definition cwd_of :: "nat \<Rightarrow> psys \<Rightarrow> nat" where
  "cwd_of me s = (case p_cwd (ptab s me) of Some ip \<Rightarrow> ip | None \<Rightarrow> 0)"

definition finish :: "int \<Rightarrow> int \<Rightarrow> psys \<Rightarrow> 'a fstate_scheme \<Rightarrow> (sysres \<times> psys \<times> 'a fstate_scheme) res" where
  "finish pid v s k = bindR (end_op pid k) (\<lambda>k. sys_ret v (s, k))"

text \<open>The \<open>bad:\<close> exit of \<open>sys_link\<close>.\<close>

definition link_bad :: "int \<Rightarrow> nat \<Rightarrow> psys \<Rightarrow> 'a fstate_scheme \<Rightarrow> (sysres \<times> psys \<times> 'a fstate_scheme) res" where
  "link_bad pid ip s k =
     bindR (ilock pid ip k) (\<lambda>k.
     bindR (iupdate pid ip (upd_inode ip (\<lambda>x. x\<lparr>i_nlink := i_nlink x - 1\<rparr>) k)) (\<lambda>k.
     bindR (iunlockput pid ip k) (finish pid (-1) s)))"

definition link_paths :: "int \<Rightarrow> nat \<Rightarrow> byte list \<Rightarrow> byte list \<Rightarrow> psys \<Rightarrow> 'a fstate_scheme
    \<Rightarrow> (sysres \<times> psys \<times> 'a fstate_scheme) res" where
  "link_paths pid cwd old new s k =
     bindR (begin_op k) (\<lambda>k.
     bindR (namei pid cwd old k) (\<lambda>(r, k).
       case r of
         None \<Rightarrow> finish pid (-1) s k
       | Some ip \<Rightarrow>
           bindR (ilock pid ip k) (\<lambda>k.
           if i_type (itable k ip) = T_DIR then bindR (iunlockput pid ip k) (finish pid (-1) s)
           else
             bindR (iupdate pid ip (upd_inode ip (\<lambda>x. x\<lparr>i_nlink := i_nlink x + 1\<rparr>) k)) (\<lambda>k.
             bindR (iunlock pid ip k) (\<lambda>k.
             bindR (nameiparent pid cwd new (replicate DIRSIZ 0) k) (\<lambda>(r, name, k).
               case r of
                 None \<Rightarrow> link_bad pid ip s k
               | Some dp \<Rightarrow>
                   bindR (ilock pid dp k) (\<lambda>k.
                   bindR (if i_dev (itable k dp) \<noteq> i_dev (itable k ip) then Inr (-1, k)
                          else dirlink pid dp name (i_inum (itable k ip)) k) (\<lambda>(c, k).
                   bindR (iunlockput pid dp k) (\<lambda>k.
                     if c < 0 then link_bad pid ip s k
                     else bindR (iput pid ip k) (finish pid 0 s))))))))))"

definition sys_link :: "nat \<Rightarrow> psys \<times> 'a kfiles_scheme \<Rightarrow> (sysres \<times> psys \<times> 'a kfiles_scheme) res" where
  "sys_link me = (\<lambda>(s, k).
     bindR (argstr me 0 MAXPATH s) (\<lambda>old.
     case old of
       None \<Rightarrow> sys_ret (-1) (s, k)
     | Some old \<Rightarrow>
         bindR (argstr me 1 MAXPATH s) (\<lambda>new.
         case new of
           None \<Rightarrow> sys_ret (-1) (s, k)
         | Some new \<Rightarrow> link_paths (p_pid (ptab s me)) (cwd_of me s) old new s k)))"

function isdirempty_loop :: "int \<Rightarrow> nat \<Rightarrow> nat \<Rightarrow> nat \<Rightarrow> 'a fstate_scheme \<Rightarrow> (bool \<times> 'a fstate_scheme) res" where
  "isdirempty_loop pid dp sz off k =
     (if off < sz
      then bindR (readi to_kernel pid dp 0 (of_nat off) (of_nat DIRENT_SIZE) ([], k)) (\<lambda>(r, de, k).
        if r \<noteq> int DIRENT_SIZE then panic ''isdirempty: readi''
        else if de_inum de \<noteq> 0 then Inr (False, k)
        else isdirempty_loop pid dp sz (off + DIRENT_SIZE) k)
      else Inr (True, k))"
  by pat_completeness auto
termination
  by (relation "measure (\<lambda>(pid, dp, sz, off, k). sz - off)")
    (auto simp: layout_simps intro!: diff_less_mono2)

declare isdirempty_loop.simps [simp del]

definition isdirempty :: "int \<Rightarrow> nat \<Rightarrow> 'a fstate_scheme \<Rightarrow> (bool \<times> 'a fstate_scheme) res" where
  "isdirempty pid dp k = isdirempty_loop pid dp (unat (i_size (itable k dp))) (2 * DIRENT_SIZE) k"

definition dot :: "byte list" where "dot = [46]"
definition dotdot :: "byte list" where "dotdot = [46, 46]"

text \<open>The \<open>bad:\<close> exit of \<open>sys_unlink\<close>, and the part of it after the entry was found.\<close>

definition unlink_bad :: "int \<Rightarrow> nat \<Rightarrow> psys \<Rightarrow> 'a fstate_scheme \<Rightarrow> (sysres \<times> psys \<times> 'a fstate_scheme) res" where
  "unlink_bad pid dp s k = bindR (iunlockput pid dp k) (finish pid (-1) s)"

definition unlink_entry :: "int \<Rightarrow> nat \<Rightarrow> nat \<Rightarrow> nat \<Rightarrow> psys \<Rightarrow> 'a fstate_scheme
    \<Rightarrow> (sysres \<times> psys \<times> 'a fstate_scheme) res" where
  "unlink_entry pid dp ip off s k =
     bindR (ilock pid ip k) (\<lambda>k.
     if sint (i_nlink (itable k ip)) < 1 then panic ''unlink: nlink < 1''
     else bindR (if i_type (itable k ip) = T_DIR then isdirempty pid ip k else Inr (True, k)) (\<lambda>(empty, k).
       if \<not> empty then bindR (iunlockput pid ip k) (unlink_bad pid dp s)
       else bindR (writei (from_kernel (replicate DIRENT_SIZE 0)) pid dp 0 (of_nat off) (of_nat DIRENT_SIZE) ((), k)) (\<lambda>(w, _, k).
         if w \<noteq> int DIRENT_SIZE then panic ''unlink: writei''
         else bindR (if i_type (itable k ip) = T_DIR
                     then iupdate pid dp (upd_inode dp (\<lambda>x. x\<lparr>i_nlink := i_nlink x - 1\<rparr>) k) else Inr k) (\<lambda>k.
              bindR (iunlockput pid dp k) (\<lambda>k.
              bindR (iupdate pid ip (upd_inode ip (\<lambda>x. x\<lparr>i_nlink := i_nlink x - 1\<rparr>) k)) (\<lambda>k.
              bindR (iunlockput pid ip k) (finish pid 0 s)))))))"

definition unlink_path :: "int \<Rightarrow> nat \<Rightarrow> byte list \<Rightarrow> psys \<Rightarrow> 'a fstate_scheme
    \<Rightarrow> (sysres \<times> psys \<times> 'a fstate_scheme) res" where
  "unlink_path pid cwd path s k =
     bindR (begin_op k) (\<lambda>k.
     bindR (nameiparent pid cwd path (replicate DIRSIZ 0) k) (\<lambda>(r, name, k).
       case r of
         None \<Rightarrow> finish pid (-1) s k
       | Some dp \<Rightarrow>
           bindR (ilock pid dp k) (\<lambda>k.
           if namecmp name dot = 0 \<or> namecmp name dotdot = 0 then unlink_bad pid dp s k
           else bindR (dirlookup pid dp name k) (\<lambda>(r, k).
             case r of None \<Rightarrow> unlink_bad pid dp s k | Some (ip, off) \<Rightarrow> unlink_entry pid dp ip off s k))))"

definition sys_unlink :: "nat \<Rightarrow> psys \<times> 'a kfiles_scheme \<Rightarrow> (sysres \<times> psys \<times> 'a kfiles_scheme) res" where
  "sys_unlink me = (\<lambda>(s, k).
     bindR (argstr me 0 MAXPATH s) (\<lambda>path.
     case path of
       None \<Rightarrow> sys_ret (-1) (s, k)
     | Some path \<Rightarrow> unlink_path (p_pid (ptab s me)) (cwd_of me s) path s k))"

text \<open>The \<open>fail:\<close> exit of \<open>create\<close>, and the part of it after a free inode was found.\<close>

definition create_fail :: "int \<Rightarrow> nat \<Rightarrow> nat \<Rightarrow> 'a fstate_scheme \<Rightarrow> (nat option \<times> 'a fstate_scheme) res" where
  "create_fail pid dp ip k =
     bindR (iupdate pid ip (upd_inode ip (\<lambda>x. x\<lparr>i_nlink := 0\<rparr>) k)) (\<lambda>k.
     bindR (iunlockput pid ip k) (\<lambda>k.
     bindR (iunlockput pid dp k) (\<lambda>k. Inr (None, k))))"

definition create_new :: "int \<Rightarrow> nat \<Rightarrow> nat \<Rightarrow> byte list \<Rightarrow> u16 \<Rightarrow> u16 \<Rightarrow> u16 \<Rightarrow> 'a fstate_scheme
    \<Rightarrow> (nat option \<times> 'a fstate_scheme) res" where
  "create_new pid dp ip name type major minor k =
     bindR (ilock pid ip k) (\<lambda>k.
     bindR (iupdate pid ip (upd_inode ip (\<lambda>x. x\<lparr>i_major := major, i_minor := minor, i_nlink := 1\<rparr>) k)) (\<lambda>k.
     bindR (if type = T_DIR
            then bindR (dirlink pid ip dot (i_inum (itable k ip)) k) (\<lambda>(c, k).
              if c < 0 then Inr (c, k) else dirlink pid ip dotdot (i_inum (itable k dp)) k)
            else Inr (0, k)) (\<lambda>(c, k).
       if c < 0 then create_fail pid dp ip k
       else bindR (dirlink pid dp name (i_inum (itable k ip)) k) (\<lambda>(c, k).
         if c < 0 then create_fail pid dp ip k
         else bindR (if type = T_DIR
                     then iupdate pid dp (upd_inode dp (\<lambda>x. x\<lparr>i_nlink := i_nlink x + 1\<rparr>) k) else Inr k) (\<lambda>k.
              bindR (iunlockput pid dp k) (\<lambda>k. Inr (Some ip, k)))))))"

definition create :: "int \<Rightarrow> nat \<Rightarrow> byte list \<Rightarrow> u16 \<Rightarrow> u16 \<Rightarrow> u16 \<Rightarrow> 'a fstate_scheme
    \<Rightarrow> (nat option \<times> 'a fstate_scheme) res" where
  "create pid cwd path type major minor k =
     bindR (nameiparent pid cwd path (replicate DIRSIZ 0) k) (\<lambda>(r, name, k).
       case r of
         None \<Rightarrow> Inr (None, k)
       | Some dp \<Rightarrow>
           bindR (ilock pid dp k) (\<lambda>k.
           bindR (dirlookup pid dp name k) (\<lambda>(r, k).
             case r of
               Some (ip, _) \<Rightarrow>
                 bindR (iunlockput pid dp k) (\<lambda>k.
                 bindR (ilock pid ip k) (\<lambda>k.
                   if type = T_FILE \<and> (i_type (itable k ip) = T_FILE \<or> i_type (itable k ip) = T_DEVICE)
                   then Inr (Some ip, k)
                   else bindR (iunlockput pid ip k) (\<lambda>k. Inr (None, k))))
             | None \<Rightarrow>
                 bindR (ialloc pid (i_dev (itable k dp)) type k) (\<lambda>(r, k).
                   case r of
                     None \<Rightarrow> bindR (iunlockput pid dp k) (\<lambda>k. Inr (None, k))
                   | Some ip \<Rightarrow> create_new pid dp ip name type major minor k))))"

subsection \<open>Opening\<close>

definition O_WRONLY :: u32 where "O_WRONLY = 1"
definition O_RDWR :: u32 where "O_RDWR = 2"
definition O_CREATE :: u32 where "O_CREATE = 0x200"
definition O_TRUNC :: u32 where "O_TRUNC = 0x400"

text \<open>Finding or creating the inode to open; it is returned locked.\<close>

definition open_inode :: "int \<Rightarrow> nat \<Rightarrow> byte list \<Rightarrow> u32 \<Rightarrow> 'a fstate_scheme \<Rightarrow> (nat option \<times> 'a fstate_scheme) res" where
  "open_inode pid cwd path omode k =
     (if omode AND O_CREATE \<noteq> 0 then create pid cwd path T_FILE 0 0 k
      else bindR (namei pid cwd path k) (\<lambda>(r, k).
        case r of
          None \<Rightarrow> Inr (None, k)
        | Some ip \<Rightarrow>
            bindR (ilock pid ip k) (\<lambda>k.
              if i_type (itable k ip) = T_DIR \<and> omode \<noteq> 0
              then bindR (iunlockput pid ip k) (\<lambda>k. Inr (None, k))
              else Inr (Some ip, k))))"

text \<open>Setting up the open file, with a descriptor already allocated.\<close>

definition open_file :: "int \<Rightarrow> nat \<Rightarrow> nat \<Rightarrow> u32 \<Rightarrow> 'a kfiles_scheme \<Rightarrow> 'a kfiles_scheme res" where
  "open_file pid f ip omode k =
     (let x = itable k ip;
          k = upd_file f (\<lambda>y. if i_type x = T_DEVICE then y\<lparr>f_type := FD_DEVICE, f_major := i_major x\<rparr>
                              else y\<lparr>f_type := FD_INODE, f_off := 0\<rparr>) k;
          k = upd_file f (\<lambda>y. y\<lparr>f_ip := ip, f_readable := (omode AND O_WRONLY = 0),
                f_writable := (omode AND O_WRONLY \<noteq> 0 \<or> omode AND O_RDWR \<noteq> 0)\<rparr>) k in
      bindR (if omode AND O_TRUNC \<noteq> 0 \<and> i_type (itable k ip) = T_FILE then itrunc pid ip k else Inr k) (iunlock pid ip))"

definition open_path :: "kimage \<Rightarrow> nat \<Rightarrow> byte list \<Rightarrow> u32 \<Rightarrow> psys \<times> 'a kfiles_scheme
    \<Rightarrow> (sysres \<times> psys \<times> 'a kfiles_scheme) res" where
  "open_path im me path omode = (\<lambda>(s, k).
     let pid = p_pid (ptab s me) in
     bindR (begin_op k) (\<lambda>k.
     bindR (open_inode pid (cwd_of me s) path omode k) (\<lambda>(r, k).
       case r of
         None \<Rightarrow> finish pid (-1) s k
       | Some ip \<Rightarrow>
           let major = sint (i_major (itable k ip)) in
           if i_type (itable k ip) = T_DEVICE \<and> (major < 0 \<or> major \<ge> int NDEV)
           then bindR (iunlockput pid ip k) (finish pid (-1) s)
           else (case filealloc k of
               (None, k) \<Rightarrow> bindR (iunlockput pid ip k) (finish pid (-1) s)
             | (Some f, k) \<Rightarrow>
                 (case fdalloc me f s of
                    (None, s) \<Rightarrow>
                      bindR (fileclose (im_end im) me f (s, k)) (\<lambda>(s, k).
                      bindR (iunlockput pid ip k) (finish pid (-1) s))
                  | (Some fd, s) \<Rightarrow> bindR (open_file pid f ip omode k) (finish pid (int fd) s))))))"

definition sys_open :: "kimage \<Rightarrow> nat \<Rightarrow> psys \<times> 'a kfiles_scheme \<Rightarrow> (sysres \<times> psys \<times> 'a kfiles_scheme) res" where
  "sys_open im me = (\<lambda>(s, k).
     bindR (argint me 1 s) (\<lambda>omode.
     bindR (argstr me 0 MAXPATH s) (\<lambda>path.
       case path of
         None \<Rightarrow> sys_ret (-1) (s, k)
       | Some path \<Rightarrow> open_path im me path (of_int omode) (s, k))))"

text \<open>\<open>mkdir\<close> and \<open>mknod\<close>: a transaction around \<open>create\<close>.\<close>

definition make_node :: "int \<Rightarrow> nat \<Rightarrow> byte list option \<Rightarrow> u16 \<Rightarrow> u16 \<Rightarrow> u16 \<Rightarrow> psys \<Rightarrow> 'a fstate_scheme
    \<Rightarrow> (sysres \<times> psys \<times> 'a fstate_scheme) res" where
  "make_node pid cwd path type major minor s k =
     (case path of
        None \<Rightarrow> finish pid (-1) s k
      | Some path \<Rightarrow>
          bindR (create pid cwd path type major minor k) (\<lambda>(r, k).
            case r of None \<Rightarrow> finish pid (-1) s k | Some ip \<Rightarrow> bindR (iunlockput pid ip k) (finish pid 0 s)))"

definition sys_mkdir :: "nat \<Rightarrow> psys \<times> 'a kfiles_scheme \<Rightarrow> (sysres \<times> psys \<times> 'a kfiles_scheme) res" where
  "sys_mkdir me = (\<lambda>(s, k).
     bindR (begin_op k) (\<lambda>k.
     bindR (argstr me 0 MAXPATH s) (\<lambda>path.
       make_node (p_pid (ptab s me)) (cwd_of me s) path T_DIR 0 0 s k)))"

definition sys_mknod :: "nat \<Rightarrow> psys \<times> 'a kfiles_scheme \<Rightarrow> (sysres \<times> psys \<times> 'a kfiles_scheme) res" where
  "sys_mknod me = (\<lambda>(s, k).
     bindR (begin_op k) (\<lambda>k.
     bindR (argint me 1 s) (\<lambda>major.
     bindR (argint me 2 s) (\<lambda>minor.
     bindR (argstr me 0 MAXPATH s) (\<lambda>path.
       make_node (p_pid (ptab s me)) (cwd_of me s) path T_DEVICE (of_int major) (of_int minor) s k)))))"

definition sys_chdir :: "nat \<Rightarrow> psys \<times> 'a kfiles_scheme \<Rightarrow> (sysres \<times> psys \<times> 'a kfiles_scheme) res" where
  "sys_chdir me = (\<lambda>(s, k).
     let pid = p_pid (ptab s me) in
     bindR (begin_op k) (\<lambda>k.
     bindR (argstr me 0 MAXPATH s) (\<lambda>path.
     bindR (case path of None \<Rightarrow> Inr (None, k) | Some path \<Rightarrow> namei pid (cwd_of me s) path k) (\<lambda>(r, k).
       case r of
         None \<Rightarrow> finish pid (-1) s k
       | Some ip \<Rightarrow>
           bindR (ilock pid ip k) (\<lambda>k.
             if i_type (itable k ip) \<noteq> T_DIR then bindR (iunlockput pid ip k) (finish pid (-1) s)
             else bindR (iunlock pid ip k) (\<lambda>k.
                  bindR (iput pid (cwd_of me s) k) (\<lambda>k.
                  bindR (end_op pid k) (\<lambda>k.
                    sys_ret 0 (upd_proc me (\<lambda>x. x\<lparr>p_cwd := Some ip\<rparr>) s, k)))))))))"

text \<open>The exits of \<open>sys_pipe\<close> that give the two files back.\<close>

definition close_pair :: "kimage \<Rightarrow> nat \<Rightarrow> nat \<Rightarrow> nat \<Rightarrow> psys \<times> 'a kfiles_scheme
    \<Rightarrow> (sysres \<times> psys \<times> 'a kfiles_scheme) res" where
  "close_pair im me rfl wfl sk =
     bindR (fileclose (im_end im) me rfl sk) (\<lambda>sk.
     bindR (fileclose (im_end im) me wfl sk) (\<lambda>sk. sys_ret (-1) sk))"

definition sys_pipe :: "kimage \<Rightarrow> nat \<Rightarrow> psys \<times> 'a kfiles_scheme \<Rightarrow> (sysres \<times> psys \<times> 'a kfiles_scheme) res" where
  "sys_pipe im me = (\<lambda>(s, k).
     bindR (argaddr me 0 s) (\<lambda>fdarray.
     bindR (pipealloc (im_end im) me (s, k)) (\<lambda>(r, s, k).
       case r of
         None \<Rightarrow> sys_ret (-1) (s, k)
       | Some (rfl, wfl) \<Rightarrow>
           (case fdalloc me rfl s of
              (None, s) \<Rightarrow> close_pair im me rfl wfl (s, k)
            | (Some fd0, s) \<Rightarrow>
                (case fdalloc me wfl s of
                   (None, s) \<Rightarrow> close_pair im me rfl wfl (fdclear me fd0 s, k)
                 | (Some fd1, s) \<Rightarrow>
                     bindR (either_copyout (im_end im) me True fdarray (int_bytes (int fd0)) s) (\<lambda>(r, s).
                     bindR (if r < 0 then Inr (r, s)
                            else either_copyout (im_end im) me True (fdarray + 4) (int_bytes (int fd1)) s) (\<lambda>(r, s).
                       if r < 0 then close_pair im me rfl wfl (fdclear me fd1 (fdclear me fd0 s), k)
                       else sys_ret 0 (s, k))))))))"

end
