(* ===== verification/Exec.thy ===== *)
theory Exec
  imports Sysfile
begin

text \<open>
  \<open>kernel/exec.c\<close>, \<open>sys_exec\<close> and the dispatch of system calls. The ELF header and the program headers are
  read from the file into byte lists and decoded at the offsets of \<open>kernel/elf.h\<close>; segments are read straight into the
  physical pages of the new page table.
\<close>

subsection \<open>ELF headers\<close>

definition ELF_MAGIC :: u32 where "ELF_MAGIC = 0x464C457F"
definition ELF_PROG_LOAD :: u32 where "ELF_PROG_LOAD = 1"
definition ELFHDR_SIZE :: nat where [layout_simps]: "ELFHDR_SIZE = 64"
definition PROGHDR_SIZE :: nat where [layout_simps]: "PROGHDR_SIZE = 56"
definition MAXARG :: nat where "MAXARG = 32"
definition USERSTACK :: u64 where "USERSTACK = 1"

definition field16 :: "byte list \<Rightarrow> nat \<Rightarrow> u16" where
  "field16 bs o' = ucast (bs ! o') OR push_bit 8 (ucast (bs ! (o' + 1)))"

definition field32 :: "byte list \<Rightarrow> nat \<Rightarrow> u32" where
  "field32 bs o' = ucast (field16 bs o') OR push_bit 16 (ucast (field16 bs (o' + 2)))"

definition field64 :: "byte list \<Rightarrow> nat \<Rightarrow> u64" where
  "field64 bs o' = ucast (field32 bs o') OR push_bit 32 (ucast (field32 bs (o' + 4)))"

record elfhdr =
  e_magic :: u32
  e_entry :: u64
  e_phoff :: u64
  e_phnum :: u16

record proghdr =
  ph_type :: u32
  ph_flags :: u32
  ph_off :: u64
  ph_vaddr :: u64
  ph_filesz :: u64
  ph_memsz :: u64

definition elfhdr_of :: "byte list \<Rightarrow> elfhdr" where
  "elfhdr_of bs = \<lparr>e_magic = field32 bs 0, e_entry = field64 bs 24, e_phoff = field64 bs 32, e_phnum = field16 bs 56\<rparr>"

definition proghdr_of :: "byte list \<Rightarrow> proghdr" where
  "proghdr_of bs = \<lparr>ph_type = field32 bs 0, ph_flags = field32 bs 4, ph_off = field64 bs 8, ph_vaddr = field64 bs 16,
     ph_filesz = field64 bs 32, ph_memsz = field64 bs 40\<rparr>"

definition flags2perm :: "u32 \<Rightarrow> u64" where
  "flags2perm flags =
     (let perm = (if flags AND 1 \<noteq> 0 then PTE_X else 0) in if flags AND 2 \<noteq> 0 then perm OR PTE_W else perm)"

subsection \<open>Loading\<close>

text \<open>\<open>readi\<close> into physical memory.\<close>

definition to_phys :: "u64 \<Rightarrow> byte list \<Rightarrow> kmem \<Rightarrow> (bool \<times> kmem) res" where
  "to_phys dst bs m = Inr (True, m\<lparr>pmem := put_list (pmem m) dst bs\<rparr>)"

text \<open>The loop of \<open>loadseg\<close> at page \<open>i\<close>; the source's index is 32 bits wide, as is \<open>sz\<close>.\<close>

function loadseg_loop :: "int \<Rightarrow> u64 \<Rightarrow> u64 \<Rightarrow> nat \<Rightarrow> u32 \<Rightarrow> nat \<Rightarrow> nat \<Rightarrow> kmem \<times> 'a fstate_scheme
    \<Rightarrow> (int \<times> kmem \<times> 'a fstate_scheme) res" where
  "loadseg_loop pid pagetable va ip offset sz i (m, k) =
     (if i < sz
      then let pa = walkaddr pagetable (va + of_nat i) m in
        if pa = 0 then panic ''loadseg: address should exist''
        else let n = min (sz - i) 4096 in
          bindR (readi to_phys pid ip pa (offset + of_nat i) (of_nat n) (m, k)) (\<lambda>(r, m, k).
            if r \<noteq> int n then Inr (-1, m, k) else loadseg_loop pid pagetable va ip offset sz (i + 4096) (m, k))
      else Inr (0, m, k))"
  by pat_completeness auto
termination
  by (relation "measure (\<lambda>(pid, pt, va, ip, offset, sz, i, x). sz - i)") auto

declare loadseg_loop.simps [simp del]

definition loadseg :: "int \<Rightarrow> u64 \<Rightarrow> u64 \<Rightarrow> nat \<Rightarrow> u32 \<Rightarrow> u32 \<Rightarrow> kmem \<times> 'a fstate_scheme
    \<Rightarrow> (int \<times> kmem \<times> 'a fstate_scheme) res" where
  "loadseg pid pagetable va ip offset sz = loadseg_loop pid pagetable va ip offset (unat sz) 0"

text \<open>
  The loop over the program headers: \<open>i\<close> of \<open>phnum\<close> done, the next one at \<open>off\<close>. The first component of the result is
  whether all were loaded, the second the size of the image so far.
\<close>

function exec_load :: "u64 \<Rightarrow> int \<Rightarrow> nat \<Rightarrow> u64 \<Rightarrow> nat \<Rightarrow> nat \<Rightarrow> u32 \<Rightarrow> u64 \<Rightarrow> kmem \<times> 'a fstate_scheme
    \<Rightarrow> (bool \<times> u64 \<times> kmem \<times> 'a fstate_scheme) res" where
  "exec_load kend pid ip pagetable phnum i off sz (m, k) =
     (if i < phnum
      then bindR (readi to_kernel pid ip 0 off (of_nat PROGHDR_SIZE) ([], k)) (\<lambda>(r, bs, k).
        if r \<noteq> int PROGHDR_SIZE then Inr (False, sz, m, k)
        else let ph = proghdr_of bs; next = exec_load kend pid ip pagetable phnum (Suc i) (off + of_nat PROGHDR_SIZE) in
          if ph_type ph \<noteq> ELF_PROG_LOAD then next sz (m, k)
          else if ph_memsz ph < ph_filesz ph \<or> ph_vaddr ph + ph_memsz ph < ph_vaddr ph \<or> ph_vaddr ph mod PGSIZE \<noteq> 0
          then Inr (False, sz, m, k)
          else bindR (uvmalloc kend pagetable sz (ph_vaddr ph + ph_memsz ph) (flags2perm (ph_flags ph)) m) (\<lambda>(sz1, m).
            if sz1 = 0 then Inr (False, sz, m, k)
            else bindR (loadseg pid pagetable (ph_vaddr ph) ip (ucast (ph_off ph)) (ucast (ph_filesz ph)) (m, k)) (\<lambda>(r, m, k).
              if r < 0 then Inr (False, sz1, m, k) else next sz1 (m, k))))
      else Inr (True, sz, m, k))"
  by pat_completeness auto
termination
  by (relation "measure (\<lambda>(ke, pid, ip, pt, phnum, i, off, sz, x). phnum - i)") auto

declare exec_load.simps [simp del]

subsection \<open>The user stack\<close>

text \<open>
  Pushing the argument strings: the stack pointer, the pointers pushed so far in order, or \<open>None\<close>
  when an argument does not fit. \<open>psz\<close> and \<open>ppt\<close> are size and page table of the calling process.
\<close>

definition align16 :: "u64 \<Rightarrow> u64" where "align16 sp = sp - sp mod 16"

fun push_args :: "u64 \<Rightarrow> u64 \<Rightarrow> u64 \<Rightarrow> u64 \<Rightarrow> u64 \<Rightarrow> u64 \<Rightarrow> u64 list \<Rightarrow> byte list list \<Rightarrow> kmem
    \<Rightarrow> ((u64 \<times> u64 list) option \<times> kmem) res" where
  "push_args kend psz ppt pagetable stackbase sp ustack [] m = Inr (Some (sp, ustack), m)"
| "push_args kend psz ppt pagetable stackbase sp ustack (a # as) m =
     (if length ustack \<ge> MAXARG then Inr (None, m)
      else let sp = align16 (sp - (of_nat (length a) + 1)) in
        if sp < stackbase then Inr (None, m)
        else bindR (copyout kend psz ppt pagetable sp (a @ [0]) m) (\<lambda>(r, m).
          if r < 0 then Inr (None, m)
          else push_args kend psz ppt pagetable stackbase sp (ustack @ [sp]) as m))"

definition u64_bytes :: "u64 \<Rightarrow> byte list" where
  "u64_bytes w = u32_bytes (ucast w) @ u32_bytes (ucast (drop_bit 32 w))"

text \<open>
  Stack, arguments and pointer array: on success the stack pointer and the image size, on failure
  the size to free.
\<close>

definition exec_stack :: "u64 \<Rightarrow> u64 \<Rightarrow> u64 \<Rightarrow> u64 \<Rightarrow> u64 \<Rightarrow> byte list list \<Rightarrow> kmem \<Rightarrow> (u64 option \<times> u64 \<times> kmem) res" where
  "exec_stack kend psz ppt pagetable sz argv m =
     (let sz = PGROUNDUP sz in
      bindR (uvmalloc kend pagetable sz (sz + (USERSTACK + 1) * PGSIZE) PTE_W m) (\<lambda>(sz1, m).
        if sz1 = 0 then Inr (None, sz, m)
        else let sz = sz1 in
          bindR (uvmclear pagetable (sz - (USERSTACK + 1) * PGSIZE) m) (\<lambda>m.
          let stackbase = sz - USERSTACK * PGSIZE in
          bindR (push_args kend psz ppt pagetable stackbase sz [] argv m) (\<lambda>(r, m).
            case r of
              None \<Rightarrow> Inr (None, sz, m)
            | Some (sp, ustack) \<Rightarrow>
                let argc = length ustack; sp = align16 (sp - of_nat ((argc + 1) * 8)) in
                if sp < stackbase then Inr (None, sz, m)
                else bindR (copyout kend psz ppt pagetable sp (concat (map u64_bytes (ustack @ [0]))) m) (\<lambda>(r, m).
                  Inr (if r < 0 then None else Some sp, sz, m))))))"

text \<open>The part of a path after its last slash.\<close>

definition last_elem :: "byte list \<Rightarrow> byte list" where
  "last_elem path = rev (takeWhile (\<lambda>c. c \<noteq> slash) (rev path))"

text \<open>Committing the new image: trap frame, name, page table and size; then the old image goes.\<close>

definition exec_commit :: "u64 \<Rightarrow> nat \<Rightarrow> byte list \<Rightarrow> u64 \<Rightarrow> u64 \<Rightarrow> u64 \<Rightarrow> u64 \<Rightarrow> psys \<Rightarrow> psys res" where
  "exec_commit kend me path pagetable sz entry sp s =
     (let x = ptab s me; tf = p_trapframe x;
          m = store64 (store64 (store64 (pmem (pkm s)) (tf + 120) sp) (tf + 24) entry) (tf + 48) sp;
          s = upd_proc me (\<lambda>x. x\<lparr>p_name := copy_name (last_elem path), p_pagetable := pagetable, p_sz := sz\<rparr>)
                (s\<lparr>pkm := (pkm s)\<lparr>pmem := m\<rparr>\<rparr>) in
      bindR (proc_freepagetable kend (p_pagetable x) (p_sz x) (pkm s)) (\<lambda>m. Inr (s\<lparr>pkm := m\<rparr>)))"

text \<open>The \<open>bad:\<close> exit before and after the inode has been released.\<close>

definition exec_bad :: "u64 \<Rightarrow> int \<Rightarrow> u64 \<Rightarrow> u64 \<Rightarrow> nat option \<Rightarrow> psys \<times> 'a fstate_scheme \<Rightarrow> (int \<times> psys \<times> 'a fstate_scheme) res" where
  "exec_bad kend pid pagetable sz ip = (\<lambda>(s, k).
     bindR (if pagetable \<noteq> 0 then proc_freepagetable kend pagetable sz (pkm s) else Inr (pkm s)) (\<lambda>m.
     bindR (case ip of
         None \<Rightarrow> Inr k
       | Some ip \<Rightarrow> bindR (iunlockput pid ip k) (end_op pid)) (\<lambda>k.
       Inr (-1, s\<lparr>pkm := m\<rparr>, k))))"

definition kexec :: "kimage \<Rightarrow> nat \<Rightarrow> byte list \<Rightarrow> byte list list \<Rightarrow> psys \<times> 'a fstate_scheme
    \<Rightarrow> (int \<times> psys \<times> 'a fstate_scheme) res" where
  "kexec im me path argv = (\<lambda>(s, k).
     let kend = im_end im; x = ptab s me; pid = p_pid x in
     bindR (begin_op k) (\<lambda>k.
     bindR (namei pid (cwd_of me s) path k) (\<lambda>(r, k).
       case r of
         None \<Rightarrow> bindR (end_op pid k) (\<lambda>k. Inr (-1, s, k))
       | Some ip \<Rightarrow>
           bindR (ilock pid ip k) (\<lambda>k.
           bindR (readi to_kernel pid ip 0 0 (of_nat ELFHDR_SIZE) ([], k)) (\<lambda>(r, bs, k).
             if r \<noteq> int ELFHDR_SIZE \<or> e_magic (elfhdr_of bs) \<noteq> ELF_MAGIC
             then exec_bad kend pid 0 0 (Some ip) (s, k)
             else let elf = elfhdr_of bs in
               bindR (proc_pagetable kend (im_trampoline im) (p_trapframe x) (pkm s)) (\<lambda>(pagetable, m).
                 if pagetable = 0 then exec_bad kend pid 0 0 (Some ip) (s\<lparr>pkm := m\<rparr>, k)
                 else bindR (exec_load kend pid ip pagetable (unat (e_phnum elf)) 0 (ucast (e_phoff elf)) 0 (m, k)) (\<lambda>(ok, sz, m, k).
                   if \<not> ok then exec_bad kend pid pagetable sz (Some ip) (s\<lparr>pkm := m\<rparr>, k)
                   else bindR (iunlockput pid ip k) (\<lambda>k.
                        bindR (end_op pid k) (\<lambda>k.
                        bindR (exec_stack kend (p_sz x) (p_pagetable x) pagetable sz argv m) (\<lambda>(r, sz, m).
                          case r of
                            None \<Rightarrow> exec_bad kend pid pagetable sz None (s\<lparr>pkm := m\<rparr>, k)
                          | Some sp \<Rightarrow>
                              bindR (exec_commit kend me path pagetable sz (e_entry elf) sp (s\<lparr>pkm := m\<rparr>)) (\<lambda>s.
                                Inr (int (length argv), s, k))))))))))))"

end
