(* ===== verification/Trap.thy ===== *)
theory Trap
  imports Exec
begin

text \<open>
  \<open>sys_exec\<close>, the dispatch of system calls (\<open>kernel/syscall.c\<close>) and the trap handlers (\<open>kernel/trap.c\<close>,
  the interrupt side of \<open>kernel/uart.c\<close>). What the hardware supplies at a trap (the cause, the fault address,
  the interrupting device, the received characters) is a parameter; the disk interrupt only
  completes requests that the buffer cache model already treats as done.
\<close>

subsection \<open>\<open>exec\<close>\<close>

text \<open>
  Fetching the argument vector: each argument gets a page, listed with its string. A failed
  fetch leaves its page in the list, to be freed.
\<close>

function fetch_args :: "u64 \<Rightarrow> nat \<Rightarrow> u64 \<Rightarrow> nat \<Rightarrow> (u64 \<times> byte list) list \<Rightarrow> psys
    \<Rightarrow> (bool \<times> (u64 \<times> byte list) list \<times> psys) res" where
  "fetch_args kend me uargv i argv s =
     (if i \<ge> MAXARG then Inr (False, argv, s)
      else bindR (fetchaddr kend me (uargv + 8 * of_nat i) s) (\<lambda>(r, s).
        case r of
          None \<Rightarrow> Inr (False, argv, s)
        | Some uarg \<Rightarrow>
            if uarg = 0 then Inr (True, argv, s)
            else let (pg, m) = kalloc (pkm s); s = s\<lparr>pkm := m\<rparr> in
              if pg = 0 then Inr (False, argv, s)
              else (case fetchstr me uarg 4096 s of
                  None \<Rightarrow> Inr (False, argv @ [(pg, [])], s)
                | Some a \<Rightarrow> fetch_args kend me uargv (Suc i) (argv @ [(pg, a)])
                    (s\<lparr>pkm := (pkm s)\<lparr>pmem := put_list (pmem (pkm s)) pg (a @ [0])\<rparr>\<rparr>))))"
  by pat_completeness auto
termination
  by (relation "measure (\<lambda>(ke, me, u, i, argv, s). MAXARG - i)") auto

declare fetch_args.simps [simp del]

fun free_args :: "u64 \<Rightarrow> (u64 \<times> byte list) list \<Rightarrow> psys \<Rightarrow> psys res" where
  "free_args kend [] s = Inr s"
| "free_args kend ((pg, a) # argv) s = bindR (kfree kend pg (pkm s)) (\<lambda>m. free_args kend argv (s\<lparr>pkm := m\<rparr>))"

definition sys_exec :: "kimage \<Rightarrow> nat \<Rightarrow> psys \<times> 'a kfiles_scheme \<Rightarrow> (sysres \<times> psys \<times> 'a kfiles_scheme) res" where
  "sys_exec im me = (\<lambda>(s, k).
     bindR (argaddr me 1 s) (\<lambda>uargv.
     bindR (argstr me 0 MAXPATH s) (\<lambda>path.
       case path of
         None \<Rightarrow> sys_ret (-1) (s, k)
       | Some path \<Rightarrow>
           bindR (fetch_args (im_end im) me uargv 0 [] s) (\<lambda>(ok, argv, s).
           bindR (if ok then kexec im me path (map snd argv) (s, k) else Inr (-1, s, k)) (\<lambda>(ret, s, k).
           bindR (free_args (im_end im) argv s) (\<lambda>s. sys_ret ret (s, k)))))))"

subsection \<open>Dispatch\<close>

text \<open>The device switch: the console is device 1.\<close>

definition console_read :: "kimage \<Rightarrow> nat \<Rightarrow> u64 \<Rightarrow> int \<Rightarrow> kst \<Rightarrow> (outcome \<times> kst) res" where
  "console_read im me addr n = (\<lambda>(s, k).
     bindR (consoleread (im_end im) (AddrChan (im_cons_r im)) me True addr n (s, console k)) (\<lambda>(r, s, c).
       Inr (r, s, k\<lparr>console := c\<rparr>)))"

definition console_write :: "kimage \<Rightarrow> nat \<Rightarrow> u64 \<Rightarrow> int \<Rightarrow> kst \<Rightarrow> (outcome \<times> kst) res" where
  "console_write im me addr n = (\<lambda>(s, k).
     bindR (consolewrite (im_end im) me True addr n (s, uart0 k)) (\<lambda>(r, s, u).
       Inr (Returned r, s, k\<lparr>uart0 := u\<rparr>)))"

definition CONSOLE :: nat where "CONSOLE = 1"

definition syscalls :: "kimage \<Rightarrow> nat \<Rightarrow> int \<Rightarrow> (kst \<Rightarrow> (sysres \<times> kst) res) option" where
  "syscalls im me num =
     (let dr = (\<lambda>d. if d = CONSOLE then Some (console_read im me) else None);
          dw = (\<lambda>d. if d = CONSOLE then Some (console_write im me) else None) in
      if num = 1 then Some (sys_fork im me) else if num = 2 then Some (sys_exit im me)
      else if num = 3 then Some (sys_wait im me) else if num = 4 then Some (sys_pipe im me)
      else if num = 5 then Some (sys_read im dr me) else if num = 6 then Some (sys_kill me)
      else if num = 7 then Some (sys_exec im me) else if num = 8 then Some (sys_fstat im me)
      else if num = 9 then Some (sys_chdir me) else if num = 10 then Some (sys_dup me)
      else if num = 11 then Some (sys_getpid me) else if num = 12 then Some (sys_sbrk im me)
      else if num = 13 then Some (sys_pause im me) else if num = 14 then Some (sys_uptime me)
      else if num = 15 then Some (sys_open im me) else if num = 16 then Some (sys_write im dw me)
      else if num = 17 then Some (sys_mknod me) else if num = 18 then Some (sys_unlink me)
      else if num = 19 then Some (sys_link me) else if num = 20 then Some (sys_mkdir me)
      else if num = 21 then Some (sys_close im me) else None)"

definition set_a0 :: "nat \<Rightarrow> u64 \<Rightarrow> psys \<Rightarrow> psys" where
  "set_a0 me v s = s\<lparr>pkm := (pkm s)\<lparr>pmem := store64 (pmem (pkm s)) (p_trapframe (ptab s me) + TF_A0) v\<rparr>\<rparr>"

definition syscall :: "kimage \<Rightarrow> nat \<Rightarrow> kst \<Rightarrow> (sysres \<times> kst) res" where
  "syscall im me = (\<lambda>(s, k).
     let num = sint (ucast (load64 (pmem (pkm s)) (p_trapframe (ptab s me) + 168)) :: u32) in
     case (if num > 0 \<and> num < 22 then syscalls im me num else None) of
       Some f \<Rightarrow>
         bindR (f (s, k)) (\<lambda>(r, s, k).
           Inr (r, case r of Value v \<Rightarrow> (set_a0 me v s, k) | _ \<Rightarrow> (s, k)))
     | None \<Rightarrow> Inr (Value (-1), set_a0 me (-1) s, k))"

subsection \<open>Interrupts\<close>

definition clockintr :: "kimage \<Rightarrow> nat \<Rightarrow> nat option \<Rightarrow> kst \<Rightarrow> kst" where
  "clockintr im cpuid me = (\<lambda>(s, k).
     if cpuid = 0 then (wakeup me (AddrChan (im_ticks im)) s, k\<lparr>ticks := ticks k + 1\<rparr>) else (s, k))"

text \<open>\<open>idle\<close>: the transmitter is idle; \<open>chars\<close>: what \<open>uartgetc\<close> returns until it is empty.\<close>

definition uartintr :: "kimage \<Rightarrow> nat option \<Rightarrow> bool \<Rightarrow> byte list \<Rightarrow> kst \<Rightarrow> kst" where
  "uartintr im me idle chars = (\<lambda>(s, k).
     let (s, k) = (if idle then (wakeup me (AddrChan (im_tx_chan im)) s, k\<lparr>uart0 := (uart0 k)\<lparr>tx_busy := False\<rparr>\<rparr>) else (s, k)) in
     fold (\<lambda>ch (s, k).
         let (echo, s, c) = consoleintr (AddrChan (im_cons_r im)) me ch (s, console k) in
         (s, k\<lparr>console := c, uart0 := (uart0 k)\<lparr>u_out := u_out (uart0 k) @ echo\<rparr>\<rparr>)) chars (s, k))"

record trapinfo =
  t_scause :: u64
  t_stval :: u64
  t_sepc :: u64
  t_cpuid :: nat
  t_irq :: nat
  t_tx_idle :: bool
  t_chars :: "byte list"
  t_satp :: u64

definition devintr :: "kimage \<Rightarrow> nat option \<Rightarrow> trapinfo \<Rightarrow> kst \<Rightarrow> nat \<times> kst" where
  "devintr im me t sk =
     (if t_scause t = 0x8000000000000009
      then (1, if t_irq t = 10 then uartintr im me (t_tx_idle t) (t_chars t) sk else sk)
      else if t_scause t = 0x8000000000000005 then (2, clockintr im (t_cpuid t) me sk)
      else (0, sk))"

subsection \<open>Traps\<close>

datatype trapres = ToUser u64 | TrapAsleep nat | TrapGone | TrapYield

text \<open>The trap frame fields that \<open>prepare_return\<close> sets; \<open>usertrap\<close> is the address of the handler.\<close>

definition prepare_return :: "u64 \<Rightarrow> nat \<Rightarrow> trapinfo \<Rightarrow> psys \<Rightarrow> psys" where
  "prepare_return handler me t s =
     (let tf = p_trapframe (ptab s me); m = pmem (pkm s);
          m = store64 m tf (t_satp t);
          m = store64 m (tf + 8) (p_kstack (ptab s me) + PGSIZE);
          m = store64 m (tf + 16) handler;
          m = store64 m (tf + 32) (of_nat (t_cpuid t)) in
      s\<lparr>pkm := (pkm s)\<lparr>pmem := m\<rparr>\<rparr>)"

text \<open>The end of \<open>usertrap\<close>, from the second test of \<open>killed\<close>.\<close>

definition usertrap_leave :: "kimage \<Rightarrow> u64 \<Rightarrow> nat \<Rightarrow> trapinfo \<Rightarrow> nat \<Rightarrow> kst \<Rightarrow> (trapres \<times> kst) res" where
  "usertrap_leave im handler me t which_dev = (\<lambda>(s, k).
     if killed me s then bindR (exit_process im me (-1) (s, k)) (\<lambda>sk. Inr (TrapGone, sk))
     else if which_dev = 2 then Inr (TrapYield, yield_enter me s, k)
     else let s = prepare_return handler me t s in
       Inr (ToUser (MAKE_SATP (p_pagetable (ptab s me))), s, k))"

definition set_epc :: "nat \<Rightarrow> u64 \<Rightarrow> psys \<Rightarrow> psys" where
  "set_epc me pc s = s\<lparr>pkm := (pkm s)\<lparr>pmem := store64 (pmem (pkm s)) (p_trapframe (ptab s me) + 24) pc\<rparr>\<rparr>"

definition usertrap :: "kimage \<Rightarrow> u64 \<Rightarrow> nat \<Rightarrow> trapinfo \<Rightarrow> kst \<Rightarrow> (trapres \<times> kst) res" where
  "usertrap im handler me t = (\<lambda>(s, k).
     let s = set_epc me (t_sepc t) s in
     if t_scause t = 8
     then if killed me s then bindR (exit_process im me (-1) (s, k)) (\<lambda>sk. Inr (TrapGone, sk))
       else let s = set_epc me (t_sepc t + 4) s in
         bindR (syscall im me (s, k)) (\<lambda>(r, sk).
           case r of
             Value _ \<Rightarrow> usertrap_leave im handler me t 0 sk
           | Asleep i \<Rightarrow> Inr (TrapAsleep i, sk)
           | Gone \<Rightarrow> Inr (TrapGone, sk))
     else let (which_dev, sk) = devintr im (Some me) t (s, k) in
       if which_dev \<noteq> 0 then usertrap_leave im handler me t which_dev sk
       else bindR (if t_scause t = 15 \<or> t_scause t = 13
                   then vmfault (im_end im) (p_sz (ptab s me)) (p_pagetable (ptab s me)) (p_pagetable (ptab s me)) (t_stval t) (pkm s)
                   else Inr (0, pkm s)) (\<lambda>(pa, m).
         let s = s\<lparr>pkm := m\<rparr> in
         usertrap_leave im handler me t 0 (if pa \<noteq> 0 then s else setkilled me s, k)))"

definition kerneltrap :: "kimage \<Rightarrow> nat option \<Rightarrow> bool \<Rightarrow> bool \<Rightarrow> trapinfo \<Rightarrow> kst \<Rightarrow> (bool \<times> kst) res" where
  "kerneltrap im me spp sie t sk =
     (if \<not> spp then panic ''kerneltrap: not from supervisor mode''
      else if sie then panic ''kerneltrap: interrupts enabled''
      else let (which_dev, sk) = devintr im me t sk in
        if which_dev = 0 then panic ''kerneltrap''
        else case me of
          Some p \<Rightarrow> Inr (if which_dev = 2 then (True, yield_enter p (fst sk), snd sk) else (False, sk))
        | None \<Rightarrow> Inr (False, sk))"

end
