(* ===== verification/VmMap.thy ===== *)
theory VmMap
  imports Vm
begin

text \<open>
  What the page-table code of \<open>Vm\<close> achieves: mapping a page makes the hardware's walk find it and
  leaves every other translation alone. The tables that the walk of a virtual address visits are a
  list of pages; the walk that allocates extends it by the first pages of the free list.
\<close>

subsection \<open>The tables on the way to an address\<close>

fun tables :: "nat \<Rightarrow> u64 \<Rightarrow> u64 \<Rightarrow> mem \<Rightarrow> u64 list" where
  "tables 0 t va m = [t]"
| "tables (Suc l) t va m =
     (let e = load64 m (t + 8 * PX (Suc l) va) in
      t # (if e AND PTE_V \<noteq> 0 then tables l (PTE2PA e) va m else []))"

lemma tables_Cons: "\<exists>xs. tables l t va m = t # xs"
  by (cases l) (auto simp: Let_def)

lemma tables_ne [simp]: "tables l t va m \<noteq> []"
  using tables_Cons [of l t va m] by auto

lemma length_tables: "length (tables l t va m) \<le> Suc l"
  by (induction l arbitrary: t) (auto simp: Let_def)

subsection \<open>Entries of a table\<close>

lemma entry_page:
  assumes "unat t mod 4096 = 0" "i < 8"
  shows "PGROUNDDOWN (t + 8 * PX l va + of_nat i) = t"
proof -
  have "8 * unat (PX l va) + i < 4096" using PX_less [of l va] assms(2) by linarith
  moreover have "t + of_nat (8 * unat (PX l va) + i) = t + 8 * PX l va + of_nat i" by simp
  ultimately show ?thesis using PGROUNDDOWN_in_page [OF assms(1)] by metis
qed

lemma entry_window:
  assumes "unat (a - x) < 8" shows "\<exists>i<8. a = x + of_nat i"
  by (rule exI [of _ "unat (a - x)"]) (simp add: assms)

lemma entry_window_page:
  assumes "unat t mod 4096 = 0" "unat (a - (t + 8 * PX l va)) < 8"
  shows "PGROUNDDOWN a = t"
  using entry_window [OF assms(2)] entry_page [OF assms(1)] by auto

lemma entry_store_other:
  assumes "unat t mod 4096 = 0" "PGROUNDDOWN a \<noteq> t"
  shows "store64 m (t + 8 * PX l va) v a = m a"
  using entry_window_page [OF assms(1), of a l va] assms(2) by (intro store64_other) force

lemma entry_load_cong:
  assumes "\<And>i. i < 8 \<Longrightarrow> m (t + 8 * PX l va + of_nat i) = m' (t + 8 * PX l va + of_nat i)"
  shows "load64 m (t + 8 * PX l va) = load64 m' (t + 8 * PX l va)"
  using assms by (rule load64_cong)

lemma entry_zero_page:
  assumes "unat t mod 4096 = 0"
  shows "load64 (memset m t 0 4096) (t + 8 * PX l va) = 0"
proof -
  have "load64 (memset m t 0 4096) (t + 8 * PX l va) = load64 (\<lambda>_. 0) (t + 8 * PX l va)"
    using entry_page [OF assms] by (intro entry_load_cong) (simp add: memset_page_at [OF assms])
  then show ?thesis by (simp add: load64_def)
qed

lemma entry_nonzero:
  assumes "unat t mod 4096 = 0" "t \<noteq> 0" shows "t + 8 * PX l va \<noteq> 0"
proof
  assume "t + 8 * PX l va = 0"
  then have "PGROUNDDOWN 0 = t" using entry_page [OF assms(1), of 0 l va] by simp
  then show False using assms(2) by (simp add: PGROUNDDOWN_def)
qed

lemma PTE_V_OR: "(e OR PTE_V) AND PTE_V \<noteq> 0"
  by (simp add: PTE_V_def)

subsection \<open>The allocating walk\<close>

text \<open>
  \<open>walked\<close> collects what a successful allocating walk of \<open>l\<close> levels does: \<open>P\<close> are the tables that were there, \<open>Q\<close> the new
  ones, and only the new pages and the entry that now points to the first of them change.
\<close>

definition walked :: "u64 \<Rightarrow> nat \<Rightarrow> u64 \<Rightarrow> u64 \<Rightarrow> u64 list \<Rightarrow> u64 list \<Rightarrow> u64 list \<Rightarrow> kmem \<Rightarrow> u64 \<Rightarrow> kmem \<Rightarrow> bool" where
  "walked kend l t va P Q rest s pte s' \<longleftrightarrow>
     tables l t va (pmem s') = P @ Q \<and> length (P @ Q) = Suc l \<and> free_pages kend s' rest
     \<and> pte = last (P @ Q) + 8 * PX 0 va \<and> (Q \<noteq> [] \<longrightarrow> load64 (pmem s') pte = 0)
     \<and> (\<forall>a. PGROUNDDOWN a \<notin> set Q \<and> \<not> (Q \<noteq> [] \<and> unat (a - (last P + 8 * PX (Suc l - length P) va)) < 8)
          \<longrightarrow> pmem s' a = pmem s a)"

lemma walked_frame:
  "walked kend l t va P Q rest s pte s' \<Longrightarrow> PGROUNDDOWN a \<notin> set Q \<Longrightarrow>
   \<not> unat (a - (last P + 8 * PX (Suc l - length P) va)) < 8 \<Longrightarrow> pmem s' a = pmem s a"
  by (simp add: walked_def)

lemma free_pages_frame:
  assumes "free_pages kend s ps" "freelist s' = freelist s" "\<And>a. PGROUNDDOWN a \<in> set ps \<Longrightarrow> pmem s' a = pmem s a"
  shows "free_pages kend s' ps"
proof -
  have "free_path (pmem s') (freelist s) ps = free_path (pmem s) (freelist s) ps"
    by (rule free_path_cong) (use assms(1,3) in \<open>auto simp: free_pages_def page_ok_def\<close>)
  then show ?thesis using assms(1,2) by (simp add: free_pages_def)
qed

lemma walk_loop_alloc:
  assumes "free_pages kend s ps" and "P = tables l t va (pmem s)" and "\<forall>p\<in>set P. unat p mod 4096 = 0"
    and "distinct P" and "set P \<inter> set ps = {}"
  shows "if Suc l - length P \<le> length ps
    then \<exists>pte s'. walk_loop l t va True s = (pte, s')
      \<and> walked kend l t va P (take (Suc l - length P) ps) (drop (Suc l - length P) ps) s pte s'
    else \<exists>s'. walk_loop l t va True s = (0, s')"
  using assms
proof (induction l arbitrary: t s P ps)
  case 0
  then show ?case by (simp add: walked_def)
next
  case (Suc l)
  let ?x = "t + 8 * PX (Suc l) va" let ?e = "load64 (pmem s) ?x"
  have t: "unat t mod 4096 = 0" "t \<notin> set ps" using Suc.prems(2,3,5) by (auto simp: Let_def)
  show ?case
  proof (cases "?e AND PTE_V \<noteq> 0")
    case True
    let ?P = "tables l (PTE2PA ?e) va (pmem s)"
    have P: "P = t # ?P" using Suc.prems(2) True by (simp add: Let_def)
    have W: "walk_loop (Suc l) t va True s = walk_loop l (PTE2PA ?e) va True s" using True by (simp add: Let_def)
    note IH = Suc.IH [OF Suc.prems(1), of ?P "PTE2PA ?e", OF refl]
    have n: "Suc (Suc l) - length P = Suc l - length ?P" using P by simp
    have IH': "if Suc l - length ?P \<le> length ps
        then \<exists>pte s'. walk_loop l (PTE2PA ?e) va True s = (pte, s')
          \<and> walked kend l (PTE2PA ?e) va ?P (take (Suc l - length ?P) ps) (drop (Suc l - length ?P) ps) s pte s'
        else \<exists>s'. walk_loop l (PTE2PA ?e) va True s = (0, s')"
      by (rule IH) (use Suc.prems(3-5) P in auto)
    have step: "walked kend (Suc l) t va P Q rest s pte s'"
      if w: "walked kend l (PTE2PA ?e) va ?P Q rest s pte s'" and Q: "set Q \<subseteq> set ps" for Q rest pte s'
    proof -
      have "pmem s' (?x + of_nat i) = pmem s (?x + of_nat i)" if "i < 8" for i
      proof -
        have pg: "PGROUNDDOWN (?x + of_nat i) = t" using entry_page [OF t(1) that] .
        have "last ?P \<noteq> t" using Suc.prems(4) P by (metis distinct.simps(2) last_in_set tables_ne)
        moreover have "unat (last ?P) mod 4096 = 0" using Suc.prems(3) P by auto
        ultimately have "\<not> unat (?x + of_nat i - (last ?P + 8 * PX (Suc l - length ?P) va)) < 8"
          using entry_window_page [of "last ?P" "?x + of_nat i" "Suc l - length ?P" va] pg by metis
        moreover have "PGROUNDDOWN (?x + of_nat i) \<notin> set Q" using pg t(2) Q by auto
        ultimately show ?thesis using walked_frame [OF w] by simp
      qed
      then have "load64 (pmem s') ?x = ?e" by (rule entry_load_cong)
      then show ?thesis using w True P n unfolding walked_def by (auto simp: Let_def)
    qed
    show ?thesis
    proof (cases "Suc l - length ?P \<le> length ps")
      case True
      then show ?thesis using IH' W n step [OF _ set_take_subset] by auto
    next
      case False
      then show ?thesis using IH' W n by auto
    qed
  next
    case invalid: False
    have P: "P = [t]" using Suc.prems(2) invalid by (simp add: Let_def)
    show ?thesis
    proof (cases ps)
      case Nil
      then have "kalloc s = (0, s)" using kalloc_empty Suc.prems(1) by simp
      then show ?thesis using invalid P Nil by (simp add: Let_def)
    next
      case (Cons pg ps')
      note K = kalloc_free_pages [OF Suc.prems(1) [unfolded Cons]]
      have pg: "unat pg mod 4096 = 0" "pg \<noteq> 0" "pg \<notin> set ps'" "pg \<noteq> t" "t \<notin> set ps'" "distinct ps'"
        using Suc.prems(1) Cons t(2) by (auto simp: free_pages_def page_ok_def)
      let ?s1 = "snd (kalloc s)"
      let ?m = "store64 (memset (pmem ?s1) pg 0 4096) ?x (PA2PTE pg OR PTE_V)"
      let ?s2 = "?s1\<lparr>pmem := ?m\<rparr>"
      have m: "?m a = pmem s a" if "PGROUNDDOWN a \<noteq> pg" "\<not> unat (a - ?x) < 8" for a
        using that K(3) [of a] by (simp add: store64_other memset_page_at [OF pg(1)])
      have W: "walk_loop (Suc l) t va True s = walk_loop l pg va True ?s2"
        using invalid K(1) pg(2) by (simp add: Let_def split_beta prod_eq_iff)
      have f2: "free_pages kend ?s2 ps'"
      proof (rule free_pages_frame [OF K(2)])
        fix a assume a: "PGROUNDDOWN a \<in> set ps'"
        then have "PGROUNDDOWN a \<noteq> pg" "PGROUNDDOWN a \<noteq> t" using pg by auto
        then show "pmem ?s2 a = pmem ?s1 a"
          by (simp add: entry_store_other [OF t(1)] memset_page_at [OF pg(1)])
      qed simp
      have P2: "[pg] = tables l pg va (pmem ?s2)"
      proof (cases l)
        case (Suc l')
        have "load64 ?m (pg + 8 * PX (Suc l') va) = load64 (memset (pmem ?s1) pg 0 4096) (pg + 8 * PX (Suc l') va)"
          using entry_page [OF pg(1)] pg(4) by (intro entry_load_cong) (simp add: entry_store_other [OF t(1)])
        then show ?thesis using Suc by (simp add: Let_def entry_zero_page [OF pg(1)])
      qed simp
      have n1: "Suc l - length [pg] = l" by simp
      have IH: "if l \<le> length ps'
        then \<exists>pte s'. walk_loop l pg va True ?s2 = (pte, s') \<and> walked kend l pg va [pg] (take l ps') (drop l ps') ?s2 pte s'
        else \<exists>s'. walk_loop l pg va True ?s2 = (0, s')"
        using Suc.IH [OF f2 P2, unfolded n1] pg by simp
      have step: "walked kend (Suc l) t va P (pg # Q) rest s pte s'"
        if w: "walked kend l pg va [pg] Q rest ?s2 pte s'" and Q: "set Q \<subseteq> set ps'" for Q rest pte s'
      proof -
        have win: "\<not> unat (a - (pg + 8 * PX l va)) < 8" if "PGROUNDDOWN a \<noteq> pg" for a
          using that entry_window_page [OF pg(1)] by blast
        have fr: "pmem s' a = ?m a" if "PGROUNDDOWN a \<noteq> pg" "PGROUNDDOWN a \<notin> set Q" for a
          using walked_frame [OF w, of a] that win by simp
        have "pmem s' (?x + of_nat i) = ?m (?x + of_nat i)" if "i < 8" for i
        proof (rule fr)
          show "PGROUNDDOWN (?x + of_nat i) \<noteq> pg" "PGROUNDDOWN (?x + of_nat i) \<notin> set Q"
            using entry_page [OF t(1) that, of "Suc l" va] pg(4,5) Q by auto
        qed
        then have "load64 (pmem s') ?x = load64 ?m ?x" by (rule entry_load_cong)
        also have "\<dots> = PA2PTE pg OR PTE_V" by (rule load64_store64_same)
        finally have e: "load64 (pmem s') ?x = PA2PTE pg OR PTE_V" .
        have "unat PTE_V < 1024" by (simp add: PTE_V_def)
        then have pa: "PTE2PA (PA2PTE pg OR PTE_V) = pg" by (rule PTE2PA_PA2PTE [OF pg(1)])
        have "tables (Suc l) t va (pmem s') = t # pg # Q" "length (t # pg # Q) = Suc (Suc l)" "free_pages kend s' rest"
          "pte = last (t # pg # Q) + 8 * PX 0 va"
          using w pa PTE_V_OR [of "PA2PTE pg"] unfolding walked_def by (simp_all add: Let_def e)
        moreover have "load64 (pmem s') pte = 0"
        proof (cases "Q = []")
          case True
          then have "pmem s' = ?m" "pte = pg + 8 * PX 0 va" using w unfolding walked_def by auto
          moreover have "load64 ?m (pg + 8 * PX 0 va) = load64 (memset (pmem ?s1) pg 0 4096) (pg + 8 * PX 0 va)"
            using entry_page [OF pg(1)] pg(4) by (intro entry_load_cong) (simp add: entry_store_other [OF t(1)])
          ultimately show ?thesis by (simp add: entry_zero_page [OF pg(1)])
        qed (use w in \<open>auto simp: walked_def\<close>)
        moreover have "pmem s' a = pmem s a" if "PGROUNDDOWN a \<notin> set (pg # Q)" "\<not> unat (a - ?x) < 8" for a
          using fr [of a] m [of a] that by simp
        ultimately show ?thesis unfolding walked_def P by simp
      qed
      have n2: "Suc (Suc l) - length P = Suc l" using P by simp
      show ?thesis
      proof (cases "l \<le> length ps'")
        case True
        then obtain pte s' where "walk_loop l pg va True ?s2 = (pte, s')"
          "walked kend l pg va [pg] (take l ps') (drop l ps') ?s2 pte s'" using IH by auto
        then show ?thesis using True W Cons step [OF _ set_take_subset] unfolding n2 by auto
      next
        case False
        then show ?thesis using IH W Cons unfolding n2 by auto
      qed
    qed
  qed
qed

subsection \<open>Translation\<close>

lemma walk_loop_read:
  "walk_loop l t va False s =
     (if length (tables l t va (pmem s)) = Suc l then last (tables l t va (pmem s)) + 8 * PX 0 va else 0, s)"
  by (induction l arbitrary: t) (auto simp: Let_def)

lemma walkaddr_tables:
  assumes "va < MAXVA" "\<forall>p\<in>set (tables 2 pt va (pmem s)). unat p mod 4096 = 0 \<and> p \<noteq> 0"
  shows "walkaddr pt va s =
    (if length (tables 2 pt va (pmem s)) = 3
     then let e = load64 (pmem s) (last (tables 2 pt va (pmem s)) + 8 * PX 0 va) in
       if e AND PTE_V = 0 then 0 else if e AND PTE_U = 0 then 0 else PTE2PA e
     else 0)"
proof -
  define T where "T = tables 2 pt va (pmem s)"
  have "last T \<in> set T" by (simp add: T_def)
  then have al: "unat (last T) mod 4096 = 0" "last T \<noteq> 0" using assms(2) by (auto simp: T_def)
  have nz: "last T + 8 * PX 0 va \<noteq> 0" by (rule entry_nonzero [OF al])
  define pte where "pte = last T + 8 * PX 0 va"
  have three: "Suc 2 = 3" by simp
  have max: "(MAXVA \<le> va) = False" using assms(1) by simp
  have nz: "(pte = 0) = False" using nz by (simp only: pte_def)
  show ?thesis
    unfolding walkaddr_def walk_loop_read T_def [symmetric] pte_def [symmetric] Let_def three max
    by (cases "length T = 3") (simp_all only: if_True if_False nz prod.case refl simp_thms)
qed

lemma tables_cong:
  assumes "\<And>j. j < length (tables l t va m) \<Longrightarrow> j < l \<Longrightarrow>
      load64 m' (tables l t va m ! j + 8 * PX (l - j) va) = load64 m (tables l t va m ! j + 8 * PX (l - j) va)"
  shows "tables l t va m' = tables l t va m"
  using assms
proof (induction l arbitrary: t)
  case (Suc l)
  let ?e = "load64 m (t + 8 * PX (Suc l) va)"
  have e: "load64 m' (t + 8 * PX (Suc l) va) = ?e" using Suc.prems [of 0] by (simp add: Let_def)
  show ?case
  proof (cases "?e AND PTE_V = 0")
    case True
    then show ?thesis by (simp add: Let_def e)
  next
    case False
    have "tables l (PTE2PA ?e) va m' = tables l (PTE2PA ?e) va m"
      by (rule Suc.IH) (use Suc.prems [of "Suc _"] False in \<open>simp add: Let_def\<close>)
    then show ?thesis using False by (simp add: Let_def e)
  qed
qed simp

lemma tables_stop:
  "length (tables l t va m) \<le> l \<Longrightarrow>
   load64 m (last (tables l t va m) + 8 * PX (Suc l - length (tables l t va m)) va) AND PTE_V = 0"
proof (induction l arbitrary: t)
  case (Suc l)
  then show ?case by (auto simp: Let_def Suc_diff_le length_tables split: if_splits)
qed simp

lemma tables_go:
  "length (tables l t va m) = Suc l \<Longrightarrow> j < l \<Longrightarrow> load64 m (tables l t va m ! j + 8 * PX (l - j) va) AND PTE_V \<noteq> 0"
proof (induction l arbitrary: t j)
  case (Suc l)
  then show ?case by (cases j) (auto simp: Let_def split: if_splits)
qed simp

text \<open>Two entries of a table overlap only if they are the same.\<close>

lemma entry_overlap:
  assumes "unat (t + 8 * PX l va + of_nat k - (t + 8 * PX l' va')) < 8" "k < 8"
  shows "PX l va = PX l' va'"
proof -
  let ?n = "8 * unat (PX l va) + k" and ?m = "8 * unat (PX l' va')"
  have b: "?n < 2 ^ 64" "?m < 2 ^ 64" using PX_less [of l va] PX_less [of l' va'] assms(2) by simp_all
  have "t + 8 * PX l va + of_nat k - (t + 8 * PX l' va') = of_nat ?n - of_nat ?m" by simp
  then have d: "unat (of_nat ?n - of_nat ?m :: u64) < 8" using assms(1) by (simp only:)
  have u: "unat (of_nat ?n :: u64) = ?n" by (rule unat_of_nat_small) (use b in simp)
  have v: "unat (of_nat ?m :: u64) = ?m" by (rule unat_of_nat_small) (use b in simp) 
  have "?m \<le> ?n \<and> ?n - ?m < 8"
  proof (rule ccontr)
    assume c: "\<not> (?m \<le> ?n \<and> ?n - ?m < 8)"
    have "unat (of_nat ?n - of_nat ?m :: u64) = (if ?m \<le> ?n then ?n - ?m else ?n + 2 ^ 64 - ?m)"
      unfolding unat_sub_if' word_le_nat_alt u v by simp
    then show False using c d PX_less [of l' va'] by (auto split: if_splits)
  qed
  then have "unat (PX l va) = unat (PX l' va')" using assms(2) by linarith
  then show ?thesis by simp
qed

subsection \<open>Mapping a page\<close>

text \<open>
  The tables on the way to \<open>va\<close> are whole pages, each used once, and none of them is free.
\<close>

definition tables_ok :: "u64 list \<Rightarrow> u64 \<Rightarrow> u64 \<Rightarrow> mem \<Rightarrow> bool" where
  "tables_ok ps pt va m \<longleftrightarrow> (let T = tables 2 pt va m in
     distinct T \<and> (\<forall>p\<in>set T. unat p mod 4096 = 0 \<and> p \<noteq> 0 \<and> p \<notin> set ps))"

text \<open>
  The mapping of one page at \<open>va\<close>: \<open>Q\<close> are the tables it adds; only they and one entry change.
\<close>

lemma mappages_one:
  assumes "free_pages kend s ps" and "tables_ok ps pt va (pmem s)" and "va < MAXVA" and "va mod PGSIZE = 0"
    and "length (tables 2 pt va (pmem s)) = 3 \<Longrightarrow>
      load64 (pmem s) (last (tables 2 pt va (pmem s)) + 8 * PX 0 va) AND PTE_V = 0"
  defines "P \<equiv> tables 2 pt va (pmem s)"
  defines "x \<equiv> last P + 8 * PX (3 - length P) va"
  shows "if 3 - length P \<le> length ps
    then \<exists>s'. mappages pt va PGSIZE pa perm s = Inr (0, s') \<and> free_pages kend s' (drop (3 - length P) ps)
      \<and> tables 2 pt va (pmem s') = P @ take (3 - length P) ps \<and> length (tables 2 pt va (pmem s')) = 3
      \<and> load64 (pmem s') (last (tables 2 pt va (pmem s')) + 8 * PX 0 va) = PA2PTE pa OR perm OR PTE_V
      \<and> (\<forall>a. PGROUNDDOWN a \<notin> set (take (3 - length P) ps) \<and> \<not> unat (a - x) < 8 \<longrightarrow> pmem s' a = pmem s a)
    else \<exists>s'. mappages pt va PGSIZE pa perm s = Inr (-1, s')"
proof -
  let ?n = "3 - length P" let ?Q = "take ?n ps"
  have P: "\<forall>p\<in>set P. unat p mod 4096 = 0" "distinct P" "set P \<inter> set ps = {}" "0 \<notin> set P"
    using assms(2) unfolding P_def by (auto simp: tables_ok_def Let_def)
  have n: "Suc 2 - length P = ?n" by simp
  note W = walk_loop_alloc [OF assms(1) P_def [THEN meta_eq_to_obj_eq] P(1-3), unfolded n]
  have size: "va + PGSIZE - PGSIZE = va" by simp
  have pre: "mappages pt va PGSIZE pa perm s = mappages_loop pt va va pa perm s"
    using assms(4) by (simp add: mappages_def PGSIZE_def)
  have walk: "walk pt va True s = Inr (walk_loop 2 pt va True s)" using assms(3) by (simp add: walk_def)
  show ?thesis
  proof (cases "?n \<le> length ps")
    case False
    then obtain s' where "walk_loop 2 pt va True s = (0, s')" using W by auto
    then have "mappages pt va PGSIZE pa perm s = Inr (-1, s')"
      unfolding pre by (subst mappages_loop.simps) (simp add: walk)
    then show ?thesis using False by auto
  next
    case True
    then obtain pte s1 where w: "walk_loop 2 pt va True s = (pte, s1)"
      and W1: "walked kend 2 pt va P ?Q (drop ?n ps) s pte s1" using W by auto
    have t1: "tables 2 pt va (pmem s1) = P @ ?Q" "length (P @ ?Q) = 3" "free_pages kend s1 (drop ?n ps)"
      "pte = last (P @ ?Q) + 8 * PX 0 va"
      using W1 by (auto simp: walked_def)
    define leaf where "leaf = last (P @ ?Q)"
    have "leaf \<in> set P \<or> leaf \<in> set ?Q" using t1(2) unfolding leaf_def by (metis Un_iff last_in_set list.size(3) set_append zero_neq_numeral)
    then have al: "unat leaf mod 4096 = 0" "leaf \<noteq> 0"
      using P(1,4) kpages.pages_ok [OF assms(1)] page_ok_mod in_set_takeD by (metis, metis)
    have dist: "distinct (P @ ps)" using P(2,3) assms(1) by (auto simp: free_pages_def)
    then have dist: "distinct (P @ ?Q)" "leaf \<notin> set (drop ?n ps)"
      using \<open>leaf \<in> set P \<or> leaf \<in> set ?Q\<close> by (auto dest: in_set_takeD in_set_dropD simp: set_take_disj_set_drop_if_distinct)
      (meson disjoint_iff order_refl set_take_disj_set_drop_if_distinct)
    have pte: "pte = leaf + 8 * PX 0 va" "pte \<noteq> 0" using t1(4) entry_nonzero [OF al] by (simp_all add: leaf_def)
    have free: "load64 (pmem s1) pte AND PTE_V = 0"
    proof (cases "?Q = []")
      case True
      then have "pmem s1 = pmem s" using W1 unfolding walked_def by auto
      moreover have "length P = 3" using t1(2) True by simp
      ultimately show ?thesis using assms(5) pte True by (simp add: leaf_def P_def)
    next
      case False
      then have "load64 (pmem s1) pte = 0" using W1 unfolding walked_def by blast
      then show ?thesis by (simp only: and_zero_eq bit.conj_zero_left)
    qed
    let ?m = "store64 (pmem s1) pte (PA2PTE pa OR perm OR PTE_V)" let ?s = "s1\<lparr>pmem := ?m\<rparr>"
    have other: "?m a = pmem s1 a" if "PGROUNDDOWN a \<noteq> leaf" for a
      unfolding pte by (rule entry_store_other [OF al(1) that])
    have "mappages pt va PGSIZE pa perm s = Inr (0, ?s)"
      unfolding pre by (subst mappages_loop.simps) (simp add: walk w pte(2) free Let_def)
    moreover have "free_pages kend ?s (drop ?n ps)"
    proof (rule free_pages_frame [OF t1(3)])
      fix a assume "PGROUNDDOWN a \<in> set (drop ?n ps)"
      then have "PGROUNDDOWN a \<noteq> leaf" using dist(2) by metis
      then show "pmem ?s a = pmem s1 a" using other by simp
    qed simp
    moreover have T: "tables 2 pt va ?m = P @ ?Q"
    proof -
      have "tables 2 pt va ?m = tables 2 pt va (pmem s1)"
      proof (rule tables_cong)
        fix j assume j: "j < length (tables 2 pt va (pmem s1))" "j < 2"
        let ?t = "tables 2 pt va (pmem s1) ! j"
        have "?t \<noteq> leaf"
        proof -
          have "P @ ?Q \<noteq> []" using t1(2) by (metis list.size(3) zero_neq_numeral)
          then have "leaf = (P @ ?Q) ! (length (P @ ?Q) - 1)" unfolding leaf_def by (rule last_conv_nth)
          then have "leaf = (P @ ?Q) ! 2" unfolding t1(2) by simp
          moreover have "2 < length (P @ ?Q)" "j < length (P @ ?Q)" "j \<noteq> 2" using t1(2) j by simp_all
          ultimately show ?thesis using dist(1) unfolding t1(1) by (metis nth_eq_iff_index_eq)
        qed
        moreover have "unat ?t mod 4096 = 0"
          using j(1) P(1) assms(1) nth_mem [OF j(1)] unfolding t1(1)
          by (auto simp: free_pages_def page_ok_def dest: in_set_takeD)
        ultimately show "load64 ?m (?t + 8 * PX (2 - j) va) = load64 (pmem s1) (?t + 8 * PX (2 - j) va)"
          using entry_page other by (intro entry_load_cong) simp
      qed
      then show ?thesis using t1(1) by simp
    qed
    moreover have "load64 ?m (last (P @ ?Q) + 8 * PX 0 va) = PA2PTE pa OR perm OR PTE_V"
      unfolding leaf_def [symmetric] pte(1) [symmetric] by (rule load64_store64_same)
    moreover have "?m a = pmem s a" if "PGROUNDDOWN a \<notin> set ?Q" "\<not> unat (a - x) < 8" for a
    proof -
      have "pmem s1 a = pmem s a" using walked_frame [OF W1 that(1)] that(2) unfolding x_def by simp
      moreover have "?m a = pmem s1 a"
      proof (cases "?Q = []")
        case True
        then have "length P = 3" using t1(2) by (metis append_Nil2)
        then have "pte = x" using True pte(1) by (simp add: leaf_def x_def)
        then show ?thesis using that(2) by (simp add: store64_other)
      next
        case False
        then have "leaf \<in> set ?Q" by (simp add: leaf_def)
        then have "PGROUNDDOWN a \<noteq> leaf" using that(1) by metis
        then show ?thesis by (rule other)
      qed
      ultimately show ?thesis by simp
    qed
    ultimately show ?thesis using True t1(2) by auto
  qed
qed

lemma flags_small: "unat (perm OR PTE_V) < 1024" if "unat perm < 1024"
proof -
  have "take_bit 10 perm = perm" using that by (simp flip: unat_inject add: unat_take_bit)
  then have "perm OR PTE_V = take_bit 10 (perm OR PTE_V)" by (simp add: PTE_V_def take_bit_or) 
  then have "unat (perm OR PTE_V) = unat (perm OR PTE_V) mod 2 ^ 10" using unat_take_bit by metis
  moreover have "unat (perm OR PTE_V) mod 2 ^ 10 < 1024" by simp
  ultimately show ?thesis by (simp only:)
qed

lemma flag_kept: "(b AND c) \<noteq> 0 \<Longrightarrow> (a OR b OR d) AND c \<noteq> 0" for a b c d :: u64
proof
  assume nz: "b AND c \<noteq> 0" and z: "(a OR b OR d) AND c = 0"
  obtain n where "bit (b AND c) n" using nz by (metis bit_0_eq bot_apply bot_bool_def bit_eqI bit_eq_iff)
  then have "bit ((a OR b OR d) AND c) n" by (simp add: bit_and_iff bit_or_iff)
  then show False unfolding z by simp
qed

text \<open>An entry on the way to another mapped address is not the one that changes.\<close>

lemma other_entry:
  assumes va': "length (tables 2 pt va' m) = 3" "load64 m (last (tables 2 pt va' m) + 8 * PX 0 va') AND PTE_V \<noteq> 0"
    and al: "\<forall>p\<in>set (tables 2 pt va' m). unat p mod 4096 = 0" "\<forall>p\<in>set (tables 2 pt va m). unat p mod 4096 = 0"
    and sep: "\<forall>j<3. \<forall>k<length (tables 2 pt va m). tables 2 pt va' m ! j = tables 2 pt va m ! k \<longrightarrow> j = k"
    and new: "length (tables 2 pt va m) = 3 \<longrightarrow> load64 m (last (tables 2 pt va m) + 8 * PX 0 va) AND PTE_V = 0"
    and j: "j < 3" "i < 8"
  shows "\<not> unat (tables 2 pt va' m ! j + 8 * PX (2 - j) va' + of_nat i
    - (last (tables 2 pt va m) + 8 * PX (3 - length (tables 2 pt va m)) va)) < 8"
proof
  let ?T = "tables 2 pt va m" and ?T' = "tables 2 pt va' m"
  assume w: "unat (?T' ! j + 8 * PX (2 - j) va' + of_nat i - (last ?T + 8 * PX (3 - length ?T) va)) < 8"
  have tj: "unat (?T' ! j) mod 4096 = 0" using al(1) va'(1) j(1) nth_mem [of j ?T'] by simp
  have tl: "unat (last ?T) mod 4096 = 0" using al(2) by simp
  have same: "?T' ! j = last ?T" using entry_window_page [OF tl w] entry_page [OF tj j(2)] by simp
  have lenT: "length ?T \<le> 3" "0 < length ?T" using length_tables [of 2 pt va m] by simp_all
  have lst: "last ?T = ?T ! (length ?T - 1)" by (simp add: last_conv_nth)
  have jk: "j = length ?T - 1" using sep j(1) same lst lenT by (metis diff_less less_numeral_extra(1))
  have lev: "3 - length ?T = 2 - j" using jk lenT by linarith
  have idx: "PX (2 - j) va' = PX (2 - j) va"
    using w unfolding same [symmetric] lev by (rule entry_overlap) (rule j(2))
  show False
  proof (cases "j < 2")
    case True
    have "load64 m (?T' ! j + 8 * PX (2 - j) va') AND PTE_V \<noteq> 0"
      using tables_go [of 2 pt va' m j] va'(1) True by simp
    moreover have "load64 m (last ?T + 8 * PX (Suc 2 - length ?T) va) AND PTE_V = 0"
      using jk True lenT by (intro tables_stop) simp
    ultimately show False using same idx lev by simp
  next
    case False
    then have j2: "j = 2" using j(1) by simp
    then have "length ?T = 3" "last ?T' = last ?T" using jk same va'(1) by (simp_all add: last_conv_nth)
    then show False using new va'(2) idx j2 by simp
  qed
qed

lemma walk_kept:
  assumes "va < MAXVA" "walkaddr pt va s \<noteq> 0" "tables_ok ps pt va (pmem s)" "set qs \<subseteq> set ps"
    and fr: "\<And>a. PGROUNDDOWN a \<notin> set qs \<Longrightarrow> \<not> unat (a - x) < 8 \<Longrightarrow> pmem s' a = pmem s a"
    and other: "\<And>i j. \<lbrakk>i < 8; j < 3; length (tables 2 pt va (pmem s)) = 3;
        load64 (pmem s) (last (tables 2 pt va (pmem s)) + 8 * PX 0 va) AND PTE_V \<noteq> 0\<rbrakk>
      \<Longrightarrow> \<not> unat (tables 2 pt va (pmem s) ! j + 8 * PX (2 - j) va + of_nat i - x) < 8"
  shows "walkaddr pt va s' = walkaddr pt va s"
proof -
  let ?T = "tables 2 pt va (pmem s)"
  have ok: "\<forall>p\<in>set ?T. unat p mod 4096 = 0 \<and> p \<noteq> 0" "\<forall>p\<in>set ?T. p \<notin> set ps"
    using assms(3) by (simp_all add: tables_ok_def Let_def)
  note W = walkaddr_tables [OF assms(1) ok(1)]
  have L: "length ?T = 3" "load64 (pmem s) (last ?T + 8 * PX 0 va) AND PTE_V \<noteq> 0"
    using assms(2) W by (auto simp: Let_def split: if_splits)
  have keep: "load64 (pmem s') (?T ! j + 8 * PX (2 - j) va) = load64 (pmem s) (?T ! j + 8 * PX (2 - j) va)" if j: "j < 3" for j
  proof (rule entry_load_cong)
    fix i :: nat assume i: "i < 8"
    have tj: "?T ! j \<in> set ?T" using L(1) j by simp
    have "PGROUNDDOWN (?T ! j + 8 * PX (2 - j) va + of_nat i) = ?T ! j" using ok(1) tj entry_page i by simp
    moreover have "?T ! j \<notin> set qs" using ok(2) tj assms(4) by auto
    ultimately show "pmem s' (?T ! j + 8 * PX (2 - j) va + of_nat i) = pmem s (?T ! j + 8 * PX (2 - j) va + of_nat i)"
      using fr other [OF i j L] by simp
  qed
  have same: "tables 2 pt va (pmem s') = ?T" by (rule tables_cong) (simp add: keep)
  have "last ?T = ?T ! 2" using L(1) by (simp add: last_conv_nth)
  then have "load64 (pmem s') (last ?T + 8 * PX 0 va) = load64 (pmem s) (last ?T + 8 * PX 0 va)" using keep [of 2] by simp
  then show ?thesis using W walkaddr_tables [of va pt s'] assms(1) ok(1) unfolding same by simp
qed

text \<open>
  C8: mapping a page works. With the tables on the way to \<open>va\<close> intact, no mapping there yet and enough free pages for
  the missing tables, \<open>mappages\<close> of one page succeeds, takes exactly the missing tables from the
  free list, and afterwards \<open>walkaddr\<close> translates \<open>va\<close> to the physical page given (for a user mapping);
  every other mapped address whose tables are intact translates as before. Without enough free pages it returns -1.\<close>

theorem mappages_translates:
  assumes "free_pages kend s ps" and "tables_ok ps pt va (pmem s)" and "va < MAXVA" and "va mod PGSIZE = 0"
    and "pa mod PGSIZE = 0" and "unat perm < 1024" and "perm AND PTE_U \<noteq> 0"
    and "length (tables 2 pt va (pmem s)) = 3 \<longrightarrow>
      load64 (pmem s) (last (tables 2 pt va (pmem s)) + 8 * PX 0 va) AND PTE_V = 0"
  shows "if 3 - length (tables 2 pt va (pmem s)) \<le> length ps
    then \<exists>s'. mappages pt va PGSIZE pa perm s = Inr (0, s')
      \<and> free_pages kend s' (drop (3 - length (tables 2 pt va (pmem s))) ps)
      \<and> walkaddr pt va s' = pa
      \<and> (\<forall>va'. va' < MAXVA \<and> walkaddr pt va' s \<noteq> 0 \<and> tables_ok ps pt va' (pmem s)
           \<and> (\<forall>j<3. \<forall>k<length (tables 2 pt va (pmem s)).
                tables 2 pt va' (pmem s) ! j = tables 2 pt va (pmem s) ! k \<longrightarrow> j = k)
           \<longrightarrow> walkaddr pt va' s' = walkaddr pt va' s)
    else \<exists>s'. mappages pt va PGSIZE pa perm s = Inr (-1, s')"
proof -
  define P where "P = tables 2 pt va (pmem s)"
  define x where "x = last P + 8 * PX (3 - length P) va"
  let ?n = "3 - length P" let ?Q = "take ?n ps"
  note M = mappages_one [OF assms(1-4), of pa perm, folded P_def, folded x_def]
  have M: "if ?n \<le> length ps
    then \<exists>s'. mappages pt va PGSIZE pa perm s = Inr (0, s') \<and> free_pages kend s' (drop ?n ps)
      \<and> tables 2 pt va (pmem s') = P @ ?Q \<and> length (tables 2 pt va (pmem s')) = 3
      \<and> load64 (pmem s') (last (tables 2 pt va (pmem s')) + 8 * PX 0 va) = PA2PTE pa OR perm OR PTE_V
      \<and> (\<forall>a. PGROUNDDOWN a \<notin> set ?Q \<and> \<not> unat (a - x) < 8 \<longrightarrow> pmem s' a = pmem s a)
    else \<exists>s'. mappages pt va PGSIZE pa perm s = Inr (-1, s')"
    using M assms(8) by (simp add: P_def)
  show ?thesis
  proof (cases "?n \<le> length ps")
    case False
    then show ?thesis using M by (simp add: P_def)
  next
    case True
    then obtain s' where s': "mappages pt va PGSIZE pa perm s = Inr (0, s')" "free_pages kend s' (drop ?n ps)"
      and T: "tables 2 pt va (pmem s') = P @ ?Q" "length (tables 2 pt va (pmem s')) = 3"
      and leaf: "load64 (pmem s') (last (tables 2 pt va (pmem s')) + 8 * PX 0 va) = PA2PTE pa OR perm OR PTE_V"
      and fr: "\<And>a. PGROUNDDOWN a \<notin> set ?Q \<Longrightarrow> \<not> unat (a - x) < 8 \<Longrightarrow> pmem s' a = pmem s a"
      using M by auto
    have okQ: "unat p mod 4096 = 0 \<and> p \<noteq> 0" if "p \<in> set ?Q" for p
      using kpages.pages_ok [OF assms(1)] page_ok_mod in_set_takeD [OF that] by metis
    have okP: "\<forall>p\<in>set P. unat p mod 4096 = 0 \<and> p \<noteq> 0" using assms(2) by (simp add: tables_ok_def P_def Let_def)
    have pa: "PTE2PA (PA2PTE pa OR (perm OR PTE_V)) = pa"
      using assms(5) flags_small [OF assms(6)] by (intro PTE2PA_PA2PTE) (simp_all add: aligned_mod_iff)
    have "walkaddr pt va s' = pa"
    proof -
      have "\<forall>p\<in>set (tables 2 pt va (pmem s')). unat p mod 4096 = 0 \<and> p \<noteq> 0" using okQ okP unfolding T(1) by auto
      from walkaddr_tables [OF assms(3) this] show ?thesis
        unfolding T(2) leaf Let_def
        using flag_kept [OF assms(7), of "PA2PTE pa" PTE_V] PTE_V_OR [of "PA2PTE pa OR perm"] pa
        by (simp add: or.assoc)
    qed
    moreover have "walkaddr pt va' s' = walkaddr pt va' s"
      if "va' < MAXVA" "walkaddr pt va' s \<noteq> 0" "tables_ok ps pt va' (pmem s)"
        and sep: "\<forall>j<3. \<forall>k<length P. tables 2 pt va' (pmem s) ! j = P ! k \<longrightarrow> j = k" for va'
    proof (rule walk_kept [OF that(1-3), of ?Q x])
      show "set ?Q \<subseteq> set ps" by (rule set_take_subset)
    next
      fix i j :: nat
      assume "i < 8" "j < 3" and L: "length (tables 2 pt va' (pmem s)) = 3"
        "load64 (pmem s) (last (tables 2 pt va' (pmem s)) + 8 * PX 0 va') AND PTE_V \<noteq> 0"
      then show "\<not> unat (tables 2 pt va' (pmem s) ! j + 8 * PX (2 - j) va' + of_nat i - x) < 8"
        unfolding x_def P_def using that(3) okP sep assms(8)
        by (intro other_entry) (auto simp: P_def tables_ok_def Let_def)
    qed (rule fr)
    ultimately show ?thesis using True s' by (auto simp: P_def)
  qed
qed

text \<open>Two free pages and an empty root table.\<close>

definition vmx_kmem :: kmem where
  "vmx_kmem = \<lparr>pmem = store64 (\<lambda>_. 0) 0x80022000 0x80023000, freelist = 0x80022000\<rparr>"

lemma vmx_load: "load64 (pmem vmx_kmem) a = 0" if "a = 0x80023000 \<or> a = 0x80024000 \<or> a = 0x80024008"
  using that by (auto simp: vmx_kmem_def load64_def store64_def)

lemma vmx_free: "free_pages 1 vmx_kmem [0x80022000, 0x80023000]"
proof -
  have "load64 (pmem vmx_kmem) 0x80022000 = 0x80023000"
    by (simp only: vmx_kmem_def kmem.select_convs load64_store64_same)
  then show ?thesis
    by (simp add: free_pages_def page_ok_def vmx_load layout_simps vmx_kmem_def [THEN arg_cong [of _ _ freelist]])
qed

lemma vmx_tables: "tables 2 0x80024000 0x1000 (pmem vmx_kmem) = [0x80024000]"
proof -
  have "PX 2 0x1000 = 0" by (simp add: PX_def PXSHIFT_def)
  then have "load64 (pmem vmx_kmem) (0x80024000 + 8 * PX (Suc 1) 0x1000) = 0"
    unfolding Suc_1 by (simp add: vmx_load)
  then have "tables (Suc 1) 0x80024000 0x1000 (pmem vmx_kmem) = [0x80024000]" by (simp only: tables.simps Let_def) simp
  then show ?thesis unfolding Suc_1 .
qed

theorem mappages_translates_witness:
  "\<exists>s'. mappages 0x80024000 0x1000 PGSIZE 0x80025000 (PTE_U OR PTE_R) vmx_kmem = Inr (0, s')
     \<and> walkaddr 0x80024000 0x1000 s' = 0x80025000"
  using mappages_translates [OF vmx_free, of "0x80024000" "0x1000" "0x80025000" "PTE_U OR PTE_R"]
  unfolding tables_ok_def vmx_tables Let_def
  by (auto simp: layout_simps PTE_U_def PTE_R_def)

end
