(* ===== verification/Virtio.thy ===== *)
theory Virtio
  imports Bio Kalloc
begin

text \<open>
  \<open>kernel/virtio_disk.c\<close> with the structures of \<open>kernel/virtio.h\<close>. The state extends the buffer cache by the
  descriptors, the two rings and the driver's records; an address handed to the device is one of the three kinds of
  object the driver hands out. A call of \<open>virtio_disk_rw\<close> is cut at the points where it sleeps: \<open>rw_submit\<close> runs until the wait for the
  completion, \<open>rw_finish\<close> after it, and \<open>v_calls\<close> keeps the local variables in between. The disk is not part of the
  repository: its steps are what section 5.2 of the virtio specification says of a request that succeeds, and it may complete the requests it
  has taken in any order. The theorems show that the driver never panics and that, for every interleaving, each call is one atomic transfer
  of its block, which is how the buffer cache uses it.
\<close>

subsection \<open>Structures\<close>

definition NUM :: nat where "NUM = 8"
definition VRING_DESC_F_NEXT :: u16 where "VRING_DESC_F_NEXT = 1"
definition VRING_DESC_F_WRITE :: u16 where "VRING_DESC_F_WRITE = 2"
definition VIRTIO_BLK_T_IN :: u32 where "VIRTIO_BLK_T_IN = 0"
definition VIRTIO_BLK_T_OUT :: u32 where "VIRTIO_BLK_T_OUT = 1"

datatype vaddr = Null | Op_at nat | Data_of nat | Status_at nat

record virtq_desc =
  d_addr :: vaddr
  d_len :: u32
  d_flags :: u16
  d_next :: u16

record virtio_blk_req =
  r_type :: u32
  r_reserved :: u32
  r_sector :: u64

datatype wchan = Buf_chan nat | Free_chan

text \<open>The local variables of a sleeping \<open>virtio_disk_rw\<close>: \<open>idx[0..2]\<close> and \<open>write\<close>.\<close>

record call =
  i0 :: nat
  i1 :: nat
  i2 :: nat
  c_write :: bool

record vio = bio +
  v_desc :: "nat \<Rightarrow> virtq_desc"
  v_avail_idx :: u16
  v_avail :: "nat \<Rightarrow> u16"
  v_used_idx :: u16
  v_used :: "nat \<Rightarrow> u32"
  v_free :: "nat \<Rightarrow> bool"
  v_seen :: u16
  v_info_b :: "nat \<Rightarrow> nat option"
  v_status :: "nat \<Rightarrow> byte"
  v_ops :: "nat \<Rightarrow> virtio_blk_req"
  v_busy :: "nat \<Rightarrow> bool"
  v_wakes :: "wchan list"
  v_notify :: nat
  v_calls :: "nat \<Rightarrow> call option"
  v_taken :: u16
  v_work :: "nat list"

subsection \<open>Descriptors\<close>

text \<open>\<open>alloc_desc\<close> scans \<open>disk.free\<close> from an index on; \<open>None\<close> is -1.\<close>

fun alloc_scan :: "nat list \<Rightarrow> vio \<Rightarrow> (nat \<times> vio) option" where
  "alloc_scan [] s = None"
| "alloc_scan (i # is) s = (if v_free s i then Some (i, s\<lparr>v_free := (v_free s)(i := False)\<rparr>) else alloc_scan is s)"

definition alloc_desc :: "vio \<Rightarrow> (nat \<times> vio) option" where
  "alloc_desc s = alloc_scan [0..<NUM] s"

definition free_desc :: "nat \<Rightarrow> vio \<Rightarrow> vio res" where
  "free_desc i s =
     (if NUM \<le> i then panic ''free_desc 1''
      else if v_free s i then panic ''free_desc 2''
      else Inr (s\<lparr>v_desc := (v_desc s)(i := \<lparr>d_addr = Null, d_len = 0, d_flags = 0, d_next = 0\<rparr>),
                  v_free := (v_free s)(i := True), v_wakes := v_wakes s @ [Free_chan]\<rparr>))"

definition used_descs :: "vio \<Rightarrow> nat" where
  "used_descs s = card {i. i < NUM \<and> \<not> v_free s i}"

lemma free_desc_used: "free_desc i s = Inr s' \<Longrightarrow> used_descs s' < used_descs s"
proof -
  assume f: "free_desc i s = Inr s'"
  then have i: "i < NUM" "\<not> v_free s i" "v_free s' = (v_free s)(i := True)" by (auto simp: free_desc_def split: if_splits)
  then have "{j. j < NUM \<and> \<not> v_free s' j} \<subset> {j. j < NUM \<and> \<not> v_free s j}" by auto
  then show ?thesis unfolding used_descs_def by (intro psubset_card_mono) auto
qed

text \<open>The loop of \<open>free_chain\<close> ends because every round frees a descriptor in use.\<close>

function free_chain :: "nat \<Rightarrow> vio \<Rightarrow> vio res" where
  "free_chain i s =
     (let flag = d_flags (v_desc s i); nxt = unat (d_next (v_desc s i)) in
      case free_desc i s of
        Inl e \<Rightarrow> Inl e
      | Inr s \<Rightarrow> if flag AND VRING_DESC_F_NEXT \<noteq> 0 then free_chain nxt s else Inr s)"
  by pat_completeness auto
termination
  by (relation "measure (\<lambda>(i, s). used_descs s)") (auto dest: free_desc_used)

declare free_chain.simps [simp del]

text \<open>
  \<open>alloc3_desc\<close>: when a descriptor is missing the ones already taken are freed again (with a wakeup each), and the caller sleeps.
\<close>

fun free_all :: "nat list \<Rightarrow> vio \<Rightarrow> vio res" where
  "free_all [] s = Inr s"
| "free_all (i # is) s = bindR (free_desc i s) (free_all is)"

fun alloc3_loop :: "nat \<Rightarrow> nat list \<Rightarrow> vio \<Rightarrow> (nat list option \<times> vio) res" where
  "alloc3_loop 0 idx s = Inr (Some idx, s)"
| "alloc3_loop (Suc k) idx s =
     (case alloc_desc s of
        None \<Rightarrow> bindR (free_all idx s) (\<lambda>s. Inr (None, s))
      | Some (i, s) \<Rightarrow> alloc3_loop k (idx @ [i]) s)"

definition alloc3_desc :: "vio \<Rightarrow> (nat list option \<times> vio) res" where
  "alloc3_desc s = alloc3_loop 3 [] s"

subsection \<open>Requests\<close>

definition sector_of :: "u32 \<Rightarrow> u64" where
  "sector_of blockno = ucast (blockno * 2)"

text \<open>The stores of \<open>virtio_disk_rw\<close> that format the three descriptors and hand the chain to the device.\<close>

definition format_request :: "nat \<Rightarrow> bool \<Rightarrow> nat \<Rightarrow> nat \<Rightarrow> nat \<Rightarrow> vio \<Rightarrow> vio" where
  "format_request b wr j0 j1 j2 s =
     (let req = \<lparr>r_type = (if wr then VIRTIO_BLK_T_OUT else VIRTIO_BLK_T_IN), r_reserved = 0,
                 r_sector = sector_of (b_blockno (bufs s b))\<rparr>;
          d0 = \<lparr>d_addr = Op_at j0, d_len = 16, d_flags = VRING_DESC_F_NEXT, d_next = of_nat j1\<rparr>;
          d1 = \<lparr>d_addr = Data_of b, d_len = 1024,
                d_flags = (if wr then 0 else VRING_DESC_F_WRITE) OR VRING_DESC_F_NEXT, d_next = of_nat j2\<rparr>;
          d2 = \<lparr>d_addr = Status_at j0, d_len = 1, d_flags = VRING_DESC_F_WRITE, d_next = 0\<rparr> in
      s\<lparr>v_ops := (v_ops s)(j0 := req), v_desc := (v_desc s)(j0 := d0, j1 := d1, j2 := d2),
        v_status := (v_status s)(j0 := 0xff)\<rparr>)"

definition hand_over :: "nat \<Rightarrow> nat \<Rightarrow> vio \<Rightarrow> vio" where
  "hand_over b j0 s =
     s\<lparr>v_busy := (v_busy s)(b := True), v_info_b := (v_info_b s)(j0 := Some b),
       v_avail := (v_avail s)(unat (v_avail_idx s) mod NUM := of_nat j0), v_avail_idx := v_avail_idx s + 1,
       v_notify := Suc (v_notify s)\<rparr>"

text \<open>Until the call waits for the completion, or for descriptors (\<open>Blocked\<close>, with the state it leaves).\<close>

definition rw_submit :: "nat \<Rightarrow> bool \<Rightarrow> vio \<Rightarrow> (bool \<times> vio) res" where
  "rw_submit b wr s =
     bindR (alloc3_desc s) (\<lambda>(idx, s).
       case idx of
         Some [j0, j1, j2] \<Rightarrow>
           let s = hand_over b j0 (format_request b wr j0 j1 j2 s) in
           Inr (True, s\<lparr>v_calls := (v_calls s)(b := Some \<lparr>i0 = j0, i1 = j1, i2 = j2, c_write = wr\<rparr>)\<rparr>)
       | _ \<Rightarrow> Inr (False, s))"

text \<open>What a woken call does: wait again while \<open>b->disk\<close> is 1, else free the chain and return.\<close>

definition rw_finish :: "nat \<Rightarrow> vio \<Rightarrow> vio res" where
  "rw_finish b s =
     (case v_calls s b of
        None \<Rightarrow> Inl (Undefined ''virtio_disk_rw'')
      | Some c \<Rightarrow>
          if v_busy s b then Inl (Blocked ''virtio_disk_rw'')
          else bindR (free_chain (i0 c) (s\<lparr>v_info_b := (v_info_b s)(i0 c := None)\<rparr>)) (\<lambda>s.
            Inr (s\<lparr>v_calls := (v_calls s)(b := None)\<rparr>)))"

text \<open>The loop of \<open>virtio_disk_intr\<close>; an id outside \<open>info\<close> and a null buffer pointer are undefined.\<close>

function virtio_disk_intr :: "vio \<Rightarrow> vio res" where
  "virtio_disk_intr s =
     (if v_seen s = v_used_idx s then Inr s
      else let id = unat (v_used s (unat (v_seen s) mod NUM)) in
        if NUM \<le> id then Inl (Undefined ''info'')
        else if v_status s id \<noteq> 0 then panic ''virtio_disk_intr''
        else case v_info_b s id of
          None \<Rightarrow> Inl (Undefined ''buf'')
        | Some b \<Rightarrow> virtio_disk_intr (s\<lparr>v_busy := (v_busy s)(b := False), v_wakes := v_wakes s @ [Buf_chan b],
            v_seen := v_seen s + 1\<rparr>))"
  by pat_completeness auto
termination
proof (relation "measure (\<lambda>s. unat (v_used_idx s - v_seen s))", goal_cases)
  case (2 s id b)
  have "v_used_idx s - v_seen s \<noteq> 0" using 2(1) by simp
  then have "unat (v_used_idx s - v_seen s - 1) < unat (v_used_idx s - v_seen s)"
    using unat_minus_one [of "v_used_idx s - v_seen s"] unat_gt_0 [of "v_used_idx s - v_seen s"] by linarith
  then show ?case by (simp add: algebra_simps)
qed simp

declare virtio_disk_intr.simps [simp del]

text \<open>
  \<open>virtio_disk_init\<close>: \<open>rd\<close> gives the device registers by offset, \<open>status_back\<close> the status register as read back after the
  feature negotiation. The result is the sequence of register writes, the three pages of the queue, the page allocator and the state with the
  cleared queue and all descriptors free.
\<close>

definition negotiate :: "u32 \<Rightarrow> u32" where
  "negotiate features = fold (\<lambda>n f. f AND NOT (push_bit n 1)) [5, 7, 11, 12, 27, 29, 28] features"

definition queue_pages :: "kmem \<Rightarrow> (u64 \<times> u64 \<times> u64 \<times> kmem) res" where
  "queue_pages km =
     (let (desc, km) = kalloc km; (avail, km) = kalloc km; (used, km) = kalloc km in
      if desc = 0 \<or> avail = 0 \<or> used = 0 then panic ''virtio disk kalloc''
      else let m = memset (memset (memset (pmem km) desc 0 4096) avail 0 4096) used 0 4096 in
        Inr (desc, avail, used, km\<lparr>pmem := m\<rparr>))"

definition virtio_disk_init ::
  "(nat \<Rightarrow> u32) \<Rightarrow> u32 \<Rightarrow> kmem \<Rightarrow> vio \<Rightarrow> ((nat \<times> u32) list \<times> (u64 \<times> u64 \<times> u64 \<times> kmem) \<times> vio) res" where
  "virtio_disk_init rd status_back km s =
     (if rd 0x000 \<noteq> 0x74726976 \<or> rd 0x004 \<noteq> 2 \<or> rd 0x008 \<noteq> 2 \<or> rd 0x00c \<noteq> 0x554d4551
      then panic ''could not find virtio disk''
      else if status_back AND 8 = 0 then panic ''virtio disk FEATURES_OK unset''
      else if rd 0x044 \<noteq> 0 then panic ''virtio disk should not be ready''
      else if rd 0x034 = 0 then panic ''virtio disk has no queue 0''
      else if rd 0x034 < 8 then panic ''virtio disk max queue too short''
      else bindR (queue_pages km) (\<lambda>(desc, avail, used, km).
        let lo = (\<lambda>p. ucast p :: u32); hi = (\<lambda>p. ucast (drop_bit 32 p) :: u32);
            writes = [(0x070, 0), (0x070, 1), (0x070, 3), (0x020, negotiate (rd 0x010)), (0x070, 11), (0x030, 0),
              (0x038, 8), (0x080, lo desc), (0x084, hi desc), (0x090, lo avail), (0x094, hi avail),
              (0x0a0, lo used), (0x0a4, hi used), (0x044, 1), (0x070, status_back OR 4)];
            none = \<lparr>d_addr = Null, d_len = 0, d_flags = 0, d_next = 0\<rparr> in
        Inr (writes, (desc, avail, used, km),
          s\<lparr>v_desc := (\<lambda>_. none), v_avail_idx := 0, v_avail := (\<lambda>_. 0), v_used_idx := 0, v_used := (\<lambda>_. 0),
            v_free := (\<lambda>i. i < NUM \<or> v_free s i)\<rparr>)))"

subsection \<open>The device\<close>

text \<open>The device takes the next chain of the available ring.\<close>

definition dev_take :: "vio \<Rightarrow> vio option" where
  "dev_take s =
     (if v_taken s = v_avail_idx s then None
      else Some (s\<lparr>v_work := unat (v_avail s (unat (v_taken s) mod NUM)) # v_work s, v_taken := v_taken s + 1\<rparr>))"

text \<open>
  It completes the chain with head \<open>h\<close>: header, data and status descriptor in this order, data of one block to or from the
  sectors named by the header, status 0, and an entry in the used ring.
\<close>

definition dev_done :: "nat \<Rightarrow> vio \<Rightarrow> vio option" where
  "dev_done h s =
     (let d0 = v_desc s h; d1 = v_desc s (unat (d_next d0)); d2 = v_desc s (unat (d_next d1));
          complete = (\<lambda>k s. s\<lparr>v_status := (v_status s)(k := 0),
             v_used := (v_used s)(unat (v_used_idx s) mod NUM := of_nat h), v_used_idx := v_used_idx s + 1,
             v_work := remove1 h (v_work s)\<rparr>) in
      if h \<in> set (v_work s) \<and> d_flags d0 = VRING_DESC_F_NEXT \<and> d_len d0 = 16 \<and> d_len d1 = 1024
         \<and> d_flags d1 AND VRING_DESC_F_NEXT \<noteq> 0 \<and> d_flags d2 = VRING_DESC_F_WRITE \<and> d_len d2 = 1
      then case (d_addr d0, d_addr d1, d_addr d2) of
        (Op_at j, Data_of b, Status_at k) \<Rightarrow>
          let req = v_ops s j; blk = ucast (drop_bit 1 (r_sector req)) in
          if r_type req = VIRTIO_BLK_T_OUT \<and> d_flags d1 AND VRING_DESC_F_WRITE = 0
          then Some (complete k (s\<lparr>disk := (disk s)(blk := b_data (bufs s b)), dtrace := dtrace s @ [(blk, b_data (bufs s b))]\<rparr>))
          else if r_type req = VIRTIO_BLK_T_IN \<and> d_flags d1 AND VRING_DESC_F_WRITE \<noteq> 0
          then Some (complete k (upd_buf b (\<lambda>x. x\<lparr>b_data := disk s blk\<rparr>) s))
          else None
      | _ \<Rightarrow> None
      else None)"

subsection \<open>Rings\<close>

definition ring_q :: "(nat \<Rightarrow> 'a::len word) \<Rightarrow> u16 \<Rightarrow> u16 \<Rightarrow> nat list" where
  "ring_q ring rd wr = map (\<lambda>k. unat (ring (unat (rd + of_nat k) mod NUM))) [0..<unat (wr - rd)]"

lemma slot_mod: "unat (rd + of_nat k :: u16) mod NUM = (unat rd + k) mod 8"
proof -
  have "unat (rd + of_nat k :: u16) = (unat rd + k) mod 2 ^ 16" by (simp add: unat_word_ariths unat_of_nat mod_simps)
  then show ?thesis by (simp add: NUM_def mod_mod_cancel)
qed

lemma slot_neq_8: "k < 8 \<Longrightarrow> j < k \<Longrightarrow> (r + j) mod 8 \<noteq> (r + k) mod (8 :: nat)"
proof
  assume *: "k < 8" "j < k" "(r + j) mod 8 = (r + k) mod 8"
  then have "8 dvd (r + k) - (r + j)" by (intro mod_eq_dvd_iff_nat [THEN iffD1]) auto
  then show False using * by (auto dest: dvd_imp_le)
qed

lemma ring_push:
  assumes "unat (wr - rd) < 8"
  shows "ring_q (ring(unat wr mod NUM := x)) rd (wr + 1) = ring_q ring rd wr @ [unat x]"
proof -
  let ?n = "unat (wr - rd)"
  have "unat (wr - rd + 1) = Suc ?n" using assms by (simp add: unat_plus_if')
  then have S: "unat (wr + 1 - rd) = Suc ?n" by (simp add: algebra_simps)
  have w: "unat wr mod NUM = (unat rd + ?n) mod 8" using slot_mod [of rd ?n] by simp
  show ?thesis
  proof (rule nth_equalityI)
    fix k assume "k < length (ring_q (ring(unat wr mod NUM := x)) rd (wr + 1))"
    then have "k < Suc ?n" by (simp add: ring_q_def S del: upt_Suc)
    then show "ring_q (ring(unat wr mod NUM := x)) rd (wr + 1) ! k = (ring_q ring rd wr @ [unat x]) ! k"
      using slot_neq_8 [of ?n k "unat rd"] assms
      by (cases "k = ?n") (auto simp: ring_q_def S nth_append slot_mod w simp del: upt_Suc)
  qed (simp add: ring_q_def S)
qed

lemma ring_pop:
  assumes "rd \<noteq> wr"
  shows "ring_q ring rd wr = unat (ring (unat rd mod NUM)) # ring_q ring (rd + 1) wr"
proof -
  have "wr - rd \<noteq> 0" using assms by simp
  then obtain m where m: "unat (wr - rd) = Suc m" by (metis not0_implies_Suc unat_0_iff)
  have "wr - (rd + 1) = (wr - rd) - 1" by simp
  then have p: "unat (wr - (rd + 1)) = m" using m unat_minus_one [OF \<open>wr - rd \<noteq> 0\<close>] by (simp only: diff_Suc_1)
  have "(\<lambda>k. unat (ring (unat (rd + of_nat (Suc k)) mod NUM))) = (\<lambda>k. unat (ring (unat (rd + 1 + of_nat k) mod NUM)))"
    by (simp add: add_ac)
  then show ?thesis
    by (simp add: ring_q_def m p upt_conv_Cons map_Suc_upt [symmetric] o_def del: upt_Suc of_nat_Suc)
qed

lemma ring_empty [simp]: "ring_q ring rd rd = []"
  by (simp add: ring_q_def)

lemma length_ring [simp]: "length (ring_q ring rd wr) = unat (wr - rd)"
  by (simp add: ring_q_def)

subsection \<open>The invariant\<close>

definition avail_q :: "vio \<Rightarrow> nat list" where "avail_q s = ring_q (v_avail s) (v_taken s) (v_avail_idx s)"
definition used_q :: "vio \<Rightarrow> nat list" where "used_q s = ring_q (v_used s) (v_seen s) (v_used_idx s)"

definition idxs :: "call \<Rightarrow> nat set" where "idxs c = {i0 c, i1 c, i2 c}"

text \<open>The chain of a call is formatted for its buffer.\<close>

definition chain_ok :: "vio \<Rightarrow> nat \<Rightarrow> call \<Rightarrow> bool" where
  "chain_ok s b c \<longleftrightarrow> i0 c < NUM \<and> i1 c < NUM \<and> i2 c < NUM \<and> distinct [i0 c, i1 c, i2 c]
     \<and> v_desc s (i0 c) = \<lparr>d_addr = Op_at (i0 c), d_len = 16, d_flags = VRING_DESC_F_NEXT, d_next = of_nat (i1 c)\<rparr>
     \<and> v_desc s (i1 c) = \<lparr>d_addr = Data_of b, d_len = 1024,
          d_flags = (if c_write c then 0 else VRING_DESC_F_WRITE) OR VRING_DESC_F_NEXT, d_next = of_nat (i2 c)\<rparr>
     \<and> v_desc s (i2 c) = \<lparr>d_addr = Status_at (i0 c), d_len = 1, d_flags = VRING_DESC_F_WRITE, d_next = 0\<rparr>
     \<and> v_ops s (i0 c) = \<lparr>r_type = (if c_write c then VIRTIO_BLK_T_OUT else VIRTIO_BLK_T_IN), r_reserved = 0,
          r_sector = sector_of (b_blockno (bufs s b))\<rparr>
     \<and> v_info_b s (i0 c) = Some b \<and> unat (b_blockno (bufs s b)) < 2 ^ 31"

definition vio_inv :: "vio \<Rightarrow> bool" where
  "vio_inv s \<longleftrightarrow> (\<forall>b c. v_calls s b = Some c \<longrightarrow> chain_ok s b c)
     \<and> (\<forall>b c b' c'. v_calls s b = Some c \<and> v_calls s b' = Some c' \<and> b \<noteq> b' \<longrightarrow> idxs c \<inter> idxs c' = {})
     \<and> (\<forall>i<NUM. v_free s i \<longleftrightarrow> (\<forall>b c. v_calls s b = Some c \<longrightarrow> i \<notin> idxs c))
     \<and> distinct (avail_q s @ v_work s @ used_q s)
     \<and> (\<forall>h. h \<in> set (avail_q s @ v_work s @ used_q s) \<longleftrightarrow> (\<exists>b c. v_calls s b = Some c \<and> i0 c = h \<and> v_busy s b))
     \<and> (\<forall>h\<in>set (used_q s). v_status s h = 0)
     \<and> (\<forall>b. v_busy s b \<longrightarrow> v_calls s b \<noteq> None)"

lemma vio_invD:
  assumes "vio_inv s"
  shows "v_calls s b = Some c \<Longrightarrow> chain_ok s b c"
    and "v_calls s b = Some c \<Longrightarrow> v_calls s b' = Some c' \<Longrightarrow> b \<noteq> b' \<Longrightarrow> idxs c \<inter> idxs c' = {}"
    and "i < NUM \<Longrightarrow> v_free s i \<longleftrightarrow> (\<forall>b c. v_calls s b = Some c \<longrightarrow> i \<notin> idxs c)"
    and "distinct (avail_q s @ v_work s @ used_q s)"
    and "h \<in> set (avail_q s @ v_work s @ used_q s) \<longleftrightarrow> (\<exists>b c. v_calls s b = Some c \<and> i0 c = h \<and> v_busy s b)"
    and "h \<in> set (used_q s) \<Longrightarrow> v_status s h = 0"
    and "v_busy s b \<Longrightarrow> v_calls s b \<noteq> None"
  using assms unfolding vio_inv_def by blast+

lemma vio_invI:
  assumes "\<And>b c. v_calls s b = Some c \<Longrightarrow> chain_ok s b c"
    and "\<And>b c b' c'. v_calls s b = Some c \<Longrightarrow> v_calls s b' = Some c' \<Longrightarrow> b \<noteq> b' \<Longrightarrow> idxs c \<inter> idxs c' = {}"
    and "\<And>i. i < NUM \<Longrightarrow> v_free s i \<longleftrightarrow> (\<forall>b c. v_calls s b = Some c \<longrightarrow> i \<notin> idxs c)"
    and "distinct (avail_q s @ v_work s @ used_q s)"
    and "\<And>h. h \<in> set (avail_q s @ v_work s @ used_q s) \<longleftrightarrow> (\<exists>b c. v_calls s b = Some c \<and> i0 c = h \<and> v_busy s b)"
    and "\<And>h. h \<in> set (used_q s) \<Longrightarrow> v_status s h = 0"
    and "\<And>b. v_busy s b \<Longrightarrow> v_calls s b \<noteq> None"
  shows "vio_inv s"
  using assms unfolding vio_inv_def by blast

text \<open>Heads in flight are descriptor numbers, so that neither ring ever overflows.\<close>

lemma flight_small:
  assumes "vio_inv s"
  shows "h \<in> set (avail_q s @ v_work s @ used_q s) \<Longrightarrow> h < 8"
    and "h < 8 \<Longrightarrow> h \<notin> set (avail_q s @ v_work s @ used_q s) \<Longrightarrow> length (avail_q s @ v_work s @ used_q s) < 8"
proof -
  show s8: "h < 8" if "h \<in> set (avail_q s @ v_work s @ used_q s)" for h
    using that vio_invD(5) [OF assms] vio_invD(1) [OF assms] by (auto simp: chain_ok_def NUM_def)
  assume h: "h < 8" "h \<notin> set (avail_q s @ v_work s @ used_q s)"
  have "set (avail_q s @ v_work s @ used_q s) \<subseteq> {..<8} - {h}" using s8 h(2) by blast
  then have "card (set (avail_q s @ v_work s @ used_q s)) \<le> card ({..<8} - {h})" by (intro card_mono) auto
  then show "length (avail_q s @ v_work s @ used_q s) < 8" using distinct_card [OF vio_invD(4) [OF assms]] h(1) by simp
qed

lemma chain_ok_cong:
  assumes "chain_ok s b c" "\<forall>i\<in>idxs c. v_desc s' i = v_desc s i" "v_ops s' (i0 c) = v_ops s (i0 c)"
    "v_info_b s' (i0 c) = v_info_b s (i0 c)" "b_blockno (bufs s' b) = b_blockno (bufs s b)"
  shows "chain_ok s' b c"
  using assms by (simp add: chain_ok_def idxs_def)

text \<open>An operation that changes neither the calls nor their chains.\<close>

lemma vio_inv_same_calls:
  assumes "vio_inv s" "v_calls s' = v_calls s" "v_desc s' = v_desc s" "v_ops s' = v_ops s" "v_info_b s' = v_info_b s"
    "v_free s' = v_free s" "\<And>b. v_calls s b \<noteq> None \<Longrightarrow> b_blockno (bufs s' b) = b_blockno (bufs s b)"
    "distinct (avail_q s' @ v_work s' @ used_q s')"
    "\<And>h. h \<in> set (avail_q s' @ v_work s' @ used_q s') \<longleftrightarrow> (\<exists>b c. v_calls s b = Some c \<and> i0 c = h \<and> v_busy s' b)"
    "\<And>h. h \<in> set (used_q s') \<Longrightarrow> v_status s' h = 0" "\<And>b. v_busy s' b \<Longrightarrow> v_busy s b"
  shows "vio_inv s'"
proof -
  have "chain_ok s' b c" if "v_calls s b = Some c" for b c
    using that assms(3-5,7) by (intro chain_ok_cong [OF vio_invD(1) [OF assms(1) that]]) auto
  then show ?thesis
    using assms(8-11) vio_invD(2,3,7) [OF assms(1)] unfolding vio_inv_def assms(2,6) by simp blast
qed

subsection \<open>The abstract disk\<close>

text \<open>
  The cache with an atomic disk, and for every buffer with a call whether it writes and whether the transfer has happened.
\<close>

type_synonym astate = "bio \<times> (nat \<Rightarrow> (bool \<times> bool) option)"

definition same_block :: "(buf \<Rightarrow> buf) \<Rightarrow> bool" where
  "same_block f \<longleftrightarrow> (\<forall>x. b_data (f x) = b_data x \<and> b_blockno (f x) = b_blockno x)"

inductive astep :: "astate \<Rightarrow> astate \<Rightarrow> bool" where
  a_start: "cs b = None \<Longrightarrow> astep (s, cs) (s, cs(b := Some (wr, False)))"
| a_transfer: "cs b = Some (wr, False) \<Longrightarrow> astep (s, cs) (disk_rw b wr s, cs(b := Some (wr, True)))"
| a_return: "cs b = Some (wr, True) \<Longrightarrow> astep (s, cs) (s, cs(b := None))"
| a_own: "cs b = None \<or> same_block f \<Longrightarrow> astep (s, cs) (upd_buf b f s, cs)"
| a_skip: "astep (s, cs) (s, cs)"

definition bio_of :: "vio \<Rightarrow> bio" where
  "bio_of s = \<lparr>bufs = bufs s, bprev = bprev s, bnext = bnext s, disk = disk s, dtrace = dtrace s\<rparr>"

definition abs_calls :: "vio \<Rightarrow> nat \<Rightarrow> (bool \<times> bool) option" where
  "abs_calls s b = map_option (\<lambda>c. (c_write c, i0 c \<notin> set (avail_q s @ v_work s))) (v_calls s b)"

definition abs_vio :: "vio \<Rightarrow> astate" where
  "abs_vio s = (bio_of s, abs_calls s)"

lemma bio_of_disk_rw: "bio_of (disk_rw b wr s) = disk_rw b wr (bio_of s)"
  by (simp add: bio_of_def disk_rw_def upd_buf_def Let_def)

lemma bio_of_upd_buf: "bio_of (upd_buf b f s) = upd_buf b f (bio_of s)"
  by (simp add: bio_of_def upd_buf_def)

subsection \<open>The device's steps\<close>

lemma dev_take_ok:
  assumes "vio_inv s" "dev_take s = Some s'"
  shows "vio_inv s' \<and> abs_vio s' = abs_vio s"
proof -
  let ?h = "unat (v_avail s (unat (v_taken s) mod NUM))"
  have s': "s' = s\<lparr>v_work := ?h # v_work s, v_taken := v_taken s + 1\<rparr>" and ne: "v_taken s \<noteq> v_avail_idx s"
    using assms(2) by (auto simp: dev_take_def split: if_splits)
  have q: "avail_q s = ?h # avail_q s'" "used_q s' = used_q s" "v_work s' = ?h # v_work s"
    using ring_pop [OF ne] s' by (simp_all add: avail_q_def used_q_def)
  have f: "v_calls s' = v_calls s" "v_desc s' = v_desc s" "v_ops s' = v_ops s" "v_info_b s' = v_info_b s" "v_free s' = v_free s"
    "bufs s' = bufs s" "v_status s' = v_status s" "v_busy s' = v_busy s" "bio_of s' = bio_of s"
    by (simp_all add: s' bio_of_def)
  have "set (avail_q s' @ v_work s' @ used_q s') = set (avail_q s @ v_work s @ used_q s)" using q by auto
  moreover have "distinct (avail_q s' @ v_work s' @ used_q s')" using vio_invD(4) [OF assms(1)] q by auto
  ultimately have "vio_inv s'"
    using vio_invD(5,6) [OF assms(1)] q(2) by (intro vio_inv_same_calls [OF assms(1)]) (simp_all only: f)
  moreover have "set (avail_q s' @ v_work s') = set (avail_q s @ v_work s)" using q by auto
  then have "abs_vio s' = abs_vio s" unfolding abs_vio_def abs_calls_def f by (simp only: f)
  ultimately show ?thesis by blast
qed

lemma sector_roundtrip:
  assumes "unat bno < 2 ^ 31"
  shows "ucast (drop_bit 1 (sector_of bno)) = bno"
proof (rule bit_word_eqI)
  fix n assume n: "n < LENGTH(32)"
  have "unat (drop_bit 31 bno) = 0" using assms by (simp add: drop_bit_eq_div unat_div)
  then have "\<not> bit (drop_bit 31 bno) 0" by (simp only: unat_eq_0 bit_0_eq) simp
  then have top: "\<not> bit bno 31" by (simp add: bit_drop_bit_eq)
  have m: "bno * 2 = push_bit 1 bno" by (simp add: push_bit_eq_mult)
  have p: "bit (bno * 2) k \<longleftrightarrow> 1 \<le> k \<and> k < 32 \<and> bit bno (k - 1)" for k
    unfolding m bit_push_bit_iff by simp
  show "bit (ucast (drop_bit 1 (sector_of bno)) :: u32) n = bit bno n"
    unfolding sector_of_def using n top by (cases "n = 31") (auto simp: bit_unsigned_iff bit_drop_bit_eq p)
qed

definition completed :: "nat \<Rightarrow> vio \<Rightarrow> vio" where
  "completed h s = s\<lparr>v_status := (v_status s)(h := 0),
     v_used := (v_used s)(unat (v_used_idx s) mod NUM := of_nat h), v_used_idx := v_used_idx s + 1,
     v_work := remove1 h (v_work s)\<rparr>"

lemma flag_bits:
  "(if wr then 0 else VRING_DESC_F_WRITE) OR VRING_DESC_F_NEXT = (if wr then 1 else 3)"
  "VRING_DESC_F_NEXT = 1" "VRING_DESC_F_WRITE = 2"
  by (simp_all add: VRING_DESC_F_WRITE_def VRING_DESC_F_NEXT_def)

lemma dev_done_eq:
  assumes "vio_inv s" "h \<in> set (v_work s)"
  obtains b c where "v_calls s b = Some c" "i0 c = h" "v_busy s b"
    "dev_done h s = Some (completed h (disk_rw b (c_write c) s))"
proof -
  obtain b c where c: "v_calls s b = Some c" "i0 c = h" "v_busy s b"
    using vio_invD(5) [OF assms(1), of h] assms(2) by auto
  note k = vio_invD(1) [OF assms(1) c(1), unfolded chain_ok_def]
  have n: "unat (of_nat (i1 c) :: u16) = i1 c" "unat (of_nat (i2 c) :: u16) = i2 c"
    using k by (simp_all add: unat_of_nat_small NUM_def)
  have "dev_done h s = Some (completed h (disk_rw b (c_write c) s))"
    using k c(2) assms(2) sector_roundtrip [of "b_blockno (bufs s b)"] n
    unfolding dev_done_def completed_def disk_rw_def Let_def flag_bits
    by (cases "c_write c") (simp_all add: VIRTIO_BLK_T_IN_def VIRTIO_BLK_T_OUT_def upd_buf_def)
  then show ?thesis using that c by blast
qed

lemma completed_fields [simp]:
  "v_calls (completed h s) = v_calls s" "v_desc (completed h s) = v_desc s" "v_ops (completed h s) = v_ops s"
  "v_info_b (completed h s) = v_info_b s" "v_free (completed h s) = v_free s" "v_busy (completed h s) = v_busy s"
  "bufs (completed h s) = bufs s" "bio_of (completed h s) = bio_of s" "avail_q (completed h s) = avail_q s"
  "v_work (completed h s) = remove1 h (v_work s)" "v_status (completed h s) = (v_status s)(h := 0)"
  by (simp_all add: completed_def bio_of_def avail_q_def)

lemma disk_rw_fields [simp]:
  "v_calls (disk_rw b wr s) = v_calls s" "v_desc (disk_rw b wr s) = v_desc s" "v_ops (disk_rw b wr s) = v_ops s"
  "v_info_b (disk_rw b wr s) = v_info_b s" "v_free (disk_rw b wr s) = v_free s" "v_busy (disk_rw b wr s) = v_busy s"
  "avail_q (disk_rw b wr s) = avail_q s" "used_q (disk_rw b wr s) = used_q s" "v_work (disk_rw b wr s) = v_work s"
  "v_status (disk_rw b wr s) = v_status s" "v_used_idx (disk_rw b wr s) = v_used_idx s" "v_seen (disk_rw b wr s) = v_seen s"
  "b_blockno (bufs (disk_rw b wr s) k) = b_blockno (bufs s k)"
  by (simp_all add: disk_rw_def upd_buf_def avail_q_def used_q_def Let_def)

lemma call_of_head:
  assumes "vio_inv s" "v_calls s b = Some c" "v_calls s b' = Some c'" "i0 c' = i0 c"
  shows "b' = b"
  using vio_invD(2) [OF assms(1,2,3)] assms(4) by (auto simp: idxs_def)

lemma dev_done_ok:
  assumes "vio_inv s" "dev_done h s = Some s'"
  shows "vio_inv s' \<and> astep (abs_vio s) (abs_vio s')"
proof -
  have h: "h \<in> set (v_work s)" using assms(2) by (auto simp: dev_done_def Let_def split: if_splits)
  from dev_done_eq [OF assms(1) h] obtain b c where c: "v_calls s b = Some c" "i0 c = h" "v_busy s b"
    and s': "s' = completed h (disk_rw b (c_write c) s)" using assms(2) by auto
  note D = vio_invD [OF assms(1)]
  have h8: "h < 8" using flight_small(1) [OF assms(1)] h by simp
  have nu: "h \<notin> set (used_q s)" "h \<notin> set (avail_q s)" "distinct (v_work s)" using D(4) h by auto
  have "length (used_q s) < 8"
  proof -
    have "set (used_q s) \<subseteq> {..<8} - {h}" using flight_small(1) [OF assms(1)] nu(1) by auto
    then have "card (set (used_q s)) \<le> card ({..<8} - {h})" by (intro card_mono) auto
    then show ?thesis using distinct_card [of "used_q s"] D(4) h8 by simp
  qed
  then have "used_q (completed h (disk_rw b (c_write c) s)) = used_q s @ [unat (of_nat h :: u32)]"
    using ring_push [of "v_used_idx s" "v_seen s" "v_used s" "of_nat h"]
    by (simp add: used_q_def completed_def disk_rw_def upd_buf_def Let_def)
  then have u: "used_q s' = used_q s @ [h]" using h8 s' by (simp add: unat_of_nat_small)
  have w: "v_work s' = remove1 h (v_work s)" "avail_q s' = avail_q s" using s' by simp_all
  have sets: "set (avail_q s' @ v_work s' @ used_q s') = set (avail_q s @ v_work s @ used_q s)"
    using u w h nu(3) by auto
  have "vio_inv s'"
  proof (rule vio_inv_same_calls [OF assms(1)])
    show "distinct (avail_q s' @ v_work s' @ used_q s')" using D(4) nu u w by (auto dest: notin_set_remove1)
    show "\<And>x. x \<in> set (used_q s') \<Longrightarrow> v_status s' x = 0" using D(6) u s' by auto
    show "\<And>x. x \<in> set (avail_q s' @ v_work s' @ used_q s') \<longleftrightarrow> (\<exists>b c. v_calls s b = Some c \<and> i0 c = x \<and> v_busy s' b)"
      unfolding sets using D(5) s' by simp
  qed (simp_all add: s')
  moreover have "bio_of s' = disk_rw b (c_write c) (bio_of s)" using s' by (simp add: bio_of_disk_rw)
  moreover have "abs_calls s' = (abs_calls s)(b := Some (c_write c, True))"
  proof
    fix k
    show "abs_calls s' k = ((abs_calls s)(b := Some (c_write c, True))) k"
    proof (cases "k = b \<or> v_calls s k = None")
      case True
      then show ?thesis using c nu w s' by (auto simp: abs_calls_def)
    next
      case False
      then obtain d where d: "v_calls s k = Some d" "k \<noteq> b" by auto
      then have "i0 d \<noteq> h" using call_of_head [OF assms(1) c(1) d(1)] c(2) by auto
      then have "i0 d \<in> set (avail_q s' @ v_work s') \<longleftrightarrow> i0 d \<in> set (avail_q s @ v_work s)" using w by simp
      then show ?thesis using d s' by (simp add: abs_calls_def) blast
    qed
  qed
  moreover have "abs_calls s b = Some (c_write c, False)" using c h by (simp add: abs_calls_def)
  ultimately show ?thesis using a_transfer by (simp add: abs_vio_def)
qed

subsection \<open>The interrupt handler\<close>

lemma intr_one:
  assumes "vio_inv s" "v_seen s \<noteq> v_used_idx s"
  shows "\<exists>b s1. virtio_disk_intr s = virtio_disk_intr s1 \<and> vio_inv s1 \<and> abs_vio s1 = abs_vio s \<and> v_calls s1 = v_calls s
    \<and> s1 = s\<lparr>v_busy := (v_busy s)(b := False), v_wakes := v_wakes s @ [Buf_chan b], v_seen := v_seen s + 1\<rparr>"
proof -
  let ?h = "unat (v_used s (unat (v_seen s) mod NUM))"
  note D = vio_invD [OF assms(1)]
  have q: "used_q s = ?h # ring_q (v_used s) (v_seen s + 1) (v_used_idx s)" using ring_pop [OF assms(2)] by (simp add: used_q_def)
  then obtain b c where c: "v_calls s b = Some c" "i0 c = ?h" "v_busy s b" using D(5) [of ?h] by auto
  have st: "v_status s ?h = 0" using D(6) q by simp
  have i: "?h < NUM" "v_info_b s ?h = Some b" using D(1) [OF c(1)] c(2) by (auto simp: chain_ok_def)
  define s1 where "s1 = s\<lparr>v_busy := (v_busy s)(b := False), v_wakes := v_wakes s @ [Buf_chan b], v_seen := v_seen s + 1\<rparr>"
  have e: "virtio_disk_intr s = virtio_disk_intr s1"
    using assms(2) st i by (subst virtio_disk_intr.simps) (simp add: Let_def s1_def)
  have f: "v_calls s1 = v_calls s" "v_desc s1 = v_desc s" "v_ops s1 = v_ops s" "v_info_b s1 = v_info_b s" "v_free s1 = v_free s"
    "bufs s1 = bufs s" "v_status s1 = v_status s" "v_busy s1 = (v_busy s)(b := False)" "bio_of s1 = bio_of s"
    "avail_q s1 = avail_q s" "v_work s1 = v_work s" "used_q s = ?h # used_q s1"
    using q by (simp_all add: s1_def bio_of_def avail_q_def used_q_def)
  have inv: "vio_inv s1"
  proof (rule vio_inv_same_calls [OF assms(1)])
    have nd: "?h \<notin> set (avail_q s @ v_work s @ used_q s1)" using D(4) f(12) by auto
    show "x \<in> set (avail_q s1 @ v_work s1 @ used_q s1) \<longleftrightarrow> (\<exists>b c. v_calls s b = Some c \<and> i0 c = x \<and> v_busy s1 b)" for x
    proof (cases "x = ?h")
      case True
      have "\<not> (\<exists>b' c'. v_calls s b' = Some c' \<and> i0 c' = x \<and> v_busy s1 b')"
        using call_of_head [OF assms(1) c(1)] c(2) True f(8) by auto
      then show ?thesis using nd True unfolding f(10,11) by blast
    next
      case False
      have "v_busy s1 b' = v_busy s b'" if "v_calls s b' = Some c'" "i0 c' = x" for b' c'
        using that c False f(8) by (cases "b' = b") auto
      then have "(\<exists>b c. v_calls s b = Some c \<and> i0 c = x \<and> v_busy s1 b) \<longleftrightarrow> (\<exists>b c. v_calls s b = Some c \<and> i0 c = x \<and> v_busy s b)"
        by blast
      moreover have "x \<in> set (avail_q s1 @ v_work s1 @ used_q s1) \<longleftrightarrow> x \<in> set (avail_q s @ v_work s @ used_q s)"
        using False f(10-12) by auto
      ultimately show ?thesis using D(5) [of x] by simp
    qed
    show "\<And>b. v_busy s1 b \<Longrightarrow> v_busy s b" using f(8) by (simp split: if_splits)
    show "distinct (avail_q s1 @ v_work s1 @ used_q s1)" using D(4) f(10-12) by simp
    show "\<And>h. h \<in> set (used_q s1) \<Longrightarrow> v_status s1 h = 0" using D(6) f(7,12) by simp
  qed (simp_all only: f)
  have "abs_calls s1 = abs_calls s" by (rule ext) (simp only: abs_calls_def f(1,10,11))
  then have "abs_vio s1 = abs_vio s" by (simp only: abs_vio_def f(9))
  then show ?thesis using e inv f(1) s1_def by blast
qed

lemma intr_ok:
  "vio_inv s \<Longrightarrow> \<exists>s'. virtio_disk_intr s = Inr s' \<and> vio_inv s' \<and> abs_vio s' = abs_vio s \<and> v_calls s' = v_calls s \<and> used_q s' = []"
proof (induction "unat (v_used_idx s - v_seen s)" arbitrary: s rule: less_induct)
  case less
  show ?case
  proof (cases "v_seen s = v_used_idx s")
    case True
    then show ?thesis using less(2) by (subst virtio_disk_intr.simps) (simp add: used_q_def)
  next
    case False
    then obtain b s1 where s1: "virtio_disk_intr s = virtio_disk_intr s1" "vio_inv s1" "abs_vio s1 = abs_vio s" "v_calls s1 = v_calls s"
      "s1 = s\<lparr>v_busy := (v_busy s)(b := False), v_wakes := v_wakes s @ [Buf_chan b], v_seen := v_seen s + 1\<rparr>"
      using intr_one [OF less(2)] by blast
    have "v_used_idx s - v_seen s \<noteq> 0" using False by simp
    then have "unat (v_used_idx s - v_seen s - 1) < unat (v_used_idx s - v_seen s)"
      using unat_minus_one [of "v_used_idx s - v_seen s"] unat_gt_0 [of "v_used_idx s - v_seen s"] by linarith
    then have "unat (v_used_idx s1 - v_seen s1) < unat (v_used_idx s - v_seen s)" using s1(5) by (simp add: algebra_simps)
    from less(1) [OF this s1(2)] show ?thesis using s1(1,3,4) by auto
  qed
qed

subsection \<open>Return from a call\<close>

definition cleared :: "nat \<Rightarrow> vio \<Rightarrow> vio" where
  "cleared i s = s\<lparr>v_desc := (v_desc s)(i := \<lparr>d_addr = Null, d_len = 0, d_flags = 0, d_next = 0\<rparr>),
     v_free := (v_free s)(i := True), v_wakes := v_wakes s @ [Free_chan]\<rparr>"

lemma free_desc_ok: "i < NUM \<Longrightarrow> \<not> v_free s i \<Longrightarrow> free_desc i s = Inr (cleared i s)"
  by (simp add: free_desc_def cleared_def)

lemma free_chain_step:
  "i < NUM \<Longrightarrow> \<not> v_free s i \<Longrightarrow> free_chain i s =
    (if d_flags (v_desc s i) AND VRING_DESC_F_NEXT \<noteq> 0 then free_chain (unat (d_next (v_desc s i))) (cleared i s) else Inr (cleared i s))"
  by (subst free_chain.simps) (simp add: free_desc_ok Let_def)

lemma chain_freed:
  assumes "chain_ok s b c" "\<forall>i\<in>idxs c. \<not> v_free s i"
  shows "free_chain (i0 c) (s\<lparr>v_info_b := x\<rparr>) = Inr (cleared (i2 c) (cleared (i1 c) (cleared (i0 c) (s\<lparr>v_info_b := x\<rparr>))))"
proof -
  note k = assms(1) [unfolded chain_ok_def flag_bits]
  have n: "unat (of_nat (i1 c) :: u16) = i1 c" "unat (of_nat (i2 c) :: u16) = i2 c"
    using k by (simp_all add: unat_of_nat_small NUM_def)
  have f: "\<not> v_free s (i0 c)" "\<not> v_free s (i1 c)" "\<not> v_free s (i2 c)" using assms(2) by (simp_all add: idxs_def)
  show ?thesis
    using k f n by (simp add: free_chain_step cleared_def flag_bits)
qed

lemma rw_finish_ok:
  assumes "vio_inv s" "v_calls s b = Some c" "\<not> v_busy s b"
  shows "\<exists>s'. rw_finish b s = Inr s' \<and> vio_inv s' \<and> bio_of s' = bio_of s \<and> abs_calls s b = Some (c_write c, True)
    \<and> abs_calls s' = (abs_calls s)(b := None)"
proof -
  note D = vio_invD [OF assms(1)]
  note k = D(1) [OF assms(2)]
  have nf: "\<not> v_free s i" if "i \<in> idxs c" for i
    using D(3) [of i] that assms(2) k by (auto simp: chain_ok_def idxs_def)
  have out: "i0 c \<notin> set (avail_q s @ v_work s @ used_q s)"
    using D(5) [of "i0 c"] call_of_head [OF assms(1,2)] assms(2,3) by blast
  define s' where "s' = (cleared (i2 c) (cleared (i1 c) (cleared (i0 c) (s\<lparr>v_info_b := (v_info_b s)(i0 c := None)\<rparr>))))\<lparr>
      v_calls := (v_calls s)(b := None)\<rparr>"
  have r: "rw_finish b s = Inr s'"
    using chain_freed [OF k] nf assms(2,3) by (simp add: rw_finish_def s'_def cleared_def)
  have f: "avail_q s' = avail_q s" "used_q s' = used_q s" "v_work s' = v_work s" "v_status s' = v_status s" "v_busy s' = v_busy s"
    "v_calls s' = (v_calls s)(b := None)" "bio_of s' = bio_of s" "bufs s' = bufs s" "v_ops s' = v_ops s"
    "v_info_b s' = (v_info_b s)(i0 c := None)"
    "\<And>i. v_free s' i \<longleftrightarrow> v_free s i \<or> i \<in> idxs c" "\<And>i. i \<notin> idxs c \<Longrightarrow> v_desc s' i = v_desc s i"
    by (auto simp: s'_def cleared_def avail_q_def used_q_def bio_of_def idxs_def)
  have ch: "chain_ok s' b' c'" if "v_calls s b' = Some c'" "b' \<noteq> b" for b' c'
  proof (rule chain_ok_cong [OF D(1) [OF that(1)]])
    have d: "idxs c' \<inter> idxs c = {}" using D(2) [OF that(1) assms(2) that(2)] .
    then show "\<forall>i\<in>idxs c'. v_desc s' i = v_desc s i" using f(12) by blast
    show "v_info_b s' (i0 c') = v_info_b s (i0 c')" using d f(10) by (auto simp: idxs_def)
  qed (simp_all add: f)
  have calls: "v_calls s' b' = Some c' \<longleftrightarrow> v_calls s b' = Some c' \<and> b' \<noteq> b" for b' c' using f(6) by simp
  have "vio_inv s'"
  proof (rule vio_invI, unfold calls)
    fix i assume i: "i < NUM"
    show "v_free s' i \<longleftrightarrow> (\<forall>b' c'. v_calls s b' = Some c' \<and> b' \<noteq> b \<longrightarrow> i \<notin> idxs c')"
    proof (cases "i \<in> idxs c")
      case True
      then show ?thesis using D(2) [OF _ assms(2)] unfolding f(11) by blast
    next
      case False
      then have "(\<forall>b' c'. v_calls s b' = Some c' \<and> b' \<noteq> b \<longrightarrow> i \<notin> idxs c') \<longleftrightarrow> (\<forall>b' c'. v_calls s b' = Some c' \<longrightarrow> i \<notin> idxs c')"
        using assms(2) by (metis option.inject)
      then show ?thesis using D(3) [OF i] False unfolding f(11) by simp
    qed
  next
    fix h
    have "(\<exists>b' c'. (v_calls s b' = Some c' \<and> b' \<noteq> b) \<and> i0 c' = h \<and> v_busy s' b') \<longleftrightarrow> (\<exists>b' c'. v_calls s b' = Some c' \<and> i0 c' = h \<and> v_busy s b')"
      using assms(3) f(5) by metis
    then show "h \<in> set (avail_q s' @ v_work s' @ used_q s') \<longleftrightarrow> (\<exists>b' c'. (v_calls s b' = Some c' \<and> b' \<noteq> b) \<and> i0 c' = h \<and> v_busy s' b')"
      using D(5) [of h] f(1-3) by simp
  next
    fix b' assume "v_busy s' b'"
    then have "b' \<noteq> b" "v_busy s b'" using assms(3) f(5) by auto
    then show "v_calls s' b' \<noteq> None" using D(7) f(6) by simp
  next
    fix b1 c1 b2 c2 assume "v_calls s b1 = Some c1 \<and> b1 \<noteq> b" "v_calls s b2 = Some c2 \<and> b2 \<noteq> b" "b1 \<noteq> b2"
    then show "idxs c1 \<inter> idxs c2 = {}" using D(2) [of b1 c1 b2 c2] by blast
  qed (use ch D(4,6) f(1-4) in simp_all)
  moreover have "abs_calls s' = (abs_calls s)(b := None)" by (rule ext) (simp add: abs_calls_def f)
  moreover have "abs_calls s b = Some (c_write c, True)" using out assms(2) by (simp add: abs_calls_def)
  ultimately show ?thesis using r f(7) by blast
qed

subsection \<open>Start of a call\<close>

lemma alloc_scan_None: "alloc_scan is s = None \<Longrightarrow> i \<in> set is \<Longrightarrow> \<not> v_free s i"
  by (induction "is") (auto split: if_splits)

lemma alloc_scan_Some:
  "alloc_scan is s = Some (i, s') \<Longrightarrow> i \<in> set is \<and> v_free s i \<and> s' = s\<lparr>v_free := (v_free s)(i := False)\<rparr>"
proof (induction "is")
  case (Cons j js)
  show ?case
  proof (cases "v_free s j")
    case True
    then have "i = j" "s' = s\<lparr>v_free := (v_free s)(j := False)\<rparr>" using Cons.prems by auto
    then show ?thesis using True by (simp only: list.set_intros)
  next
    case False
    then have "alloc_scan js s = Some (i, s')" using Cons.prems by (simp only: alloc_scan.simps if_False)
    then show ?thesis using Cons.IH by (simp only: list.set_intros)
  qed
qed simp

lemma alloc_desc_None: "alloc_desc s = None \<Longrightarrow> i < NUM \<Longrightarrow> \<not> v_free s i"
  using alloc_scan_None [of "[0..<NUM]" s i] by (simp add: alloc_desc_def)

lemma alloc_desc_Some:
  "alloc_desc s = Some (i, s') \<Longrightarrow> i < NUM \<and> v_free s i \<and> s' = s\<lparr>v_free := (v_free s)(i := False)\<rparr>"
  using alloc_scan_Some [of "[0..<NUM]" s i s'] by (simp add: alloc_desc_def)

lemma free_all_ok:
  "distinct is \<Longrightarrow> \<forall>i\<in>set is. i < NUM \<and> \<not> v_free s i \<Longrightarrow>
   \<exists>d w. free_all is s = Inr (s\<lparr>v_desc := d, v_free := (\<lambda>i. v_free s i \<or> i \<in> set is), v_wakes := w\<rparr>) \<and> (\<forall>i. i \<notin> set is \<longrightarrow> d i = v_desc s i)"
proof (induction "is" arbitrary: s)
  case Nil
  have "s = s\<lparr>v_desc := v_desc s, v_free := v_free s, v_wakes := v_wakes s\<rparr>" by simp
  then show ?case by (intro exI [of _ "v_desc s"] exI [of _ "v_wakes s"]) simp
next
  case (Cons j js)
  have f: "free_desc j s = Inr (cleared j s)" using Cons.prems by (intro free_desc_ok) auto
  obtain d w where IH: "free_all js (cleared j s) = Inr ((cleared j s)\<lparr>v_desc := d, v_free := (\<lambda>i. v_free (cleared j s) i \<or> i \<in> set js), v_wakes := w\<rparr>)"
    "\<forall>i. i \<notin> set js \<longrightarrow> d i = v_desc (cleared j s) i"
  proof -
    have "\<forall>i\<in>set js. i < NUM \<and> \<not> v_free (cleared j s) i" using Cons.prems by (auto simp: cleared_def)
    moreover have "distinct js" using Cons.prems(1) by simp
    ultimately show thesis using Cons.IH [of "cleared j s"] that by blast
  qed
  have "(\<lambda>i. v_free (cleared j s) i \<or> i \<in> set js) = (\<lambda>i. v_free s i \<or> i \<in> set (j # js))" by (auto simp: cleared_def fun_eq_iff)
  then have "free_all (j # js) s = Inr (s\<lparr>v_desc := d, v_free := (\<lambda>i. v_free s i \<or> i \<in> set (j # js)), v_wakes := w\<rparr>)"
    using f IH(1) by (simp add: cleared_def)
  then show ?case using IH(2) by (intro exI [of _ d] exI [of _ w]) (auto simp: cleared_def)
qed

text \<open>Either three free descriptors are taken, or only the (cleared) free descriptors and the wakeups differ.\<close>

lemma alloc3_cases:
  obtains (got) j0 j1 j2 where "alloc3_desc s = Inr (Some [j0, j1, j2], s\<lparr>v_free := (v_free s)(j0 := False, j1 := False, j2 := False)\<rparr>)"
      "distinct [j0, j1, j2]" "\<forall>i\<in>{j0, j1, j2}. i < NUM \<and> v_free s i"
  | (none) d w where "alloc3_desc s = Inr (None, s\<lparr>v_desc := d, v_wakes := w\<rparr>)" "\<forall>i. \<not> v_free s i \<longrightarrow> d i = v_desc s i"
proof -
  have fail: thesis
    if A: "alloc3_desc s = bindR (free_all is (s\<lparr>v_free := f\<rparr>)) (\<lambda>s. Inr (None, s))" "distinct is" "\<forall>i\<in>set is. i < NUM \<and> v_free s i"
      "f = (\<lambda>i. v_free s i \<and> i \<notin> set is)" for "is" f
  proof -
    obtain d w where r: "free_all is (s\<lparr>v_free := f\<rparr>) =
        Inr (s\<lparr>v_free := f\<rparr>\<lparr>v_desc := d, v_free := (\<lambda>i. v_free (s\<lparr>v_free := f\<rparr>) i \<or> i \<in> set is), v_wakes := w\<rparr>)"
      "\<forall>i. i \<notin> set is \<longrightarrow> d i = v_desc (s\<lparr>v_free := f\<rparr>) i"
      using free_all_ok [of "is" "s\<lparr>v_free := f\<rparr>"] A(2-4) by auto
    have "(\<lambda>i. v_free (s\<lparr>v_free := f\<rparr>) i \<or> i \<in> set is) = v_free s" using A(3,4) by auto
    then have "alloc3_desc s = Inr (None, s\<lparr>v_desc := d, v_wakes := w\<rparr>)" using A(1) r(1) by simp
    then show thesis using none r(2) A(3) by auto
  qed
  show thesis
  proof (cases "alloc_desc s")
    case None
    have "(\<lambda>i. v_free s i \<and> i \<notin> set []) = v_free s" by simp
    moreover have "alloc3_desc s = bindR (free_all [] (s\<lparr>v_free := v_free s\<rparr>)) (\<lambda>s. Inr (None, s))"
      using None by (simp add: alloc3_desc_def numeral_3_eq_3)
    ultimately show thesis using fail [of "[]" "v_free s"] by simp
  next
    case (Some p)
    obtain j0 s1 where p: "p = (j0, s1)" by fastforce
    note a0 = alloc_desc_Some [OF Some [unfolded p]]
    show thesis
    proof (cases "alloc_desc s1")
      case None
      have "alloc3_desc s = bindR (free_all [j0] (s\<lparr>v_free := (v_free s)(j0 := False)\<rparr>)) (\<lambda>s. Inr (None, s))"
        using None Some p a0 by (simp add: alloc3_desc_def numeral_3_eq_3)
      then show thesis using fail [of "[j0]" "(v_free s)(j0 := False)"] a0 by (auto simp: fun_eq_iff)
    next
      case some1: (Some p1)
      obtain j1 s2 where p1: "p1 = (j1, s2)" by fastforce
      note a1 = alloc_desc_Some [OF some1 [unfolded p1]]
      have j1: "j1 \<noteq> j0" "v_free s j1" "s2 = s\<lparr>v_free := (v_free s)(j0 := False, j1 := False)\<rparr>" using a0 a1 by (auto split: if_splits)
      show thesis
      proof (cases "alloc_desc s2")
        case None
        have "alloc3_desc s = bindR (free_all [j0, j1] (s\<lparr>v_free := (v_free s)(j0 := False, j1 := False)\<rparr>)) (\<lambda>s. Inr (None, s))"
          using None Some p some1 p1 j1(3) by (simp add: alloc3_desc_def numeral_3_eq_3)
        then show thesis using fail [of "[j0, j1]" "(v_free s)(j0 := False, j1 := False)"] a0 a1 j1 by (auto simp: fun_eq_iff)
      next
        case some2: (Some p2)
        obtain j2 s3 where p2: "p2 = (j2, s3)" by fastforce
        note a2 = alloc_desc_Some [OF some2 [unfolded p2]]
        have j2: "j2 \<noteq> j0" "j2 \<noteq> j1" "v_free s j2" using a2 j1(3) by (auto split: if_splits)
        have "alloc3_desc s = Inr (Some [j0, j1, j2], s\<lparr>v_free := (v_free s)(j0 := False, j1 := False, j2 := False)\<rparr>)"
          using Some p some1 p1 some2 p2 a2 j1(3) by (simp add: alloc3_desc_def numeral_3_eq_3)
        then show thesis using got a0 a1 a2 j1 j2 by auto
      qed
    qed
  qed
qed

lemma idle_desc:
  assumes "vio_inv s" "i < NUM" "v_free s i"
  shows "i \<notin> set (avail_q s @ v_work s @ used_q s)" "v_calls s b = Some c \<Longrightarrow> i \<notin> idxs c"
  using vio_invD(5) [OF assms(1), of i] vio_invD(3) [OF assms(1,2)] assms(3) by (auto simp: idxs_def)

lemma submit_starts:
  fixes wr :: bool
  assumes "vio_inv s" "v_calls s b = None" "unat (b_blockno (bufs s b)) < 2 ^ 31"
    and "distinct [j0, j1, j2]" "\<forall>i\<in>{j0, j1, j2}. i < NUM \<and> v_free s i"
  defines "s1 \<equiv> hand_over b j0 (format_request b wr j0 j1 j2 (s\<lparr>v_free := (v_free s)(j0 := False, j1 := False, j2 := False)\<rparr>))"
  defines "c \<equiv> \<lparr>i0 = j0, i1 = j1, i2 = j2, c_write = wr\<rparr>"
  defines "s' \<equiv> s1\<lparr>v_calls := (v_calls s1)(b := Some c)\<rparr>"
  shows "vio_inv s' \<and> bio_of s' = bio_of s \<and> abs_calls s' = (abs_calls s)(b := Some (wr, False))"
proof -
  note D = vio_invD [OF assms(1)]
  have j8: "j0 < 8" "j0 < NUM" "j1 < NUM" "j2 < NUM" using assms(5) by (auto simp: NUM_def)
  have out: "j0 \<notin> set (avail_q s @ v_work s @ used_q s)" using idle_desc(1) [OF assms(1)] assms(5) by blast
  have new: "i \<notin> idxs c'" if "i \<in> {j0, j1, j2}" "v_calls s b' = Some c'" for i b' c'
    using idle_desc(2) [OF assms(1) _ _ that(2)] assms(5) that(1) by blast
  have nb: "\<not> v_busy s b" using D(7) assms(2) by blast
  have "unat (v_avail_idx s - v_taken s) < 8" using flight_small(2) [OF assms(1) j8(1) out] by (simp add: avail_q_def)
  then have q: "avail_q s' = avail_q s @ [j0]"
    using ring_push [of "v_avail_idx s" "v_taken s" "v_avail s" "of_nat j0"] j8(1)
    by (simp add: avail_q_def s'_def s1_def hand_over_def format_request_def Let_def unat_of_nat_small)
  have f: "used_q s' = used_q s" "v_work s' = v_work s" "v_busy s' = (v_busy s)(b := True)" "v_calls s' = (v_calls s)(b := Some c)"
    "v_status s' = (v_status s)(j0 := 0xff)" "bio_of s' = bio_of s" "bufs s' = bufs s"
    "\<And>i. v_free s' i \<longleftrightarrow> v_free s i \<and> i \<notin> idxs c" "\<And>i. i \<notin> idxs c \<Longrightarrow> v_desc s' i = v_desc s i"
    "\<And>i. i \<noteq> j0 \<Longrightarrow> v_ops s' i = v_ops s i" "\<And>i. i \<noteq> j0 \<Longrightarrow> v_info_b s' i = v_info_b s i" "idxs c = {j0, j1, j2}"
    by (auto simp: s'_def s1_def c_def hand_over_def format_request_def Let_def used_q_def bio_of_def idxs_def)
  have mine: "chain_ok s' b c"
    using assms(3,4) j8 unfolding chain_ok_def
    by (auto simp: s'_def s1_def c_def hand_over_def format_request_def Let_def)
  have theirs: "chain_ok s' b' c'" if k: "v_calls s b' = Some c'" for b' c'
  proof (rule chain_ok_cong [OF D(1) [OF k]])
    have "i0 c' \<noteq> j0" using new [OF _ k] by (auto simp: idxs_def)
    then show "v_ops s' (i0 c') = v_ops s (i0 c')" "v_info_b s' (i0 c') = v_info_b s (i0 c')" using f(10,11) by blast+
    show "\<forall>i\<in>idxs c'. v_desc s' i = v_desc s i" using new [OF _ k] f(9,12) by blast
  qed (simp add: f(7))
  have calls: "v_calls s' b' = Some c' \<longleftrightarrow> (if b' = b then c' = c else v_calls s b' = Some c')" for b' c' using f(4) by auto
  have "vio_inv s'"
  proof (rule vio_invI)
    fix b' c' assume "v_calls s' b' = Some c'"
    then show "chain_ok s' b' c'" using mine theirs unfolding calls by (cases "b' = b") auto
  next
    fix b1 c1 b2 c2 assume "v_calls s' b1 = Some c1" "v_calls s' b2 = Some c2" "b1 \<noteq> b2"
    then show "idxs c1 \<inter> idxs c2 = {}" using D(2) [of b1 c1 b2 c2] new f(12) unfolding calls by (cases "b1 = b"; cases "b2 = b") auto
  next
    fix i assume i: "i < NUM"
    have "(\<forall>b' c'. v_calls s' b' = Some c' \<longrightarrow> i \<notin> idxs c') \<longleftrightarrow> i \<notin> idxs c \<and> (\<forall>b' c'. v_calls s b' = Some c' \<longrightarrow> i \<notin> idxs c')"
      using assms(2) unfolding calls by (metis option.distinct(1))
    then show "v_free s' i \<longleftrightarrow> (\<forall>b' c'. v_calls s' b' = Some c' \<longrightarrow> i \<notin> idxs c')" using D(3) [OF i] f(8) by blast
  next
    show "distinct (avail_q s' @ v_work s' @ used_q s')" using D(4) out q f(1,2) by auto
  next
    fix h
    have "(\<exists>b' c'. v_calls s' b' = Some c' \<and> i0 c' = h \<and> v_busy s' b')
      \<longleftrightarrow> h = j0 \<or> (\<exists>b' c'. v_calls s b' = Some c' \<and> i0 c' = h \<and> v_busy s b')"
    proof -
      have "(\<exists>c'. v_calls s' b' = Some c' \<and> i0 c' = h \<and> v_busy s' b')
        \<longleftrightarrow> (b' = b \<and> h = j0) \<or> (\<exists>c'. v_calls s b' = Some c' \<and> i0 c' = h \<and> v_busy s b')" for b'
        using assms(2) unfolding calls f(3) by (cases "b' = b") (auto simp: c_def)
      then show ?thesis by auto
    qed
    then show "h \<in> set (avail_q s' @ v_work s' @ used_q s') \<longleftrightarrow> (\<exists>b' c'. v_calls s' b' = Some c' \<and> i0 c' = h \<and> v_busy s' b')"
      using D(5) [of h] q f(1,2) by auto
  next
    fix h assume "h \<in> set (used_q s')"
    then show "v_status s' h = 0" using D(6) [of h] out f(1,5) by auto
  next
    fix b' assume "v_busy s' b'"
    then show "v_calls s' b' \<noteq> None" using D(7) [of b'] f(3,4) by (cases "b' = b") auto
  qed
  moreover have "abs_calls s' = (abs_calls s)(b := Some (wr, False))"
  proof
    fix k
    have "i0 d \<noteq> j0" if "v_calls s k = Some d" for d using new [OF _ that] by (auto simp: idxs_def)
    then show "abs_calls s' k = ((abs_calls s)(b := Some (wr, False))) k"
      by (cases "v_calls s k") (auto simp: abs_calls_def f q c_def)
  qed
  ultimately show ?thesis using f(6) by blast
qed

lemma submit_waits:
  fixes w :: "wchan list"
  assumes "vio_inv s" "\<forall>i. \<not> v_free s i \<longrightarrow> d i = v_desc s i"
  defines "s' \<equiv> s\<lparr>v_desc := d, v_wakes := w\<rparr>"
  shows "vio_inv s' \<and> abs_vio s' = abs_vio s"
proof -
  note D = vio_invD [OF assms(1)]
  have f: "avail_q s' = avail_q s" "used_q s' = used_q s" "v_work s' = v_work s" "v_calls s' = v_calls s" "v_free s' = v_free s"
    "v_status s' = v_status s" "v_busy s' = v_busy s" "bio_of s' = bio_of s"
    by (simp_all add: s'_def avail_q_def used_q_def bio_of_def)
  have "chain_ok s' b c" if c: "v_calls s b = Some c" for b c
  proof (rule chain_ok_cong [OF D(1) [OF c]])
    have "\<not> v_free s i" if "i \<in> idxs c" for i
      using D(3) [of i] D(1) [OF c] that c by (auto simp: chain_ok_def idxs_def)
    then show "\<forall>i\<in>idxs c. v_desc s' i = v_desc s i" using assms(2) by (simp add: s'_def)
  qed (simp_all add: s'_def)
  then have "vio_inv s'" using D(2-7) by (intro vio_invI) (simp_all only: f not_False_eq_True)
  moreover have "abs_calls s' = abs_calls s" by (rule ext) (simp only: abs_calls_def f)
  ultimately show ?thesis by (simp add: abs_vio_def f(8))
qed

lemma rw_submit_ok:
  assumes "vio_inv s" "v_calls s b = None" "unat (b_blockno (bufs s b)) < 2 ^ 31"
  shows "\<exists>r s'. rw_submit b wr s = Inr (r, s') \<and> vio_inv s' \<and> astep (abs_vio s) (abs_vio s')"
  using alloc3_cases [of s]
proof cases
  case (got j0 j1 j2)
  note S = submit_starts [OF assms got(2,3), of wr]
  have "abs_calls s b = None" using assms(2) by (simp add: abs_calls_def)
  then have "astep (abs_vio s) (bio_of s, (abs_calls s)(b := Some (wr, False)))" by (simp only: abs_vio_def a_start)
  moreover have "\<exists>s'. rw_submit b wr s = Inr (True, s') \<and> vio_inv s' \<and> bio_of s' = bio_of s \<and> abs_calls s' = (abs_calls s)(b := Some (wr, False))"
    using got(1) S by (simp add: rw_submit_def Let_def)
  ultimately show ?thesis unfolding abs_vio_def by metis
next
  case (none d w)
  have "astep (abs_vio s) (abs_vio s)" by (simp add: abs_vio_def a_skip)
  moreover have "rw_submit b wr s = Inr (False, s\<lparr>v_desc := d, v_wakes := w\<rparr>)" using none(1) by (simp add: rw_submit_def)
  ultimately show ?thesis using submit_waits [OF assms(1) none(2), of w] by metis
qed

subsection \<open>All interleavings\<close>

text \<open>
  A step of the driver, of the device, or of the owner of a buffer: a buffer with a call is locked by its caller, so that meanwhile only
  its bookkeeping (such as the reference count) changes. Block numbers are below \<open>2 ^ 31\<close>, where the sector number fits in 32 bits.
\<close>

inductive vstep :: "vio \<Rightarrow> vio \<Rightarrow> bool" where
  submit: "v_calls s b = None \<Longrightarrow> unat (b_blockno (bufs s b)) < 2 ^ 31 \<Longrightarrow> rw_submit b wr s = Inr (r, s') \<Longrightarrow> vstep s s'"
| take: "dev_take s = Some s' \<Longrightarrow> vstep s s'"
| complete: "dev_done h s = Some s' \<Longrightarrow> vstep s s'"
| interrupt: "virtio_disk_intr s = Inr s' \<Longrightarrow> vstep s s'"
| finish: "rw_finish b s = Inr s' \<Longrightarrow> vstep s s'"
| own: "v_calls s b = None \<or> same_block f \<Longrightarrow> vstep s (upd_buf b f s)"

inductive_cases vstep_cases: "vstep s s'"

definition vio_boot :: "vio \<Rightarrow> bool" where
  "vio_boot s \<longleftrightarrow> (\<forall>i<NUM. v_free s i) \<and> v_calls s = (\<lambda>_. None) \<and> v_busy s = (\<lambda>_. False) \<and> v_work s = []
     \<and> v_avail_idx s = v_taken s \<and> v_used_idx s = v_seen s"

inductive vreach :: "vio \<Rightarrow> bool" where
  boot: "vio_boot s \<Longrightarrow> vreach s"
| step: "vreach s \<Longrightarrow> vstep s s' \<Longrightarrow> vreach s'"

lemma boot_vio_inv: "vio_boot s \<Longrightarrow> vio_inv s"
  by (simp add: vio_boot_def vio_inv_def avail_q_def used_q_def)

lemma own_ok:
  assumes "vio_inv s" "v_calls s b = None \<or> same_block f"
  shows "vio_inv (upd_buf b f s) \<and> astep (abs_vio s) (abs_vio (upd_buf b f s))"
proof
  let ?s = "upd_buf b f s"
  have e: "v_calls ?s = v_calls s" "v_desc ?s = v_desc s" "v_ops ?s = v_ops s" "v_info_b ?s = v_info_b s" "v_free ?s = v_free s"
    "avail_q ?s = avail_q s" "used_q ?s = used_q s" "v_work ?s = v_work s" "v_status ?s = v_status s" "v_busy ?s = v_busy s"
    by (simp_all add: upd_buf_def avail_q_def used_q_def)
  show "vio_inv ?s"
  proof (rule vio_inv_same_calls [OF assms(1)])
    fix k assume "v_calls s k \<noteq> None"
    then show "b_blockno (bufs ?s k) = b_blockno (bufs s k)" using assms(2) by (auto simp: upd_buf_def same_block_def)
  qed (use vio_invD(4-6) [OF assms(1)] in \<open>simp_all only: e\<close>)
  have "abs_calls ?s = abs_calls s" by (rule ext) (simp only: abs_calls_def e)
  moreover have "abs_calls s b = None \<or> same_block f" using assms(2) by (auto simp: abs_calls_def)
  ultimately show "astep (abs_vio s) (abs_vio ?s)" by (simp add: abs_vio_def bio_of_upd_buf a_own)
qed

lemma vstep_ok: 
  assumes "vio_inv s" "vstep s s'"
  shows "vio_inv s' \<and> astep (abs_vio s) (abs_vio s')"
proof -
  have skip: "astep (abs_vio s) (abs_vio s)" by (simp add: abs_vio_def a_skip)
  from assms(2) show ?thesis
  proof cases
    case (submit b wr r)
    then show ?thesis using rw_submit_ok [OF assms(1) submit(1,2), of wr] by auto
  next
    case take
    then show ?thesis using dev_take_ok [OF assms(1)] skip by metis
  next
    case (complete h)
    then show ?thesis by (rule dev_done_ok [OF assms(1)])
  next
    case interrupt
    then show ?thesis using intr_ok [OF assms(1)] skip by auto
  next
    case (finish b)
    then obtain c where c: "v_calls s b = Some c" "\<not> v_busy s b" by (auto simp: rw_finish_def split: option.splits if_splits)
    have "astep (bio_of s, abs_calls s) (bio_of s, (abs_calls s)(b := None))" if "abs_calls s b = Some (c_write c, True)"
      using that by (rule a_return)
    then show ?thesis using rw_finish_ok [OF assms(1) c] finish by (auto simp: abs_vio_def)
  next
    case (own b f)
    then show ?thesis using own_ok [OF assms(1)] by blast
  qed
qed

lemma vreach_inv: "vreach s \<Longrightarrow> vio_inv s"
  by (induction rule: vreach.induct) (auto simp: boot_vio_inv dest: vstep_ok)

text \<open>
  C4: the disk driver implements an atomic disk. In every interleaving of calls of \<open>virtio_disk_rw\<close>, interrupts and the device taking
  requests and completing them in any order, each step is a step of the cache with an atomic disk: a call starts, its block is
  transferred exactly once between its start and its return by the \<open>disk_rw\<close> that the buffer cache assumes, the call returns, or nothing
  changes that the cache can see. The sharing of descriptors and the wrap-around of the rings' 16-bit indices never mix up requests.
\<close>

theorem virtio_refines_atomic_disk:
  assumes "vreach s" "vstep s s'"
  shows "astep (abs_vio s) (abs_vio s')"
  using vstep_ok [OF vreach_inv [OF assms(1)] assms(2)] by blast

definition vio0 :: vio where
  "vio0 = \<lparr>bufs = (\<lambda>_. \<lparr>b_valid = False, b_dev = 1, b_blockno = 5, b_lock = initsleeplock, b_refcnt = 1, b_data = (\<lambda>_. 7)\<rparr>),
     bprev = (\<lambda>_. 0), bnext = (\<lambda>_. 0), disk = (\<lambda>_ _. 0), dtrace = [],
     v_desc = (\<lambda>_. \<lparr>d_addr = Null, d_len = 0, d_flags = 0, d_next = 0\<rparr>), v_avail_idx = 0, v_avail = (\<lambda>_. 0), v_used_idx = 0,
     v_used = (\<lambda>_. 0), v_free = (\<lambda>_. True), v_seen = 0, v_info_b = (\<lambda>_. None), v_status = (\<lambda>_. 0),
     v_ops = (\<lambda>_. \<lparr>r_type = 0, r_reserved = 0, r_sector = 0\<rparr>), v_busy = (\<lambda>_. False), v_wakes = [], v_notify = 0,
     v_calls = (\<lambda>_. None), v_taken = 0, v_work = []\<rparr>"

lemma vio0_submit:
  "vreach vio0" "v_calls vio0 0 = None" "unat (b_blockno (bufs vio0 0)) < 2 ^ 31" "\<exists>s'. rw_submit 0 True vio0 = Inr (True, s')"
proof -
  have "vio_boot vio0" by (simp add: vio_boot_def vio0_def)
  then show "vreach vio0" by (rule boot)
  show "v_calls vio0 0 = None" "unat (b_blockno (bufs vio0 0)) < 2 ^ 31" by (simp_all add: vio0_def)
  show "\<exists>s'. rw_submit 0 True vio0 = Inr (True, s')"
    by (simp add: rw_submit_def alloc3_desc_def alloc_desc_def numeral_3_eq_3 NUM_def upt_rec vio0_def Let_def)
qed

theorem virtio_refines_atomic_disk_witness:
  "\<exists>s'. rw_submit 0 True vio0 = Inr (True, s') \<and> astep (abs_vio vio0) (abs_vio s')"
proof -
  obtain s' where s': "rw_submit 0 True vio0 = Inr (True, s')" using vio0_submit(4) by blast
  have "vstep vio0 s'" using vio0_submit(2,3) s' by (rule submit)
  from virtio_refines_atomic_disk [OF vio0_submit(1) this] s' show ?thesis by blast
qed



end
