(* ===== verification/UPrintf.thy ===== *)
theory UPrintf
  imports Printf
begin

text \<open>
  \<open>user/printf.c\<close>: the same format language in user space, written as a two-state machine over the
  format string and with upper-case hexadecimal digits. The output is the bytes written to the file
  descriptor, one \<open>write\<close> each. Both \<open>printf\<close>s are shown to render formats the same way.
\<close>

subsection \<open>Printing to a file descriptor\<close>

definition udigits :: "byte list" where "udigits = str ''0123456789ABCDEF''"

definition u_printint :: "u64 \<Rightarrow> u64 \<Rightarrow> bool \<Rightarrow> byte list res" where
  "u_printint xx base sg =
     (let neg = (sg \<and> sint xx < 0); x = (if neg then - xx else xx) in
      bindR (print_digits udigits 20 base x) (\<lambda>buf.
        if neg then if length buf < 20 then Inr (rev (buf @ [ch (CHR ''-'')])) else Inl (Undefined ''printint'')
        else Inr (rev buf)))"

definition u_printptr :: "u64 \<Rightarrow> byte list" where
  "u_printptr x = str ''0x'' @ ptr_digits udigits 16 x"

definition u_conv :: "byte \<Rightarrow> byte \<Rightarrow> byte \<Rightarrow> varg list \<Rightarrow> (byte list \<times> nat \<times> varg list) res" where
  "u_conv c0 c1 c2 args =
     (let num = (\<lambda>f base sg k. bindR (va_word args) (\<lambda>(w, args).
            bindR (u_printint (f w) base sg) (\<lambda>bs. Inr (bs, k, args))));
          l = ch (CHR ''l''); d = ch (CHR ''d''); u = ch (CHR ''u''); x = ch (CHR ''x'') in
      if c0 = d then num as_int 10 True 0
      else if c0 = l \<and> c1 = d then num id 10 True 1
      else if c0 = l \<and> c1 = l \<and> c2 = d then num id 10 True 2
      else if c0 = u then num as_uint32 10 False 0
      else if c0 = l \<and> c1 = u then num id 10 False 1
      else if c0 = l \<and> c1 = l \<and> c2 = u then num id 10 False 2
      else if c0 = x then num as_uint32 16 False 0
      else if c0 = l \<and> c1 = x then num id 16 False 1
      else if c0 = l \<and> c1 = l \<and> c2 = x then num id 16 False 2
      else if c0 = ch (CHR ''p'') then bindR (va_word args) (\<lambda>(w, args). Inr (u_printptr w, 0, args))
      else if c0 = ch (CHR ''c'') then bindR (va_word args) (\<lambda>(w, args). Inr ([ucast w], 0, args))
      else if c0 = ch (CHR ''s'') then bindR (va_str args) (\<lambda>(s, args).
        Inr (case s of None \<Rightarrow> str ''(null)'' | Some s \<Rightarrow> s, 0, args))
      else if c0 = ch (CHR ''%'') then Inr ([ch (CHR ''%'')], 0, args)
      else Inr ([ch (CHR ''%''), c0], 0, args))"

text \<open>The loop of \<open>vprintf\<close>; \<open>pct\<close> is whether its state is the percent sign.\<close>

function vprintf_loop :: "byte list \<Rightarrow> nat \<Rightarrow> bool \<Rightarrow> varg list \<Rightarrow> byte list res" where
  "vprintf_loop fmt i pct args =
     (let c0 = at fmt i in
      if c0 = 0 then Inr []
      else if \<not> pct
      then if c0 = ch (CHR ''%'') then vprintf_loop fmt (i + 1) True args
           else bindR (vprintf_loop fmt (i + 1) False args) (\<lambda>bs. Inr (c0 # bs))
      else let c1 = at fmt (i + 1); c2 = (if c1 \<noteq> 0 then at fmt (i + 2) else 0) in
        bindR (u_conv c0 c1 c2 args) (\<lambda>(bs, k, args).
        bindR (vprintf_loop fmt (i + 1 + k) False args) (\<lambda>cs. Inr (bs @ cs))))"
  by pat_completeness auto
termination
  by (relation "measure (\<lambda>(fmt, i, pct, args). length fmt - i)") (auto simp: at_def split: if_splits)

declare vprintf_loop.simps [simp del]

definition vprintf :: "byte list \<Rightarrow> varg list \<Rightarrow> byte list res" where
  "vprintf fmt args = vprintf_loop fmt 0 False args"

subsection \<open>The format language\<close>

text \<open>
  A format is a sequence of plain characters and conversions; \<open>conv\<close> prints a conversion from its
  character and the two after it and says how many of those two belong to it.
\<close>

definition first :: "byte list \<Rightarrow> byte" where
  "first cs = (case cs of [] \<Rightarrow> 0 | c # _ \<Rightarrow> c)"

function render :: "(byte \<Rightarrow> byte \<Rightarrow> byte \<Rightarrow> varg list \<Rightarrow> (byte list \<times> nat \<times> varg list) res) \<Rightarrow> byte list \<Rightarrow> varg list
    \<Rightarrow> byte list res" where
  "render conv [] args = Inr []"
| "render conv (c # cs) args =
     (if c \<noteq> ch (CHR ''%'') then bindR (render conv cs args) (\<lambda>bs. Inr (c # bs))
      else case cs of
        [] \<Rightarrow> Inr []
      | c0 # rest \<Rightarrow> bindR (conv c0 (first rest) (first (tl rest)) args) (\<lambda>(bs, k, args).
          bindR (render conv (drop k rest) args) (\<lambda>ds. Inr (bs @ ds))))"
  by pat_completeness auto
termination
  by (relation "measure (\<lambda>(conv, cs, args). length cs)") auto

lemma at_drop: "at fmt (i + n) = at (drop i fmt) n"
  by (auto simp: at_def)

lemma at_simps: "at [] n = 0" "at (c # cs) 0 = c" "at (c # cs) (Suc n) = at cs n" "at cs 0 = first cs"
  "at cs (Suc 0) = first (tl cs)"
  by (cases cs; auto simp: at_def first_def hd_conv_nth split: list.split)+

lemma first_tl_zero: "0 \<notin> set cs \<Longrightarrow> first cs = 0 \<Longrightarrow> first (tl cs) = 0"
  by (cases cs) (auto simp: first_def)

lemma drop_next: "drop i fmt = c # cs \<Longrightarrow> drop (i + Suc n) fmt = drop n cs"
  by (metis add.commute add_Suc_right drop_Suc_Cons drop_drop)

text \<open>What both loops see at index \<open>i\<close>, in terms of the rest of the format.\<close>

lemma at_rest:
  assumes "drop i fmt = c # cs"
  shows "at fmt i = c" "at fmt (i + 1) = first cs" "at fmt (i + 2) = first (tl cs)" "at fmt (i + 3) = first (tl (tl cs))"
    "drop (i + 1) fmt = cs" "drop (i + 2 + k) fmt = drop k (tl cs)" "drop (i + 1 + k) fmt = drop k cs"
  using assms at_drop [of fmt i 0] at_drop [of fmt i 1] at_drop [of fmt i 2] at_drop [of fmt i 3]
    drop_next [OF assms, of 0] drop_next [OF assms, of "Suc k"] drop_next [OF assms, of k]
  by (cases cs; cases "tl cs"; auto simp: at_simps first_def numeral_2_eq_2 numeral_3_eq_3 split: list.split)+

lemma at_end: "drop i fmt = [] \<Longrightarrow> at fmt i = 0"
  by (simp add: at_def)

lemma printf_loop_render: "0 \<notin> set fmt \<Longrightarrow> printf_loop fmt i args = render print_conv (drop i fmt) args"
proof (induction "length fmt - i" arbitrary: i args rule: less_induct)
  case less
  show ?case
  proof (cases "drop i fmt")
    case Nil
    then show ?thesis by (subst printf_loop.simps) (simp add: at_end)
  next
    case (Cons c cs)
    note R = at_rest [OF Cons]
    have nz: "0 \<notin> set (c # cs)" using less(2) Cons by (metis in_set_dropD)
    have i: "i < length fmt" using Cons by (metis drop_all leI list.distinct(1))
    have IH: "printf_loop fmt (Suc j) args = render print_conv (drop (Suc j) fmt) args" if "i \<le> j" for j args
      using less(1) [of "Suc j"] less(2) i that by simp
    show ?thesis
    proof (cases "c = ch (CHR ''%'')")
      case False
      then show ?thesis using nz R(1,5) Cons IH [of i] by (subst printf_loop.simps) (simp add: Let_def)
    next
      case pct: True
      show ?thesis
      proof (cases cs)
        case Nil
        then show ?thesis using pct R(1,2) Cons nz by (subst printf_loop.simps) (simp add: Let_def first_def)
      next
        case rest: (Cons c0 rest)
        have z: "(if first rest \<noteq> 0 then first (tl rest) else 0) = first (tl rest)"
          using first_tl_zero nz rest by auto
        have step: "printf_loop fmt (i + 2 + k) args' = render print_conv (drop k rest) args'" for k args'
          using IH [of "i + 1 + k"] R(6) [of k] rest by simp
        have "c0 \<noteq> 0" "c \<noteq> 0" using nz rest by auto
        then show ?thesis
          unfolding Cons rest
          by (subst printf_loop.simps) (use z in \<open>auto simp: Let_def R [simplified] pct rest first_def [of "c0 # rest"] step [simplified] split: if_splits\<close>)
      qed
    qed
  qed
qed

lemma vprintf_loop_render:
  "0 \<notin> set fmt \<Longrightarrow> vprintf_loop fmt i pct args = render u_conv (if pct then ch (CHR ''%'') # drop i fmt else drop i fmt) args"
proof (induction "length fmt - i" arbitrary: i pct args rule: less_induct)
  case less
  show ?case
  proof (cases "drop i fmt")
    case Nil
    then show ?thesis by (subst vprintf_loop.simps) (simp add: at_end)
  next
    case (Cons c cs)
    note R = at_rest [OF Cons]
    have nz: "0 \<notin> set (c # cs)" using less(2) Cons by (metis in_set_dropD)
    have i: "i < length fmt" using Cons by (metis drop_all leI list.distinct(1))
    have IH: "vprintf_loop fmt (Suc j) q args
        = render u_conv (if q then ch (CHR ''%'') # drop (Suc j) fmt else drop (Suc j) fmt) args" if "i \<le> j" for j q args
      using less(1) [of "Suc j"] less(2) i that by simp
    show ?thesis
    proof (cases pct)
      case False
      then show ?thesis using nz R(1,5) Cons IH [of i] by (subst vprintf_loop.simps) (simp add: Let_def)
    next
      case True
      have z: "(if first cs \<noteq> 0 then first (tl cs) else 0) = first (tl cs)"
        using first_tl_zero nz by auto
      have step: "vprintf_loop fmt (i + 1 + k) False args' = render u_conv (drop k cs) args'" for k args'
        using IH [of "i + k"] R(7) [of k] by simp
      show ?thesis
        unfolding Cons using nz True
        by (subst vprintf_loop.simps) (use z in \<open>auto simp: Let_def R [simplified] step [simplified] split: if_splits\<close>)
    qed
  qed
qed



end
