(* ===== verification/Ulib.thy ===== *)
theory Ulib
  imports KString UPrintf Pipe
begin

text \<open>
  \<open>user/ulib.c\<close>. The string functions that only read are modelled on C strings as the list of
  the bytes before the NUL: a pointer into a string is a suffix of it, and \<open>first\<close> reads the byte pointed to.
  The functions that write memory are modelled on flat byte memory as in \<open>KString\<close>. Input comes from a file
  descriptor through the \<open>read\<close> system call; the locale \<open>byte_source\<close> is what the programs rely on, and a pipe
  whose write end is closed is shown to be such a source.
\<close>

subsection \<open>Strings\<close>

function strcmp :: "byte list \<Rightarrow> byte list \<Rightarrow> int" where
  "strcmp p q = (if first p \<noteq> 0 \<and> first p = first q then strcmp (tl p) (tl q) else uint (first p) - uint (first q))"
  by pat_completeness auto
termination
  by (relation "measure (\<lambda>(p, q). length p)") (auto simp: first_def split: list.splits)

declare strcmp.simps [simp del]

fun strchr :: "byte list \<Rightarrow> byte \<Rightarrow> byte list option" where
  "strchr [] c = None"
| "strchr (b # bs) c = (if b = c then Some (b # bs) else strchr bs c)"

definition u_strlen :: "byte list \<Rightarrow> u32" where
  "u_strlen s = of_nat (length s)"

definition isdigit :: "byte \<Rightarrow> bool" where
  "isdigit c \<longleftrightarrow> ch (CHR ''0'') \<le> c \<and> c \<le> ch (CHR ''9'')"

text \<open>The accumulator is a C \<open>int\<close>, whose overflow is undefined.\<close>

fun atoi_loop :: "int \<Rightarrow> byte list \<Rightarrow> int res" where
  "atoi_loop n [] = Inr n"
| "atoi_loop n (c # s) =
     (if isdigit c
      then let n' = n * 10 + uint c - 48 in
        if n' + 48 < 2 ^ 31 then atoi_loop n' s else Inl (Undefined ''atoi'')
      else Inr n)"

definition atoi :: "byte list \<Rightarrow> int res" where
  "atoi s = atoi_loop 0 s"

subsection \<open>Memory\<close>

fun u_memset_loop :: "mem \<Rightarrow> u64 \<Rightarrow> byte \<Rightarrow> nat \<Rightarrow> nat \<Rightarrow> mem" where
  "u_memset_loop m dst c i 0 = m"
| "u_memset_loop m dst c i (Suc k) = u_memset_loop (m(dst + of_nat i := c)) dst c (Suc i) k"

definition u_memset :: "mem \<Rightarrow> u64 \<Rightarrow> u32 \<Rightarrow> u32 \<Rightarrow> mem" where
  "u_memset m dst c n = u_memset_loop m dst (ucast c) 0 (unat n)"

definition u_memmove :: "mem \<Rightarrow> u64 \<Rightarrow> u64 \<Rightarrow> int \<Rightarrow> mem" where
  "u_memmove m vdst vsrc n =
     (if vsrc > vdst then copy_up m vdst vsrc (nat n)
      else copy_down m (vdst + of_int n) (vsrc + of_int n) (nat n))"

definition u_memcpy :: "mem \<Rightarrow> u64 \<Rightarrow> u64 \<Rightarrow> u32 \<Rightarrow> mem" where
  "u_memcpy m dst src n = u_memmove m dst src (sint n)"

fun u_memcmp_loop :: "mem \<Rightarrow> u64 \<Rightarrow> u64 \<Rightarrow> nat \<Rightarrow> int" where
  "u_memcmp_loop m p1 p2 0 = 0"
| "u_memcmp_loop m p1 p2 (Suc n) =
     (if m p1 \<noteq> m p2 then uint (m p1) - uint (m p2) else u_memcmp_loop m (p1 + 1) (p2 + 1) n)"

definition u_memcmp :: "mem \<Rightarrow> u64 \<Rightarrow> u64 \<Rightarrow> u32 \<Rightarrow> int" where
  "u_memcmp m s1 s2 n = u_memcmp_loop m s1 s2 (unat n)"

partial_function (option) strcpy :: "mem \<Rightarrow> u64 \<Rightarrow> u64 \<Rightarrow> mem option" where
  "strcpy m s t = (let c = m t; m' = m(s := c) in if c \<noteq> 0 then strcpy m' (s + 1) (t + 1) else Some m')"

text \<open>The user library chooses the direction by the addresses alone and meets the contract of \<open>memmove\<close>, too.\<close>

lemma u_memmove_at:
  assumes "unat s + n < 2 ^ 64" "unat d + n < 2 ^ 64" "n < 2 ^ 31"
  shows "u_memmove m d s (int n) a = (if unat (a - d) < n then m (s + (a - d)) else m a)"
proof (cases "s > d")
  case True
  then have "unat d < unat s" by (simp add: word_less_nat_alt)
  then have "unat (d - s) = 2 ^ 64 + unat d - unat s"
    using unat_sub_if_size [of d s] unat_bound [of s] by (simp add: word_size)
  then have "n \<le> unat (d - s)" using assms unat_bound [of s] by simp
  then show ?thesis using True assms(3) by (simp add: u_memmove_def copy_up_at)
next
  case False
  then have le: "unat s \<le> unat d" by (simp add: word_le_nat_alt not_less)
  have "d = s \<or> n \<le> unat (s - d)"
  proof (cases "unat s = unat d")
    case True
    then show ?thesis by (simp add: unat_inject)
  next
    case False
    then have "unat (s - d) = 2 ^ 64 + unat s - unat d"
      using le unat_sub_if_size [of s d] by (simp add: word_size)
    then have "n \<le> unat (s - d)" using assms by linarith
    then show ?thesis by simp
  qed
  then show ?thesis using False assms(3) copy_down_at [of n d s m a] by (simp add: u_memmove_def)
qed

interpretation umove: byte_copy "\<lambda>m d s n. u_memmove m d s (int n)"
  by unfold_locales (rule u_memmove_at)

subsection \<open>Input\<close>

text \<open>
  \<open>read(fd, buf, n)\<close> as a function of \<open>n\<close> and of the state of what is behind the descriptor: it returns the bytes
  stored in the buffer, or \<open>None\<close> for -1.
\<close>

type_synonym 's reader = "nat \<Rightarrow> 's \<Rightarrow> byte list option \<times> 's"

fun gets_loop :: "'s reader \<Rightarrow> nat \<Rightarrow> 's \<Rightarrow> byte list \<times> 's" where
  "gets_loop rd 0 s = ([], s)"
| "gets_loop rd (Suc room) s =
     (case rd 1 s of
        (Some (c # _), s) \<Rightarrow>
          if c = 10 \<or> c = 13 then ([c], s) else let (bs, s) = gets_loop rd room s in (c # bs, s)
      | (_, s) \<Rightarrow> ([], s))"

text \<open>The bytes of \<open>buf\<close> before the NUL that \<open>gets\<close> puts after them; it runs while \<open>i+1 < max\<close>.\<close>

definition gets :: "'s reader \<Rightarrow> int \<Rightarrow> 's \<Rightarrow> byte list \<times> 's" where
  "gets rd mx s = gets_loop rd (nat (mx - 1)) s"

locale byte_source =
  fixes rd :: "'s reader" and cont :: "'s \<Rightarrow> byte list" and ok :: "'s \<Rightarrow> bool"
  assumes read: "ok s \<Longrightarrow> rd n s = (r, s') \<Longrightarrow>
    \<exists>bs. r = Some bs \<and> ok s' \<and> cont s = bs @ cont s' \<and> length bs \<le> n \<and> (bs = [] \<longrightarrow> n = 0 \<or> cont s = [])"
begin

lemma read_some:
  assumes "ok s" "0 < n" "cont s \<noteq> []"
  obtains b bs s' where "rd n s = (Some (b # bs), s')" "ok s'" "cont s = b # bs @ cont s'" "length (b # bs) \<le> n"
proof -
  obtain r s' where r: "rd n s = (r, s')" by fastforce
  with read [OF assms(1) r] assms show ?thesis by (metis append_Cons neq_Nil_conv not_gr_zero that)
qed

lemma read_none:
  assumes "ok s" "n = 0 \<or> cont s = []"
  obtains s' where "rd n s = (Some [], s')" "ok s'" "cont s' = cont s"
proof -
  obtain r s' where r: "rd n s = (r, s')" by fastforce
  with read [OF assms(1) r] assms(2) show ?thesis by (fastforce intro: that)
qed

text \<open>\<open>gets\<close> takes the bytes up to and including the first line end, or as many as fit.\<close>

definition line_of :: "nat \<Rightarrow> byte list \<Rightarrow> byte list" where
  "line_of room bs = (let l = takeWhile (\<lambda>c. c \<noteq> 10 \<and> c \<noteq> 13) bs in take room (l @ take 1 (drop (length l) bs)))"

lemma gets_loop_line:
  "ok s \<Longrightarrow> gets_loop rd room s = (bs, s') \<Longrightarrow> bs = line_of room (cont s) \<and> ok s' \<and> cont s = bs @ cont s'"
proof (induction room arbitrary: s bs s')
  case 0
  then show ?case by (simp add: line_of_def)
next
  case (Suc room)
  show ?case
  proof (cases "cont s")
    case Nil
    then obtain s1 where "rd 1 s = (Some [], s1)" "ok s1" "cont s1 = cont s"
      using read_none [OF Suc.prems(1), of 1] by blast
    then show ?thesis using Suc.prems(2) Nil by (auto simp: line_of_def)
  next
    case (Cons c cs)
    then have "0 < (1::nat)" "cont s \<noteq> []" by simp_all
    from read_some [OF Suc.prems(1) this]
    obtain b xs s1 where r: "rd 1 s = (Some (b # xs), s1)" "ok s1" "cont s = b # xs @ cont s1" "length (b # xs) \<le> 1" .
    then have b: "b = c" "cs = cont s1" "xs = []" using Cons by auto
    show ?thesis
    proof (cases "c = 10 \<or> c = 13")
      case True
      then show ?thesis using Suc.prems(2) r(1,2) b Cons by (auto simp: line_of_def)
    next
      case False
      obtain ds s2 where g: "gets_loop rd room s1 = (ds, s2)" by fastforce
      then have bs: "bs = c # ds" "s' = s2" using Suc.prems(2) r(1) b False by auto
      have IH: "ds = line_of room cs" "ok s2" "cs = ds @ cont s2" using Suc.IH [OF r(2) g] unfolding b(2) by blast+
      have "line_of (Suc room) (c # cs) = c # line_of room cs" using False by (simp add: line_of_def Let_def)
      then show ?thesis unfolding Cons bs using IH by (metis append_Cons)
    qed
  qed
qed

end

subsection \<open>A pipe as a source of input\<close>

text \<open>Reading from a pipe whose write end is closed, into memory where the copies succeed.\<close>

definition pipe_reader :: "pipe reader" where
  "pipe_reader n pi =
     (case piperead (\<lambda>j c bs. Inr (True, bs @ [c])) False (int n) (pi, []) of
        Inr (Returned r, pi', bs) \<Rightarrow> (if r < 0 then None else Some bs, pi')
      | _ \<Rightarrow> (None, pi))"

lemma fold_enumerate_snoc: "fold (\<lambda>(j, c) bs. bs @ [c]) (enumerate i xs) acc = acc @ xs"
  by (induction xs arbitrary: i acc) simp_all

interpretation pipe_in: byte_source pipe_reader pipe_bytes "\<lambda>pi. pipe_inv pi \<and> \<not> p_writeopen pi"
proof (unfold_locales, goal_cases)
  case (1 pi n r pi')
  have cp: "\<And>j ch m. (\<lambda>j c bs. Inr (True, bs @ [c])) j ch m = Inr (True, (\<lambda>j c bs. bs @ [c]) j ch m)" by simp
  let ?k = "min n (length (pipe_bytes pi))"
  obtain q where q: "piperead_loop (\<lambda>j c bs. Inr (True, bs @ [c])) (int n) 0 (pi, []) =
      Inr (Returned (int ?k), q, take ?k (pipe_bytes pi))" "pipe_inv q" "pipe_bytes q = drop ?k (pipe_bytes pi)"
      "p_writeopen q = p_writeopen pi"
    using piperead_loop_takes [where cp = "\<lambda>j c bs. Inr (True, bs @ [c])" and f = "\<lambda>j c bs. bs @ [c]" and n = "int n"
        and i = 0 and m = "[]" and pi = pi] 1(1)
    by (auto simp: Let_def fold_enumerate_snoc)
  then have "r = Some (take ?k (pipe_bytes pi))" "pi' = q" using 1 by (auto simp: pipe_reader_def piperead_def)
  then show ?case using q(2-4) 1(1) by (auto simp: min_def split: if_splits)
qed

end
