(* ===== verification/Grep.thy ===== *)
theory Grep
  imports Ulib
begin

text \<open>
  \<open>user/grep.c\<close>: the regular-expression matcher and the loop that cuts the input into lines. A pattern and a line are C
  strings as in \<open>Ulib\<close>. The matcher is shown to decide the language of the pattern, and the loop to print exactly the matching
  lines however \<open>read\<close> divides the input.
\<close>

subsection \<open>The matcher\<close>

abbreviation star :: byte where "star \<equiv> 42"
abbreviation dot :: byte where "dot \<equiv> 46"
abbreviation dollar :: byte where "dollar \<equiv> 36"
abbreviation caret :: byte where "caret \<equiv> 94"

function matchhere :: "byte list \<Rightarrow> byte list \<Rightarrow> bool" and matchstar :: "byte \<Rightarrow> byte list \<Rightarrow> byte list \<Rightarrow> bool" where
  "matchhere re tx =
     (if re = [] then True
      else if at re 1 = star then matchstar (hd re) (drop 2 re) tx
      else if hd re = dollar \<and> at re 1 = 0 then tx = []
      else if tx \<noteq> [] \<and> (hd re = dot \<or> hd re = hd tx) then matchhere (tl re) (tl tx)
      else False)"
| "matchstar c re tx =
     (if matchhere re tx then True
      else if tx \<noteq> [] \<and> (hd tx = c \<or> c = dot) then matchstar c re (tl tx)
      else False)"
  by pat_completeness auto
termination
proof (relation "measure (case_sum (\<lambda>(re, tx). 2 * (length re + length tx))
      (\<lambda>(c, re, tx). 2 * (length re + length tx) + 1))", goal_cases)
  case (2 re tx)
  then have "2 \<le> length re" by (cases re; cases "tl re") (auto simp: at_def split: if_splits)
  then show ?case by simp
qed (auto simp: neq_Nil_conv)

declare matchhere.simps [simp del] matchstar.simps [simp del]

fun match_from :: "byte list \<Rightarrow> byte list \<Rightarrow> bool" where
  "match_from re [] = matchhere re []"
| "match_from re (c # tx) = (if matchhere re (c # tx) then True else match_from re tx)"

definition match :: "byte list \<Rightarrow> byte list \<Rightarrow> bool" where
  "match re tx = (if first re = caret then matchhere (tl re) tx else match_from re tx)"

subsection \<open>The loop over the input\<close>

text \<open>
  The inner loop on the bytes from \<open>p\<close> to the end of the buffer: the output and what is left from the last \<open>p\<close> on.
  \<open>strchr\<close> does not look past a NUL byte of the input.
\<close>

function grep_lines :: "byte list \<Rightarrow> byte list \<Rightarrow> byte list \<times> byte list" where
  "grep_lines pattern p =
     (case strchr (cstr p) 10 of
        None \<Rightarrow> ([], p)
      | Some q \<Rightarrow>
          let n = length (cstr p) - length q; line = take n p;
              (out, rest) = grep_lines pattern (drop (Suc n) p) in
          (if match pattern line then line @ [10] @ out else out, rest))"
  by pat_completeness auto
termination
proof (relation "measure (\<lambda>(pattern, p). length p)")
  fix pattern p q n line
  assume "strchr (cstr p) 10 = Some q"
  then have "p \<noteq> []" by auto
  then show "((pattern, drop (Suc n) p), pattern, p) \<in> measure (\<lambda>(pattern, p). length p)" by (cases p) auto
qed simp

declare grep_lines.simps [simp del]

text \<open>\<open>buf\<close> has 1024 bytes, of which the first \<open>m\<close> hold the unfinished line; one is kept for the NUL.\<close>

partial_function (option) grep_loop :: "'s reader \<Rightarrow> byte list \<Rightarrow> byte list \<Rightarrow> 's \<Rightarrow> (byte list \<times> 's) option" where
  "grep_loop rd pattern pend s =
     (case rd (1024 - length pend - 1) s of
        (None, s) \<Rightarrow> Some ([], s)
      | (Some bs, s) \<Rightarrow>
          if bs = [] then Some ([], s)
          else let (out, rest) = grep_lines pattern (pend @ bs) in
            Option.bind (grep_loop rd pattern rest s) (\<lambda>(out', s). Some (out @ out', s)))"

definition grep :: "'s reader \<Rightarrow> byte list \<Rightarrow> 's \<Rightarrow> (byte list \<times> 's) option" where
  "grep rd pattern s = grep_loop rd pattern [] s"

subsection \<open>The language of a pattern\<close>

text \<open>
  A pattern is a sequence of items, each a single character or any number of them, and an end mark.
\<close>

datatype item = One byte | Many byte

fun items :: "byte list \<Rightarrow> item list \<times> bool" where
  "items [] = ([], False)"
| "items [c] = (if c = dollar then ([], True) else ([One c], False))"
| "items (c # d # re) =
     (if d = star then let (is, e) = items re in (Many c # is, e)
      else let (is, e) = items (d # re) in (One c # is, e))"

definition admits :: "byte \<Rightarrow> byte \<Rightarrow> bool" where
  "admits c x \<longleftrightarrow> c = dot \<or> x = c"

fun lang :: "item list \<Rightarrow> byte list set" where
  "lang [] = {[]}"
| "lang (One c # is) = {x # w | x w. admits c x \<and> w \<in> lang is}"
| "lang (Many c # is) = {u @ w | u w. list_all (admits c) u \<and> w \<in> lang is}"

text \<open>Some part of the text is in the language; it starts the text after \<open>^\<close> and ends it before \<open>$\<close>.\<close>

definition matches :: "byte list \<Rightarrow> byte list \<Rightarrow> bool" where
  "matches re tx \<longleftrightarrow>
     (let (anchored, body) = (if first re = caret then (True, tl re) else (False, re)); (is, e) = items body in
      \<exists>pre mid post. tx = pre @ mid @ post \<and> mid \<in> lang is \<and> (anchored \<longrightarrow> pre = []) \<and> (e \<longrightarrow> post = []))"

definition here :: "byte list \<Rightarrow> byte list \<Rightarrow> bool" where
  "here re tx \<longleftrightarrow> (\<exists>mid post. tx = mid @ post \<and> mid \<in> lang (fst (items re)) \<and> (snd (items re) \<longrightarrow> post = []))"

lemma here_Nil: "here [] tx"
  by (simp add: here_def)

lemma here_end: "here [dollar] tx \<longleftrightarrow> tx = []"
  by (simp add: here_def)

lemma here_One:
  assumes "re = [] \<longrightarrow> c \<noteq> dollar" "first re \<noteq> star"
  shows "here (c # re) tx \<longleftrightarrow> tx \<noteq> [] \<and> admits c (hd tx) \<and> here re (tl tx)"
proof -
  have i: "items (c # re) = (One c # fst (items re), snd (items re))"
    using assms by (cases re) (auto simp: first_def split: prod.splits)
  show ?thesis unfolding here_def i by (cases tx) (auto simp: Cons_eq_append_conv)
qed

lemma here_Many:
  "here (c # star # re) tx \<longleftrightarrow> here re tx \<or> (tx \<noteq> [] \<and> admits c (hd tx) \<and> here (c # star # re) (tl tx))"
proof -
  have i: "items (c # star # re) = (Many c # fst (items re), snd (items re))" by (simp split: prod.split)
  define P where "P tx \<longleftrightarrow> (\<exists>u v. tx = u @ v \<and> list_all (admits c) u \<and> here re v)" for tx
  have P: "here (c # star # re) tx \<longleftrightarrow> P tx" for tx
  proof
    assume "here (c # star # re) tx"
    then obtain mid post where m: "tx = mid @ post" "mid \<in> lang (Many c # fst (items re))" "snd (items re) \<longrightarrow> post = []"
      unfolding here_def i fst_conv snd_conv by blast
    then obtain u w where "mid = u @ w" "list_all (admits c) u" "w \<in> lang (fst (items re))" by auto
    with m have "tx = (u @ w) @ post" "list_all (admits c) u" "w \<in> lang (fst (items re))"
      "snd (items re) \<longrightarrow> post = []" by auto
    then show "P tx" unfolding P_def here_def by (intro exI [of _ u] exI [of _ "w @ post"]) auto
  next
    assume "P tx"
    then obtain u w post where "tx = u @ w @ post" "list_all (admits c) u" "w \<in> lang (fst (items re))"
      "snd (items re) \<longrightarrow> post = []" unfolding P_def here_def by auto
    then show "here (c # star # re) tx" unfolding here_def i by (intro exI [of _ "u @ w"] exI [of _ post]) auto
  qed
  have "P tx \<longleftrightarrow> here re tx \<or> (tx \<noteq> [] \<and> admits c (hd tx) \<and> P (tl tx))"
  proof
    assume "P tx"
    then obtain u v where "tx = u @ v" "list_all (admits c) u" "here re v" by (auto simp: P_def)
    then show "here re tx \<or> (tx \<noteq> [] \<and> admits c (hd tx) \<and> P (tl tx))" by (cases u) (auto simp: P_def)
  next
    assume "here re tx \<or> (tx \<noteq> [] \<and> admits c (hd tx) \<and> P (tl tx))"
    then show "P tx"
    proof
      assume "here re tx"
      then show ?thesis unfolding P_def by (intro exI [of _ "[]"] exI [of _ tx]) simp
    next
      assume *: "tx \<noteq> [] \<and> admits c (hd tx) \<and> P (tl tx)"
      then obtain u v where "tl tx = u @ v" "list_all (admits c) u" "here re v" by (auto simp: P_def)
      then show ?thesis using * unfolding P_def by (intro exI [of _ "hd tx # u"] exI [of _ v]) (cases tx; auto)
    qed
  qed
  then show ?thesis by (simp add: P)
qed

lemma matcher_here:
  shows "0 \<notin> set re \<Longrightarrow> matchhere re tx \<longleftrightarrow> here re tx"
    and "0 \<notin> set re \<Longrightarrow> matchstar c re tx \<longleftrightarrow> here (c # star # re) tx"
proof (induction re tx and c re tx rule: matchhere_matchstar.induct)
  case (1 re tx)
  show ?case
  proof (cases re)
    case Nil
    then show ?thesis by (simp add: matchhere.simps here_Nil)
  next
    case (Cons c cs)
    have at1: "at re 1 = first cs" using Cons by (simp add: at_simps)
    consider (star) ds where "cs = star # ds" | (fin) "cs = []" "c = dollar"
      | (one) "first cs \<noteq> star" "cs = [] \<longrightarrow> c \<noteq> dollar" by (cases cs) (auto simp: first_def)
    then show ?thesis
    proof cases
      case star
      then show ?thesis using 1 Cons at1 by (subst matchhere.simps) (simp add: first_def)
    next
      case fin
      then show ?thesis using Cons at1 by (subst matchhere.simps) (simp add: first_def here_end)
    next
      case one
      have z: "\<not> (c = dollar \<and> first cs = 0)" using one(2) 1(3) Cons by (cases cs) (auto simp: first_def)
      have "matchhere re tx \<longleftrightarrow> tx \<noteq> [] \<and> (c = dot \<or> c = hd tx) \<and> matchhere cs (tl tx)"
        using Cons at1 one(1) z by (subst matchhere.simps) auto
      also have "\<dots> \<longleftrightarrow> tx \<noteq> [] \<and> admits c (hd tx) \<and> here cs (tl tx)"
        using 1(2,3) Cons one(1) z by (auto simp: admits_def at_simps)
      finally show ?thesis using Cons here_One [OF one(2,1)] by simp
    qed
  qed
next
  case (2 c re tx)
  then show ?case using here_Many [of c re tx] by (subst matchstar.simps) (auto simp: admits_def)
qed

lemma match_from_here: "0 \<notin> set re \<Longrightarrow> match_from re tx \<longleftrightarrow> (\<exists>pre rest. tx = pre @ rest \<and> here re rest)"
proof (induction tx)
  case (Cons c tx)
  have "(\<exists>pre rest. c # tx = pre @ rest \<and> here re rest)
    \<longleftrightarrow> here re (c # tx) \<or> (\<exists>pre rest. tx = pre @ rest \<and> here re rest)"
    by (auto simp: Cons_eq_append_conv)
  then show ?case using Cons by (simp add: matcher_here)
qed (simp add: matcher_here)

lemma match_matches: 
  assumes "0 \<notin> set re"
  shows "match re tx \<longleftrightarrow> matches re tx"
proof (cases "first re = caret")
  case True
  then have "0 \<notin> set (tl re)" using assms by (cases re) auto
  then show ?thesis
    using True by (simp add: match_def matches_def matcher_here here_def split_beta)
next
  case False
  then show ?thesis
    using assms by (simp add: match_def matches_def match_from_here here_def split_beta) blast
qed

text \<open>
  C23: the matcher decides the language of its pattern: for patterns and lines without NUL bytes \<open>match\<close> returns 1 exactly if some
  part of the line is in the language of the pattern, at the start of the line after a leading \<open>^\<close> and at its end before
  a final \<open>$\<close>. The three functions terminate on every input.
\<close>

theorem match_decides_language:
  assumes "0 \<notin> set re"
  shows "match re tx \<longleftrightarrow> matches re tx"
  using assms by (rule match_matches)

theorem match_decides_language_witness:
  "match (str ''^ab*$'') (str ''abb'') \<and> \<not> match (str ''^ab*$'') (str ''abc'')"
proof -
  have p: "(0::byte) \<notin> set (str ''^ab*$'')" by (simp add: ch_def)
  have "matches (str ''^ab*$'') (str ''abb'')"
    unfolding matches_def by (simp add: first_def ch_def) (simp add: admits_def)
  moreover have "\<not> matches (str ''^ab*$'') (str ''abc'')"
    unfolding matches_def by (auto simp: first_def ch_def admits_def)
  ultimately show ?thesis using match_decides_language [OF p] by blast
qed

subsection \<open>The printed lines\<close>

definition unlines :: "byte list list \<Rightarrow> byte list" where
  "unlines ls = concat (map (\<lambda>l. l @ [10]) ls)"

lemma unlines_simps [simp]: "unlines [] = []" "unlines (l # ls) = l @ 10 # unlines ls" "unlines (xs @ ys) = unlines xs @ unlines ys"
  by (simp_all add: unlines_def)

lemma strchr_None: "strchr bs c = None \<longleftrightarrow> c \<notin> set bs"
  by (induction bs) auto

lemma strchr_first: "c \<notin> set l \<Longrightarrow> strchr (l @ c # bs) c = Some (c # bs)"
  by (induction l) auto

lemma cstr_line: "0 \<notin> set l \<Longrightarrow> cstr (l @ 10 # bs) = l @ 10 # cstr bs"
  by (induction l) auto

lemma set_cstr: "set (cstr p) \<subseteq> set p"
  by (auto simp: cstr_def dest: set_takeWhileD)

lemma split_at_newline:
  "a @ b = l @ 10 # c \<Longrightarrow> (\<exists>us. l = a @ us) \<or> (\<exists>us. a = l @ 10 # us \<and> us @ b = c)" for a b l c :: "byte list"
proof (induction a arbitrary: l)
  case (Cons x a)
  then show ?case by (cases l) auto
qed simp

lemma grep_lines_none: "10 \<notin> set p \<Longrightarrow> grep_lines pattern p = ([], p)"
  using set_cstr [of p] strchr_None [of "cstr p" 10] by (subst grep_lines.simps) auto

lemma grep_lines_line:
  assumes "10 \<notin> set l" "0 \<notin> set l"
  shows "grep_lines pattern (l @ 10 # p) =
    (let (out, rest) = grep_lines pattern p in (if match pattern l then l @ [10] @ out else out, rest))"
  using assms by (subst grep_lines.simps) (simp add: cstr_line strchr_first Let_def split: prod.split)

definition plain :: "byte list \<Rightarrow> bool" where
  "plain l \<longleftrightarrow> 10 \<notin> set l \<and> 0 \<notin> set l \<and> length l \<le> 1022"

text \<open>The bytes in the buffer are the lines of a prefix of the input and the beginning of the next line.\<close>

lemma grep_lines_prefix:
  assumes "p @ later = unlines ls @ rest" "list_all plain ls" "10 \<notin> set rest"
  shows "\<exists>ls1 ls2 pend. ls = ls1 @ ls2 \<and> grep_lines pattern p = (unlines (filter (match pattern) ls1), pend)
    \<and> 10 \<notin> set pend \<and> pend @ later = unlines ls2 @ rest \<and> length pend \<le> length p"
  using assms
proof (induction ls arbitrary: p)
  case Nil
  then have "10 \<notin> set p" by (metis Un_iff append_Nil set_append unlines_simps(1))
  then show ?case using Nil grep_lines_none by auto
next
  case (Cons l ls)
  have l: "10 \<notin> set l" "0 \<notin> set l" using Cons.prems(2) by (auto simp: plain_def)
  consider us where "l = p @ us" | us where "p = l @ 10 # us" "us @ later = unlines ls @ rest"
    using Cons.prems(1) split_at_newline [of p later l "unlines ls @ rest"] by auto
  then show ?case
  proof cases
    case 1
    then show ?thesis using l Cons.prems(1) grep_lines_none [of p pattern]
      by (intro exI [of _ "[]"] exI [of _ "l # ls"] exI [of _ p]) auto
  next
    case (2 us)
    obtain ls1 ls2 pend where IH: "ls = ls1 @ ls2" "grep_lines pattern us = (unlines (filter (match pattern) ls1), pend)"
      "10 \<notin> set pend" "pend @ later = unlines ls2 @ rest" "length pend \<le> length us"
      using Cons.IH [OF 2(2)] Cons.prems(2,3) by auto
    then show ?thesis using 2(1) grep_lines_line [OF l, of pattern us]
      by (intro exI [of _ "l # ls1"] exI [of _ ls2] exI [of _ pend]) auto
  qed
qed

context byte_source begin

lemma grep_loop_lines:
  assumes "ok s" "pend @ cont s = unlines ls @ rest" "list_all plain ls" "10 \<notin> set rest" "10 \<notin> set pend"
    "length pend \<le> 1023"
  shows "\<exists>s'. grep_loop rd pattern pend s = Some (unlines (filter (match pattern) ls), s')"
  using assms
proof (induction "length (cont s)" arbitrary: s pend ls rule: less_induct)
  case less
  show ?case
  proof (cases "1024 - length pend - 1 = 0 \<or> cont s = []")
    case True
    have "ls = []"
    proof (rule ccontr)
      assume "ls \<noteq> []"
      then obtain l ls' where ls: "ls = l # ls'" by (cases ls) auto
      then have "10 \<in> set (pend @ cont s)" using less.prems(2) by simp
      then have c: "cont s \<noteq> []" using less.prems(5) by auto
      have e: "pend @ cont s = l @ 10 # unlines ls' @ rest" using less.prems(2) ls by simp
      then have "length pend \<le> length l"
        using split_at_newline [OF e] less.prems(5) by auto
      then show False using True c less.prems(3) ls by (simp add: plain_def)
    qed
    moreover obtain s' where "rd (1024 - length pend - 1) s = (Some [], s')"
      using read_none [OF less.prems(1) True] by blast
    ultimately show ?thesis by (subst grep_loop.simps) simp
  next
    case False
    then have n: "0 < 1024 - length pend - 1" "cont s \<noteq> []" by auto
    from read_some [OF less.prems(1) n] obtain b bs s' where r: "rd (1024 - length pend - 1) s = (Some (b # bs), s')" "ok s'"
      "cont s = b # bs @ cont s'" "length (b # bs) \<le> 1024 - length pend - 1" .
    have "(pend @ b # bs) @ cont s' = unlines ls @ rest" using less.prems(2) r(3) by simp
    from grep_lines_prefix [OF this less.prems(3,4), of pattern]
    obtain ls1 ls2 pend' where g: "ls = ls1 @ ls2"
      "grep_lines pattern (pend @ b # bs) = (unlines (filter (match pattern) ls1), pend')"
      "10 \<notin> set pend'" "pend' @ cont s' = unlines ls2 @ rest" "length pend' \<le> length (pend @ b # bs)" by blast
    have "\<exists>s''. grep_loop rd pattern pend' s' = Some (unlines (filter (match pattern) ls2), s'')"
      using less.prems(3,4) g r by (intro less.hyps) auto
    then show ?thesis using r(1) g(1,2) by (subst grep_loop.simps) auto
  qed
qed

end

text \<open>
  C15: \<open>grep\<close> prints the matching lines: from any source of input that delivers the bytes in order and some
  bytes while there are any, however it divides them, the loop ends and its output is exactly the complete lines that are in the
  language of the pattern, in order and with their newlines, provided that no line is longer than 1022 bytes or has a NUL byte. A last line
  without a newline is not printed.
\<close>

theorem grep_prints_matching_lines:
  assumes "byte_source rd cont ok" and "ok s" and "cont s = unlines ls @ rest" and "10 \<notin> set rest"
    and "list_all plain ls" and "0 \<notin> set pattern"
  shows "\<exists>s'. grep rd pattern s = Some (unlines (filter (matches pattern) ls), s')"
proof -
  have "match pattern = matches pattern" using match_matches [OF assms(6)] by blast
  then show ?thesis
    using byte_source.grep_loop_lines [OF assms(1,2), of "[]" ls rest pattern] assms(3-5) by (simp add: grep_def)
qed

theorem grep_prints_matching_lines_witness:
  "\<exists>pi'. grep pipe_reader (str ''b'')
     (pipe_put 10 (pipe_put 98 (pipe_put 10 (pipe_put 97 (new_pipe (\<lambda>_. 0)\<lparr>p_writeopen := False\<rparr>))))) = Some ([98, 10], pi')"
proof -
  let ?p = "pipe_put 10 (pipe_put 98 (pipe_put 10 (pipe_put 97 (new_pipe (\<lambda>_. 0)\<lparr>p_writeopen := False\<rparr>))))"
  have p: "pipe_inv ?p \<and> \<not> p_writeopen ?p" "pipe_bytes ?p = unlines [[97], [98]] @ []"
    by (simp_all add: pipe_inv_def pipe_bytes_def pipe_put_def new_pipe_def PIPESIZE_def upt_conv_Cons)
  have "matches (str ''b'') [98]" "\<not> matches (str ''b'') [97]"
    by (auto simp: matches_def first_def ch_def admits_def Cons_eq_append_conv)
  then have "filter (matches (str ''b'')) [[97], [98]] = [[98]]" by simp
  then show ?thesis
    using grep_prints_matching_lines [OF pipe_in.byte_source_axioms p, of "str ''b''"] by (simp add: plain_def ch_def)
qed

end
