(* ===== verification/Sh.thy ===== *)
theory Sh
  imports Ulib "HOL-Library.Sublist"
begin

text \<open>
  \<open>user/sh.c\<close>: the command parser of the shell. A pointer into the command line is the suffix of
  the line it points to, so that \<open>s < es\<close> is non-emptiness and \<open>*s\<close> is \<open>first\<close>; a word of the
  line is the pair of the pointers to its beginning and its end. The parser leaves by an error of type \<open>sh_err\<close> where the
  source panics. Its mutual recursion takes fuel, which is shown to be enough on every line.
\<close>

subsection \<open>Commands\<close>

type_synonym ptr = "byte list"
type_synonym word_ptr = "ptr \<times> ptr"

definition M_RDONLY :: u32 where "M_RDONLY = 0"
definition M_WRONLY :: u32 where "M_WRONLY = 1"
definition M_CREATE :: u32 where "M_CREATE = 0x200"
definition M_TRUNC :: u32 where "M_TRUNC = 0x400"

datatype (words: 'w) cmd =
    EXEC (argv: "'w list")
  | REDIR "'w cmd" 'w u32 nat
  | PIPE "'w cmd" "'w cmd"
  | LIST "'w cmd" "'w cmd"
  | BACK "'w cmd"

datatype sh_err = Leftovers | Syntax | Missing_file | Missing_paren | Too_many_args | Not_a_block | No_fuel

definition MAXARGS :: nat where "MAXARGS = 10"

subsection \<open>Tokens\<close>

definition whitespace :: "byte list" where "whitespace = [32, 9, 13, 10, 11]"
definition symbols :: "byte list" where "symbols = str ''<|>&;()''"

definition in_str :: "byte \<Rightarrow> byte list \<Rightarrow> bool" where
  "in_str c toks \<longleftrightarrow> strchr toks c \<noteq> None"

fun skip_ws :: "ptr \<Rightarrow> ptr" where
  "skip_ws [] = []"
| "skip_ws (c # s) = (if in_str c whitespace then skip_ws s else c # s)"

fun skip_word :: "ptr \<Rightarrow> ptr" where
  "skip_word [] = []"
| "skip_word (c # s) = (if \<not> in_str c whitespace \<and> \<not> in_str c symbols then skip_word s else c # s)"

text \<open>The token, its beginning \<open>q\<close>, its end \<open>eq\<close> and the pointer after it.\<close>

record token =
  tok :: byte
  beg :: ptr
  fin :: ptr
  rest :: ptr

definition scan_token :: "ptr \<Rightarrow> byte \<times> ptr" where
  "scan_token s =
     (let c = first s in
      if c = 0 then (c, s)
      else if in_str c (str ''|();&<'') then (c, tl s)
      else if c = ch (CHR ''>'')
      then if first (tl s) = ch (CHR ''>'') then (ch (CHR ''+''), tl (tl s)) else (c, tl s)
      else (ch (CHR ''a''), skip_word s))"

definition gettoken :: "ptr \<Rightarrow> token" where
  "gettoken ps =
     (let s = skip_ws ps; (ret, s') = scan_token s in \<lparr>tok = ret, beg = s, fin = s', rest = skip_ws s'\<rparr>)"

text \<open>Whether the next token starts with one of the characters, and the pointer to it.\<close>

definition peek :: "ptr \<Rightarrow> byte list \<Rightarrow> bool \<times> ptr" where
  "peek ps toks = (let s = skip_ws ps in (first s \<noteq> 0 \<and> in_str (first s) toks, s))"

lemma in_str_iff: "in_str c toks \<longleftrightarrow> c \<in> set toks"
  unfolding in_str_def by (induction toks) auto

lemma skip_ws_idem [simp]: "skip_ws (skip_ws s) = skip_ws s"
  by (induction s) auto

lemma length_skip_ws: "length (skip_ws s) \<le> length s"
  by (induction s) auto

lemma length_skip_word: "length (skip_word s) \<le> length s"
  by (induction s) auto

lemma length_scan_token: "length (snd (scan_token s)) \<le> length s"
  using length_skip_word [of s] by (auto simp: scan_token_def Let_def)

lemma rest_gettoken: "length (rest (gettoken ps)) \<le> length ps"
  using length_skip_ws [of ps] length_scan_token [of "skip_ws ps"] length_skip_ws [of "snd (scan_token (skip_ws ps))"]
  by (simp add: gettoken_def Let_def split_beta)

lemma snd_peek: "snd (peek ps toks) = skip_ws ps"
  by (simp add: peek_def Let_def)

text \<open>A symbol that has been seen is consumed.\<close>

lemma peek_consumes:
  assumes "fst (peek ps toks)" "set toks \<subseteq> set symbols"
  shows "length (rest (gettoken (skip_ws ps))) < length ps"
proof -
  let ?s = "skip_ws ps"
  have s: "first ?s \<noteq> 0" "first ?s \<in> set symbols" using assms by (auto simp: peek_def Let_def in_str_iff)
  have "in_str (first ?s) (str ''|();&<'') \<or> first ?s = ch (CHR ''>'')" using s(2) by (auto simp: in_str_iff symbols_def)
  then have "snd (scan_token ?s) = tl ?s \<or> snd (scan_token ?s) = tl (tl ?s)"
    using s(1) by (auto simp: scan_token_def Let_def)
  then have "length (snd (scan_token ?s)) \<le> length (tl ?s)" by auto
  then have "length (rest (gettoken ?s)) \<le> length (tl ?s)"
    using length_skip_ws [of "snd (scan_token ?s)"] by (simp add: gettoken_def Let_def split_beta)
  moreover have "length (tl ?s) < length ?s" using s(1) by (cases ?s) (auto simp: first_def)
  ultimately show ?thesis using length_skip_ws [of ps] by linarith
qed

lemma redir_consumes:
  assumes "fst (peek ps toks)" "set toks \<subseteq> set symbols"
  shows "length (rest (gettoken (rest (gettoken (skip_ws ps))))) < length ps"
  using peek_consumes [OF assms] rest_gettoken [of "rest (gettoken (skip_ws ps))"] by simp

subsection \<open>The parser\<close>

definition redirect :: "byte \<Rightarrow> 'w cmd \<Rightarrow> 'w \<Rightarrow> 'w cmd" where
  "redirect t cmd w =
     (if t = ch (CHR ''<'') then REDIR cmd w M_RDONLY 0
      else if t = ch (CHR ''>'') then REDIR cmd w (M_WRONLY OR M_CREATE OR M_TRUNC) 1
      else if t = ch (CHR ''+'') then REDIR cmd w (M_WRONLY OR M_CREATE) 1
      else cmd)"

function parseredirs :: "word_ptr cmd \<Rightarrow> ptr \<Rightarrow> sh_err + word_ptr cmd \<times> ptr" where
  "parseredirs cmd ps =
     (let p = peek ps (str ''<>'') in
      if fst p
      then let t = gettoken (snd p); f = gettoken (rest t) in
        if tok f \<noteq> ch (CHR ''a'') then Inl Missing_file
        else parseredirs (redirect (tok t) cmd (beg f, fin f)) (rest f)
      else Inr (cmd, snd p))"
  by pat_completeness auto
termination
  by (relation "measure (\<lambda>(cmd, ps). length ps)") (auto simp: snd_peek symbols_def intro!: redir_consumes)

text \<open>\<open>cmd\<close> of \<open>parseexec\<close> points to the \<open>EXEC\<close> node inside \<open>ret\<close>: adding an argument changes that node.\<close>

fun add_arg :: "'w \<Rightarrow> 'w cmd \<Rightarrow> 'w cmd" where
  "add_arg w (EXEC ws) = EXEC (ws @ [w])"
| "add_arg w (REDIR c f mode fd) = REDIR (add_arg w c) f mode fd"
| "add_arg w c = c"

text \<open>The loop over the arguments; \<open>room\<close> is \<open>MAXARGS - argc\<close>.\<close>

fun parseargs :: "nat \<Rightarrow> word_ptr cmd \<Rightarrow> ptr \<Rightarrow> sh_err + word_ptr cmd \<times> ptr" where
  "parseargs 0 ret ps = Inl Too_many_args"
| "parseargs (Suc room) ret ps =
     (let p = peek ps (str ''|)&;'') in
      if fst p then Inr (ret, snd p)
      else let t = gettoken (snd p) in
        if tok t = 0 then Inr (ret, rest t)
        else if tok t \<noteq> ch (CHR ''a'') then Inl Syntax
        else if room = 0 then Inl Too_many_args
        else bindR (parseredirs (add_arg (beg t, fin t) ret) (rest t)) (\<lambda>(ret, ps). parseargs room ret ps))"

text \<open>The loop of \<open>parseline\<close> over the ampersands.\<close>

function parsebacks :: "word_ptr cmd \<Rightarrow> ptr \<Rightarrow> word_ptr cmd \<times> ptr" where
  "parsebacks cmd ps =
     (let p = peek ps (str ''&'') in
      if fst p then parsebacks (BACK cmd) (rest (gettoken (snd p))) else (cmd, snd p))"
  by pat_completeness auto
termination
  by (relation "measure (\<lambda>(cmd, ps). length ps)") (auto simp: snd_peek symbols_def intro!: peek_consumes)

declare parseredirs.simps [simp del] parsebacks.simps [simp del]

fun parseline :: "nat \<Rightarrow> ptr \<Rightarrow> sh_err + word_ptr cmd \<times> ptr"
  and parsepipe :: "nat \<Rightarrow> ptr \<Rightarrow> sh_err + word_ptr cmd \<times> ptr"
  and parseblock :: "nat \<Rightarrow> ptr \<Rightarrow> sh_err + word_ptr cmd \<times> ptr"
  and parseexec :: "nat \<Rightarrow> ptr \<Rightarrow> sh_err + word_ptr cmd \<times> ptr" where
  "parseline 0 ps = Inl No_fuel"
| "parseline (Suc k) ps =
     bindR (parsepipe k ps) (\<lambda>(cmd, ps).
       let (cmd, ps) = parsebacks cmd ps; p = peek ps (str '';'') in
       if fst p then bindR (parseline k (rest (gettoken (snd p)))) (\<lambda>(right, ps). Inr (LIST cmd right, ps))
       else Inr (cmd, snd p))"
| "parsepipe 0 ps = Inl No_fuel"
| "parsepipe (Suc k) ps =
     bindR (parseexec k ps) (\<lambda>(cmd, ps).
       let p = peek ps (str ''|'') in
       if fst p then bindR (parsepipe k (rest (gettoken (snd p)))) (\<lambda>(right, ps). Inr (PIPE cmd right, ps))
       else Inr (cmd, snd p))"
| "parseblock 0 ps = Inl No_fuel"
| "parseblock (Suc k) ps =
     (let p = peek ps (str ''('') in
      if \<not> fst p then Inl Not_a_block
      else bindR (parseline k (rest (gettoken (snd p)))) (\<lambda>(cmd, ps).
        let p = peek ps (str '')'') in
        if \<not> fst p then Inl Missing_paren else parseredirs cmd (rest (gettoken (snd p)))))"
| "parseexec 0 ps = Inl No_fuel"
| "parseexec (Suc k) ps =
     (let p = peek ps (str ''('') in
      if fst p then parseblock k (snd p)
      else bindR (parseredirs (EXEC []) (snd p)) (\<lambda>(ret, ps). parseargs MAXARGS ret ps))"

text \<open>
  \<open>nulterminate\<close> stores a NUL at the end of every word; \<open>line\<close> is the length of the line \<open>s\<close> in the
  buffer, so that the pointer \<open>e\<close> is at index \<open>line - length e\<close>.
\<close>

fun nulterminate :: "nat \<Rightarrow> word_ptr cmd \<Rightarrow> byte list \<Rightarrow> byte list" where
  "nulterminate line (EXEC ws) buf = fold (\<lambda>(q, e) buf. buf[line - length e := 0]) ws buf"
| "nulterminate line (REDIR c (q, e) mode fd) buf = (nulterminate line c buf)[line - length e := 0]"
| "nulterminate line (PIPE l r) buf = nulterminate line r (nulterminate line l buf)"
| "nulterminate line (LIST l r) buf = nulterminate line r (nulterminate line l buf)"
| "nulterminate line (BACK c) buf = nulterminate line c buf"

text \<open>The fuel of \<open>parsecmd\<close>; the theorem below shows that it never runs out.\<close>

definition parse_fuel :: "ptr \<Rightarrow> nat" where
  "parse_fuel s = 4 * length s + 4"

definition parsecmd :: "ptr \<Rightarrow> sh_err + word_ptr cmd \<times> byte list" where
  "parsecmd s =
     bindR (parseline (parse_fuel s) s) (\<lambda>(cmd, ps).
       if snd (peek ps []) \<noteq> [] then Inl Leftovers else Inr (cmd, nulterminate (length s) cmd (s @ [0])))"

subsection \<open>The fuel is enough\<close>

lemma parseredirs_step:
  "parseredirs cmd ps =
     (if fst (peek ps (str ''<>''))
      then let t = gettoken (skip_ws ps); f = gettoken (rest t) in
        if tok f \<noteq> ch (CHR ''a'') then Inl Missing_file
        else parseredirs (redirect (tok t) cmd (beg f, fin f)) (rest f)
      else Inr (cmd, skip_ws ps))"
  by (subst parseredirs.simps) (simp add: Let_def snd_peek)

lemma parsebacks_step:
  "parsebacks cmd ps =
     (if fst (peek ps (str ''&'')) then parsebacks (BACK cmd) (rest (gettoken (skip_ws ps))) else (cmd, skip_ws ps))"
  by (subst parsebacks.simps) (simp add: Let_def snd_peek)

lemma parseredirs_rest: "parseredirs cmd ps = r \<Longrightarrow> r \<noteq> Inl No_fuel \<and> (\<forall>c ps'. r = Inr (c, ps') \<longrightarrow> length ps' \<le> length ps)"
proof (induction "length ps" arbitrary: cmd ps rule: less_induct)
  case less
  show ?case
  proof (cases "fst (peek ps (str ''<>''))")
    case True
    have c: "length (rest (gettoken (rest (gettoken (skip_ws ps))))) < length ps"
      using True by (intro redir_consumes) (auto simp: symbols_def)
    show ?thesis
      using less(1) [OF c] less(2) c True by (subst (asm) (2) parseredirs_step) (fastforce simp: Let_def split: if_splits)
  next
    case False
    then show ?thesis using less(2) length_skip_ws [of ps] by (subst (asm) parseredirs_step) auto
  qed
qed

lemma parsebacks_rest: "length (snd (parsebacks cmd ps)) \<le> length ps"
proof (induction "length ps" arbitrary: cmd ps rule: less_induct)
  case less
  show ?case
  proof (cases "fst (peek ps (str ''&''))")
    case True
    have c: "length (rest (gettoken (skip_ws ps))) < length ps"
      using True by (intro peek_consumes) (auto simp: symbols_def)
    show ?thesis using less [OF c, of "BACK cmd"] c True by (subst parsebacks_step) simp
  next
    case False
    then show ?thesis using length_skip_ws [of ps] by (subst parsebacks_step) simp
  qed
qed

lemma parseargs_rest: "parseargs room ret ps = r \<Longrightarrow> r \<noteq> Inl No_fuel \<and> (\<forall>c ps'. r = Inr (c, ps') \<longrightarrow> length ps' \<le> length ps)"
proof (induction room ret ps arbitrary: r rule: parseargs.induct)
  case (2 room ret ps)
  let ?t = "gettoken (skip_ws ps)"
  have t: "length (rest ?t) \<le> length ps" using rest_gettoken [of "skip_ws ps"] length_skip_ws [of ps] by simp
  show ?case
  proof (cases "fst (peek ps (str ''|)&;'')) \<or> tok ?t = 0 \<or> tok ?t \<noteq> ch (CHR ''a'') \<or> room = 0")
    case True
    then show ?thesis using 2(2) t length_skip_ws [of ps] by (auto simp: Let_def snd_peek split: if_splits)
  next
    case False
    have "r = bindR (parseredirs (add_arg (beg ?t, fin ?t) ret) (rest ?t)) (\<lambda>(ret, ps). parseargs room ret ps)"
      using False 2(2) by (simp add: Let_def snd_peek)
    then show ?thesis
      using parseredirs_rest [OF refl, of "add_arg (beg ?t, fin ?t) ret" "rest ?t"] 2(1) [OF refl _ refl] False t
      by (cases "parseredirs (add_arg (beg ?t, fin ?t) ret) (rest ?t)") (fastforce simp: snd_peek)+
  qed
qed simp

lemma seen_consumes:
  "fst (peek ps (str '';'')) \<Longrightarrow> length (rest (gettoken (skip_ws ps))) < length ps"
  "fst (peek ps (str ''|'')) \<Longrightarrow> length (rest (gettoken (skip_ws ps))) < length ps"
  "fst (peek ps (str ''('')) \<Longrightarrow> length (rest (gettoken (skip_ws ps))) < length ps"
  "fst (peek ps (str '')'')) \<Longrightarrow> length (rest (gettoken (skip_ws ps))) < length ps"
  by (rule peek_consumes, assumption, simp add: symbols_def)+

definition shorter :: "ptr \<Rightarrow> sh_err + word_ptr cmd \<times> ptr \<Rightarrow> bool" where
  "shorter ps r \<longleftrightarrow> (\<forall>c ps'. r = Inr (c, ps') \<longrightarrow> length ps' \<le> length ps)"

lemma shorter_bind:
  "shorter ps r \<Longrightarrow> (\<And>c ps'. r = Inr (c, ps') \<Longrightarrow> length ps' \<le> length ps \<Longrightarrow> shorter ps (f (c, ps'))) \<Longrightarrow> shorter ps (bindR r f)"
  by (cases r) (auto simp: shorter_def)

lemma shorter_mono: "shorter ps r \<Longrightarrow> length ps \<le> length ps' \<Longrightarrow> shorter ps' r"
  by (fastforce simp: shorter_def)

lemma shorter_Inr: "length ps' \<le> length ps \<Longrightarrow> shorter ps (Inr (c, ps'))"
  by (simp add: shorter_def)

lemma shorter_Inl: "shorter ps (Inl e)"
  by (simp add: shorter_def)

text \<open>What each function does after its first call, for any function called next.\<close>

definition line_tail :: "(ptr \<Rightarrow> sh_err + word_ptr cmd \<times> ptr) \<Rightarrow> word_ptr cmd \<times> ptr \<Rightarrow> sh_err + word_ptr cmd \<times> ptr" where
  "line_tail next = (\<lambda>(c, ps).
     if fst (peek ps (str '';''))
     then bindR (next (rest (gettoken (skip_ws ps)))) (\<lambda>(r, ps). Inr (LIST c r, ps)) else Inr (c, skip_ws ps))"

definition pipe_tail :: "(ptr \<Rightarrow> sh_err + word_ptr cmd \<times> ptr) \<Rightarrow> word_ptr cmd \<times> ptr \<Rightarrow> sh_err + word_ptr cmd \<times> ptr" where
  "pipe_tail next = (\<lambda>(c, ps).
     if fst (peek ps (str ''|''))
     then bindR (next (rest (gettoken (skip_ws ps)))) (\<lambda>(r, ps). Inr (PIPE c r, ps)) else Inr (c, skip_ws ps))"

definition block_tail :: "word_ptr cmd \<times> ptr \<Rightarrow> sh_err + word_ptr cmd \<times> ptr" where
  "block_tail = (\<lambda>(c, ps).
     if fst (peek ps (str '')'')) then parseredirs c (rest (gettoken (skip_ws ps))) else Inl Missing_paren)"

definition exec_args :: "ptr \<Rightarrow> sh_err + word_ptr cmd \<times> ptr" where
  "exec_args ps = bindR (parseredirs (EXEC []) (skip_ws ps)) (\<lambda>(ret, ps). parseargs MAXARGS ret ps)"

lemma parse_steps:
  "parseline (Suc k) ps = bindR (parsepipe k ps) (\<lambda>(c, ps). line_tail (parseline k) (parsebacks c ps))"
  "parsepipe (Suc k) ps = bindR (parseexec k ps) (pipe_tail (parsepipe k))"
  "parseblock (Suc k) ps =
     (if fst (peek ps (str ''('')) then bindR (parseline k (rest (gettoken (skip_ws ps)))) block_tail else Inl Not_a_block)"
  "parseexec (Suc k) ps = (if fst (peek ps (str ''('')) then parseblock k (skip_ws ps) else exec_args ps)"
  unfolding parseline.simps parsepipe.simps parseblock.simps parseexec.simps line_tail_def pipe_tail_def block_tail_def
    exec_args_def Let_def snd_peek
  by (auto simp: split_beta intro!: arg_cong [where f = "bindR _"])

declare parseline.simps(2) [simp del] parsepipe.simps(2) [simp del] parseblock.simps(2) [simp del] parseexec.simps(2) [simp del]

lemma exec_args_rest: "exec_args ps \<noteq> Inl No_fuel" "shorter ps (exec_args ps)"
proof -
  note r = parseredirs_rest [OF refl, of "EXEC []" "skip_ws ps"] and a = parseargs_rest [OF refl, of MAXARGS]
  show "exec_args ps \<noteq> Inl No_fuel"
    using r a by (cases "parseredirs (EXEC []) (skip_ws ps)") (auto simp: exec_args_def)
  have "shorter ps (parseredirs (EXEC []) (skip_ws ps))"
    using r length_skip_ws [of ps] by (fastforce simp: shorter_def)
  moreover have "shorter ps (parseargs MAXARGS c ps1)" if "length ps1 \<le> length ps" for c ps1
    using a [of c ps1] that by (fastforce simp: shorter_def)
  ultimately show "shorter ps (exec_args ps)" unfolding exec_args_def by (auto intro!: shorter_bind)
qed

lemma block_tail_rest: "block_tail x \<noteq> Inl No_fuel" "shorter (snd x) (block_tail x)"
proof -
  obtain c ps where x: "x = (c, ps)" by fastforce
  note r = parseredirs_rest [OF refl, of c "rest (gettoken (skip_ws ps))"]
  show "block_tail x \<noteq> Inl No_fuel" using r x by (auto simp: block_tail_def)
  show "shorter (snd x) (block_tail x)"
    using r seen_consumes(4) [of ps] x by (fastforce simp: block_tail_def shorter_def)
qed

lemma tail_rest:
  assumes "\<And>n. length n < length (snd x) \<Longrightarrow> shorter n (next n)"
  shows "shorter (snd x) (line_tail next x)" "shorter (snd x) (pipe_tail next x)"
proof -
  obtain c ps where x: "x = (c, ps)" by fastforce
  have "shorter ps (next (rest (gettoken (skip_ws ps))))" if "length (rest (gettoken (skip_ws ps))) < length ps"
    using shorter_mono [OF assms] that x by simp
  then show "shorter (snd x) (line_tail next x)" "shorter (snd x) (pipe_tail next x)"
    using seen_consumes(1,2) [of ps] length_skip_ws [of ps] x
    by (auto simp: line_tail_def pipe_tail_def intro!: shorter_bind shorter_Inr)
qed

lemma parse_shorter:
  "shorter ps (parseline k ps) \<and> shorter ps (parsepipe k ps) \<and> shorter ps (parseblock k ps) \<and> shorter ps (parseexec k ps)"
proof (induction k arbitrary: ps)
  case 0
  then show ?case by (simp add: shorter_Inl)
next
  case (Suc k)
  have "shorter ps (parseline (Suc k) ps)"
    unfolding parse_steps
  proof (rule shorter_bind, unfold prod.case)
    fix c :: "word_ptr cmd" and ps1 :: ptr assume "length ps1 \<le> length ps"
    then show "shorter ps (line_tail (parseline k) (parsebacks c ps1))"
      using tail_rest(1) [of "parsebacks c ps1" "parseline k"] Suc parsebacks_rest [of c ps1] by (auto intro: shorter_mono)
  qed (use Suc in simp)
  moreover have "shorter ps (parsepipe (Suc k) ps)"
    unfolding parse_steps
  proof (rule shorter_bind)
    fix c :: "word_ptr cmd" and ps1 :: ptr assume "length ps1 \<le> length ps"
    then show "shorter ps (pipe_tail (parsepipe k) (c, ps1))"
      using tail_rest(2) [of "(c, ps1)" "parsepipe k"] Suc by (auto intro: shorter_mono)
  qed (use Suc in simp)
  moreover have "shorter ps (parseblock (Suc k) ps)"
  proof (cases "fst (peek ps (str ''(''))")
    case True
    have "shorter ps (bindR (parseline k (rest (gettoken (skip_ws ps)))) block_tail)"
    proof (rule shorter_bind)
      show "shorter ps (parseline k (rest (gettoken (skip_ws ps))))"
        using Suc seen_consumes(3) [OF True] by (meson less_imp_le shorter_mono)
      fix c :: "word_ptr cmd" and ps1 :: ptr assume "length ps1 \<le> length ps"
      then show "shorter ps (block_tail (c, ps1))" using block_tail_rest(2) [of "(c, ps1)"] by (auto intro: shorter_mono)
    qed
    then show ?thesis using True by (simp only: parse_steps if_True)
  next
    case False
    then show ?thesis by (simp only: parse_steps if_False shorter_Inl)
  qed
  moreover have "shorter ps (parseexec (Suc k) ps)"
    unfolding parse_steps using Suc [of "skip_ws ps"] exec_args_rest(2) [of ps] length_skip_ws [of ps] by (auto intro: shorter_mono)
  ultimately show ?case by blast
qed

text \<open>Four units of fuel per byte are enough, and more fuel gives the same result.\<close>

lemma enough_bind:
  "r \<noteq> Inl No_fuel \<Longrightarrow> (\<And>x. r = Inr x \<Longrightarrow> f x \<noteq> Inl No_fuel) \<Longrightarrow> bindR r f \<noteq> Inl No_fuel"
  by (cases r) auto

lemma tail_enough:
  assumes "\<And>n. length n < length (snd x) \<Longrightarrow> next n \<noteq> Inl No_fuel"
  shows "line_tail next x \<noteq> Inl No_fuel" "pipe_tail next x \<noteq> Inl No_fuel"
  using assms seen_consumes(1,2) [of "snd x"]
  by (auto simp: line_tail_def pipe_tail_def split_beta bindR_eq_Inl)

lemma parse_enough:
  "(4 * length ps + 4 \<le> k \<longrightarrow> parseline k ps \<noteq> Inl No_fuel) \<and> (4 * length ps + 3 \<le> k \<longrightarrow> parsepipe k ps \<noteq> Inl No_fuel)
   \<and> (4 * length ps + 1 \<le> k \<longrightarrow> parseblock k ps \<noteq> Inl No_fuel) \<and> (4 * length ps + 2 \<le> k \<longrightarrow> parseexec k ps \<noteq> Inl No_fuel)"
proof (induction k arbitrary: ps)
  case (Suc k)
  have sh: "length ps1 \<le> length ps" if "parsepipe k ps = Inr (c, ps1) \<or> parseexec k ps = Inr (c, ps1)" for c ps1
    using parse_shorter [of ps k] that by (auto simp: shorter_def)
  have "parseline (Suc k) ps \<noteq> Inl No_fuel" if k: "4 * length ps + 4 \<le> Suc k"
    unfolding parse_steps
  proof (rule enough_bind, goal_cases)
    case (2 x)
    obtain c ps1 where x: "x = (c, ps1)" by fastforce
    have "length (snd (parsebacks c ps1)) \<le> length ps" using sh 2 x parsebacks_rest [of c ps1] by fastforce
    then show ?case unfolding x prod.case using Suc k by (intro tail_enough(1)) simp
  qed (use Suc k in simp)
  moreover have "parsepipe (Suc k) ps \<noteq> Inl No_fuel" if k: "4 * length ps + 3 \<le> Suc k"
    unfolding parse_steps
  proof (rule enough_bind, goal_cases)
    case (2 x)
    then have "length (snd x) \<le> length ps" using sh by (cases x) auto
    then show ?case using Suc k by (intro tail_enough(2)) simp
  qed (use Suc k in simp)
  moreover have "parseblock (Suc k) ps \<noteq> Inl No_fuel" if k: "4 * length ps + 1 \<le> Suc k"
    unfolding parse_steps using Suc [of "rest (gettoken (skip_ws ps))"] k seen_consumes(3) [of ps] block_tail_rest(1)
    by (auto simp: bindR_eq_Inl)
  moreover have "parseexec (Suc k) ps \<noteq> Inl No_fuel" if k: "4 * length ps + 2 \<le> Suc k"
    unfolding parse_steps using Suc [of "skip_ws ps"] k length_skip_ws [of ps] exec_args_rest(1) by auto
  ultimately show ?case by blast
qed simp

lemma bindR_eqI:
  "r \<noteq> Inl No_fuel \<longrightarrow> r' = r \<Longrightarrow> (\<And>x. r = Inr x \<Longrightarrow> f x \<noteq> Inl No_fuel \<longrightarrow> f' x = f x) \<Longrightarrow>
   bindR r f \<noteq> Inl No_fuel \<longrightarrow> bindR r' f' = bindR r f"
  by (cases r) auto

lemma tail_mono:
  assumes "\<And>n. next n \<noteq> Inl No_fuel \<longrightarrow> next' n = next n"
  shows "line_tail next x \<noteq> Inl No_fuel \<longrightarrow> line_tail next' x = line_tail next x"
    "pipe_tail next x \<noteq> Inl No_fuel \<longrightarrow> pipe_tail next' x = pipe_tail next x"
  unfolding line_tail_def pipe_tail_def split_beta using assms by (auto intro!: bindR_eqI [THEN mp])

lemma parse_mono:
  "(parseline k ps \<noteq> Inl No_fuel \<longrightarrow> parseline (Suc k) ps = parseline k ps)
   \<and> (parsepipe k ps \<noteq> Inl No_fuel \<longrightarrow> parsepipe (Suc k) ps = parsepipe k ps)
   \<and> (parseblock k ps \<noteq> Inl No_fuel \<longrightarrow> parseblock (Suc k) ps = parseblock k ps)
   \<and> (parseexec k ps \<noteq> Inl No_fuel \<longrightarrow> parseexec (Suc k) ps = parseexec k ps)"
proof (induction k arbitrary: ps)
  case (Suc k)
  have "parseline (Suc k) ps \<noteq> Inl No_fuel \<longrightarrow> parseline (Suc (Suc k)) ps = parseline (Suc k) ps"
    unfolding parse_steps(1) [of "Suc k" ps] parse_steps(1) [of k ps] using Suc by (intro bindR_eqI) (auto intro!: tail_mono [THEN mp])
  moreover have "parsepipe (Suc k) ps \<noteq> Inl No_fuel \<longrightarrow> parsepipe (Suc (Suc k)) ps = parsepipe (Suc k) ps"
    unfolding parse_steps(2) [of "Suc k" ps] parse_steps(2) [of k ps] using Suc by (intro bindR_eqI) (auto intro!: tail_mono [THEN mp])
  moreover have "parseblock (Suc k) ps \<noteq> Inl No_fuel \<longrightarrow> parseblock (Suc (Suc k)) ps = parseblock (Suc k) ps"
    unfolding parse_steps(3) [of "Suc k" ps] parse_steps(3) [of k ps] using Suc by (auto intro!: bindR_eqI [THEN mp])
  moreover have "parseexec (Suc k) ps \<noteq> Inl No_fuel \<longrightarrow> parseexec (Suc (Suc k)) ps = parseexec (Suc k) ps"
    unfolding parse_steps(4) [of "Suc k" ps] parse_steps(4) [of k ps] using Suc by auto
  ultimately show ?case by blast
qed simp

definition pline :: "ptr \<Rightarrow> sh_err + word_ptr cmd \<times> ptr" where "pline s = parseline (4 * length s + 4) s"
definition ppipe :: "ptr \<Rightarrow> sh_err + word_ptr cmd \<times> ptr" where "ppipe s = parsepipe (4 * length s + 3) s"
definition pexec :: "ptr \<Rightarrow> sh_err + word_ptr cmd \<times> ptr" where "pexec s = parseexec (4 * length s + 2) s"
definition pblock :: "ptr \<Rightarrow> sh_err + word_ptr cmd \<times> ptr" where "pblock s = parseblock (4 * length s + 1) s"

lemma parse_stable:
  "4 * length s + 4 \<le> k \<Longrightarrow> parseline k s = pline s" "4 * length s + 3 \<le> k \<Longrightarrow> parsepipe k s = ppipe s"
  "4 * length s + 2 \<le> k \<Longrightarrow> parseexec k s = pexec s" "4 * length s + 1 \<le> k \<Longrightarrow> parseblock k s = pblock s"
proof -
  show "4 * length s + 4 \<le> k \<Longrightarrow> parseline k s = pline s"
    by (induction k rule: dec_induct) (use parse_mono parse_enough pline_def in metis)+
  show "4 * length s + 3 \<le> k \<Longrightarrow> parsepipe k s = ppipe s"
    by (induction k rule: dec_induct) (use parse_mono parse_enough ppipe_def in metis)+
  show "4 * length s + 2 \<le> k \<Longrightarrow> parseexec k s = pexec s"
    by (induction k rule: dec_induct) (use parse_mono parse_enough pexec_def in metis)+
  show "4 * length s + 1 \<le> k \<Longrightarrow> parseblock k s = pblock s"
    by (induction k rule: dec_induct) (use parse_mono parse_enough pblock_def in metis)+
qed

lemma tail_cong:
  assumes "\<And>n. length n < length (snd x) \<Longrightarrow> next n = next' n"
  shows "line_tail next x = line_tail next' x" "pipe_tail next x = pipe_tail next' x"
  using assms seen_consumes(1,2) [of "snd x"] by (auto simp: line_tail_def pipe_tail_def split_beta)

lemma bindR_same: "(\<And>x. r = Inr x \<Longrightarrow> f x = g x) \<Longrightarrow> bindR r f = bindR r g"
  by (cases r) auto

text \<open>The recursion without fuel.\<close>

lemma pline_step: "pline s = bindR (ppipe s) (\<lambda>(c, ps). line_tail pline (parsebacks c ps))"
proof -
  have "pline s = bindR (ppipe s) (\<lambda>(c, ps). line_tail (parseline (4 * length s + 3)) (parsebacks c ps))"
  proof -
    have n: "4 * length s + 4 = Suc (4 * length s + 3)" by simp
    show ?thesis unfolding pline_def ppipe_def n by (rule parse_steps(1))
  qed
  also have "\<dots> = bindR (ppipe s) (\<lambda>(c, ps). line_tail pline (parsebacks c ps))"
  proof (rule bindR_same, clarify, rule tail_cong(1))
    fix c ps and n :: ptr assume "ppipe s = Inr (c, ps)" "length n < length (snd (parsebacks c ps))"
    then have "length n < length s"
      using parse_shorter [of s "4 * length s + 3"] parsebacks_rest [of c ps] by (fastforce simp: ppipe_def shorter_def)
    then show "parseline (4 * length s + 3) n = pline n" by (intro parse_stable) simp
  qed
  finally show ?thesis .
qed

lemma ppipe_step: "ppipe s = bindR (pexec s) (pipe_tail ppipe)"
proof -
  have "ppipe s = bindR (pexec s) (pipe_tail (parsepipe (4 * length s + 2)))"
  proof -
    have n: "4 * length s + 3 = Suc (4 * length s + 2)" by simp
    show ?thesis unfolding ppipe_def pexec_def n by (rule parse_steps(2))
  qed
  also have "\<dots> = bindR (pexec s) (pipe_tail ppipe)"
  proof (rule bindR_same, rule tail_cong(2))
    fix x and n :: ptr assume "pexec s = Inr x" "length n < length (snd x)"
    then have "length n < length s"
      using parse_shorter [of s "4 * length s + 2"] by (cases x) (fastforce simp: pexec_def shorter_def)
    then show "parsepipe (4 * length s + 2) n = ppipe n" by (intro parse_stable) simp
  qed
  finally show ?thesis .
qed

lemma pexec_step: "pexec s = (if fst (peek s (str ''('')) then pblock (skip_ws s) else exec_args s)"
  using parse_steps(4) [of "4 * length s + 1" s] parse_stable(4) [of "skip_ws s" "4 * length s + 1"] length_skip_ws [of s]
  by (simp add: pexec_def)

lemma pblock_step:
  "pblock s = (if fst (peek s (str ''('')) then bindR (pline (rest (gettoken (skip_ws s)))) block_tail else Inl Not_a_block)"
proof (cases "fst (peek s (str ''(''))")
  case True
  then have "parseline (4 * length s) (rest (gettoken (skip_ws s))) = pline (rest (gettoken (skip_ws s)))"
    using seen_consumes(3) [OF True] by (intro parse_stable) simp
  then show ?thesis using True parse_steps(3) [of "4 * length s" s] by (simp add: pblock_def)
next
  case False
  then show ?thesis using parse_steps(3) [of "4 * length s" s] by (simp add: pblock_def)
qed

lemma parsecmd_eq:
  "parsecmd s = bindR (pline s) (\<lambda>(cmd, ps).
     if skip_ws ps \<noteq> [] then Inl Leftovers else Inr (cmd, nulterminate (length s) cmd (s @ [0])))"
  by (simp add: parsecmd_def parse_fuel_def pline_def snd_peek)

subsection \<open>Printing commands\<close>

text \<open>
  A command whose words are strings is printed with parentheses only where the grammar needs them: \<open>level\<close> is 0 for what
  \<open>parseexec\<close> reads, 1 for \<open>parsepipe\<close>, and 2 and 3 for \<open>parseline\<close> before and after the semicolon.
\<close>

fun level :: "'w cmd \<Rightarrow> nat" where
  "level (EXEC ws) = 0"
| "level (REDIR c f mode fd) = 0"
| "level (PIPE l r) = 1"
| "level (BACK c) = 2"
| "level (LIST l r) = 3"

definition paren :: "nat \<Rightarrow> 'w cmd \<Rightarrow> byte list \<Rightarrow> byte list" where
  "paren n c t = (if level c \<le> n then t else str ''('' @ t @ str '')'')"

definition redir_op :: "u32 \<Rightarrow> byte list" where
  "redir_op mode = (if mode = M_RDONLY then str ''<'' else if mode = M_WRONLY OR M_CREATE then str ''>>'' else str ''>'')"

fun show_cmd :: "byte list cmd \<Rightarrow> byte list" where
  "show_cmd (EXEC ws) = concat (map (\<lambda>w. w @ [32]) ws)"
| "show_cmd (REDIR c f mode fd) = paren 0 c (show_cmd c) @ redir_op mode @ f @ [32]"
| "show_cmd (PIPE l r) = paren 0 l (show_cmd l) @ str ''|'' @ paren 1 r (show_cmd r)"
| "show_cmd (BACK c) = paren 2 c (show_cmd c) @ str ''&''"
| "show_cmd (LIST l r) = paren 2 l (show_cmd l) @ str '';'' @ paren 3 r (show_cmd r)"

definition wf_word :: "byte list \<Rightarrow> bool" where
  "wf_word w \<longleftrightarrow> w \<noteq> [] \<and> list_all (\<lambda>c. c \<noteq> 0 \<and> \<not> in_str c whitespace \<and> \<not> in_str c symbols) w"

definition redirections :: "(u32 \<times> nat) list" where
  "redirections = [(M_RDONLY, 0), (M_WRONLY OR M_CREATE OR M_TRUNC, 1), (M_WRONLY OR M_CREATE, 1)]"

fun wf_cmd :: "byte list cmd \<Rightarrow> bool" where
  "wf_cmd (EXEC ws) \<longleftrightarrow> list_all wf_word ws \<and> length ws < MAXARGS"
| "wf_cmd (REDIR c f mode fd) \<longleftrightarrow> wf_cmd c \<and> wf_word f \<and> (mode, fd) \<in> set redirections"
| "wf_cmd (PIPE l r) \<longleftrightarrow> wf_cmd l \<and> wf_cmd r"
| "wf_cmd (BACK c) \<longleftrightarrow> wf_cmd c"
| "wf_cmd (LIST l r) \<longleftrightarrow> wf_cmd l \<and> wf_cmd r"

text \<open>The string of a word of the line.\<close>

definition word_str :: "word_ptr \<Rightarrow> byte list" where
  "word_str = (\<lambda>(q, e). take (length q - length e) q)"

abbreviation strings :: "word_ptr cmd \<Rightarrow> byte list cmd" where
  "strings \<equiv> map_cmd word_str"

lemma skip_word_wf: "list_all (\<lambda>c. \<not> in_str c whitespace \<and> \<not> in_str c symbols) w \<Longrightarrow> skip_word (w @ 32 # r) = 32 # r"
  by (induction w) (auto simp: in_str_iff whitespace_def)

lemma gettoken_word:
  assumes "wf_word w"
  shows "gettoken (w @ 32 # r) = \<lparr>tok = ch (CHR ''a''), beg = w @ 32 # r, fin = 32 # r, rest = skip_ws r\<rparr>"
proof -
  obtain c cs where w: "w = c # cs" using assms by (cases w) (auto simp: wf_word_def)
  have c: "c \<noteq> 0" "\<not> in_str c whitespace" "\<not> in_str c symbols" using assms w by (auto simp: wf_word_def)
  have "skip_ws (w @ 32 # r) = w @ 32 # r" using c w by simp
  moreover have "scan_token (w @ 32 # r) = (ch (CHR ''a''), 32 # r)"
    using c w skip_word_wf [of w r] assms
    by (auto simp: scan_token_def Let_def first_def in_str_iff symbols_def wf_word_def list_all_iff)
  moreover have "in_str 32 whitespace" by (simp add: in_str_iff whitespace_def)
  ultimately show ?thesis by (simp add: gettoken_def)
qed

lemma first_word: "wf_word w \<Longrightarrow> first (w @ r) \<notin> set symbols \<union> set whitespace \<union> {0}"
  by (cases w) (auto simp: wf_word_def first_def in_str_iff)

lemma skip_ws_word: "wf_word w \<Longrightarrow> skip_ws (w @ r) = w @ r"
  by (cases w) (auto simp: wf_word_def)

definition sees :: "ptr \<Rightarrow> byte" where
  "sees s = first (skip_ws s)"

lemma fst_peek: "fst (peek ps toks) \<longleftrightarrow> sees ps \<noteq> 0 \<and> sees ps \<in> set toks"
  by (simp add: peek_def Let_def sees_def in_str_iff)

lemma sees_skip [simp]: "sees (skip_ws s) = sees s" "sees (32 # s) = sees s"
  by (simp_all add: sees_def in_str_iff whitespace_def)

lemma sees_word: "wf_word w \<Longrightarrow> sees (w @ r) \<notin> set symbols \<union> set whitespace \<union> {0}"
  using first_word [of w r] by (simp add: sees_def skip_ws_word)

lemma sees_Nil [simp]: "sees [] = 0"
  by (simp add: sees_def first_def)

lemma not_space: "c \<in> set symbols \<Longrightarrow> skip_ws (c # s) = c # s" "c \<in> set symbols \<Longrightarrow> sees (c # s) = c"
  by (auto simp: symbols_def in_str_iff whitespace_def ch_def sees_def first_def)

lemma rest_symbol: "c \<in> set (str ''|();&'') \<Longrightarrow> rest (gettoken (c # s)) = skip_ws s"
proof -
  assume c: "c \<in> set (str ''|();&'')"
  then have "skip_ws (c # s) = c # s" by (intro not_space) (auto simp: symbols_def)
  moreover have "scan_token (c # s) = (c, s)" using c by (auto simp: scan_token_def first_def in_str_iff ch_def)
  ultimately show ?thesis by (simp add: gettoken_def)
qed

lemma word_str_word: "word_str (w @ r, r) = w"
  by (simp add: word_str_def)

lemma parseredirs_none: "sees s \<notin> set (str ''<>'') \<Longrightarrow> parseredirs c s = Inr (c, skip_ws s)"
  by (subst parseredirs_step) (auto simp: fst_peek)

lemma peek_skip: "peek (skip_ws s) toks = peek s toks"
  by (simp add: peek_def)

lemma parseredirs_skip: "parseredirs c (skip_ws s) = parseredirs c s"
  by (subst (1 2) parseredirs_step) (simp add: peek_skip)

lemma parseargs_skip: "parseargs room c (skip_ws s) = parseargs room c s"
  by (cases room) (simp_all add: peek_skip)

text \<open>The operator token before a file name.\<close>

lemma gettoken_op:
  fixes r :: ptr
  assumes "wf_word f" "(mode, fd) \<in> set redirections"
  defines "t \<equiv> gettoken (redir_op mode @ f @ r)"
  shows "sees (redir_op mode @ f @ r) \<in> set (str ''<>'')" "skip_ws (redir_op mode @ f @ r) = redir_op mode @ f @ r"
    "rest t = f @ r" "redirect (tok t) c w = REDIR c w mode fd"
proof -
  have modes: "M_RDONLY = 0" "M_WRONLY OR M_CREATE = 0x201" "M_WRONLY OR M_CREATE OR M_TRUNC = 0x601"
    by (simp_all add: M_RDONLY_def M_WRONLY_def M_CREATE_def M_TRUNC_def)
  have f: "skip_ws (f @ r) = f @ r" "first (f @ r) \<noteq> ch (CHR ''>'')"
    using first_word [OF assms(1), of r] skip_ws_word [OF assms(1)] by (auto simp: symbols_def)
  consider "mode = M_RDONLY" "fd = 0" "redir_op mode = [60]" | "mode = M_WRONLY OR M_CREATE" "fd = 1" "redir_op mode = [62, 62]"
    | "mode = M_WRONLY OR M_CREATE OR M_TRUNC" "fd = 1" "redir_op mode = [62]"
    using assms(2) by (auto simp: redirections_def redir_op_def modes ch_def)
  then show "sees (redir_op mode @ f @ r) \<in> set (str ''<>'')" "skip_ws (redir_op mode @ f @ r) = redir_op mode @ f @ r"
    "rest t = f @ r" "redirect (tok t) c w = REDIR c w mode fd"
    using f unfolding t_def
    by (cases; simp add: sees_def gettoken_def scan_token_def first_def in_str_iff whitespace_def ch_def redirect_def modes)+
qed

lemma parseredirs_one:
  assumes "wf_word f" "(mode, fd) \<in> set redirections"
  shows "parseredirs c (redir_op mode @ f @ 32 # r) = parseredirs (REDIR c (f @ 32 # r, 32 # r) mode fd) r"
proof -
  let ?s = "redir_op mode @ f @ 32 # r"
  note op = gettoken_op [OF assms, where r = "32 # r"]
  have "fst (peek ?s (str ''<>''))" using op(1) by (auto simp: fst_peek ch_def)
  then have "parseredirs c ?s = parseredirs (REDIR c (f @ 32 # r, 32 # r) mode fd) (skip_ws r)"
    by (subst parseredirs_step) (simp add: op Let_def gettoken_word [OF assms(1)])
  then show ?thesis by (simp add: parseredirs_skip)
qed

text \<open>A command of level 0 is an \<open>EXEC\<close> or a parenthesised command inside some redirections.\<close>

fun base :: "'w cmd \<Rightarrow> 'w cmd" where
  "base (REDIR c f mode fd) = base c"
| "base c = c"

fun redirs :: "'w cmd \<Rightarrow> ('w \<times> u32 \<times> nat) list" where
  "redirs (REDIR c f mode fd) = redirs c @ [(f, mode, fd)]"
| "redirs c = []"

definition add_redirs :: "('w \<times> u32 \<times> nat) list \<Rightarrow> 'w cmd \<Rightarrow> 'w cmd" where
  "add_redirs rs c = foldl (\<lambda>c (f, mode, fd). REDIR c f mode fd) c rs"

definition show_redirs :: "(byte list \<times> u32 \<times> nat) list \<Rightarrow> byte list" where
  "show_redirs rs = concat (map (\<lambda>(f, mode, fd). redir_op mode @ f @ [32]) rs)"

lemma add_redirs_base: "add_redirs (redirs c) (base c) = c"
  unfolding add_redirs_def by (induction c rule: base.induct) auto

lemma show_base: "level c = 0 \<Longrightarrow> show_cmd c = paren 0 (base c) (show_cmd (base c)) @ show_redirs (redirs c)"
proof (induction c rule: base.induct)
  case (1 c f mode fd)
  show ?case
  proof (cases "level c = 0")
    case True
    then show ?thesis using 1 by (simp add: show_redirs_def paren_def)
  next
    case False
    then have "base c = c" "redirs c = []" by (cases c; simp)+
    then show ?thesis by (simp add: show_redirs_def)
  qed
qed (simp_all add: show_redirs_def paren_def)

lemma base_not_redir: "base c \<noteq> REDIR d f mode fd"
  by (induction c rule: base.induct) auto

lemma wf_base: "wf_cmd c \<Longrightarrow> wf_cmd (base c) \<and> list_all (\<lambda>(f, mode, fd). wf_word f \<and> (mode, fd) \<in> set redirections) (redirs c)"
  by (induction c rule: base.induct) auto

lemma parseredirs_all:
  assumes "list_all (\<lambda>(f, mode, fd). wf_word f \<and> (mode, fd) \<in> set redirections) rs" "sees r \<notin> set (str ''<>'')"
  shows "\<exists>ws. parseredirs c (show_redirs rs @ r) = Inr (add_redirs (zip ws (map snd rs)) c, skip_ws r)
    \<and> map word_str ws = map fst rs"
  using assms
proof (induction rs arbitrary: c)
  case Nil
  then show ?case by (simp add: show_redirs_def add_redirs_def parseredirs_none)
next
  case (Cons x rs)
  obtain f mode fd where x: "x = (f, mode, fd)" by (cases x)
  have wf: "wf_word f" "(mode, fd) \<in> set redirections" using Cons.prems x by auto
  let ?r = "show_redirs rs @ r"
  have "parseredirs c (show_redirs (x # rs) @ r) = parseredirs (REDIR c (f @ 32 # ?r, 32 # ?r) mode fd) ?r"
    using parseredirs_one [OF wf, of c ?r] x by (simp add: show_redirs_def)
  moreover obtain ws where "parseredirs (REDIR c (f @ 32 # ?r, 32 # ?r) mode fd) ?r =
      Inr (add_redirs (zip ws (map snd rs)) (REDIR c (f @ 32 # ?r, 32 # ?r) mode fd), skip_ws r)"
    "map word_str ws = map fst rs"
    using Cons by fastforce
  ultimately show ?case
    using x by (intro exI [of _ "(f @ 32 # ?r, 32 # ?r) # ws"]) (simp add: add_redirs_def word_str_word)
qed

lemma strings_add_redirs:
  "map word_str ws = map fst rs \<Longrightarrow> strings (add_redirs (zip ws (map snd rs)) c) = add_redirs rs (strings c)"
  unfolding add_redirs_def
proof (induction rs arbitrary: ws c)
  case (Cons x rs)
  then obtain w ws' where "ws = w # ws'" "word_str w = fst x" "map word_str ws' = map fst rs" by (cases ws) auto
  then show ?case using Cons.IH by (cases x) simp
qed simp

definition stop :: "string \<Rightarrow> ptr \<Rightarrow> bool" where
  "stop cs r \<longleftrightarrow> sees r = 0 \<or> sees r \<in> set (str cs)"

lemma stop_mono: "stop cs r \<Longrightarrow> set cs \<subseteq> set ds \<Longrightarrow> stop ds r"
  by (auto simp: stop_def str_def)

lemma stop_neq: "stop '')&;'' r \<Longrightarrow> sees r \<noteq> ch (CHR ''|'')" "stop '')'' r \<Longrightarrow> sees r \<noteq> ch (CHR ''&'')"
  "stop '')'' r \<Longrightarrow> sees r \<noteq> ch (CHR '';'')" "stop ''|)&;'' r \<Longrightarrow> sees r \<notin> set (str ''<>'')"
  by (auto simp: ch_def stop_def)

lemma parseargs_stop:
  assumes "stop ''|)&;'' s" "0 < room"
  shows "parseargs room c s = Inr (c, skip_ws s)"
proof (cases "sees s = 0")
  case True
  then have "gettoken (skip_ws s) = \<lparr>tok = 0, beg = skip_ws s, fin = skip_ws s, rest = skip_ws s\<rparr>"
    by (simp add: gettoken_def scan_token_def sees_def Let_def)
  then show ?thesis using assms(2) True by (cases room) (auto simp: Let_def fst_peek snd_peek stop_def)
next
  case False
  then show ?thesis using assms by (cases room) (auto simp: Let_def fst_peek snd_peek stop_def)
qed

definition show_words :: "byte list list \<Rightarrow> byte list" where
  "show_words ws = concat (map (\<lambda>w. w @ [32]) ws)"

lemma show_words_simps [simp]: "show_words [] = []" "show_words (w # ws) = w @ 32 # show_words ws"
  by (simp_all add: show_words_def)

lemma parseargs_words:
  assumes "list_all wf_word (w # ws)" "length (w # ws) < room" "stop ''|)&;'' r"
    "list_all (\<lambda>(f, mode, fd). wf_word f \<and> (mode, fd) \<in> set redirections) rs"
  shows "\<exists>c'. parseargs room (EXEC as) (show_words (w # ws) @ show_redirs rs @ r) = Inr (c', skip_ws r)
    \<and> strings c' = add_redirs rs (EXEC (map word_str as @ w # ws))"
  using assms
proof (induction ws arbitrary: w as room)
  case (Cons w2 ws)
  let ?r = "show_words (w2 # ws) @ show_redirs rs @ r"
  obtain k where k: "room = Suc k" "0 < k" using Cons.prems(2) by (cases room) auto
  have w: "wf_word w" "wf_word w2" using Cons.prems(1) by auto
  have s: "show_words (w # w2 # ws) @ show_redirs rs @ r = w @ 32 # ?r" by simp
  have "sees (w @ 32 # ?r) \<notin> set symbols" "sees (w2 @ 32 # show_words ws @ show_redirs rs @ r) \<notin> set symbols"
    using sees_word w by blast+
  then have n: "\<not> fst (peek (w @ 32 # ?r) (str ''|)&;''))" "sees ?r \<notin> set (str ''<>'')"
    by (auto simp: fst_peek symbols_def)
  have "parseargs room (EXEC as) (w @ 32 # ?r) = parseargs k (EXEC (as @ [(w @ 32 # ?r, 32 # ?r)])) ?r"
    using k n by (simp add: Let_def snd_peek skip_ws_word [OF w(1)] gettoken_word [OF w(1)] parseredirs_skip
        parseredirs_none parseargs_skip ch_def)
  then show ?case
    using Cons.IH [of w2 k "as @ [(w @ 32 # ?r, 32 # ?r)]"] Cons.prems k(1) unfolding s by (simp add: word_str_word)
next
  case Nil
  let ?r = "show_redirs rs @ r"
  obtain k where k: "room = Suc k" "0 < k" using Nil.prems(2) by (cases room) auto
  have w: "wf_word w" using Nil.prems(1) by simp
  have "sees (w @ 32 # ?r) \<notin> set symbols" using sees_word w by blast
  then have n: "\<not> fst (peek (w @ 32 # ?r) (str ''|)&;''))" by (auto simp: fst_peek symbols_def)
  obtain ws where ws: "parseredirs (EXEC (as @ [(w @ 32 # ?r, 32 # ?r)])) ?r =
      Inr (add_redirs (zip ws (map snd rs)) (EXEC (as @ [(w @ 32 # ?r, 32 # ?r)])), skip_ws r)" "map word_str ws = map fst rs"
    using parseredirs_all [OF Nil.prems(4) stop_neq(4) [OF Nil.prems(3)]] by blast
  have "parseargs room (EXEC as) (w @ 32 # ?r) =
      Inr (add_redirs (zip ws (map snd rs)) (EXEC (as @ [(w @ 32 # ?r, 32 # ?r)])), skip_ws r)"
    using k n ws(1) parseargs_stop [OF Nil.prems(3) k(2)]
    by (simp add: Let_def snd_peek skip_ws_word [OF w(1)] gettoken_word [OF w(1)] parseredirs_skip parseargs_skip ch_def)
  then show ?case using strings_add_redirs [OF ws(2)] by (simp add: word_str_word)
qed

lemma exec_args_shown:
  assumes "list_all wf_word ws" "length ws < MAXARGS" "stop ''|)&;'' r"
    "list_all (\<lambda>(f, mode, fd). wf_word f \<and> (mode, fd) \<in> set redirections) rs"
  shows "\<exists>c'. exec_args (show_words ws @ show_redirs rs @ r) = Inr (c', skip_ws r) \<and> strings c' = add_redirs rs (EXEC ws)"
proof (cases ws)
  case Nil
  obtain vs where vs: "parseredirs (EXEC []) (show_redirs rs @ r) = Inr (add_redirs (zip vs (map snd rs)) (EXEC []), skip_ws r)"
    "map word_str vs = map fst rs"
    using parseredirs_all [OF assms(4) stop_neq(4) [OF assms(3)]] by blast
  have "exec_args (show_redirs rs @ r) = Inr (add_redirs (zip vs (map snd rs)) (EXEC []), skip_ws r)"
    using vs(1) parseargs_stop [OF assms(3)] by (simp add: exec_args_def parseredirs_skip parseargs_skip MAXARGS_def)
  then show ?thesis using Nil strings_add_redirs [OF vs(2)] by simp
next
  case (Cons w us)
  have "sees (w @ 32 # show_words us @ show_redirs rs @ r) \<notin> set symbols" using sees_word Cons assms(1) by fastforce
  then have "sees (show_words ws @ show_redirs rs @ r) \<notin> set (str ''<>'')" using Cons by (auto simp: symbols_def)
  then have "exec_args (show_words ws @ show_redirs rs @ r) = parseargs MAXARGS (EXEC []) (show_words ws @ show_redirs rs @ r)"
    by (simp add: exec_args_def parseredirs_skip parseredirs_none parseargs_skip)
  then show ?thesis using parseargs_words [of w us MAXARGS r rs "[]"] assms Cons by simp
qed

subsection \<open>Reading back what was printed\<close>

definition pbacks :: "ptr \<Rightarrow> sh_err + word_ptr cmd \<times> ptr" where
  "pbacks s = bindR (ppipe s) (\<lambda>(c, ps). Inr (parsebacks c ps))"

lemma pline_backs: "pline s = bindR (pbacks s) (line_tail pline)"
  by (subst pline_step) (cases "ppipe s"; simp add: pbacks_def split_beta)

lemma parsebacks_skip: "parsebacks c (skip_ws s) = parsebacks c s"
  by (subst (1 2) parsebacks_step) (simp add: peek_skip)

text \<open>The functions read a printed command of their level, or a parenthesised one, up to where its text ends.\<close>

definition reads_exec :: "byte list cmd \<Rightarrow> bool" where
  "reads_exec c \<longleftrightarrow> (\<forall>r. stop ''|)&;'' r \<longrightarrow> (\<exists>c'. pexec (paren 0 c (show_cmd c) @ r) = Inr (c', skip_ws r) \<and> strings c' = c))"

definition reads_pipe :: "byte list cmd \<Rightarrow> bool" where
  "reads_pipe c \<longleftrightarrow> (\<forall>r. stop '')&;'' r \<longrightarrow> (\<exists>c'. ppipe (paren 1 c (show_cmd c) @ r) = Inr (c', skip_ws r) \<and> strings c' = c))"

definition reads_back :: "byte list cmd \<Rightarrow> bool" where
  "reads_back c \<longleftrightarrow> (\<forall>r. stop '')&;'' r \<longrightarrow> (\<exists>c'. pbacks (paren 2 c (show_cmd c) @ r) = Inr (parsebacks c' r) \<and> strings c' = c))"

definition reads_line :: "byte list cmd \<Rightarrow> bool" where
  "reads_line c \<longleftrightarrow> (\<forall>r. stop '')'' r \<longrightarrow> (\<exists>c'. pline (show_cmd c @ r) = Inr (c', skip_ws r) \<and> strings c' = c))"

lemma pipe_tail_none: "sees r \<noteq> ch (CHR ''|'') \<Longrightarrow> pipe_tail next (c, skip_ws r) = Inr (c, skip_ws r)"
  by (simp add: pipe_tail_def fst_peek)

lemma line_tail_none: "sees r \<noteq> ch (CHR '';'') \<Longrightarrow> line_tail next (c, skip_ws r) = Inr (c, skip_ws r)"
  by (simp add: line_tail_def fst_peek)

lemma parsebacks_none: "sees r \<noteq> ch (CHR ''&'') \<Longrightarrow> parsebacks c r = (c, skip_ws r)"
  by (subst parsebacks_step) (simp add: fst_peek)

lemma seen_symbol:
  assumes "c \<in> set (str ''|();&'')"
  shows "sees (c # r) = c" "fst (peek (c # r) [c])" "skip_ws (c # r) = c # r" "rest (gettoken (c # r)) = skip_ws r"
  using assms rest_symbol [OF assms] not_space [of c r] by (auto simp: symbols_def fst_peek ch_def)

lemma readsD:
  "reads_exec c \<Longrightarrow> stop ''|)&;'' r \<Longrightarrow> \<exists>c'. pexec (paren 0 c (show_cmd c) @ r) = Inr (c', skip_ws r) \<and> strings c' = c"
  "reads_pipe c \<Longrightarrow> stop '')&;'' r \<Longrightarrow> \<exists>c'. ppipe (paren 1 c (show_cmd c) @ r) = Inr (c', skip_ws r) \<and> strings c' = c"
  "reads_back c \<Longrightarrow> stop '')&;'' r \<Longrightarrow> \<exists>c'. pbacks (paren 2 c (show_cmd c) @ r) = Inr (parsebacks c' r) \<and> strings c' = c"
  "reads_line c \<Longrightarrow> stop '')'' r \<Longrightarrow> \<exists>c'. pline (show_cmd c @ r) = Inr (c', skip_ws r) \<and> strings c' = c"
  unfolding reads_exec_def reads_pipe_def reads_back_def reads_line_def by blast+

lemma pipe_from_exec:
  assumes "reads_exec c" "level c \<noteq> 1"
  shows "reads_pipe c"
  unfolding reads_pipe_def
proof (intro allI impI)
  fix r assume r: "stop '')&;'' r"
  have p: "paren 1 c (show_cmd c) = paren 0 c (show_cmd c)" using assms(2) by (auto simp: paren_def)
  obtain c' where "pexec (paren 0 c (show_cmd c) @ r) = Inr (c', skip_ws r)" "strings c' = c"
    using readsD(1) [OF assms(1) stop_mono [OF r]] by auto
  then show "\<exists>c'. ppipe (paren 1 c (show_cmd c) @ r) = Inr (c', skip_ws r) \<and> strings c' = c"
    unfolding p by (subst ppipe_step) (simp add: pipe_tail_none [OF stop_neq(1) [OF r]])
qed

lemma back_from_pipe:
  assumes "reads_pipe c" "level c \<noteq> 2"
  shows "reads_back c"
  unfolding reads_back_def
proof (intro allI impI)
  fix r assume r: "stop '')&;'' r"
  have p: "paren 2 c (show_cmd c) = paren 1 c (show_cmd c)" using assms(2) by (auto simp: paren_def)
  obtain c' where "ppipe (paren 1 c (show_cmd c) @ r) = Inr (c', skip_ws r)" "strings c' = c"
    using readsD(2) [OF assms(1) r] by blast
  then show "\<exists>c'. pbacks (paren 2 c (show_cmd c) @ r) = Inr (parsebacks c' r) \<and> strings c' = c"
    unfolding p pbacks_def by (intro exI [of _ c']) (simp add: parsebacks_skip)
qed

lemma line_from_back:
  assumes "reads_back c" "level c \<noteq> 3"
  shows "reads_line c"
  unfolding reads_line_def
proof (intro allI impI)
  fix r assume r: "stop '')'' r"
  have "level c \<le> 3" by (cases c) auto
  then have p: "paren 2 c (show_cmd c) = show_cmd c" using assms(2) by (auto simp: paren_def)
  obtain c' where c': "pbacks (show_cmd c @ r) = Inr (parsebacks c' r)" "strings c' = c"
    using readsD(3) [OF assms(1) stop_mono [OF r]] unfolding p by auto
  have "parsebacks c' r = (c', skip_ws r)" by (rule parsebacks_none [OF stop_neq(2) [OF r]])
  then show "\<exists>c'. pline (show_cmd c @ r) = Inr (c', skip_ws r) \<and> strings c' = c"
    using c' by (subst pline_backs) (simp add: line_tail_none [OF stop_neq(3) [OF r]])
qed

text \<open>Leading blanks do not matter.\<close>

lemma pexec_skip: "pexec (skip_ws s) = pexec s"
  by (subst (1 2) pexec_step) (simp add: peek_skip exec_args_def)

lemma pline_skip: "pline (skip_ws s) = pline s"
  by (subst (1 2) pline_step, subst (1 2) ppipe_step) (simp add: pexec_skip)

lemma ppipe_skip: "ppipe (skip_ws s) = ppipe s"
  by (subst (1 2) ppipe_step) (simp add: pexec_skip)

lemma block_shown:
  assumes "reads_line c" "list_all (\<lambda>(f, mode, fd). wf_word f \<and> (mode, fd) \<in> set redirections) rs" "stop ''|)&;'' r"
  shows "\<exists>c'. pexec (str ''('' @ show_cmd c @ str '')'' @ show_redirs rs @ r) = Inr (c', skip_ws r) \<and> strings c' = add_redirs rs c"
proof -
  let ?rest = "ch (CHR '')'') # show_redirs rs @ r"
  let ?s = "ch (CHR ''('') # show_cmd c @ ?rest"
  have "ch (CHR ''('') \<in> set (str ''|();&'')" "ch (CHR '')'') \<in> set (str ''|();&'')" by simp_all
  note o = seen_symbol [OF this(1), of "show_cmd c @ ?rest"] and cl = seen_symbol [OF this(2), of "show_redirs rs @ r"]
  have "stop '')'' ?rest" using cl(1) by (simp add: stop_def)
  then obtain c' where c': "pline (show_cmd c @ ?rest) = Inr (c', ?rest)" "strings c' = c"
    using readsD(4) [OF assms(1), of ?rest] unfolding cl(3) by blast
  have "pexec ?s = block_tail (c', ?rest)"
    using o c'(1) by (subst pexec_step) (simp add: pblock_step pline_skip)
  also have "\<dots> = parseredirs c' (show_redirs rs @ r)" using cl by (simp add: block_tail_def parseredirs_skip)
  finally have "pexec ?s = parseredirs c' (show_redirs rs @ r)" .
  then show ?thesis
    using parseredirs_all [OF assms(2) stop_neq(4) [OF assms(3)], of c'] strings_add_redirs c'(2) by fastforce
qed

lemma exec_from_line:
  assumes "reads_line c" "level c \<noteq> 0"
  shows "reads_exec c"
  unfolding reads_exec_def
proof (intro allI impI)
  fix r assume "stop ''|)&;'' r"
  from block_shown [OF assms(1) _ this, of "[]"] show "\<exists>c'. pexec (paren 0 c (show_cmd c) @ r) = Inr (c', skip_ws r) \<and> strings c' = c"
    using assms(2) by (simp add: paren_def show_redirs_def add_redirs_def)
qed

lemma size_base: "size (base c) \<le> size c"
  by (induction c rule: base.induct) auto

lemma not_block_shown:
  assumes "list_all wf_word ws" "list_all (\<lambda>(f, mode, fd). wf_word f \<and> (mode, fd) \<in> set redirections) rs" "stop ''|)&;'' r"
  shows "sees (show_words ws @ show_redirs rs @ r) \<noteq> ch (CHR ''('')"
proof (cases ws)
  case (Cons w us)
  then have "sees (w @ 32 # show_words us @ show_redirs rs @ r) \<notin> set symbols" using assms(1) sees_word by fastforce
  then show ?thesis using Cons by (auto simp: symbols_def)
next
  case Nil
  show ?thesis
  proof (cases rs)
    case Nil
    then show ?thesis using \<open>ws = []\<close> assms(3) by (auto simp: show_redirs_def stop_def ch_def)
  next
    case (Cons x xs)
    obtain f mode fd where x: "x = (f, mode, fd)" by (cases x)
    then have "sees (redir_op mode @ f @ 32 # show_redirs xs @ r) \<in> set (str ''<>'')"
      using gettoken_op(1) [of f mode fd] assms(2) Cons by simp
    then show ?thesis using \<open>ws = []\<close> Cons x by (auto simp: show_redirs_def ch_def)
  qed
qed

lemma exec_from_base:
  assumes "wf_cmd c" "level c = 0" "level (base c) \<noteq> 0 \<longrightarrow> reads_line (base c)"
  shows "reads_exec c"
  unfolding reads_exec_def
proof (intro allI impI)
  fix r assume r: "stop ''|)&;'' r"
  have wf: "wf_cmd (base c)" "list_all (\<lambda>(f, mode, fd). wf_word f \<and> (mode, fd) \<in> set redirections) (redirs c)"
    using wf_base [OF assms(1)] by auto
  have s: "paren 0 c (show_cmd c) @ r = paren 0 (base c) (show_cmd (base c)) @ show_redirs (redirs c) @ r"
    using show_base [OF assms(2)] assms(2) by (simp add: paren_def)
  show "\<exists>c'. pexec (paren 0 c (show_cmd c) @ r) = Inr (c', skip_ws r) \<and> strings c' = c"
  proof (cases "level (base c) = 0")
    case True
    then obtain ws where b: "base c = EXEC ws" using base_not_redir [of c] by (cases "base c") auto
    let ?s = "show_words ws @ show_redirs (redirs c) @ r"
    have "sees ?s \<noteq> ch (CHR ''('')" using not_block_shown [OF _ wf(2) r] wf(1) b by simp
    then have "pexec ?s = exec_args ?s" by (subst pexec_step) (simp add: fst_peek)
    then show ?thesis
      using exec_args_shown [of ws r "redirs c"] wf r b add_redirs_base [of c] unfolding s by (simp add: paren_def show_words_def)
  next
    case False
    then show ?thesis
      using block_shown [OF _ wf(2) r, of "base c"] assms(3) add_redirs_base [of c] unfolding s by (simp add: paren_def)
  qed
qed

lemma symbol_stop: 
  "stop ''|)&;'' (str ''|'' @ r)" "stop '')&;'' (str ''&'' @ r)" "stop '')&;'' (str '';'' @ r)"
  using seen_symbol(1) [of "ch (CHR ''|'')" r] seen_symbol(1) [of "ch (CHR ''&'')" r] seen_symbol(1) [of "ch (CHR '';'')" r]
  by (simp_all add: stop_def)

lemma reads_all: "wf_cmd c \<Longrightarrow> reads_exec c \<and> reads_pipe c \<and> reads_back c \<and> reads_line c"
proof (induction c rule: measure_induct_rule [of size])
  case (less c)
  show ?case
  proof (cases c)
    case (PIPE l r)
    have IH: "reads_exec l" "reads_pipe r" using less PIPE by auto
    have p: "reads_pipe c" unfolding reads_pipe_def
    proof (intro allI impI)
      fix s assume s: "stop '')&;'' s"
      let ?r = "paren 1 r (show_cmd r) @ s"
      have "ch (CHR ''|'') \<in> set (str ''|();&'')" by simp
      note o = seen_symbol [OF this, of ?r]
      obtain l' where l: "pexec (paren 0 l (show_cmd l) @ str ''|'' @ ?r) = Inr (l', str ''|'' @ ?r)" "strings l' = l"
        using readsD(1) [OF IH(1) symbol_stop(1) [of ?r]] o(3) by auto
      obtain r' where r: "ppipe ?r = Inr (r', skip_ws s)" "strings r' = r" using readsD(2) [OF IH(2) s] by blast
      show "\<exists>c'. ppipe (paren 1 c (show_cmd c) @ s) = Inr (c', skip_ws s) \<and> strings c' = c"
      proof -
        have pc: "paren 1 c (show_cmd c) @ s = paren 0 l (show_cmd l) @ str ''|'' @ ?r"
          using PIPE by (simp add: paren_def [of _ "PIPE l r"])
        show ?thesis unfolding pc using l r o PIPE by (subst ppipe_step) (simp add: pipe_tail_def ppipe_skip)
      qed
    qed
    then have b: "reads_back c" "reads_line c" using back_from_pipe line_from_back PIPE by auto
    then show ?thesis using p exec_from_line PIPE by auto
  next
    case (BACK d)
    have IH: "reads_back d" using less BACK by auto
    have b: "reads_back c" unfolding reads_back_def
    proof (intro allI impI)
      fix s assume s: "stop '')&;'' s"
      have "ch (CHR ''&'') \<in> set (str ''|();&'')" by simp
      note o = seen_symbol [OF this, of s]
      obtain d' where d: "pbacks (paren 2 d (show_cmd d) @ str ''&'' @ s) = Inr (parsebacks d' (str ''&'' @ s))" "strings d' = d"
        using readsD(3) [OF IH symbol_stop(2) [of s]] by blast
      have "parsebacks d' (str ''&'' @ s) = parsebacks (BACK d') s"
        using o by (subst parsebacks_step) (simp add: parsebacks_skip)
      then show "\<exists>c'. pbacks (paren 2 c (show_cmd c) @ s) = Inr (parsebacks c' s) \<and> strings c' = c"
        using d BACK by (intro exI [of _ "BACK d'"]) (simp add: paren_def [of _ "BACK d"])
    qed
    then have l: "reads_line c" "reads_exec c" using line_from_back exec_from_line BACK by auto
    then show ?thesis using b pipe_from_exec BACK by auto
  next
    case (LIST l r)
    have IH: "reads_back l" "reads_line r" using less LIST by auto
    have n: "reads_line c" unfolding reads_line_def
    proof (intro allI impI)
      fix s assume s: "stop '')'' s"
      have p3: "paren 3 r (show_cmd r) = show_cmd r" by (cases r) (simp_all add: paren_def)
      let ?r = "show_cmd r @ s"
      have "ch (CHR '';'') \<in> set (str ''|();&'')" by simp
      note o = seen_symbol [OF this, of ?r]
      obtain l' where l: "pbacks (paren 2 l (show_cmd l) @ str '';'' @ ?r) = Inr (parsebacks l' (str '';'' @ ?r))" "strings l' = l"
        using readsD(3) [OF IH(1) symbol_stop(3) [of ?r]] by blast
      have b: "parsebacks l' (str '';'' @ ?r) = (l', str '';'' @ ?r)"
        using parsebacks_none [of "str '';'' @ ?r" l'] o by (simp add: ch_def)
      obtain r' where r: "pline ?r = Inr (r', skip_ws s)" "strings r' = r" using readsD(4) [OF IH(2) s] by blast
      show "\<exists>c'. pline (show_cmd c @ s) = Inr (c', skip_ws s) \<and> strings c' = c"
        using l b r o LIST p3 by (subst pline_backs) (simp add: line_tail_def pline_skip)
    qed
    then have e: "reads_exec c" "reads_pipe c" using exec_from_line pipe_from_exec LIST by auto
    then show ?thesis using n back_from_pipe LIST by auto
  next
    case (EXEC ws)
    then have e: "reads_exec c" using less(2) by (intro exec_from_base) auto
    then have "reads_pipe c" "reads_back c" using pipe_from_exec back_from_pipe EXEC by auto
    then show ?thesis using e line_from_back EXEC by auto
  next
    case (REDIR d f mode fd)
    have "size (base c) < size c" using size_base [of d] REDIR by simp
    then have "reads_line (base c)" using less wf_base by blast
    then have e: "reads_exec c" using less(2) REDIR by (intro exec_from_base) auto
    then have "reads_pipe c" "reads_back c" using pipe_from_exec back_from_pipe REDIR by auto
    then show ?thesis using e line_from_back REDIR by auto
  qed
qed

subsection \<open>The words of a parsed line\<close>

text \<open>
  Every word of a parsed command is a maximal run of the line without blanks and symbols, so that the NUL bytes written at the
  ends of the words fall on none of them.
\<close>

definition word_ok :: "ptr \<Rightarrow> word_ptr \<Rightarrow> bool" where
  "word_ok s w \<longleftrightarrow> suffix (fst w) s \<and> snd w = skip_word (fst w)"

definition parsed :: "ptr \<Rightarrow> sh_err + word_ptr cmd \<times> ptr \<Rightarrow> bool" where
  "parsed s r \<longleftrightarrow> (\<forall>c ps. r = Inr (c, ps) \<longrightarrow> suffix ps s \<and> (\<forall>w\<in>words c. word_ok s w))"

lemma suffix_skip: "suffix (skip_ws s) s" "suffix (skip_word s) s"
  by (induction s) (auto intro: suffix_ConsI)

lemma suffix_scan: "suffix (snd (scan_token s)) s"
  using suffix_skip(2) [of s] suffix_tl [of s] suffix_order.trans [OF suffix_tl [of "tl s"] suffix_tl [of s]]
  by (auto simp: scan_token_def Let_def)

lemma suffix_rest:
  assumes "suffix ps s"
  shows "suffix (skip_ws ps) s" "suffix (rest (gettoken ps)) s"
proof -
  note tr = suffix_order.trans
  show "suffix (skip_ws ps) s" using tr [OF suffix_skip(1) assms] .
  have "suffix (rest (gettoken ps)) (skip_ws ps)"
    using tr [OF suffix_skip(1) suffix_scan [of "skip_ws ps"]] by (simp add: gettoken_def Let_def split_beta)
  then show "suffix (rest (gettoken ps)) s" using tr \<open>suffix (skip_ws ps) s\<close> by blast
qed

lemma token_word:
  assumes "tok (gettoken ps) = ch (CHR ''a'')" "suffix ps s"
  shows "word_ok s (beg (gettoken ps), fin (gettoken ps))"
proof -
  have "fst (scan_token (skip_ws ps)) = ch (CHR ''a'')" using assms(1) by (simp add: gettoken_def Let_def split_beta)
  then have "snd (scan_token (skip_ws ps)) = skip_word (skip_ws ps)"
    by (auto simp: scan_token_def Let_def in_str_iff ch_def split: if_splits)
  then show ?thesis using suffix_rest(1) [OF assms(2)] by (simp add: word_ok_def gettoken_def Let_def split_beta)
qed

lemma parsed_bind:
  "parsed s r \<Longrightarrow> (\<And>c ps. r = Inr (c, ps) \<Longrightarrow> suffix ps s \<Longrightarrow> \<forall>w\<in>words c. word_ok s w \<Longrightarrow> parsed s (f (c, ps))) \<Longrightarrow>
   parsed s (bindR r f)"
  by (cases r) (auto simp: parsed_def)

lemma words_redirect: "words (redirect t c w) \<subseteq> insert w (words c)"
  by (auto simp: redirect_def)

lemma words_add_arg: "words (add_arg w c) \<subseteq> insert w (words c)"
  by (induction w c rule: add_arg.induct) auto

lemma parseredirs_parsed: "suffix ps s \<Longrightarrow> \<forall>w\<in>words c. word_ok s w \<Longrightarrow> parsed s (parseredirs c ps)"
proof (induction "length ps" arbitrary: c ps rule: less_induct)
  case less
  show ?case
  proof (cases "fst (peek ps (str ''<>'')) \<and> tok (gettoken (rest (gettoken (skip_ws ps)))) = ch (CHR ''a'')")
    case True
    let ?f = "gettoken (rest (gettoken (skip_ws ps)))" let ?t = "gettoken (skip_ws ps)"
    have l: "length (rest ?f) < length ps" using True by (intro redir_consumes) (auto simp: symbols_def)
    note sf = suffix_rest(2) [OF suffix_rest(1) [OF less(2)]]
    have "word_ok s (beg ?f, fin ?f)" using token_word True sf by blast
    then have "\<forall>w\<in>words (redirect (tok ?t) c (beg ?f, fin ?f)). word_ok s w" using less(3) words_redirect by fastforce
    then have "parsed s (parseredirs (redirect (tok ?t) c (beg ?f, fin ?f)) (rest ?f))"
      using less(1) [OF l suffix_rest(2) [OF sf]] by blast
    then show ?thesis using True by (subst parseredirs_step) (simp add: Let_def)
  next
    case False
    then show ?thesis using less(2,3) suffix_rest(1) by (subst parseredirs_step) (auto simp: Let_def parsed_def)
  qed
qed

lemma parsebacks_parsed: "suffix ps s \<Longrightarrow> \<forall>w\<in>words c. word_ok s w \<Longrightarrow> parsed s (Inr (parsebacks c ps))"
proof (induction "length ps" arbitrary: c ps rule: less_induct)
  case less
  show ?case
  proof (cases "fst (peek ps (str ''&''))")
    case True
    have l: "length (rest (gettoken (skip_ws ps))) < length ps" using True by (intro peek_consumes) (auto simp: symbols_def)
    show ?thesis
      using less(1) [OF l suffix_rest(2) [OF suffix_rest(1) [OF less(2)]], of "BACK c"] less(3) True by (subst parsebacks_step) simp
  next
    case False
    then show ?thesis using less(2,3) suffix_rest(1) by (subst parsebacks_step) (auto simp: parsed_def)
  qed
qed

lemma parseargs_parsed: "suffix ps s \<Longrightarrow> \<forall>w\<in>words c. word_ok s w \<Longrightarrow> parsed s (parseargs room c ps)"
proof (induction room arbitrary: c ps)
  case (Suc room)
  let ?t = "gettoken (skip_ws ps)"
  note sf = suffix_rest(1) [OF Suc.prems(1)] and sr = suffix_rest(2) [OF suffix_rest(1) [OF Suc.prems(1)]]
  show ?case
  proof (cases "fst (peek ps (str ''|)&;'')) \<or> tok ?t = 0 \<or> tok ?t \<noteq> ch (CHR ''a'') \<or> room = 0")
    case True
    then show ?thesis using Suc.prems(2) sf sr by (auto simp: Let_def snd_peek parsed_def)
  next
    case False
    then have "word_ok s (beg ?t, fin ?t)" using token_word sf by blast
    then have "\<forall>w\<in>words (add_arg (beg ?t, fin ?t) c). word_ok s w" using Suc.prems(2) words_add_arg by fastforce
    then have "parsed s (bindR (parseredirs (add_arg (beg ?t, fin ?t) c) (rest ?t)) (\<lambda>(ret, ps). parseargs room ret ps))"
      using Suc.IH by (intro parsed_bind parseredirs_parsed sr) auto
    then show ?thesis using False by (simp add: Let_def snd_peek)
  qed
qed (simp add: parsed_def)

lemma parse_parsed:
  "suffix ps s \<Longrightarrow> parsed s (parseline k ps) \<and> parsed s (parsepipe k ps) \<and> parsed s (parseblock k ps) \<and> parsed s (parseexec k ps)"
proof (induction k arbitrary: ps)
  case 0
  then show ?case by (simp add: parsed_def)
next
  case (Suc k)
  note IH = Suc.IH and sf = suffix_rest
  have "parsed s (line_tail (parseline k) (c, ps1))" "parsed s (pipe_tail (parsepipe k) (c, ps1))" "parsed s (block_tail (c, ps1))"
    if "suffix ps1 s" "\<forall>w\<in>words c. word_ok s w" for c ps1
  proof -
    have n: "suffix (rest (gettoken (skip_ws ps1))) s" "suffix (skip_ws ps1) s" using sf that(1) by blast+
    have "parsed s (bindR (parseline k (rest (gettoken (skip_ws ps1)))) (\<lambda>(r, ps). Inr (LIST c r, ps)))"
      using IH [OF n(1)] that(2) by (intro parsed_bind) (auto simp: parsed_def)
    moreover have "parsed s (bindR (parsepipe k (rest (gettoken (skip_ws ps1)))) (\<lambda>(r, ps). Inr (PIPE c r, ps)))"
      using IH [OF n(1)] that(2) by (intro parsed_bind) (auto simp: parsed_def)
    moreover have "parsed s (Inr (c, skip_ws ps1))" "parsed s (Inl Missing_paren)" using n(2) that(2) by (simp_all add: parsed_def)
    moreover have "parsed s (parseredirs c (rest (gettoken (skip_ws ps1))))" by (rule parseredirs_parsed [OF n(1) that(2)])
    ultimately show "parsed s (line_tail (parseline k) (c, ps1))" "parsed s (pipe_tail (parsepipe k) (c, ps1))"
      "parsed s (block_tail (c, ps1))" unfolding line_tail_def pipe_tail_def block_tail_def prod.case by (simp_all del: str_simps)
  qed
  note T = this
  have B: "parsed s (line_tail (parseline k) (parsebacks c ps1))" if "suffix ps1 s" "\<forall>w\<in>words c. word_ok s w" for c ps1
  proof -
    obtain c2 ps2 where e: "parsebacks c ps1 = (c2, ps2)" by fastforce
    then have "suffix ps2 s \<and> (\<forall>w\<in>words c2. word_ok s w)" using parsebacks_parsed [OF that] by (simp add: parsed_def)
    then show ?thesis unfolding e using T(1) by blast
  qed
  have A: "parsed s (exec_args ps)" unfolding exec_args_def
    using parseargs_parsed sf(1) [OF Suc.prems] by (intro parsed_bind parseredirs_parsed) auto
  have "parsed s (parseline (Suc k) ps)"
    unfolding parse_steps by (rule parsed_bind) (use IH [OF Suc.prems] B in auto)
  moreover have "parsed s (parsepipe (Suc k) ps)"
    unfolding parse_steps by (rule parsed_bind) (use IH [OF Suc.prems] T(2) in auto)
  moreover have "parsed s (bindR (parseline k (rest (gettoken (skip_ws ps)))) block_tail)"
    by (rule parsed_bind) (use IH [OF sf(2) [OF sf(1) [OF Suc.prems]]] T(3) in auto)
  then have "parsed s (parseblock (Suc k) ps)" unfolding parse_steps by (simp add: parsed_def)
  moreover have "parsed s (parseexec (Suc k) ps)" unfolding parse_steps using A IH [OF sf(1) [OF Suc.prems]] by simp
  ultimately show ?case by blast
qed

text \<open>\<open>nulterminate\<close> clears the ends of the words and nothing else.\<close>

lemma nth_fold_clear:
  "i < length buf \<Longrightarrow> fold (\<lambda>(q, e) buf. buf[n - length e := 0]) ws buf ! i =
    (if i \<in> (\<lambda>(q, e). n - length e) ` set ws then 0 else buf ! i)"
  by (induction ws arbitrary: buf) (auto simp: nth_list_update)

lemma length_fold_clear: "length (fold (\<lambda>(q, e) buf. buf[n - length e := 0]) ws buf) = length buf"
  by (induction ws arbitrary: buf) auto

lemma nulterminate_nth:
  "length (nulterminate n c buf) = length buf
   \<and> (\<forall>i<length buf. nulterminate n c buf ! i = (if i \<in> (\<lambda>(q, e). n - length e) ` words c then 0 else buf ! i))"
proof (induction n c buf rule: nulterminate.induct)
  case (1 line ws buf)
  then show ?case by (simp add: length_fold_clear nth_fold_clear)
next
  case (2 line c q e mode fd buf)
  let ?b = "nulterminate line c buf"
  have w: "(\<lambda>(q, e). line - length e) ` words (REDIR c (q, e) mode fd) = insert (line - length e) ((\<lambda>(q, e). line - length e) ` words c)"
    by auto
  show ?case
  proof (intro conjI allI impI)
    fix i assume "i < length buf"
    then show "nulterminate line (REDIR c (q, e) mode fd) buf ! i =
        (if i \<in> (\<lambda>(q, e). line - length e) ` words (REDIR c (q, e) mode fd) then 0 else buf ! i)"
      unfolding w using 2 by (cases "i = line - length e") simp_all
  qed (use 2 in simp)
qed auto

lemma skip_word_parts:
  "\<exists>w. q = w @ skip_word q \<and> (\<forall>c\<in>set w. c \<notin> set whitespace \<union> set symbols)
    \<and> (skip_word q = [] \<or> hd (skip_word q) \<in> set whitespace \<union> set symbols)"
proof (induction q)
  case (Cons c q)
  then obtain w where w: "q = w @ skip_word q" "\<forall>c\<in>set w. c \<notin> set whitespace \<union> set symbols"
    "skip_word q = [] \<or> hd (skip_word q) \<in> set whitespace \<union> set symbols" by blast
  show ?case
  proof (cases "c \<in> set whitespace \<union> set symbols")
    case True
    then show ?thesis by (intro exI [of _ "[]"]) (auto simp: in_str_iff)
  next
    case False
    then show ?thesis using w by (intro exI [of _ "c # w"]) (auto simp: in_str_iff)
  qed
qed simp

lemma terminated_word:
  assumes "0 \<notin> set s" "\<forall>w\<in>words c. word_ok s w" "(q, e) \<in> words c"
  shows "cstr (drop (length s - length q) (nulterminate (length s) c (s @ [0]))) = word_str (q, e)"
proof -
  let ?n = "length s" let ?b = "nulterminate ?n c (s @ [0])"
  have e: "e = skip_word q" "suffix q s" using assms(2,3) by (auto simp: word_ok_def)
  obtain w where w: "q = w @ e" "\<forall>c\<in>set w. c \<notin> set whitespace \<union> set symbols" using skip_word_parts [of q] e(1) by auto
  obtain u where s: "s = u @ w @ e" using e(2) w(1) by (auto simp: suffix_def)
  have B: "length ?b = Suc ?n" "\<And>i. i < Suc ?n \<Longrightarrow> ?b ! i = (if i \<in> (\<lambda>(q, e). ?n - length e) ` words c then 0 else (s @ [0]) ! i)"
    using nulterminate_nth [of ?n c "s @ [0]"] by auto
  have keep: "?b ! (length u + i) = w ! i" if i: "i < length w" for i
  proof -
    have "?n - length e' \<noteq> length u + i" if "(q', e') \<in> words c" for q' e'
    proof
      assume eq: "?n - length e' = length u + i"
      have "e' = skip_word q'" "suffix q' s" using assms(2) that by (auto simp: word_ok_def)
      then obtain w' where e': "suffix e' s" "e' = [] \<or> hd e' \<in> set whitespace \<union> set symbols"
        using skip_word_parts [of q'] suffix_skip(2) suffix_order.trans by metis
      have "e' = drop (length u + i) s" using e'(1) eq by (metis suffix_take append_eq_conv_conj length_drop suffix_def suffix_length_le diff_diff_cancel same_append_eq append_take_drop_id)
      then have "hd e' = w ! i" "e' \<noteq> []" using s i by (simp_all add: hd_drop_conv_nth nth_append)
      then show False using e'(2) w(2) i by auto
    qed
    then have "length u + i \<notin> (\<lambda>(q, e). ?n - length e) ` words c" by force
    moreover have "length u + i < Suc ?n" "(s @ [0]) ! (length u + i) = w ! i" using i s by (simp_all add: nth_append)
    ultimately show ?thesis using B(2) by simp
  qed
  have "(q, e) \<in> words c \<Longrightarrow> ?n - length e \<in> (\<lambda>(q, e). ?n - length e) ` words c" by force
  then have fin: "?b ! (length u + length w) = 0" using B(2) [of "length u + length w"] assms(3) s by simp
  have "drop (length u) ?b = w @ 0 # drop (Suc (length u + length w)) ?b"
  proof (rule nth_equalityI)
    show "length (drop (length u) ?b) = length (w @ 0 # drop (Suc (length u + length w)) ?b)" using B(1) s by simp
    fix i assume "i < length (drop (length u) ?b)"
    then have l: "length u + i < length ?b" "length u \<le> length ?b" using B(1) s by simp_all
    consider "i < length w" | "i = length w" | j where "i = Suc (length w + j)" by (meson less_imp_Suc_add linorder_neqE_nat)
    then show "drop (length u) ?b ! i = (w @ 0 # drop (Suc (length u + length w)) ?b) ! i"
    proof cases
      case 3
      then show ?thesis using l B(1) s by (simp add: nth_append add.assoc)
    qed (use keep [of i] fin l in \<open>simp_all add: nth_append\<close>)
  qed
  moreover have "0 \<notin> set w" using assms(1) s by auto
  moreover have "cstr (w @ 0 # x) = w" if "0 \<notin> set w" for x using that by (induction w) auto
  moreover have "length s - length q = length u" using s w(1) by simp
  ultimately show ?thesis using w(1) by (simp add: word_str_word)
qed

text \<open>
  C27: the shell's parser ends on every line: the recursion of \<open>parseline\<close>, \<open>parsepipe\<close>, \<open>parseexec\<close> and \<open>parseblock\<close> never uses
  up the fuel of four calls per byte that \<open>parsecmd\<close> gives it, and any larger fuel gives the same result.
\<close>

theorem parsecmd_terminates:
  shows "parsecmd s \<noteq> Inl No_fuel \<and> parseline (parse_fuel s + k) s = parseline (parse_fuel s) s"
proof
  have "pline s \<noteq> Inl No_fuel" using parse_enough [of s "4 * length s + 4"] by (simp add: pline_def)
  then show "parsecmd s \<noteq> Inl No_fuel" by (auto simp: parsecmd_eq bindR_eq_Inl split: if_splits)
  show "parseline (parse_fuel s + k) s = parseline (parse_fuel s) s"
    using parse_stable(1) [of s "parse_fuel s + k"] parse_stable(1) [of s "parse_fuel s"] by (simp add: parse_fuel_def)
qed

lemma parsed_words:
  assumes "0 \<notin> set s" "parsecmd s = Inr (c, buf)" "(q, e) \<in> words c"
  shows "cstr (drop (length s - length q) buf) = word_str (q, e)"
proof -
  obtain ps where p: "pline s = Inr (c, ps)" "buf = nulterminate (length s) c (s @ [0])"
    using assms(2) by (auto simp: parsecmd_eq bindR_eq_Inr split: if_splits)
  have "\<forall>w\<in>words c. word_ok s w" using parse_parsed [of s s "4 * length s + 4"] p(1) by (auto simp: pline_def parsed_def)
  then show ?thesis using terminated_word [OF assms(1)] p(2) assms(3) by blast
qed

text \<open>Printing and parsing, with blanks at the end of the line.\<close>

lemma parsecmd_show:
  assumes "wf_cmd c" "skip_ws r = []" shows "\<exists>c' buf. parsecmd (show_cmd c @ r) = Inr (c', buf) \<and> map_cmd word_str c' = c"
proof -
  have "stop '')'' r" using assms(2) by (simp add: stop_def sees_def first_def)
  from readsD(4) [OF _ this] reads_all [OF assms(1)] obtain c' where "pline (show_cmd c @ r) = Inr (c', [])" "strings c' = c"
    using assms(2) by auto
  then show ?thesis by (simp add: parsecmd_eq)
qed

text \<open>
  C28: the words of a parsed command are intact strings: whatever line without NUL bytes the parser accepts, after \<open>nulterminate\<close> every
  argument and file name is a C string in the buffer and is the word that stood there; the NUL bytes that end the words fall on
  blanks, symbols or the end of the line.
\<close>

theorem parsed_words_terminated:
  assumes "0 \<notin> set s" "parsecmd s = Inr (c, buf)"
  shows "\<forall>(q, e)\<in>words c. cstr (drop (length s - length q) buf) = word_str (q, e)"
  using parsed_words [OF assms] by auto

theorem parsed_words_terminated_witness:
  "\<exists>q e buf. parsecmd (str ''a>b'') = Inr (REDIR (EXEC [(str ''a>b'', str ''>b'')]) (q, e) 0x601 1, buf) \<and> cstr (drop 2 buf) = str ''b''"
proof -
  have p: "parsecmd (str ''a>b'') = Inr (REDIR (EXEC [(str ''a>b'', str ''>b'')]) (str ''b'', []) 0x601 1, [97, 0, 98, 0])"
    by code_simp
  have "\<forall>(q, e)\<in>words (REDIR (EXEC [(str ''a>b'', str ''>b'')]) (str ''b'', []) 0x601 1).
      cstr (drop (length (str ''a>b'') - length q) [97, 0, 98, 0]) = word_str (q, e)"
    by (rule parsed_words_terminated [OF _ p]) (simp add: ch_def)
  then show ?thesis using p by (simp add: word_str_def)
qed

text \<open>
  C14: printing and parsing a command is the identity: every command whose words have no blanks, symbols or NUL bytes, with fewer than
  \<open>MAXARGS\<close> arguments and the three kinds of redirection, printed with parentheses only where the precedence of pipes, ampersands
  and semicolons needs them, is read back as the same command.
\<close>

theorem parse_show_roundtrip:
  assumes "wf_cmd c"
  shows "\<exists>c' buf. parsecmd (show_cmd c) = Inr (c', buf) \<and> map_cmd word_str c' = c"
  using parsecmd_show [OF assms, of "[]"] by simp

theorem parse_show_roundtrip_witness:
  "\<exists>c' buf. parsecmd (str ''ls |(a ;b &)>f '') = Inr (c', buf)
     \<and> map_cmd word_str c' = PIPE (EXEC [str ''ls''])
         (REDIR (LIST (EXEC [str ''a'']) (BACK (EXEC [str ''b'']))) (str ''f'') (M_WRONLY OR M_CREATE OR M_TRUNC) 1)"
proof -
  let ?c = "PIPE (EXEC [str ''ls''])
         (REDIR (LIST (EXEC [str ''a'']) (BACK (EXEC [str ''b'']))) (str ''f'') (M_WRONLY OR M_CREATE OR M_TRUNC) 1)"
  have "wf_cmd ?c" by code_simp
  moreover have "show_cmd ?c = str ''ls |(a ;b &)>f ''" by code_simp
  ultimately show ?thesis using parse_show_roundtrip by metis
qed

end
