(* ===== verification/Sched.thy ===== *)
theory Sched
  imports Sysproc
begin

text \<open>
  The scheduler loop of \<open>src/kernel/proc.c\<close> on every CPU, interleaved with the other steps of the
  kernel: a program counter for the loop, the flag \<open>found\<close>, the switch to a process and back and the
  waiting for an interrupt. The main result is that no runnable process is starved by a CPU that
  keeps scheduling, with a bound on the number of steps of that CPU.
\<close>

subsection \<open>The loop\<close>

text \<open>
  Where a CPU is in \<open>scheduler\<close>: at the head of the endless loop, about to examine \<open>proc[p]\<close> (or, for
  \<open>p = NPROC\<close>, past the table), inside \<open>swtch\<close> to process \<open>p\<close>, or in \<open>wfi\<close>.
\<close>

datatype sched_pc = Begin | At nat | Switched nat | Wfi

text \<open>
  One step of the loop, with the flag \<open>found\<close>: the examination of one entry, under its lock, is one step.
  The step from \<open>Switched\<close> is the return of \<open>swtch\<close>, that from \<open>Wfi\<close> the arrival of an interrupt.
\<close>

fun scheduler_step :: "sched_pc \<times> bool \<Rightarrow> psys \<Rightarrow> (sched_pc \<times> bool) \<times> psys" where
  "scheduler_step (Begin, found) s = ((At 0, False), s)"
| "scheduler_step (At p, found) s =
     (if p < NPROC then
        (case scheduler_try p s of Some s' \<Rightarrow> ((Switched p, found), s') | None \<Rightarrow> ((At (Suc p), found), s))
      else if found then ((Begin, found), s) else ((Wfi, found), s))"
| "scheduler_step (Switched p, found) s = ((At (Suc p), True), s)"
| "scheduler_step (Wfi, found) s = ((Begin, found), s)"

text \<open>\<open>c->proc\<close> after the step: set by the switch, cleared on the way back.\<close>

definition running :: "sched_pc \<Rightarrow> nat option" where
  "running pc = (case pc of Switched p \<Rightarrow> Some p | _ \<Rightarrow> None)"

text \<open>
  The machine: the state of the kernel's processes with the position of every CPU's scheduler. A CPU
  runs its scheduler while it runs no process; every other step of the kernel may happen in between,
  on any CPU, but only the scheduler starts a process. The label of a step is the CPU whose scheduler
  took it.
\<close>

inductive sstep :: "u64 \<Rightarrow> u64 \<Rightarrow> u64 \<Rightarrow> nat option \<Rightarrow> (psys \<times> kfiles \<times> (nat \<Rightarrow> nat option)) \<times> (nat \<Rightarrow> sched_pc \<times> bool)
    \<Rightarrow> (psys \<times> kfiles \<times> (nat \<Rightarrow> nat option)) \<times> (nat \<Rightarrow> sched_pc \<times> bool) \<Rightarrow> bool"
  for kend tramp forkret where
  scan: "cur c = None \<Longrightarrow> scheduler_step (sc c) s = (q, s')
    \<Longrightarrow> sstep kend tramp forkret (Some c) ((s, f, cur), sc) ((s', f, cur(c := running (fst q))), sc(c := q))"
| work: "kstep kend tramp forkret x y \<Longrightarrow> (\<And>c. snd (snd x) c = None \<Longrightarrow> snd (snd y) c = None)
    \<Longrightarrow> sstep kend tramp forkret None (x, sc) (y, sc)"

inductive_cases sstep_scanE: "sstep kend tramp forkret (Some c) X Y"
inductive_cases sstep_workE: "sstep kend tramp forkret None X Y"

abbreviation sched_inv :: "nat \<Rightarrow> (psys \<times> kfiles \<times> (nat \<Rightarrow> nat option)) \<times> (nat \<Rightarrow> sched_pc \<times> bool) \<Rightarrow> bool" where
  "sched_inv i X \<equiv> initproc (fst (fst X)) = Some i \<and> life_inv i (abs_proc (fst X))"

abbreviation state_of :: "nat \<Rightarrow> (psys \<times> kfiles \<times> (nat \<Rightarrow> nat option)) \<times> (nat \<Rightarrow> sched_pc \<times> bool) \<Rightarrow> procstate" where
  "state_of p X \<equiv> p_state (ptab (fst (fst X)) p)"

abbreviation cpu_of :: "(psys \<times> kfiles \<times> (nat \<Rightarrow> nat option)) \<times> (nat \<Rightarrow> sched_pc \<times> bool) \<Rightarrow> nat \<Rightarrow> nat option" where
  "cpu_of X \<equiv> snd (snd (fst X))"

subsection \<open>Steps of the scheduler\<close>

text \<open>A step of the loop either starts the runnable process it examines or leaves the processes alone.\<close>

lemma scheduler_step_cases:
  assumes "scheduler_step q s = (q', s')"
  obtains (dispatch) p where "fst q = At p" "p < NPROC" "p_state (ptab s p) = RUNNABLE" "scheduler_try p s = Some s'"
      "fst q' = Switched p"
  | (pass) "s' = s" "running (fst q') = None"
      "\<And>p. fst q = At p \<Longrightarrow> p < NPROC \<Longrightarrow> p_state (ptab s p) \<noteq> RUNNABLE"
  using assms
  by (cases "(q, s)" rule: scheduler_step.cases)
    (auto simp: running_def scheduler_try_def split: if_splits)

text \<open>The loop of one CPU is a refinement of the scheduling step of the process machine.\<close>

lemma scan_refines:
  fixes cur :: "nat \<Rightarrow> nat option"
  assumes "cur c = None" "scheduler_step q s = (q', s')"
  shows "(s', cur(c := running (fst q'))) = (s, cur) \<or> kstep kend tramp forkret (s, f, cur) (s', f, cur(c := running (fst q')))"
  using assms(2)
proof (cases rule: scheduler_step_cases)
  case (dispatch p)
  then show ?thesis using pstep.schedule [where cur = cur and c = c, OF assms(1) dispatch(2,4)] by (intro disjI2) (simp add: running_def)
next
  case pass
  then show ?thesis using assms(1) by auto
qed

lemma sstep_refines:
  assumes "sstep kend tramp forkret l X Y"
  shows "(kstep kend tramp forkret)\<^sup>*\<^sup>* (fst X) (fst Y)"
  using assms
proof cases
  case (scan cur c sc s q s' f)
  then show ?thesis using scan_refines [of cur c "sc c" s q s' kend tramp forkret f] by auto
qed auto

lemma sstep_inv:
  assumes "sstep kend tramp forkret l X Y" "sched_inv i X" shows "sched_inv i Y"
  using kernel_files.run_life_inv [OF sstep_refines [OF assms(1)]] assms(2) by blast

subsection \<open>A runnable process waits for its turn and nothing else\<close>

lemma cpus_ok_bound:
  assumes "cpus_ok (ptable s) cur" shows "\<forall>c p. cur c = Some p \<longrightarrow> p < NPROC"
proof (intro allI impI)
  fix c p assume "cur c = Some p"
  then have "fst (ptable s p) = RUNNING" using assms unfolding cpus_ok_def by blast
  then show "p < NPROC" by (auto simp: ptable_def split: if_splits)
qed

lemma life_step_runnable:
  assumes "life_step i (L, n, cur) (L', n', cur')" "cpus_ok L cur" "fst (L p) = RUNNABLE"
    and "\<And>c. cur c = None \<Longrightarrow> cur' c = None"
  shows "fst (L' p) = RUNNABLE"
  using assms(1)
proof cases
  case (Dispatch c q)
  then show ?thesis using assms(4) [of c] by simp
next
  case (Park c q st)
  then have "fst (L q) = RUNNING" using assms(2) unfolding cpus_ok_def by blast
  then show ?thesis using Park assms(3) by auto
next
  case Wake
  from Wake(3) [of p] show ?thesis using assms(3) by (auto simp: woken_def)
next
  case (Exit c q)
  then have "fst (L q) = RUNNING" using assms(2) unfolding cpus_ok_def by blast
  then have "p \<noteq> q" using assms(3) by auto
  from Exit(5) [OF this] show ?thesis using assms(3) by (auto simp: woken_def adopt_def split: prod.splits if_splits)
next
  case Fail
  from Fail(2) [of p] show ?thesis using assms(3) by auto
qed (use assms(3) in auto)

lemma work_keeps_runnable:
  assumes "kstep kend tramp forkret x y" "\<And>c. snd (snd x) c = None \<Longrightarrow> snd (snd y) c = None"
    and "initproc (fst x) = Some i" "life_inv i (abs_proc x)" "p < NPROC" "p_state (ptab (fst x) p) = RUNNABLE"
  shows "p_state (ptab (fst y) p) = RUNNABLE"
proof -
  obtain s f cur s' f' cur' where xy: "x = (s, f, cur)" "y = (s', f', cur')" by (metis prod_cases3)
  have ok: "cpus_ok (ptable s) cur" using assms(4) by (simp add: xy life_inv_def abs_proc_def)
  then have "\<forall>c p. cur c = Some p \<longrightarrow> p < NPROC" by (rule cpus_ok_bound)
  then have "life_step i (ptable s, nextpid s, cur) (ptable s', nextpid s', cur')"
    using kernel_files.pstep_life_step [OF assms(1,3)] by (simp add: xy abs_proc_def)
  from life_step_runnable [OF this ok, of p] show ?thesis
    using assms(2,5,6) by (simp add: xy ptable_def life_def)
qed

text \<open>Every step keeps a runnable process runnable or starts it on the CPU that takes the step.\<close>

lemma sstep_runnable:
  assumes "sstep kend tramp forkret l X Y" "sched_inv i X" "p < NPROC" "state_of p X = RUNNABLE"
  shows "state_of p Y = RUNNABLE \<or> state_of p Y = RUNNING \<and> (\<exists>d. l = Some d \<and> cpu_of X d = None \<and> cpu_of Y d = Some p)"
  using assms(1)
proof cases
  case (scan cur c sc s q s' f)
  from scan(5) show ?thesis
  proof (cases rule: scheduler_step_cases)
    case (dispatch r)
    then show ?thesis using scan assms(4) by (auto simp: scheduler_try_def running_def split: if_splits)
  next
    case pass
    then show ?thesis using scan assms(4) by simp
  qed
next
  case (work x y sc)
  have "p_state (ptab (fst y) p) = RUNNABLE"
    using assms(2-4) by (intro work_keeps_runnable [OF work(4,5), where i = i]) (simp_all add: work(2))
  then show ?thesis using work by simp
qed

subsection \<open>The distance of a scheduler from a process\<close>

text \<open>An upper bound on the steps a scheduler takes before it examines \<open>proc[p]\<close>.\<close>

definition sdist :: "nat \<Rightarrow> sched_pc \<Rightarrow> nat" where
  "sdist p pc = (case pc of
       At q \<Rightarrow> if q \<le> p then 2 * (p - q) else 2 * p + 3 + 2 * (NPROC - q)
     | Switched q \<Rightarrow> if q < p then 2 * (p - q) - 1 else 2 * p + 4 + 2 * (NPROC - Suc q)
     | Begin \<Rightarrow> 2 * p + 1
     | Wfi \<Rightarrow> 2 * p + 2)"

lemma sdist_le: "p < NPROC \<Longrightarrow> sdist p pc \<le> 2 * NPROC + 2"
  by (auto simp: sdist_def split: sched_pc.splits)

lemma sdist_decreases:
  assumes "scheduler_step q s = (q', s')" "p < NPROC" "p_state (ptab s p) = RUNNABLE" "p_state (ptab s' p) = RUNNABLE"
  shows "sdist p (fst q') < sdist p (fst q)"
proof (cases "(q, s)" rule: scheduler_step.cases)
  case (2 r found s1)
  then have "r \<noteq> p" using assms by (auto simp: scheduler_try_def)
  then show ?thesis using assms 2 by (auto simp: sdist_def scheduler_try_def split: if_splits)
qed (use assms in \<open>auto simp: sdist_def\<close>)

lemma sstep_sdist:
  assumes "sstep kend tramp forkret l X Y" "p < NPROC" "state_of p X = RUNNABLE" "state_of p Y = RUNNABLE"
  shows "sdist p (fst (snd Y c)) + (if l = Some c then 1 else 0) \<le> sdist p (fst (snd X c))"
  using assms(1)
proof cases
  case (scan cur d sc s q s' f)
  then show ?thesis using sdist_decreases [OF scan(5) assms(2)] assms(3,4) by auto
qed auto

subsection \<open>No starvation\<close>

text \<open>A run of the machine with the labels of its steps, from a state that satisfies the invariant.\<close>

definition sched_run :: "u64 \<Rightarrow> u64 \<Rightarrow> u64 \<Rightarrow> nat \<Rightarrow> (nat \<Rightarrow> nat option)
    \<Rightarrow> (nat \<Rightarrow> (psys \<times> kfiles \<times> (nat \<Rightarrow> nat option)) \<times> (nat \<Rightarrow> sched_pc \<times> bool)) \<Rightarrow> bool" where
  "sched_run kend tramp forkret i lab X \<longleftrightarrow>
     sched_inv i (X 0) \<and> (\<forall>n. sstep kend tramp forkret (lab n) (X n) (X (Suc n)))"

text \<open>The number of steps CPU \<open>c\<close> spends in its scheduler between times \<open>n\<close> and \<open>m\<close>.\<close>

definition turns :: "(nat \<Rightarrow> nat option) \<Rightarrow> nat \<Rightarrow> nat \<Rightarrow> nat \<Rightarrow> nat" where
  "turns lab c n m = length (filter (\<lambda>k. lab k = Some c) [n..<m])"

lemma turns_Suc: "n \<le> m \<Longrightarrow> turns lab c n (Suc m) = turns lab c n m + (if lab m = Some c then 1 else 0)"
  by (simp add: turns_def)

lemma sched_run_inv: "sched_run kend tramp forkret i lab X \<Longrightarrow> sched_inv i (X n)"
proof (induction n)
  case (Suc n)
  then show ?case using sstep_inv unfolding sched_run_def by blast
qed (simp add: sched_run_def)

lemma waiting_sdist:
  assumes "sched_run kend tramp forkret i lab X" "p < NPROC" "n \<le> m" "\<forall>k. n \<le> k \<longrightarrow> k \<le> m \<longrightarrow> state_of p (X k) = RUNNABLE"
  shows "sdist p (fst (snd (X m) c)) + turns lab c n m \<le> sdist p (fst (snd (X n) c))"
  using assms(3,4)
proof (induction rule: dec_induct)
  case (step m)
  have "sstep kend tramp forkret (lab m) (X m) (X (Suc m))" using assms(1) by (simp add: sched_run_def)
  from sstep_sdist [OF this assms(2), of c] step show ?case by (simp add: turns_Suc)
qed (simp add: turns_def)

lemma turns_unbounded:
  assumes "\<And>k. \<exists>m\<ge>k. lab m = Some c" shows "\<exists>m\<ge>n. b \<le> turns lab c n m"
proof (induction b)
  case (Suc b)
  then obtain m where m: "n \<le> m" "b \<le> turns lab c n m" by blast
  obtain k where k: "m \<le> k" "lab k = Some c" using assms by blast
  have "[n..<k] = [n..<m] @ [m..<k]" using m k(1) by (metis le_Suc_ex upt_add_eq_append)
  then have "turns lab c n m \<le> turns lab c n k" by (simp add: turns_def)
  then show ?case using m k turns_Suc [of n k lab c] by (intro exI [of _ "Suc k"]) simp
qed auto

text \<open>
  C7: the scheduler starves nobody. In every run of the kernel in which some CPU comes back to its
  scheduler again and again (the processes it runs are parked by the timer, \<open>wfi\<close> returns), each
  runnable process stays runnable until a CPU switches to it, and that happens before the one CPU
  has taken more than \<open>2 * NPROC + 3\<close> steps of its scheduler.\<close>

theorem scheduler_no_starvation:
  assumes "sched_run kend tramp forkret i lab X" and "\<And>k. \<exists>m\<ge>k. lab m = Some c"
    and "p < NPROC" "state_of p (X n) = RUNNABLE"
  shows "\<exists>m\<ge>n. (\<forall>k. n \<le> k \<longrightarrow> k \<le> m \<longrightarrow> state_of p (X k) = RUNNABLE) \<and> state_of p (X (Suc m)) = RUNNING
    \<and> (\<exists>d. lab m = Some d \<and> cpu_of (X (Suc m)) d = Some p) \<and> turns lab c n (Suc m) \<le> 2 * NPROC + 3"
proof -
  let ?ready = "\<lambda>m. \<forall>k. n \<le> k \<longrightarrow> k \<le> m \<longrightarrow> state_of p (X k) = RUNNABLE"
  obtain m0 where m0: "n \<le> m0" "2 * NPROC + 3 \<le> turns lab c n m0" using turns_unbounded [OF assms(2)] by blast
  have bound: "turns lab c n m \<le> 2 * NPROC + 2" if "n \<le> m" "?ready m" for m
    using waiting_sdist [OF assms(1,3) that, of c] sdist_le [OF assms(3), of "fst (snd (X n) c)"] by linarith
  have "\<not> ?ready m0" using bound [OF m0(1)] m0(2) by fastforce
  define j where "j = (LEAST m. n \<le> m \<and> state_of p (X m) \<noteq> RUNNABLE)"
  obtain k0 where "n \<le> k0 \<and> state_of p (X k0) \<noteq> RUNNABLE" using \<open>\<not> ?ready m0\<close> by blast
  then have j: "n \<le> j" "state_of p (X j) \<noteq> RUNNABLE" unfolding j_def by (metis (mono_tags, lifting) LeastI)+
  have below: "state_of p (X k) = RUNNABLE" if "n \<le> k" "k < j" for k
    using that not_less_Least [of k "\<lambda>m. n \<le> m \<and> state_of p (X m) \<noteq> RUNNABLE"] unfolding j_def by blast
  obtain m where m: "j = Suc m" "n \<le> m" using j assms(4) by (metis le_antisym not_less_eq_eq old.nat.exhaust le0)
  have ready: "?ready m" using below m by auto
  have "sstep kend tramp forkret (lab m) (X m) (X (Suc m))" using assms(1) by (simp add: sched_run_def)
  from sstep_runnable [OF this sched_run_inv [OF assms(1)] assms(3)] ready j m
  have "state_of p (X (Suc m)) = RUNNING \<and> (\<exists>d. lab m = Some d \<and> cpu_of (X (Suc m)) d = Some p)" by auto
  moreover have "turns lab c n (Suc m) \<le> 2 * NPROC + 3" using bound [OF m(2) ready] turns_Suc [OF m(2)] by simp
  ultimately show ?thesis using m ready by blast
qed

text \<open>A run for the example: CPU 0 schedules, and every process it starts yields at once.\<close>

definition example_next :: "(psys \<times> kfiles \<times> (nat \<Rightarrow> nat option)) \<times> (nat \<Rightarrow> sched_pc \<times> bool)
    \<Rightarrow> (psys \<times> kfiles \<times> (nat \<Rightarrow> nat option)) \<times> (nat \<Rightarrow> sched_pc \<times> bool)" where
  "example_next = (\<lambda>((s, f, cur), sc).
     case cur 0 of
       Some p \<Rightarrow> ((yield_enter p s, f, cur(0 := None)), sc)
     | None \<Rightarrow> (let (q, s') = scheduler_step (sc 0) s in ((s', f, cur(0 := running (fst q))), sc(0 := q))))"

definition example_run :: "kfiles \<Rightarrow> nat \<Rightarrow> (psys \<times> kfiles \<times> (nat \<Rightarrow> nat option)) \<times> (nat \<Rightarrow> sched_pc \<times> bool)" where
  "example_run f n = (example_next ^^ n) ((yield_enter 0 example_procs, f, \<lambda>_. None), \<lambda>_. (Begin, False))"

definition example_label :: "kfiles \<Rightarrow> nat \<Rightarrow> nat option" where
  "example_label f n = (if cpu_of (example_run f n) 0 = None then Some 0 else None)"

lemma example_next_step:
  "sstep 0 0 0 (if cpu_of X 0 = None then Some 0 else None) X (example_next X)"
proof -
  obtain s f cur sc where X: "X = ((s, f, cur), sc)" by (metis prod.exhaust)
  show ?thesis
  proof (cases "cur 0")
    case None
    obtain q s' where q: "scheduler_step (sc 0) s = (q, s')" by fastforce
    show ?thesis using scan [of cur 0 sc s q s' 0 0 0 f, OF None q] None q by (simp add: X example_next_def)
  next
    case (Some p)
    have "kstep 0 0 0 (s, f, cur) (yield_enter p s, f, cur(0 := None))" using Some by (rule pstep.yield)
    from work [OF this, of sc] show ?thesis using Some by (simp add: X example_next_def)
  qed
qed

lemma example_sched_run: "sched_run 0 0 0 0 (example_label f) (example_run f)"
proof -
  have "life_inv 0 (abs_proc (example_procs, f, (\<lambda>_. None)(0 := Some 0)))"
    using example_inv by (simp add: abs_proc_def)
  moreover have "(kstep 0 0 0)\<^sup>*\<^sup>* (example_procs, f, (\<lambda>_. None)(0 := Some 0))
      (yield_enter 0 example_procs, f, ((\<lambda>_. None)(0 := Some 0))(0 := None))"
    using example_yield by (rule r_into_rtranclp)
  note kernel_files.run_life_inv [OF this, where i = 0]
  ultimately have "sched_inv 0 (example_run f 0)" by (simp add: example_run_def example_procs_def fun_upd_idem)
  then show ?thesis using example_next_step [of "example_run f _"]
    by (simp add: sched_run_def example_label_def example_run_def)
qed

lemma example_label_fair: "\<exists>m\<ge>k. example_label f m = Some 0"
proof (cases "cpu_of (example_run f k) 0")
  case (Some p)
  then have "cpu_of (example_run f (Suc k)) 0 = None"
    by (auto simp: example_run_def example_next_def split: prod.splits)
  then show ?thesis by (intro exI [of _ "Suc k"]) (simp add: example_label_def)
qed (auto simp: example_label_def)

theorem scheduler_no_starvation_witness:
  "\<forall>f. \<exists>m. state_of 0 (example_run f (Suc m)) = RUNNING"
proof
  fix f
  have "state_of 0 (example_run f 0) = RUNNABLE" by (simp add: example_run_def yield_enter_def)
  from scheduler_no_starvation [OF example_sched_run example_label_fair _ this]
  show "\<exists>m. state_of 0 (example_run f (Suc m)) = RUNNING" by (auto simp: NPROC_def)
qed

end
