(* ===== verification/Umalloc.thy ===== *)
theory Umalloc
  imports Sysproc
begin

text \<open>
  The user-level memory allocator \<open>src/user/umalloc.c\<close>: a circular list of free blocks in address
  order, kept in headers at the start of the blocks, first fit, coalescing on \<open>free\<close>, and \<open>sbrk\<close> for
  more memory. The loops run around the circular list, so they are partial functions and their
  termination is a result. The break is an interface, interpreted on the kernel's \<open>growproc\<close>.
\<close>

unbundle bit_operations_syntax

subsection \<open>Headers and the heap\<close>

text \<open>
  Blocks are measured in units of one header (16 bytes), and every header has an address that is a
  multiple of 16 or is the static \<open>base\<close>: the heap is a store of headers by address, which also stands
  for the user's data in the blocks. Addresses are below \<open>2^38\<close>, so no pointer arithmetic wraps around;
  the \<open>uint\<close> sizes are kept modulo \<open>2^32\<close>. The kernel's part of the state is \<open>kern\<close>.
\<close>

record header =
  h_ptr :: nat
  h_size :: nat

record 'k uheap =
  hdr :: "nat \<Rightarrow> header"
  freep :: nat
  kern :: 'k

definition HSIZE :: nat where "HSIZE = 16"

abbreviation nxt :: "(nat \<Rightarrow> header) \<Rightarrow> nat \<Rightarrow> nat" where "nxt m a \<equiv> h_ptr (m a)"

abbreviation bsz :: "(nat \<Rightarrow> header) \<Rightarrow> nat \<Rightarrow> nat" where "bsz m a \<equiv> h_size (m a)"

subsection \<open>The operations\<close>

text \<open>The search of \<open>free\<close> for the place of the block: \<open>None\<close> if it goes round for ever.\<close>

partial_function (option) free_search :: "(nat \<Rightarrow> header) \<Rightarrow> nat \<Rightarrow> nat \<Rightarrow> nat option" where
  "free_search m bp p =
     (if p < bp \<and> bp < nxt m p then Some p
      else if nxt m p \<le> p \<and> (p < bp \<or> bp < nxt m p) then Some p
      else free_search m bp (nxt m p))"

text \<open>Linking the block in after \<open>p\<close>, merging it with its neighbours.\<close>

definition join_right :: "nat \<Rightarrow> nat \<Rightarrow> (nat \<Rightarrow> header) \<Rightarrow> nat \<Rightarrow> header" where
  "join_right bp p m =
     (if bp + HSIZE * bsz m bp = nxt m p
      then m(bp := \<lparr>h_ptr = nxt m (nxt m p), h_size = (bsz m bp + bsz m (nxt m p)) mod 2 ^ 32\<rparr>)
      else m(bp := (m bp)\<lparr>h_ptr := nxt m p\<rparr>))"

definition join_left :: "nat \<Rightarrow> nat \<Rightarrow> (nat \<Rightarrow> header) \<Rightarrow> nat \<Rightarrow> header" where
  "join_left bp p m =
     (if p + HSIZE * bsz m p = bp
      then m(p := \<lparr>h_ptr = nxt m bp, h_size = (bsz m p + bsz m bp) mod 2 ^ 32\<rparr>)
      else m(p := (m p)\<lparr>h_ptr := bp\<rparr>))"

definition ufree :: "nat \<Rightarrow> 'k uheap \<Rightarrow> 'k uheap option" where
  "ufree ap h =
     (let bp = ap - HSIZE in
      case free_search (hdr h) bp (freep h) of
        None \<Rightarrow> None
      | Some p \<Rightarrow> Some (h\<lparr>hdr := join_left bp p (join_right bp p (hdr h)), freep := p\<rparr>))"

text \<open>
  \<open>sbrk\<close> takes an \<open>int\<close>: the 64-bit product is truncated. \<open>sbrk n k\<close> is \<open>None\<close> when the kernel panics in
  the call, and \<open>Some (None, k')\<close> when it returns \<open>SBRK_ERROR\<close>.
\<close>

definition morecore :: "(int \<Rightarrow> 'k \<Rightarrow> (nat option \<times> 'k) option) \<Rightarrow> nat \<Rightarrow> 'k uheap \<Rightarrow> (nat \<times> 'k uheap) option" where
  "morecore sbrk nu h =
     (let nu = (if nu < 4096 then 4096 else nu) in
      case sbrk (sint (of_nat (nu * HSIZE) :: 32 word)) (kern h) of
        None \<Rightarrow> None
      | Some (None, k) \<Rightarrow> Some (0, h\<lparr>kern := k\<rparr>)
      | Some (Some p, k) \<Rightarrow>
          (case ufree (p + HSIZE) (h\<lparr>hdr := (hdr h)(p := (hdr h p)\<lparr>h_size := nu\<rparr>), kern := k\<rparr>) of
             None \<Rightarrow> None
           | Some h \<Rightarrow> Some (freep h, h)))"

text \<open>What \<open>malloc\<close> does with a block \<open>p\<close> that is large enough, \<open>prevp\<close> being its predecessor.\<close>

definition take_block :: "nat \<Rightarrow> nat \<Rightarrow> nat \<Rightarrow> 'k uheap \<Rightarrow> nat \<times> 'k uheap" where
  "take_block nunits prevp p h =
     (let m = hdr h in
      if bsz m p = nunits
      then (p + HSIZE, h\<lparr>hdr := m(prevp := (m prevp)\<lparr>h_ptr := nxt m p\<rparr>), freep := prevp\<rparr>)
      else let m = m(p := (m p)\<lparr>h_size := bsz m p - nunits\<rparr>);
               q = p + HSIZE * bsz m p;
               m = m(q := (m q)\<lparr>h_size := nunits\<rparr>)
           in (q + HSIZE, h\<lparr>hdr := m, freep := prevp\<rparr>))"

partial_function (option) malloc_loop :: "(int \<Rightarrow> 'k \<Rightarrow> (nat option \<times> 'k) option) \<Rightarrow> nat \<Rightarrow> nat \<Rightarrow> nat \<Rightarrow> 'k uheap \<Rightarrow> (nat \<times> 'k uheap) option" where
  "malloc_loop sbrk nunits prevp p h =
     (if nunits \<le> bsz (hdr h) p then Some (take_block nunits prevp p h)
      else if p = freep h
      then (case morecore sbrk nunits h of
              None \<Rightarrow> None
            | Some (p, h) \<Rightarrow> if p = 0 then Some (0, h) else malloc_loop sbrk nunits p (nxt (hdr h) p) h)
      else malloc_loop sbrk nunits p (nxt (hdr h) p) h)"

definition units :: "nat \<Rightarrow> nat" where
  "units nbytes = ((nbytes + HSIZE - 1) div HSIZE + 1) mod 2 ^ 32"

text \<open>\<open>base\<close> is the address of the static header, \<open>nbytes\<close> a \<open>uint\<close>.\<close>

definition init_heap :: "nat \<Rightarrow> 'k uheap \<Rightarrow> 'k uheap" where
  "init_heap base h =
     (if freep h = 0 then h\<lparr>hdr := (hdr h)(base := \<lparr>h_ptr = base, h_size = 0\<rparr>), freep := base\<rparr> else h)"

definition malloc :: "(int \<Rightarrow> 'k \<Rightarrow> (nat option \<times> 'k) option) \<Rightarrow> nat \<Rightarrow> nat \<Rightarrow> 'k uheap \<Rightarrow> (nat \<times> 'k uheap) option" where
  "malloc sbrk base nbytes h =
     (let h = init_heap base h in malloc_loop sbrk (units nbytes) (freep h) (nxt (hdr h) (freep h)) h)"

text \<open>
  The truncation matters: for a request of two gigabytes \<open>morecore\<close> asks \<open>sbrk\<close> for a negative amount and
  goes on to write a header beyond the end of the memory it got.
\<close>

lemma morecore_shrinks:
  "morecore sbrk (units (2 ^ 31)) h =
     (case sbrk (- (2 ^ 31 - 16)) (kern h) of
        None \<Rightarrow> None
      | Some (None, k) \<Rightarrow> Some (0, h\<lparr>kern := k\<rparr>)
      | Some (Some p, k) \<Rightarrow>
          (case ufree (p + HSIZE) (h\<lparr>hdr := (hdr h)(p := (hdr h p)\<lparr>h_size := 134217729\<rparr>), kern := k\<rparr>) of
             None \<Rightarrow> None
           | Some h \<Rightarrow> Some (freep h, h)))"
  by (simp add: morecore_def units_def HSIZE_def)

subsection \<open>Linked headers\<close>

text \<open>The headers \<open>xs\<close> are linked in this order, the last one to \<open>e\<close>.\<close>

fun links :: "(nat \<Rightarrow> header) \<Rightarrow> nat list \<Rightarrow> nat \<Rightarrow> bool" where
  "links m [] e = True"
| "links m (x # xs) e = (nxt m x = hd (xs @ [e]) \<and> links m xs e)"

lemma links_append: "links m (xs @ ys) e \<longleftrightarrow> links m xs (hd (ys @ [e])) \<and> links m ys e"
proof (induction xs)
  case (Cons x xs)
  then show ?case by (cases xs) auto
qed simp

lemma links_cong: "(\<And>x. x \<in> set xs \<Longrightarrow> nxt m' x = nxt m x) \<Longrightarrow> links m' xs e = links m xs e"
  by (induction xs) auto

lemma links_upd [simp]: "x \<notin> set xs \<Longrightarrow> links (m(x := v)) xs e = links m xs e"
  by (rule links_cong) auto

lemma links_size [simp]: "links (m(x := (m x)\<lparr>h_size := v\<rparr>)) xs e = links m xs e"
  by (rule links_cong) auto

subsection \<open>The search of \<open>free\<close>\<close>

lemma search_forward:
  assumes "links m (y # ys @ p # zs) e" "sorted_wrt (<) (y # ys @ [p])" "p < bp"
  shows "free_search m bp y = free_search m bp p"
  using assms
proof (induction ys arbitrary: y)
  case Nil
  then show ?case by (subst free_search.simps) auto
next
  case (Cons x ys)
  then show ?case by (subst free_search.simps) auto
qed

lemma search_wrap:
  assumes "links m (z # zs) base" "sorted_wrt (<) (z # zs)" "base \<le> bp" "bp < z"
  shows "free_search m bp z = free_search m bp base"
  using assms
proof (induction zs arbitrary: z)
  case Nil
  then show ?case by (subst free_search.simps) auto
next
  case (Cons x zs)
  then have "free_search m bp z = free_search m bp x" by (subst free_search.simps) auto
  then show ?case using Cons by auto
qed

text \<open>From anywhere in the list the search finds the last header below the block.\<close>

lemma free_search_correct:
  assumes "links m (ys @ p # zs) base" "sorted_wrt (<) (ys @ p # zs)" "hd (ys @ [p]) = base"
    and "p < bp" "\<forall>z\<in>set zs. bp < z" "x \<in> set (ys @ p # zs)"
  shows "free_search m bp x = Some p"
proof -
  have base: "base \<le> p" using assms(2,3) by (cases ys) auto
  have stop: "free_search m bp p = Some p"
    using assms(1,4,5) base by (subst free_search.simps) (cases zs; auto simp: links_append)
  have fwd: "free_search m bp y = Some p" if y: "y \<in> set ys" for y
  proof -
    obtain us vs where "ys = us @ y # vs" using split_list [OF y] by blast
    then show ?thesis using search_forward [of m y vs p zs base bp] assms(1,2,4) stop
      by (auto simp: links_append sorted_wrt_append)
  qed
  have "free_search m bp base = Some p" using assms(3) stop fwd by (cases ys) auto
  moreover have "free_search m bp z = free_search m bp base" if z: "z \<in> set zs" for z
  proof -
    obtain us vs where "zs = us @ z # vs" using split_list [OF z] by blast
    then show ?thesis using search_wrap [of m z vs base bp] assms(1,2,4,5) base
      by (auto simp: links_append sorted_wrt_append)
  qed
  ultimately show ?thesis using assms(6) stop fwd by auto
qed

subsection \<open>The invariant of the heap\<close>

type_synonym ublock = "nat \<times> nat"

text \<open>The bytes of a block and of a list of blocks.\<close>

definition span :: "ublock \<Rightarrow> nat set" where
  "span b = {fst b..<fst b + HSIZE * snd b}"

definition region :: "ublock list \<Rightarrow> nat set" where
  "region bs = (\<Union>b\<in>set bs. span b)"

lemma region_simps [simp]: "region [] = {}" "region (b # bs) = span b \<union> region bs" "region (bs @ cs) = region bs \<union> region cs"
  by (auto simp: region_def)

lemma span_disjointI: "fst x + HSIZE * snd x \<le> fst y \<or> fst y + HSIZE * snd y \<le> fst x \<Longrightarrow> span x \<inter> span y = {}"
  by (auto simp: span_def)

definition block_ok :: "nat \<Rightarrow> nat \<Rightarrow> (nat \<Rightarrow> header) \<Rightarrow> ublock \<Rightarrow> bool" where
  "block_ok lo hi m b \<longleftrightarrow> bsz m (fst b) = snd b \<and> 0 < snd b \<and> lo \<le> fst b \<and> fst b + HSIZE * snd b \<le> hi \<and> HSIZE dvd fst b"

text \<open>
  The free list: \<open>base\<close> and the free blocks in address order are linked into a circle; no two free
  blocks touch.
\<close>

definition list_ok :: "nat \<Rightarrow> (nat \<Rightarrow> header) \<Rightarrow> ublock list \<Rightarrow> bool" where
  "list_ok base m F \<longleftrightarrow> links m (base # map fst F) base \<and> bsz m base = 0
     \<and> sorted_wrt (\<lambda>x y. fst x + HSIZE * snd x < fst y) F"

text \<open>
  The heap between the addresses \<open>lo\<close> and \<open>hi\<close> with free blocks \<open>F\<close> and allocated blocks \<open>A\<close>: each
  block has its size in its header, and no two blocks overlap.
\<close>

definition heap_ok :: "nat \<Rightarrow> nat \<Rightarrow> nat \<Rightarrow> 'k uheap \<Rightarrow> ublock list \<Rightarrow> ublock list \<Rightarrow> bool" where
  "heap_ok base lo hi h F A \<longleftrightarrow>
     0 < base \<and> base + HSIZE \<le> lo \<and> lo \<le> hi \<and> hi < lo + HSIZE * 2 ^ 32 \<and> HSIZE dvd hi
     \<and> (if freep h = 0 then F = [] \<and> A = [] else list_ok base (hdr h) F \<and> freep h \<in> set (base # map fst F))
     \<and> (\<forall>b\<in>set (F @ A). block_ok lo hi (hdr h) b)
     \<and> region F \<inter> region A = {} \<and> sorted_wrt (\<lambda>x y. span x \<inter> span y = {}) A"

lemma block_ok_cong: "bsz m' (fst b) = bsz m (fst b) \<Longrightarrow> block_ok lo hi m' b = block_ok lo hi m b"
  by (simp add: block_ok_def)

lemma block_ok_start: "block_ok lo hi m b \<Longrightarrow> fst b \<in> span b"
  by (auto simp: block_ok_def span_def HSIZE_def)

lemma block_ok_above: "block_ok lo hi m b \<Longrightarrow> base + HSIZE \<le> lo \<Longrightarrow> base < fst b \<and> fst b < fst b + HSIZE * snd b"
  by (auto simp: block_ok_def HSIZE_def)

lemma block_ok_more: "block_ok lo hi m b \<Longrightarrow> hi \<le> hi' \<Longrightarrow> block_ok lo hi' m b"
  by (auto simp: block_ok_def)

lemma block_size_bound: "block_ok lo hi m b \<Longrightarrow> hi < lo + HSIZE * 2 ^ 32 \<Longrightarrow> snd b < 2 ^ 32"
  by (auto simp: block_ok_def HSIZE_def)

text \<open>A block that overlaps no free block has its place between two parts of the list.\<close>

lemma sorted_blocks_split:
  assumes "sorted_wrt (\<lambda>x y. fst x + HSIZE * snd x < fst y) F" "\<forall>b\<in>set F. 0 < snd b"
    and "0 < s" "region F \<inter> span (bp, s) = {}"
  obtains G H where "F = G @ H" "\<forall>g\<in>set G. fst g + HSIZE * snd g \<le> bp" "\<forall>x\<in>set H. bp + HSIZE * s \<le> fst x"
proof -
  let ?P = "\<lambda>x. fst x < bp"
  have low: "fst g + HSIZE * snd g \<le> bp" if "g \<in> set F" "?P g" for g
  proof (rule ccontr)
    assume "\<not> ?thesis"
    then have "bp \<in> span g \<inter> span (bp, s)" using that(2) assms(3) by (auto simp: span_def HSIZE_def)
    then show False using assms(4) that(1) unfolding region_def by blast
  qed
  have high: "bp + HSIZE * s \<le> fst g" if "g \<in> set F" "\<not> ?P g" for g
  proof (rule ccontr)
    assume "\<not> ?thesis"
    then have "fst g \<in> span g \<inter> span (bp, s)" using that assms(2) by (auto simp: span_def HSIZE_def)
    then show False using assms(4) that(1) unfolding region_def by blast
  qed
  have "\<not> ?P x" if "x \<in> set (dropWhile ?P F)" for x
    using assms(1) that
  proof (induction F)
    case (Cons a F)
    then show ?case by (force split: if_splits)
  qed simp
  then show ?thesis using that [of "takeWhile ?P F" "dropWhile ?P F"] low high
    by (metis set_dropWhileD set_takeWhileD takeWhile_dropWhile_id)
qed

lemma sorted_addresses:
  assumes "sorted_wrt (\<lambda>x y. fst x + HSIZE * snd x < fst y) F"
  shows "sorted_wrt (<) (map fst F)"
  using assms by (induction F) auto

subsection \<open>\<open>free\<close>\<close>

text \<open>Merging with the following block.\<close>

lemma join_right_correct:
  assumes "nxt m p = hd (map fst H @ [base])" "links m (map fst H) base" "sorted_wrt (\<lambda>x y. fst x + HSIZE * snd x < fst y) H"
    and "\<forall>b\<in>set H. block_ok lo hi m b" "block_ok lo hi m (bp, s)" "base < bp" "hi < lo + HSIZE * 2 ^ 32"
    and "\<forall>x\<in>set H. bp + HSIZE * s \<le> fst x"
  obtains s' H' where "join_right bp p m = m(bp := \<lparr>h_ptr = hd (map fst H' @ [base]), h_size = s'\<rparr>)"
    "links m (map fst H') base" "sorted_wrt (\<lambda>x y. fst x + HSIZE * snd x < fst y) ((bp, s') # H')"
    "\<forall>b\<in>set H'. block_ok lo hi m b" "0 < s'" "bp + HSIZE * s' \<le> hi" "set H' \<subseteq> set H"
    "span (bp, s') \<union> region H' = span (bp, s) \<union> region H" "s \<le> s'"
proof (cases "\<exists>t H2. H = (bp + HSIZE * s, t) # H2")
  case True
  then obtain t H2 where H: "H = (bp + HSIZE * s, t) # H2" by blast
  have t: "bsz m (bp + HSIZE * s) = t" "bp + HSIZE * s + HSIZE * t \<le> hi" and b: "bsz m bp = s" "0 < s" "lo \<le> bp"
    using assms(4,5) H by (auto simp: block_ok_def)
  have w: "(s + t) mod 2 ^ 32 = s + t" using t(2) b(3) assms(7) by (simp add: HSIZE_def)
  show ?thesis
  proof (rule that [of H2 "s + t"])
    show "join_right bp p m = m(bp := \<lparr>h_ptr = hd (map fst H2 @ [base]), h_size = s + t\<rparr>)"
      using assms(1,2) H t b w by (simp add: join_right_def)
    show "span (bp, s + t) \<union> region H2 = span (bp, s) \<union> region H"
      by (auto simp: H span_def HSIZE_def)
    show "sorted_wrt (\<lambda>x y. fst x + HSIZE * snd x < fst y) ((bp, s + t) # H2)" "bp + HSIZE * (s + t) \<le> hi"
      using assms(3) t(2) by (auto simp: H algebra_simps)
  qed (use assms(2,4) b H in auto)
next
  case False
  have ne: "nxt m p \<noteq> bp + HSIZE * s" using False assms(1,6) by (cases H) auto
  have b: "bsz m bp = s" "0 < s" "bp + HSIZE * s \<le> hi" using assms(5) by (auto simp: block_ok_def)
  have lt: "bp + HSIZE * s < fst x" if x: "x \<in> set H" for x
  proof (cases H)
    case (Cons a H2)
    have "bp + HSIZE * s \<noteq> fst a" using False Cons by (cases a) auto
    moreover have "bp + HSIZE * s \<le> fst a" using assms(8) Cons by simp
    ultimately show ?thesis using x assms(3) Cons by auto
  qed (use x in simp)
  have "join_right bp p m = m(bp := \<lparr>h_ptr = hd (map fst H @ [base]), h_size = s\<rparr>)"
    using ne b(1) by (cases "m bp") (simp add: join_right_def assms(1))
  then show ?thesis using that [of H s] assms(2-4) b lt by auto
qed

text \<open>
  The situation before the block is linked to its predecessor \<open>p\<close>: it lies between the free blocks \<open>G\<close>
  and \<open>H\<close>, and does not touch \<open>H\<close>.
\<close>

definition between :: "nat \<Rightarrow> nat \<Rightarrow> nat \<Rightarrow> (nat \<Rightarrow> header) \<Rightarrow> ublock list \<Rightarrow> nat \<Rightarrow> nat \<Rightarrow> nat \<Rightarrow> ublock list \<Rightarrow> bool" where
  "between base lo hi m G p bp s H \<longleftrightarrow> base < lo \<and> lo \<le> bp \<and> 0 < s \<and> bp + HSIZE * s \<le> hi \<and> HSIZE dvd bp
     \<and> bsz m base = 0 \<and> p = last (base # map fst G) \<and> links m (butlast (base # map fst G)) p \<and> links m (map fst H) base
     \<and> sorted_wrt (\<lambda>x y. fst x + HSIZE * snd x < fst y) (G @ H) \<and> (\<forall>g\<in>set G. fst g + HSIZE * snd g \<le> bp)
     \<and> (\<forall>x\<in>set H. bp + HSIZE * s < fst x) \<and> (\<forall>b\<in>set (G @ H). block_ok lo hi m b)"

lemma between_facts:
  assumes "between base lo hi m G p bp s H"
  obtains zs where "base # map fst G = zs @ [p]" "links m zs p" "p \<notin> set zs" "bp \<notin> set zs" "p \<notin> set (map fst H)"
    "bp \<notin> set (map fst H)" "p < bp" "base < bp" "\<And>g. g \<in> set G \<Longrightarrow> fst g < bp"
proof -
  note B = assms [unfolded between_def]
  obtain zs where zs: "base # map fst G = zs @ [p]" "links m zs p"
    using B by (metis append_butlast_last_id list.distinct(1))
  have G: "base < fst g \<and> fst g < bp" if g: "g \<in> set G" for g
  proof -
    have "block_ok lo hi m g" "fst g + HSIZE * snd g \<le> bp" using B g by auto
    then show ?thesis using B by (auto simp: block_ok_def HSIZE_def)
  qed
  have "sorted_wrt (<) (zs @ [p])"
    unfolding zs(1) [symmetric] using B G by (auto simp: sorted_wrt_append intro: sorted_addresses)
  then have "p \<notin> set zs" by (auto simp: sorted_wrt_append)
  moreover have x: "x < bp" if "x \<in> set (zs @ [p])" for x
    using that unfolding zs(1) [symmetric] using B G by auto
  moreover have "bp < x" if "x \<in> set (map fst H)" for x using B that by auto
  ultimately show ?thesis using that [OF zs] x [of p] G B by (force dest: less_asym)
qed

lemma link_alone:
  assumes "between base lo hi m G p bp s H" "\<forall>g\<in>set G. fst g + HSIZE * snd g < bp"
    and "m' = m(bp := \<lparr>h_ptr = hd (map fst H @ [base]), h_size = s\<rparr>, p := (m p)\<lparr>h_ptr := bp\<rparr>)"
  shows "list_ok base m' (G @ (bp, s) # H)" "\<forall>b\<in>set (G @ (bp, s) # H). block_ok lo hi m' b"
proof -
  note B = assms(1) [unfolded between_def]
  obtain zs where zs: "base # map fst G = zs @ [p]" "links m zs p" "p \<notin> set zs" "bp \<notin> set zs" "p \<notin> set (map fst H)"
    "bp \<notin> set (map fst H)" "p < bp" "base < bp" "\<And>g. g \<in> set G \<Longrightarrow> fst g < bp"
    using between_facts [OF assms(1)] by blast
  have "links m' (zs @ p # bp # map fst H) base" using zs(2-7) B by (simp add: assms(3) links_append)
  moreover have "zs @ p # bp # map fst H = base # map fst (G @ (bp, s) # H)" using zs(1) by simp
  moreover have "sorted_wrt (\<lambda>x y. fst x + HSIZE * snd x < fst y) (G @ (bp, s) # H)"
    using B assms(2) by (auto simp: sorted_wrt_append)
  moreover have "bsz m' base = 0" using B zs(8) by (auto simp: assms(3))
  ultimately show "list_ok base m' (G @ (bp, s) # H)" by (simp add: list_ok_def)
  have bl: "\<forall>b\<in>set (G @ H). block_ok lo hi m b" using B by blast
  then have "block_ok lo hi m' b" if "b \<in> set G" for b using that zs(9) [OF that] by (auto simp: assms(3) block_ok_def)
  moreover have "block_ok lo hi m' b" if "b \<in> set H" for b using that zs(5,6) bl by (auto simp: assms(3) block_ok_def)
  moreover have "block_ok lo hi m' (bp, s)" using B zs(7) by (simp add: assms(3) block_ok_def)
  ultimately show "\<forall>b\<in>set (G @ (bp, s) # H). block_ok lo hi m' b" by auto
qed

lemma link_merged:
  assumes "between base lo hi m (G @ [(p, t)]) p bp s H" "p + HSIZE * t = bp"
    and "m' = m(bp := \<lparr>h_ptr = hd (map fst H @ [base]), h_size = s\<rparr>, p := \<lparr>h_ptr = hd (map fst H @ [base]), h_size = t + s\<rparr>)"
  shows "list_ok base m' (G @ (p, t + s) # H)" "\<forall>b\<in>set (G @ (p, t + s) # H). block_ok lo hi m' b"
proof -
  note B = assms(1) [unfolded between_def]
  obtain zs where zs: "base # map fst (G @ [(p, t)]) = zs @ [p]" "links m zs p" "p \<notin> set zs" "bp \<notin> set zs" "p \<notin> set (map fst H)"
    "bp \<notin> set (map fst H)" "p < bp" "base < bp"
    using between_facts [OF assms(1)] by blast
  have z: "zs = base # map fst G" using zs(1) by simp
  have "links m' (zs @ p # map fst H) base" using zs(2-7) B by (simp add: assms(3) links_append)
  moreover have "sorted_wrt (\<lambda>x y. fst x + HSIZE * snd x < fst y) (G @ (p, t + s) # H)"
    using B assms(2) by (auto simp: sorted_wrt_append distrib_left)
  moreover have "bsz m' base = 0" using B zs(3,8) by (simp add: z assms(3))
  ultimately show "list_ok base m' (G @ (p, t + s) # H)" by (simp add: list_ok_def z)
  have bl: "\<forall>b\<in>set (G @ (p, t) # H). block_ok lo hi m b" using B by simp
  have "block_ok lo hi m' b" if "b \<in> set G" for b
  proof -
    have "fst b \<noteq> p" "fst b \<noteq> bp" "block_ok lo hi m b" using that zs(3,4) z B by auto
    then show ?thesis by (simp add: assms(3) block_ok_def)
  qed
  moreover have "block_ok lo hi m' b" if "b \<in> set H" for b using that zs(5,6) bl by (auto simp: assms(3) block_ok_def)
  moreover have "block_ok lo hi m' (p, t + s)" using B assms(2) by (auto simp: assms(3) block_ok_def distrib_left)
  ultimately show "\<forall>b\<in>set (G @ (p, t + s) # H). block_ok lo hi m' b" by auto
qed

text \<open>Linking and merging a block in between.\<close>

lemma join_left_correct:
  assumes "between base lo hi m G p bp s H" "hi < lo + HSIZE * 2 ^ 32"
    and "m' = join_left bp p (m(bp := \<lparr>h_ptr = hd (map fst H @ [base]), h_size = s\<rparr>))"
  obtains F' where "list_ok base m' F'" "\<forall>b\<in>set F'. block_ok lo hi m' b" "region F' = region G \<union> span (bp, s) \<union> region H"
    "p \<in> set (base # map fst F')" "\<And>x. x \<noteq> p \<Longrightarrow> x \<noteq> bp \<Longrightarrow> m' x = m x" "\<exists>b\<in>set F'. s \<le> snd b"
proof -
  note B = assms(1) [unfolded between_def]
  have pz: "p < bp" "base < bp" using between_facts [OF assms(1)] by blast+
  have pG: "p \<in> set (base # map fst G)" using B last_in_set [of "base # map fst G"] by simp
  show ?thesis
  proof (cases "p + HSIZE * bsz m p = bp")
    case True
    have "p \<noteq> base" using True pz(2) B by auto
    then obtain G2 t where G2: "G = G2 @ [(p, t)]" using B by (cases G rule: rev_cases) auto
    have t: "bsz m p = t" "lo \<le> p" using B G2 by (auto simp: block_ok_def)
    have "t + s < 2 ^ 32" using t B True assms(2) by (auto simp: HSIZE_def)
    then have m': "m' = m(bp := \<lparr>h_ptr = hd (map fst H @ [base]), h_size = s\<rparr>, p := \<lparr>h_ptr = hd (map fst H @ [base]), h_size = t + s\<rparr>)"
      using True pz(1) t by (simp add: assms(3) join_left_def)
    have "span (p, t + s) = span (p, t) \<union> span (bp, s)" using True t by (auto simp: span_def HSIZE_def)
    then have "region (G2 @ (p, t + s) # H) = region G \<union> span (bp, s) \<union> region H" by (auto simp: G2)
    then show ?thesis using that link_merged [OF assms(1) [unfolded G2] True [unfolded t(1)] m'] by (auto simp: m')
  next
    case False
    have m': "m' = m(bp := \<lparr>h_ptr = hd (map fst H @ [base]), h_size = s\<rparr>, p := (m p)\<lparr>h_ptr := bp\<rparr>)"
      using False pz(1) by (simp add: assms(3) join_left_def)
    have "\<forall>g\<in>set G. fst g + HSIZE * snd g < bp"
    proof (cases G rule: rev_cases)
      case (snoc G2 l)
      have l: "p = fst l" "fst l + HSIZE * snd l \<noteq> bp" using B False snoc by (auto simp: block_ok_def)
      have "fst l + HSIZE * snd l \<le> bp" "\<forall>g\<in>set G2. fst g + HSIZE * snd g < p"
        using B snoc l(1) by (auto simp: sorted_wrt_append)
      then show ?thesis using l(2) pz(1) snoc by (auto intro: less_trans)
    qed simp
    note A = link_alone [OF assms(1) this m']
    have "region (G @ (bp, s) # H) = region G \<union> span (bp, s) \<union> region H" by auto
    then show ?thesis using that [OF A] pG by (auto simp: m')
  qed
qed

text \<open>The whole of \<open>free\<close> on the list.\<close>

lemma join_correct:
  assumes "list_ok base m (G @ H)" "\<forall>b\<in>set (G @ H). block_ok lo hi m b" "block_ok lo hi m (bp, s)"
    and "base + HSIZE \<le> lo" "hi < lo + HSIZE * 2 ^ 32"
    and "\<forall>g\<in>set G. fst g + HSIZE * snd g \<le> bp" "\<forall>x\<in>set H. bp + HSIZE * s \<le> fst x"
    and "p = last (base # map fst G)" "m' = join_left bp p (join_right bp p m)"
  obtains F' where "list_ok base m' F'" "\<forall>b\<in>set F'. block_ok lo hi m' b" "region F' = region (G @ H) \<union> span (bp, s)"
    "p \<in> set (base # map fst F')" "\<And>x. x \<noteq> p \<Longrightarrow> x \<noteq> bp \<Longrightarrow> m' x = m x" "\<exists>b\<in>set F'. s \<le> snd b"
proof -
  have lo: "base < lo" using assms(4) by (simp add: HSIZE_def)
  have bp: "base < bp" using lo assms(3) by (auto simp: block_ok_def)
  obtain zs where zs: "base # map fst G = zs @ [p]" unfolding assms(8) by (metis append_butlast_last_id list.distinct(1))
  have bl: "butlast (base # map fst G) = zs" unfolding zs by simp
  have "links m (zs @ p # map fst H) base" using assms(1) zs unfolding list_ok_def by (metis append.assoc append_Cons append_Nil map_append)
  then have links: "links m zs p" "nxt m p = hd (map fst H @ [base])" "links m (map fst H) base" by (simp_all add: links_append)
  have srt: "sorted_wrt (\<lambda>x y. fst x + HSIZE * snd x < fst y) (G @ H)" "bsz m base = 0" using assms(1) by (simp_all add: list_ok_def)
  have H: "sorted_wrt (\<lambda>x y. fst x + HSIZE * snd x < fst y) H" "\<forall>b\<in>set H. block_ok lo hi m b"
    using srt assms(2) by (auto simp: sorted_wrt_append)
  obtain s' H' where R: "join_right bp p m = m(bp := \<lparr>h_ptr = hd (map fst H' @ [base]), h_size = s'\<rparr>)"
    "links m (map fst H') base" "sorted_wrt (\<lambda>x y. fst x + HSIZE * snd x < fst y) ((bp, s') # H')"
    "\<forall>b\<in>set H'. block_ok lo hi m b" "0 < s'" "bp + HSIZE * s' \<le> hi" "set H' \<subseteq> set H"
    "span (bp, s') \<union> region H' = span (bp, s) \<union> region H" "s \<le> s'"
    by (rule join_right_correct [OF links(2,3) H assms(3) bp assms(5,7)])
  have "sorted_wrt (\<lambda>x y. fst x + HSIZE * snd x < fst y) (G @ H')" using srt R(3,7) by (auto simp: sorted_wrt_append)
  then have "between base lo hi m G p bp s' H'"
    using R lo srt links assms(2,3,6,8) unfolding between_def bl by (auto simp: block_ok_def)
  from join_left_correct [OF this assms(5) assms(9) [unfolded R(1)]]
  obtain F' where F': "list_ok base m' F'" "\<forall>b\<in>set F'. block_ok lo hi m' b" "region F' = region G \<union> span (bp, s') \<union> region H'"
    "p \<in> set (base # map fst F')" "\<And>x. x \<noteq> p \<Longrightarrow> x \<noteq> bp \<Longrightarrow> m' x = m x" "\<exists>b\<in>set F'. s' \<le> snd b" by blast
  have "region F' = region (G @ H) \<union> span (bp, s)" using F'(3) R(8) by auto
  moreover have "\<exists>b\<in>set F'. s \<le> snd b" using F'(6) R(9) by (meson order_trans)
  ultimately show ?thesis using that [of F'] F' by blast
qed

text \<open>
  \<open>free\<close> of an allocated block returns, puts exactly the bytes of the block among the free ones, and
  writes only to its header and to headers of free blocks.
\<close>

lemma region_disjoint: "region F \<inter> region A = {} \<Longrightarrow> x \<in> set F \<Longrightarrow> y \<in> set A \<Longrightarrow> span x \<inter> span y = {}"
  unfolding region_def by blast

lemma ufree_correct:
  assumes "heap_ok base lo hi h F ((bp, s) # A)"
  obtains h' F' where "ufree (bp + HSIZE) h = Some h'" "heap_ok base lo hi h' F' A" "freep h' \<noteq> 0"
    "region F' = region F \<union> span (bp, s)" "kern h' = kern h" "\<forall>a\<in>region A. hdr h' a = hdr h a"
    "\<exists>b\<in>set F'. s \<le> snd b"
proof -
  note H = assms [unfolded heap_ok_def]
  have lo: "0 < base" "base + HSIZE \<le> lo" "hi < lo + HSIZE * 2 ^ 32" using H by auto
  have fp: "list_ok base (hdr h) F" "freep h \<in> set (base # map fst F)" using H by (auto split: if_splits)
  have b: "block_ok lo hi (hdr h) (bp, s)" "\<forall>x\<in>set F. block_ok lo hi (hdr h) x" "\<forall>x\<in>set A. block_ok lo hi (hdr h) x"
    using H by auto
  have disj: "region F \<inter> span (bp, s) = {}" "region F \<inter> region A = {}" "span (bp, s) \<inter> region A = {}"
    using H by (auto simp: region_def)
  have "sorted_wrt (\<lambda>x y. fst x + HSIZE * snd x < fst y) F" "\<forall>x\<in>set F. 0 < snd x" "0 < s"
    using fp(1) b by (auto simp: list_ok_def block_ok_def)
  then obtain G H where GH: "F = G @ H" "\<forall>g\<in>set G. fst g + HSIZE * snd g \<le> bp" "\<forall>x\<in>set H. bp + HSIZE * s \<le> fst x"
    using sorted_blocks_split [OF _ _ _ disj(1)] by blast
  define p where "p = last (base # map fst G)"
  define m' where "m' = join_left bp p (join_right bp p (hdr h))"
  have G: "g < bp" if "g \<in> set (base # map fst G)" for g
  proof -
    have "fst x < bp" if "x \<in> set G" for x
    proof -
      have "block_ok lo hi (hdr h) x" "fst x + HSIZE * snd x \<le> bp" using b(2) GH(1,2) that by auto
      then show ?thesis using block_ok_above [OF _ lo(2)] by (meson less_le_trans)
    qed
    then show ?thesis using that block_ok_above [OF b(1) lo(2)] by auto
  qed
  have p: "p \<in> set (base # map fst G)" unfolding p_def by (rule last_in_set) simp
  obtain zs where zs: "base # map fst G = zs @ [p]" unfolding p_def by (metis append_butlast_last_id list.distinct(1))
  have search: "free_search (hdr h) bp (freep h) = Some p"
  proof (rule free_search_correct)
    have eq: "zs @ p # map fst H = base # map fst F" using zs GH(1) by simp
    show "links (hdr h) (zs @ p # map fst H) base" unfolding eq using fp(1) by (simp add: list_ok_def)
    have "sorted_wrt (<) (map fst F)" using fp(1) by (simp add: list_ok_def sorted_addresses)
    moreover have "base < fst x" if "x \<in> set F" for x using b(2) block_ok_above [OF _ lo(2)] that by blast
    ultimately show "sorted_wrt (<) (zs @ p # map fst H)" unfolding eq by auto
    show "hd (zs @ [p]) = base" using zs by (metis list.sel(1))
    show "p < bp" using G p by blast
    have "bp < fst x" if "x \<in> set H" for x
      using GH(3) that block_ok_above [OF b(1) lo(2)] unfolding fst_conv snd_conv by (meson less_le_trans)
    then show "\<forall>z\<in>set (map fst H). bp < z" by auto
    show "freep h \<in> set (zs @ p # map fst H)" unfolding eq by (rule fp(2))
  qed
  obtain F' where F': "list_ok base m' F'" "\<forall>b\<in>set F'. block_ok lo hi m' b" "region F' = region F \<union> span (bp, s)"
    "p \<in> set (base # map fst F')" "\<And>x. x \<noteq> p \<Longrightarrow> x \<noteq> bp \<Longrightarrow> m' x = hdr h x"
    "\<exists>b\<in>set F'. s \<le> snd b"
    using join_correct [OF fp(1) [unfolded GH(1)] b(2) [unfolded GH(1)] b(1) lo(2,3) GH(2,3) p_def m'_def] GH(1) by metis
  have "p \<notin> region A" "bp \<notin> region A"
  proof -
    have "p = base \<or> p \<in> region F" using p GH(1) b(2) block_ok_start by (fastforce simp: region_def)
    moreover have "base \<notin> region A" using b(3) block_ok_above [OF _ lo(2)] by (fastforce simp: region_def span_def)
    ultimately show "p \<notin> region A" using disj(2) by blast
    show "bp \<notin> region A" using disj(3) block_ok_start [OF b(1)] by auto
  qed
  then have same: "\<forall>a\<in>region A. m' a = hdr h a" using F'(5) by metis
  moreover have "block_ok lo hi m' x" if "x \<in> set A" for x
    using b(3) that same block_ok_start block_ok_cong unfolding region_def by (metis UN_I)
  moreover have p0: "p \<noteq> 0" using p lo(1) b(2) GH(1) block_ok_above [OF _ lo(2)] by fastforce
  ultimately have "heap_ok base lo hi (h\<lparr>hdr := m', freep := p\<rparr>) F' A"
    using H F' disj by (auto simp: heap_ok_def)
  moreover have "ufree (bp + HSIZE) h = Some (h\<lparr>hdr := m', freep := p\<rparr>)" using search by (simp add: ufree_def m'_def)
  ultimately show ?thesis using that F'(3,6) same p0 by simp
qed

subsection \<open>The search of \<open>malloc\<close>\<close>

text \<open>What the loop does when it comes back to \<open>freep\<close>.\<close>

definition grow_and_retry :: "(int \<Rightarrow> 'k \<Rightarrow> (nat option \<times> 'k) option) \<Rightarrow> nat \<Rightarrow> 'k uheap \<Rightarrow> (nat \<times> 'k uheap) option" where
  "grow_and_retry sbrk n h = (case morecore sbrk n h of
     None \<Rightarrow> None
   | Some (p, h) \<Rightarrow> if p = 0 then Some (0, h) else malloc_loop sbrk n p (nxt (hdr h) p) h)"

lemma malloc_loop_step:
  "malloc_loop sbrk n q p h =
     (if n \<le> bsz (hdr h) p then Some (take_block n q p h)
      else if p = freep h then grow_and_retry sbrk n h
      else malloc_loop sbrk n p (nxt (hdr h) p) h)"
  by (subst malloc_loop.simps) (simp add: grow_and_retry_def)

text \<open>The block found: one with its predecessor in the list.\<close>

definition fits :: "nat \<Rightarrow> nat list \<Rightarrow> (nat \<times> 'k uheap) option \<Rightarrow> 'k uheap \<Rightarrow> bool" where
  "fits n xs r h \<longleftrightarrow> (\<exists>ls q w rs. xs = ls @ q # w # rs \<and> n \<le> bsz (hdr h) w \<and> r = Some (take_block n q w h))"

lemma scan_tail:
  assumes "links (hdr h) (q # ws) base" "freep h \<notin> set ws"
  shows "fits n (ls @ q # ws) (malloc_loop sbrk n q (nxt (hdr h) q) h) h
    \<or> (\<forall>w\<in>set ws. bsz (hdr h) w < n) \<and> malloc_loop sbrk n q (nxt (hdr h) q) h = malloc_loop sbrk n (last (q # ws)) base h"
  using assms
proof (induction ws arbitrary: q ls)
  case (Cons w ws)
  note step = malloc_loop_step [of sbrk n q w h]
  show ?case
  proof (cases "n \<le> bsz (hdr h) w")
    case True
    then have "fits n (ls @ q # w # ws) (malloc_loop sbrk n q w h) h" unfolding fits_def step by auto
    then show ?thesis using Cons.prems(1) by simp
  next
    case False
    then have "malloc_loop sbrk n q w h = malloc_loop sbrk n w (nxt (hdr h) w) h" using step Cons.prems(2) by auto
    then show ?thesis using Cons.IH [of w "ls @ [q]"] Cons.prems False by auto
  qed
qed simp

lemma scan_to_freep:
  assumes "links (hdr h) (q # ws) (freep h)" "freep h \<notin> set ws"
  shows "fits n (ls @ q # ws @ freep h # vs) (malloc_loop sbrk n q (nxt (hdr h) q) h) h
    \<or> (\<forall>w\<in>set (ws @ [freep h]). bsz (hdr h) w < n) \<and> malloc_loop sbrk n q (nxt (hdr h) q) h = grow_and_retry sbrk n h"
  using assms
proof (induction ws arbitrary: q ls)
  case Nil
  note step = malloc_loop_step [of sbrk n q "freep h" h]
  show ?case
  proof (cases "n \<le> bsz (hdr h) (freep h)")
    case True
    then have "fits n (ls @ q # freep h # vs) (malloc_loop sbrk n q (freep h) h) h" unfolding fits_def step by auto
    then show ?thesis using Nil by simp
  next
    case False
    then show ?thesis using Nil step by simp
  qed
next
  case (Cons w ws)
  note step = malloc_loop_step [of sbrk n q w h]
  show ?case
  proof (cases "n \<le> bsz (hdr h) w")
    case True
    then have "fits n (ls @ q # w # ws @ freep h # vs) (malloc_loop sbrk n q w h) h" unfolding fits_def step by auto
    then show ?thesis using Cons.prems(1) by simp
  next
    case False
    then have "malloc_loop sbrk n q w h = malloc_loop sbrk n w (nxt (hdr h) w) h" using step Cons.prems(2) by auto
    then show ?thesis using Cons.IH [of w "ls @ [q]"] Cons.prems False by auto
  qed
qed

text \<open>Once round the list from \<open>freep\<close>: a large enough block is found, or there is none.\<close>

lemma scan_ring:
  assumes "links (hdr h) (base # xs) base" "distinct (base # xs)" "bsz (hdr h) base = 0" "0 < n" "freep h \<in> set (base # xs)"
  shows "fits n (base # xs) (malloc_loop sbrk n (freep h) (nxt (hdr h) (freep h)) h) h
    \<or> (\<forall>w\<in>set xs. bsz (hdr h) w < n) \<and> malloc_loop sbrk n (freep h) (nxt (hdr h) (freep h)) h = grow_and_retry sbrk n h"
proof -
  obtain us vs where uv: "base # xs = us @ freep h # vs" using split_list [OF assms(5)] by blast
  have l: "links (hdr h) (freep h # vs) base" "freep h \<notin> set us" "freep h \<notin> set vs" "links (hdr h) us (freep h)"
    using assms(1,2) unfolding uv links_append by auto
  let ?r = "malloc_loop sbrk n (freep h) (nxt (hdr h) (freep h)) h"
  consider "fits n (base # xs) ?r h"
    | "\<forall>w\<in>set vs. bsz (hdr h) w < n" "?r = malloc_loop sbrk n (last (freep h # vs)) base h"
    using scan_tail [OF l(1,3), where sbrk = sbrk and n = n and ls = us] uv by auto
  then show ?thesis
  proof cases
    case 2
    note step = malloc_loop_step [of sbrk n "last (freep h # vs)" base h]
    show ?thesis
    proof (cases us)
      case Nil
      then show ?thesis using 2 uv step assms(3,4) by auto
    next
      case (Cons u us')
      then have u: "u = base" "base \<noteq> freep h" "freep h \<notin> set us'" "links (hdr h) (base # us') (freep h)" using uv l by auto
      then have "?r = malloc_loop sbrk n base (nxt (hdr h) base) h" using 2 step assms(3,4) by simp
      then show ?thesis using scan_to_freep [OF u(4,3), where sbrk = sbrk and n = n and ls = "[]" and vs = vs] 2 uv Cons u by auto
    qed
  qed simp
qed

subsection \<open>Taking a block\<close>

lemma block_ok_change:
  assumes "\<forall>b\<in>set bs. block_ok lo hi m b" "\<And>x. x \<notin> X \<Longrightarrow> bsz m' x = bsz m x" "X \<inter> fst ` set bs = {}"
  shows "\<forall>b\<in>set bs. block_ok lo hi m' b"
proof
  fix b assume b: "b \<in> set bs"
  then have "bsz m' (fst b) = bsz m (fst b)" using assms(2,3) by (meson disjoint_iff imageI)
  then show "block_ok lo hi m' b" using assms(1) b block_ok_cong by blast
qed

lemma heap_ok_alloc:
  assumes "heap_ok base lo hi h F A" "list_ok base m' F'" "q \<in> set (base # map fst F')" "q \<noteq> 0"
    and "\<forall>x\<in>set (F' @ b # A). block_ok lo hi m' x" "region F' \<union> span b = region F" "region F' \<inter> span b = {}"
  shows "heap_ok base lo hi (h\<lparr>hdr := m', freep := q\<rparr>) F' (b # A)"
proof -
  have "region F \<inter> region A = {}" using assms(1) by (simp add: heap_ok_def)
  then have d: "region F' \<inter> region A = {}" "span b \<inter> region A = {}" using assms(6) by blast+
  then have "region F' \<inter> region (b # A) = {}" using assms(7) by auto
  moreover have "\<forall>x\<in>set A. span b \<inter> span x = {}" using d(2) unfolding region_def by blast
  ultimately show ?thesis using assms(1-5) by (auto simp: heap_ok_def)
qed

lemma list_ok_cong:
  assumes "list_ok base m F" "\<And>x. nxt m' x = nxt m x" "bsz m' base = bsz m base" "map fst F' = map fst F"
    and "sorted_wrt (\<lambda>x y. fst x + HSIZE * snd x < fst y) F'"
  shows "list_ok base m' F'"
proof -
  have "links m' xs e = links m xs e" for xs e by (rule links_cong) (rule assms(2))
  then show ?thesis using assms unfolding list_ok_def by simp
qed

lemma take_whole:
  assumes "list_ok base m (G @ (w, t) # H)" "q = last (base # map fst G)" "distinct (base # map fst (G @ (w, t) # H))"
  shows "list_ok base (m(q := (m q)\<lparr>h_ptr := nxt m w\<rparr>)) (G @ H)"
proof -
  obtain zs where zs: "base # map fst G = zs @ [q]" unfolding assms(2) by (metis append_butlast_last_id list.distinct(1))
  have d: "distinct (zs @ q # w # map fst H)" using assms(3) zs by (metis append.assoc append_Cons append_Nil fst_conv list.simps(9) map_append)
  have "links m (zs @ q # w # map fst H) base"
    using assms(1) zs unfolding list_ok_def by (metis append.assoc append_Cons append_Nil fst_conv list.simps(9) map_append)
  then have "links (m(q := (m q)\<lparr>h_ptr := nxt m w\<rparr>)) (zs @ q # map fst H) base"
    using d by (auto simp: links_append)
  moreover have "zs @ q # map fst H = base # map fst (G @ H)" using zs by simp
  ultimately show ?thesis using assms(1) by (auto simp: list_ok_def sorted_wrt_append)
qed

lemma take_block_correct:
  assumes "heap_ok base lo hi h F A" "freep h \<noteq> 0" "base # map fst F = ls @ q # w # rs" "n \<le> bsz (hdr h) w" "0 < n"
  obtains p h' F' where "take_block n q w h = (p + HSIZE, h')" "heap_ok base lo hi h' F' ((p, n) # A)" "freep h' \<noteq> 0"
    "region F' \<union> span (p, n) = region F" "kern h' = kern h" "\<forall>a\<in>region A. hdr h' a = hdr h a"
proof -
  note H = assms(1) [unfolded heap_ok_def]
  have lo: "0 < base" "base + HSIZE \<le> lo" using H by auto
  have L: "list_ok base (hdr h) F" using H assms(2) by simp
  have bs: "\<forall>x\<in>set F. block_ok lo hi (hdr h) x" "\<forall>x\<in>set A. block_ok lo hi (hdr h) x" using H by auto
  obtain G t H2 where F: "F = G @ (w, t) # H2" and q: "q = last (base # map fst G)"
  proof -
    have "map fst F = tl (ls @ [q]) @ w # rs" "q = last (base # tl (ls @ [q]))" using assms(3) by (cases ls; auto)+
    then obtain G t H2 where "F = G @ (w, t) # H2" "map fst G = tl (ls @ [q])"
      by (auto simp: map_eq_append_conv map_eq_Cons_conv)
    then show ?thesis using that \<open>q = last (base # tl (ls @ [q]))\<close> by metis
  qed
  let ?m = "hdr h"
  have t: "bsz ?m w = t" "0 < t" "lo \<le> w" "w + HSIZE * t \<le> hi" "HSIZE dvd w" using bs F by (auto simp: block_ok_def)
  have srt: "sorted_wrt (<) (map fst F)" using L by (simp add: list_ok_def sorted_addresses)
  have above: "base < fst x" if "x \<in> set F" for x using bs(1) block_ok_above [OF _ lo(2)] that by blast
  have d: "distinct (base # map fst F)" using srt above by (auto simp: strict_sorted_iff)
  have nA: "x \<notin> region A" if "x \<in> insert base (region F)" for x
    using that H bs(2) block_ok_above [OF _ lo(2)] by (fastforce simp: region_def span_def)
  have inF: "fst x \<in> region F" if "x \<in> set F" for x using bs(1) block_ok_start that by (fastforce simp: region_def)
  have qS: "q \<in> set (base # map fst G)" unfolding q by (rule last_in_set) simp
  then have "q = base \<or> (\<exists>x\<in>set F. q = fst x)" using F by auto
  then have qF: "q \<in> insert base (region F)" and q0: "q \<noteq> 0" using inF above lo(1) by (blast, metis less_zeroE)
  have apart: "region (G @ H2) \<inter> span (w, t) = {}"
  proof -
    have "fst x + HSIZE * snd x \<le> w \<or> w + HSIZE * t \<le> fst x" if "x \<in> set (G @ H2)" for x
      using L that by (auto simp: F list_ok_def sorted_wrt_append intro: less_imp_le)
    then have "span x \<inter> span (w, t) = {}" if "x \<in> set (G @ H2)" for x
      using that span_disjointI [of x "(w, t)"] unfolding fst_conv snd_conv by blast
    then show ?thesis unfolding region_def by blast
  qed
  show ?thesis
  proof (cases "t = n")
    case True
    let ?m' = "?m(q := (?m q)\<lparr>h_ptr := nxt ?m w\<rparr>)"
    have "\<forall>b\<in>set ((G @ H2) @ (w, n) # A). block_ok lo hi ?m' b" using bs True F by (auto simp: block_ok_def)
    moreover have R: "region (G @ H2) \<union> span (w, n) = region F" "region (G @ H2) \<inter> span (w, n) = {}"
      using apart True by (auto simp: F)
    moreover have "list_ok base ?m' (G @ H2)" using take_whole [OF L [unfolded F] q] d F by simp
    ultimately have "heap_ok base lo hi (h\<lparr>hdr := ?m', freep := q\<rparr>) (G @ H2) ((w, n) # A)"
      using heap_ok_alloc [OF assms(1) _ _ q0, of ?m' "G @ H2" "(w, n)"] qS by auto
    moreover have "take_block n q w h = (w + HSIZE, h\<lparr>hdr := ?m', freep := q\<rparr>)" using True t(1) by (simp add: take_block_def Let_def)
    moreover have "\<forall>a\<in>region A. ?m' a = ?m a" using nA [OF qF] by auto
    ultimately show ?thesis using that [of w "h\<lparr>hdr := ?m', freep := q\<rparr>" "G @ H2"] q0 R by simp
  next
    case False
    let ?p = "w + HSIZE * (t - n)"
    let ?m1 = "?m(w := (?m w)\<lparr>h_size := t - n\<rparr>)"
    let ?m' = "?m1(?p := (?m1 ?p)\<lparr>h_size := n\<rparr>)"
    have n: "n < t" using False assms(4) t(1) by simp
    then have pw: "?p \<noteq> w" and eq: "?p + HSIZE * n = w + HSIZE * t"
      by (simp_all add: HSIZE_def)
    have sp: "span (w, t) = span (w, t - n) \<union> span (?p, n)" "span (w, t - n) \<inter> span (?p, n) = {}"
      using n assms(5) by (auto simp: span_def HSIZE_def)
    have inw: "w \<in> span (w, t)" "?p \<in> span (w, t)" using n assms(5) by (auto simp: span_def HSIZE_def)
    have GH: "\<forall>b\<in>set (G @ H2 @ A). block_ok lo hi ?m' b"
    proof (rule block_ok_change [where X = "span (w, t)" and m = ?m])
      show "\<forall>b\<in>set (G @ H2 @ A). block_ok lo hi ?m b" using bs F by auto
      show "bsz ?m' x = bsz ?m x" if "x \<notin> span (w, t)" for x using that inw by auto
      have "fst b \<notin> span (w, t)" if "b \<in> set (G @ H2 @ A)" for b
      proof -
        have "block_ok lo hi ?m b" using bs F that by auto
        from block_ok_start [OF this] that have "fst b \<in> region (G @ H2) \<union> region A" unfolding region_def by auto
        then show ?thesis using apart H by (auto simp: F)
      qed
      then show "span (w, t) \<inter> fst ` set (G @ H2 @ A) = {}" by blast
    qed
    have "block_ok lo hi ?m' (w, t - n)" "block_ok lo hi ?m' (?p, n)"
      using t n assms(5) pw eq by (auto simp: block_ok_def)
    then have B: "\<forall>b\<in>set ((G @ (w, t - n) # H2) @ (?p, n) # A). block_ok lo hi ?m' b" using GH by auto
    have L': "list_ok base ?m' (G @ (w, t - n) # H2)"
    proof -
      have "sorted_wrt (\<lambda>x y. fst x + HSIZE * snd x < fst y) (G @ (w, t - n) # H2)"
        using L n by (auto simp: F list_ok_def sorted_wrt_append HSIZE_def)
      moreover have "base \<noteq> w" "base \<noteq> ?p" using above [of "(w, t)"] F by auto
      then have "bsz ?m' base = bsz ?m base" by simp
      moreover have "nxt ?m' x = nxt ?m x" for x by simp
      ultimately show ?thesis using list_ok_cong [OF L, of ?m' "G @ (w, t - n) # H2"] by (simp add: F)
    qed
    have R: "region (G @ (w, t - n) # H2) \<union> span (?p, n) = region F" "region (G @ (w, t - n) # H2) \<inter> span (?p, n) = {}"
      using sp apart by (auto simp: F)
    have "heap_ok base lo hi (h\<lparr>hdr := ?m', freep := q\<rparr>) (G @ (w, t - n) # H2) ((?p, n) # A)"
      by (rule heap_ok_alloc [OF assms(1) L' _ q0 B R]) (use qS in auto)
    moreover have "take_block n q w h = (?p + HSIZE, h\<lparr>hdr := ?m', freep := q\<rparr>)"
      using False t(1) by (simp add: take_block_def Let_def)
    moreover have "\<forall>a\<in>region A. ?m' a = ?m a" using nA inw by (auto simp: F)
    ultimately show ?thesis using that [of ?p "h\<lparr>hdr := ?m', freep := q\<rparr>" "G @ (w, t - n) # H2"] q0 R(1) by simp
  qed
qed

lemma init_heap_ok:
  assumes "heap_ok base lo hi h F A"
  shows "heap_ok base lo hi (init_heap base h) F A" "freep (init_heap base h) \<noteq> 0" "kern (init_heap base h) = kern h"
    "\<forall>a\<in>region A. hdr (init_heap base h) a = hdr h a"
  using assms by (auto simp: init_heap_def heap_ok_def list_ok_def)

text \<open>The scan of \<open>malloc\<close> on a heap: it takes a block, or no free block is large enough.\<close>

lemma malloc_scan:
  assumes "heap_ok base lo hi h F A" "freep h \<noteq> 0" "0 < n"
  obtains (taken) p h' F' where "malloc_loop sbrk n (freep h) (nxt (hdr h) (freep h)) h = Some (p + HSIZE, h')"
      "heap_ok base lo hi h' F' ((p, n) # A)" "region F' \<union> span (p, n) = region F" "kern h' = kern h"
      "\<forall>a\<in>region A. hdr h' a = hdr h a"
  | (small) "\<forall>b\<in>set F. snd b < n" "malloc_loop sbrk n (freep h) (nxt (hdr h) (freep h)) h = grow_and_retry sbrk n h"
proof -
  note H = assms(1) [unfolded heap_ok_def]
  have L: "list_ok base (hdr h) F" "freep h \<in> set (base # map fst F)" using H assms(2) by auto
  have bs: "\<forall>x\<in>set F. block_ok lo hi (hdr h) x" "base + HSIZE \<le> lo" using H by auto
  have "sorted_wrt (<) (map fst F)" using L by (simp add: list_ok_def sorted_addresses)
  moreover have "base < fst x" if "x \<in> set F" for x using bs block_ok_above that by blast
  ultimately have d: "distinct (base # map fst F)" by (auto simp: strict_sorted_iff)
  have ring: "links (hdr h) (base # map fst F) base" "bsz (hdr h) base = 0" using L(1) by (simp_all add: list_ok_def)
  consider "fits n (base # map fst F) (malloc_loop sbrk n (freep h) (nxt (hdr h) (freep h)) h) h"
    | "\<forall>w\<in>set (map fst F). bsz (hdr h) w < n" "malloc_loop sbrk n (freep h) (nxt (hdr h) (freep h)) h = grow_and_retry sbrk n h"
    using scan_ring [OF ring(1) d ring(2) assms(3) L(2), of sbrk] by blast
  then show ?thesis
  proof cases
    case 1
    then obtain ls q w rs where w: "base # map fst F = ls @ q # w # rs" "n \<le> bsz (hdr h) w"
      "malloc_loop sbrk n (freep h) (nxt (hdr h) (freep h)) h = Some (take_block n q w h)" unfolding fits_def by blast
    from take_block_correct [OF assms(1,2) w(1,2) assms(3)] taken w(3) show ?thesis by metis
  next
    case 2
    have "\<forall>b\<in>set F. snd b < n" using 2(1) bs(1) by (auto simp: block_ok_def)
    then show ?thesis using small 2(2) by blast
  qed
qed

lemma units_enough:
  assumes "nbytes + 32 \<le> 2 ^ 31"
  shows "nbytes + HSIZE \<le> HSIZE * units nbytes" "HSIZE * units nbytes < 2 ^ 31" "0 < units nbytes"
  using assms by (simp_all add: units_def HSIZE_def)

text \<open>The heap of a program that has not allocated yet.\<close>

lemma empty_heap_ok:
  "freep h = 0 \<Longrightarrow> 0 < base \<Longrightarrow> base + HSIZE \<le> lo \<Longrightarrow> HSIZE dvd lo \<Longrightarrow> heap_ok base lo lo h [] []"
  by (simp add: heap_ok_def HSIZE_def)

subsection \<open>The program break\<close>

text \<open>What the allocator needs of \<open>sbrk\<close>: on success it returns the old break, which moves up by \<open>n\<close>.\<close>

locale program_break =
  fixes sbrk :: "int \<Rightarrow> 'k \<Rightarrow> (nat option \<times> 'k) option" and brk :: "'k \<Rightarrow> nat"
  assumes sbrk_grows: "sbrk n k = Some (Some a, k') \<Longrightarrow> 0 < n \<Longrightarrow> int (brk k) + n < 2 ^ 64 \<Longrightarrow> a = brk k \<and> int (brk k') = int (brk k) + n"
    and sbrk_fails: "sbrk n k = Some (None, k') \<Longrightarrow> brk k' = brk k"
begin

text \<open>
  The heap of a program whose break only the allocator moves: it ends at the break. \<open>room\<close> bounds the
  growth by one request, so that sizes fit in a \<open>uint\<close>.
\<close>

lemma new_core:
  assumes "heap_ok base lo (brk (kern h)) h F A" "freep h \<noteq> 0" "0 < nu"
    and "sbrk (int (nu * HSIZE)) (kern h) = Some (Some p, k)" "brk (kern h) + nu * HSIZE < lo + HSIZE * 2 ^ 32" "lo < 2 ^ 38"
  shows "p = brk (kern h) \<and> brk k = p + HSIZE * nu
    \<and> heap_ok base lo (brk k) (h\<lparr>hdr := (hdr h)(p := (hdr h p)\<lparr>h_size := nu\<rparr>), kern := k\<rparr>) F ((p, nu) # A)"
proof -
  have "int (brk (kern h)) + int (nu * HSIZE) < 2 ^ 64" using assms(5,6) by (simp add: HSIZE_def)
  then have p: "p = brk (kern h)" "brk k = p + HSIZE * nu"
    using sbrk_grows [OF assms(4)] assms(3) by (auto simp: HSIZE_def)
  let ?m = "(hdr h)(p := (hdr h p)\<lparr>h_size := nu\<rparr>)"
  note H = assms(1) [unfolded heap_ok_def]
  have below: "x < p" if "x \<in> span b" "b \<in> set (F @ A)" for x b
    using H that unfolding p(1) by (fastforce simp: block_ok_def span_def)
  have base: "base < p" using H p(1) by (auto simp: HSIZE_def)
  have "block_ok lo (brk k) ?m b" if b: "b \<in> set (F @ A)" for b
  proof -
    have B: "block_ok lo p (hdr h) b" using H b p(1) by auto
    then have "fst b \<noteq> p" using below [OF block_ok_start [OF B] b] by simp
    then show ?thesis using block_ok_more [OF B, of "brk k"] p(2) by (simp add: block_ok_def)
  qed
  moreover have "block_ok lo (brk k) ?m (p, nu)" using H assms(3) p by (auto simp: block_ok_def)
  moreover have "list_ok base ?m F" using H assms(2) base by (simp add: list_ok_def)
  moreover have "span (p, nu) \<inter> span b = {}" if "b \<in> set (F @ A)" for b
    using below [OF _ that] by (fastforce simp: span_def)
  then have "\<forall>b\<in>set A. span (p, nu) \<inter> span b = {}" "region F \<inter> span (p, nu) = {}" unfolding region_def by (simp, fastforce)
  moreover have "HSIZE dvd brk k" using H p by simp
  ultimately have "heap_ok base lo (brk k) (h\<lparr>hdr := ?m, kern := k\<rparr>) F ((p, nu) # A)"
    using H assms(2,5) p by (auto simp: heap_ok_def HSIZE_def)
  then show ?thesis using p by blast
qed

lemma sint_small: "n < 2 ^ 31 \<Longrightarrow> sint (of_nat n :: 32 word) = int n"
  by (simp add: sint_uint unsigned_of_nat signed_take_bit_int_eq_self take_bit_nat_eq_self)

lemma morecore_correct:
  assumes "heap_ok base lo (brk (kern h)) h F A" "freep h \<noteq> 0" "nu = max n 4096"
    and "nu * HSIZE < 2 ^ 31" "brk (kern h) + nu * HSIZE < lo + HSIZE * 2 ^ 32" "lo < 2 ^ 38"
  obtains (panic) "sbrk (int (nu * HSIZE)) (kern h) = None" "morecore sbrk n h = None"
  | (fail) k where "sbrk (int (nu * HSIZE)) (kern h) = Some (None, k)" "morecore sbrk n h = Some (0, h\<lparr>kern := k\<rparr>)" "brk k = brk (kern h)"
  | (more) h' F' where "morecore sbrk n h = Some (freep h', h')" "freep h' \<noteq> 0" "heap_ok base lo (brk (kern h')) h' F' A"
      "region F' = region F \<union> {brk (kern h)..<brk (kern h')}" "\<exists>b\<in>set F'. n \<le> snd b" "\<forall>a\<in>region A. hdr h' a = hdr h a"
proof -
  have nu: "(if n < 4096 then 4096 else n) = nu" "0 < nu" using assms(3) by auto
  note mc = morecore_def [of sbrk n h, unfolded nu(1) Let_def sint_small [OF assms(4)]]
  consider "sbrk (int (nu * HSIZE)) (kern h) = None" | k where "sbrk (int (nu * HSIZE)) (kern h) = Some (None, k)"
    | p k where "sbrk (int (nu * HSIZE)) (kern h) = Some (Some p, k)" by (metis option.exhaust surj_pair)
  then show ?thesis
  proof cases
    case 1
    then show ?thesis using panic by (simp add: mc)
  next
    case (2 k)
    then show ?thesis using fail sbrk_fails by (simp add: mc)
  next
    case (3 p k)
    let ?h = "h\<lparr>hdr := (hdr h)(p := (hdr h p)\<lparr>h_size := nu\<rparr>), kern := k\<rparr>"
    note N = new_core [OF assms(1,2) nu(2) 3 assms(5,6)]
    obtain h' F' where F: "ufree (p + HSIZE) ?h = Some h'" "heap_ok base lo (brk k) h' F' A" "freep h' \<noteq> 0"
      "region F' = region F \<union> span (p, nu)" "kern h' = kern ?h" "\<forall>a\<in>region A. hdr h' a = hdr ?h a" "\<exists>b\<in>set F'. nu \<le> snd b"
      using ufree_correct [of base lo "brk k" ?h F p nu A] N by metis
    have "p \<notin> region A"
    proof
      assume "p \<in> region A"
      then obtain b where "b \<in> set A" "p \<in> span b" by (auto simp: region_def)
      moreover from this have "block_ok lo p (hdr h) b" using assms(1) N by (auto simp: heap_ok_def)
      ultimately show False by (auto simp: block_ok_def span_def)
    qed
    then have "\<forall>a\<in>region A. hdr h' a = hdr h a" using F(6) by auto
    moreover have "span (p, nu) = {brk (kern h)..<brk k}" using N by (simp add: span_def)
    moreover have "\<exists>b\<in>set F'. n \<le> snd b" using F(7) assms(3) by auto
    moreover have "morecore sbrk n h = Some (freep h', h')" using 3 F(1) by (simp add: mc)
    ultimately show ?thesis using more [of h' F'] F(2-5) by simp
  qed
qed

lemma malloc_cases:
  assumes "heap_ok base lo (brk (kern h)) h F A" "nbytes + 32 \<le> 2 ^ 31"
    and "brk (kern h) + 2 ^ 31 \<le> lo + HSIZE * 2 ^ 32" "lo < 2 ^ 38"
  obtains (panic) "sbrk (int (max (units nbytes) 4096 * HSIZE)) (kern h) = None" "malloc sbrk base nbytes h = None"
  | (fail) h' where "malloc sbrk base nbytes h = Some (0, h')" "brk (kern h') = brk (kern h)" "heap_ok base lo (brk (kern h')) h' F A"
      "\<forall>a\<in>region A. hdr h' a = hdr h a" "\<forall>b\<in>set F. snd b < units nbytes"
  | (taken) p h' F' where "malloc sbrk base nbytes h = Some (p + HSIZE, h')" "heap_ok base lo (brk (kern h')) h' F' ((p, units nbytes) # A)"
      "region F' \<union> span (p, units nbytes) = region F \<union> {brk (kern h)..<brk (kern h')}" "\<forall>a\<in>region A. hdr h' a = hdr h a"
proof -
  let ?h = "init_heap base h" and ?n = "units nbytes"
  note I = init_heap_ok [OF assms(1)] and U = units_enough [OF assms(2)]
  have ok: "heap_ok base lo (brk (kern ?h)) ?h F A" using I(1,3) by simp
  have m: "malloc sbrk base nbytes h = malloc_loop sbrk ?n (freep ?h) (nxt (hdr ?h) (freep ?h)) ?h"
    by (simp add: malloc_def Let_def)
  from ok I(2) U(3) show ?thesis
  proof (cases rule: malloc_scan [where sbrk = sbrk])
    case (taken p h' F')
    then show ?thesis using that(3) [of p h' F'] I(3,4) m by simp
  next
    case small
    have sz: "max ?n 4096 * HSIZE < 2 ^ 31" "brk (kern ?h) + max ?n 4096 * HSIZE < lo + HSIZE * 2 ^ 32"
      using U(2) assms(3) I(3) by (auto simp: HSIZE_def max_def)
    from ok I(2) refl sz assms(4) show ?thesis
    proof (cases rule: morecore_correct)
      case panic
      then show ?thesis using that(1) I(3) m small(2) by (simp add: grow_and_retry_def)
    next
      case (fail k)
      have "heap_ok base lo (brk k) (?h\<lparr>kern := k\<rparr>) F A" using ok fail(3) by (auto simp: heap_ok_def)
      then show ?thesis using that(2) [of "?h\<lparr>kern := k\<rparr>"] fail(2,3) I(3,4) m small by (simp add: grow_and_retry_def)
    next
      case (more h1 F1)
      have m1: "malloc sbrk base nbytes h = malloc_loop sbrk ?n (freep h1) (nxt (hdr h1) (freep h1)) h1"
        using m small(2) more(1,2) by (simp add: grow_and_retry_def)
      from more(3,2) U(3) show ?thesis
      proof (cases rule: malloc_scan [where sbrk = sbrk])
        case (taken p h' F')
        then show ?thesis using that(3) [of p h' F'] m1 more(4,6) I(3,4) by simp
      next
        case small
        then show ?thesis using more(5) by (meson linorder_not_less)
      qed
    qed
  qed
qed

end

subsection \<open>Runs of a program\<close>

text \<open>
  A program that uses the allocator, with the blocks \<open>A\<close> it holds: it allocates, frees a block it holds, and
  writes anywhere in its blocks except the headers; the kernel state may change in any way that leaves
  the program's break alone.
\<close>

inductive ustep :: "(int \<Rightarrow> 'k \<Rightarrow> (nat option \<times> 'k) option) \<Rightarrow> ('k \<Rightarrow> nat) \<Rightarrow> nat \<Rightarrow> nat
    \<Rightarrow> 'k uheap \<times> ublock list \<Rightarrow> 'k uheap \<times> ublock list \<Rightarrow> bool"
  for sbrk brk base lo where
  alloc: "malloc sbrk base nbytes h = Some (p, h') \<Longrightarrow> p \<noteq> 0 \<Longrightarrow> nbytes + 32 \<le> 2 ^ 31
    \<Longrightarrow> brk (kern h) + 2 ^ 31 \<le> lo + HSIZE * 2 ^ 32
    \<Longrightarrow> ustep sbrk brk base lo (h, A) (h', (p - HSIZE, units nbytes) # A)"
| no_alloc: "malloc sbrk base nbytes h = Some (0, h') \<Longrightarrow> nbytes + 32 \<le> 2 ^ 31
    \<Longrightarrow> brk (kern h) + 2 ^ 31 \<le> lo + HSIZE * 2 ^ 32 \<Longrightarrow> ustep sbrk brk base lo (h, A) (h', A)"
| release: "b \<in> set A \<Longrightarrow> ufree (fst b + HSIZE) h = Some h' \<Longrightarrow> ustep sbrk brk base lo (h, A) (h', remove1 b A)"
| store: "b \<in> set A \<Longrightarrow> fst b < a \<Longrightarrow> a < fst b + HSIZE * snd b
    \<Longrightarrow> ustep sbrk brk base lo (h, A) (h\<lparr>hdr := (hdr h)(a := v)\<rparr>, A)"
| kernel: "brk k = brk (kern h) \<Longrightarrow> ustep sbrk brk base lo (h, A) (h\<lparr>kern := k\<rparr>, A)"

lemma heap_ok_front:
  assumes "heap_ok base lo hi h F A" "b \<in> set A" shows "heap_ok base lo hi h F (b # remove1 b A)"
proof -
  obtain xs ys where A: "A = xs @ b # ys" "b \<notin> set xs" using split_list_first [OF assms(2)] by blast
  then show ?thesis using assms(1) by (auto simp: heap_ok_def remove1_append sorted_wrt_append Int_commute)
qed

text \<open>A store into the payload of a block touches no header.\<close>

lemma heap_ok_store:
  assumes "heap_ok base lo hi h F A" "b \<in> set A" "fst b < a" "a < fst b + HSIZE * snd b"
  shows "heap_ok base lo hi (h\<lparr>hdr := (hdr h)(a := v)\<rparr>) F A"
proof -
  note H = assms(1) [unfolded heap_ok_def]
  have ab: "a \<in> span b" using assms(3,4) by (simp add: span_def)
  have bs: "\<forall>x\<in>set (F @ A). block_ok lo hi (hdr h) x" "base + HSIZE \<le> lo" using H by auto
  have bb: "base < fst b" using block_ok_above bs assms(2) by (metis Un_iff set_append)
  have F: "fst x \<noteq> a" if "x \<in> set F" for x
    using that bs(1) block_ok_start [of lo hi "hdr h" x] region_disjoint [of F A x b] H assms(2) ab by auto
  have A: "fst x \<noteq> a" if x: "x \<in> set A" for x
  proof (cases "x = b")
    case False
    have "heap_ok base lo hi h F (b # remove1 b A)" by (rule heap_ok_front [OF assms(1,2)])
    then have "span b \<inter> span x = {}" using False x by (auto simp: heap_ok_def in_set_remove1)
    then show ?thesis using x bs(1) block_ok_start [of lo hi "hdr h" x] ab by auto
  qed (use assms(3) in simp)
  have "block_ok lo hi ((hdr h)(a := v)) x" if "x \<in> set (F @ A)" for x
    using bs(1) F [of x] A [of x] that by (auto simp: block_ok_def)
  moreover have "list_ok base ((hdr h)(a := v)) F" if "freep h \<noteq> 0"
  proof -
    have "a \<notin> set (map fst F)" "a \<noteq> base" using F bb assms(3) by auto
    moreover have "list_ok base (hdr h) F" using H that by simp
    ultimately show ?thesis by (simp add: list_ok_def)
  qed
  ultimately show ?thesis using H by (auto simp: heap_ok_def)
qed

context program_break
begin

lemma ustep_inv:
  assumes "ustep sbrk brk base lo x y" "lo < 2 ^ 38" "\<exists>F. heap_ok base lo (brk (kern (fst x))) (fst x) F (snd x)"
  shows "\<exists>F. heap_ok base lo (brk (kern (fst y))) (fst y) F (snd y)"
  using assms(1)
proof cases
  case (alloc nbytes h p h' A)
  from assms(3) alloc obtain F where "heap_ok base lo (brk (kern h)) h F A" by auto
  from this alloc(5,6) assms(2) show ?thesis
    by (cases rule: malloc_cases) (use alloc in auto)
next
  case (no_alloc nbytes h h' A)
  from assms(3) no_alloc obtain F where "heap_ok base lo (brk (kern h)) h F A" by auto
  from this no_alloc(4,5) assms(2) show ?thesis
    by (cases rule: malloc_cases) (use no_alloc in \<open>auto simp: HSIZE_def\<close>)
next
  case (release b A h h')
  from assms(3) release obtain F where "heap_ok base lo (brk (kern h)) h F A" by auto
  from heap_ok_front [OF this release(3)] have "heap_ok base lo (brk (kern h)) h F ((fst b, snd b) # remove1 b A)" by simp
  from ufree_correct [OF this] release show ?thesis by (metis fst_conv option.inject snd_conv)
next
  case (store b A a h v)
  then show ?thesis using heap_ok_store assms(3) by fastforce
next
  case (kernel k h A)
  then show ?thesis using assms(3) by (auto simp: heap_ok_def)
qed

lemma urun_inv:
  assumes "(ustep sbrk brk base lo)\<^sup>*\<^sup>* x y" "lo < 2 ^ 38" "\<exists>F. heap_ok base lo (brk (kern (fst x))) (fst x) F (snd x)"
  shows "\<exists>F. heap_ok base lo (brk (kern (fst y))) (fst y) F (snd y)"
  using assms(1,3)
proof (induction rule: rtranclp_induct)
  case (step y z)
  then show ?case using ustep_inv [OF _ assms(2)] by blast
qed

end

subsection \<open>The break of the kernel\<close>

text \<open>\<open>sbrk\<close> of \<open>src/user/ulib.c\<close> is the system call with eager allocation, which is \<open>growproc\<close>.\<close>

definition user_sbrk :: "u64 \<Rightarrow> nat \<Rightarrow> int \<Rightarrow> psys \<Rightarrow> (nat option \<times> psys) option" where
  "user_sbrk kend me n s = (case growproc kend me n s of
     Inl _ \<Rightarrow> None
   | Inr (r, s') \<Rightarrow> Some (if r < 0 then None else Some (unat (p_sz (ptab s me))), s'))"

lemma user_sbrk_is_system_call:
  assumes "argint me 0 s = Inr n" "argint me 1 s = Inr SBRK_EAGER" "user_sbrk (im_end im) me n s = Some (r, s')"
  shows "sys_sbrk im me (s, k) = Inr (Value (case r of None \<Rightarrow> - 1 | Some a \<Rightarrow> of_nat a), s', k)"
  using assms by (auto simp: sys_sbrk_def user_sbrk_def sys_ret_def Let_def split: sum.splits if_splits)

lemma uvmalloc_loop_result:
  "uvmalloc_loop kend pt oldsz a newsz x s = Inr (z, s') \<Longrightarrow> z = 0 \<or> z = newsz"
proof (induction kend pt oldsz a newsz x s arbitrary: z s' rule: uvmalloc_loop.induct)
  case (1 kend pt oldsz a newsz x s)
  note E = "1.prems" [unfolded uvmalloc_loop.simps [of kend pt oldsz a newsz x s]]
  obtain mem s1 where k: "kalloc s = (mem, s1)" by fastforce
  show ?case
  proof (cases "a < newsz \<and> mem \<noteq> 0")
    case True
    then consider "z = 0"
      | s2 where "mappages pt a PGSIZE mem (PTE_R OR PTE_U OR x) (s1\<lparr>pmem := memset (pmem s1) mem 0 4096\<rparr>) = Inr (0, s2)"
        "uvmalloc_loop kend pt oldsz (a + PGSIZE) newsz x s2 = Inr (z, s')"
      using E k by (auto simp: bindR_eq_Inr Let_def split: if_splits)
    then show ?thesis
    proof cases
      case (2 s2)
      show ?thesis by (rule "1.IH" [OF _ refl k [symmetric] _ refl 2(1) refl _ 2(2)]) (use True in auto)
    qed simp
  qed (use E k in \<open>auto simp: bindR_eq_Inr Let_def split: if_splits\<close>)
qed

lemma unat_grow:
  fixes w :: u64
  assumes "0 < n" "int (unat w) + n < 2 ^ 64"
  shows "int (unat (w + of_int n)) = int (unat w) + n"
proof -
  have "uint w + n < 2 ^ 64" "0 \<le> uint w + n" using assms by simp_all
  then have "uint (word_of_int (uint w + n) :: u64) = uint w + n" by (subst uint_word_of_int) simp
  then show ?thesis by (simp only: of_int_add of_int_uint ucast_id) simp
qed

lemma growproc_size:
  assumes "growproc kend p n s = Inr (r, s')" "0 < n" "int (unat (p_sz (ptab s p))) + n < 2 ^ 64"
  shows "r < 0 \<and> p_sz (ptab s' p) = p_sz (ptab s p) \<or> r = 0 \<and> p_sz (ptab s' p) = p_sz (ptab s p) + of_int n"
proof -
  let ?sz = "p_sz (ptab s p)"
  have "unat ?sz < unat (?sz + of_int n)" using unat_grow [OF assms(2,3)] assms(2) by linarith
  then have "\<not> ?sz + of_int n < ?sz" by (simp add: word_less_nat_alt)
  then show ?thesis using assms(1,2)
    by (auto simp: growproc_def Let_def bindR_eq_Inr uvmalloc_def dest!: uvmalloc_loop_result split: if_splits)
qed

abbreviation psize :: "nat \<Rightarrow> psys \<Rightarrow> nat" where
  "psize me s \<equiv> unat (p_sz (ptab s me))"

interpretation kernel_break: program_break "user_sbrk kend me" "psize me" for kend me
proof
  fix n k a k'
  assume s: "user_sbrk kend me n k = Some (Some a, k')" and n: "0 < n" "int (psize me k) + n < 2 ^ 64"
  then obtain r where g: "growproc kend me n k = Inr (r, k')" "\<not> r < 0" "a = psize me k"
    by (auto simp: user_sbrk_def split: sum.splits if_splits)
  have "int (unat (p_sz (ptab k me) + of_int n)) = int (psize me k) + n"
    using n by (rule unat_grow)
  then show "a = psize me k \<and> int (psize me k') = int (psize me k) + n"
    using growproc_size [OF g(1) n] g by auto
next
  fix n k k'
  assume "user_sbrk kend me n k = Some (None, k')"
  then obtain r where "growproc kend me n k = Inr (r, k')" "r < 0"
    by (auto simp: user_sbrk_def split: sum.splits if_splits)
  then show "psize me k' = psize me k"
    by (auto simp: growproc_def Let_def bindR_eq_Inr split: if_splits)
qed


text \<open>An example: a heap of twelve units, ten of them free and two held.\<close>

definition example_heap :: "psys uheap" where
  "example_heap = \<lparr>hdr = (\<lambda>_. \<lparr>h_ptr = 0, h_size = 0\<rparr>)(8192 := \<lparr>h_ptr = 16384, h_size = 0\<rparr>,
      16384 := \<lparr>h_ptr = 8192, h_size = 10\<rparr>, 16544 := \<lparr>h_ptr = 0, h_size = 2\<rparr>),
    freep = 8192, kern = upd_proc 0 (\<lambda>x. x\<lparr>p_sz := 16576\<rparr>) example_procs\<rparr>"

lemma example_heap_ok: "heap_ok 8192 16384 (psize 0 (kern example_heap)) example_heap [(16384, 10)] [(16544, 2)]"
  by (auto simp: heap_ok_def example_heap_def list_ok_def block_ok_def HSIZE_def region_def span_def)


text \<open>
  C5: along every run of a program that starts with a heap in order, such as the empty one, allocates, frees its
  blocks in any order and writes to them, the blocks it holds never overlap each other or the free
  blocks, lie between the start of the heap and the break and have intact headers; the free list stays sorted
  and fully merged; and \<open>free\<close> of any block held returns, gives back exactly its bytes, and leaves the
  contents of the other blocks alone.\<close>

theorem heap_run_invariant:
  assumes "(ustep (user_sbrk kend me) (psize me) base lo)\<^sup>*\<^sup>* (h0, A0) (h, A)"
    and "heap_ok base lo (psize me (kern h0)) h0 F0 A0" "lo < 2 ^ 38"
  shows "\<exists>F. heap_ok base lo (psize me (kern h)) h F A
    \<and> (\<forall>b\<in>set A. \<exists>h' F'. ufree (fst b + HSIZE) h = Some h' \<and> heap_ok base lo (psize me (kern h')) h' F' (remove1 b A)
        \<and> region F' = region F \<union> span b \<and> (\<forall>a\<in>region (remove1 b A). hdr h' a = hdr h a))"
proof -
  obtain F where F: "heap_ok base lo (psize me (kern h)) h F A"
    using kernel_break.urun_inv [OF assms(1,3)] assms(2) by auto
  have "\<exists>h' F'. ufree (fst b + HSIZE) h = Some h' \<and> heap_ok base lo (psize me (kern h')) h' F' (remove1 b A)
      \<and> region F' = region F \<union> span b \<and> (\<forall>a\<in>region (remove1 b A). hdr h' a = hdr h a)" if "b \<in> set A" for b
  proof -
    have "heap_ok base lo (psize me (kern h)) h F ((fst b, snd b) # remove1 b A)" using heap_ok_front [OF F that] by simp
    from ufree_correct [OF this] show ?thesis by (metis prod.collapse)
  qed
  then show ?thesis using F by blast
qed

theorem heap_run_invariant_witness:
  "\<exists>h' F'. ufree 16560 (example_heap\<lparr>hdr := (hdr example_heap)(16560 := \<lparr>h_ptr = 7, h_size = 7\<rparr>)\<rparr>) = Some h'
     \<and> heap_ok 8192 16384 (psize 0 (kern h')) h' F' []"
proof -
  have "ustep (user_sbrk 0 0) (psize 0) 8192 16384 (example_heap, [(16544, 2)])
      (example_heap\<lparr>hdr := (hdr example_heap)(16560 := \<lparr>h_ptr = 7, h_size = 7\<rparr>)\<rparr>, [(16544, 2)])"
    by (rule store [of "(16544, 2)"]) (simp_all add: HSIZE_def)
  then have "(ustep (user_sbrk 0 0) (psize 0) 8192 16384)\<^sup>*\<^sup>* (example_heap, [(16544, 2)])
      (example_heap\<lparr>hdr := (hdr example_heap)(16560 := \<lparr>h_ptr = 7, h_size = 7\<rparr>)\<rparr>, [(16544, 2)])"
    by (rule r_into_rtranclp)
  from heap_run_invariant [OF this example_heap_ok] show ?thesis by (auto simp: HSIZE_def)
qed

end
