(* ===== verification/Mkfs.thy ===== *)
theory Mkfs
  imports FsDir Printf
begin

text \<open>
  \<open>mkfs/mkfs.c\<close>: the program that builds the initial file system image on the host. The image is a
  sequence of sectors; the disk structures are those of \<open>kernel/fs.h\<close>, so the layout functions and the view of an
  inode are the kernel's. The main result is that the image holds exactly the given files.
\<close>

unbundle bit_operations_syntax

subsection \<open>State\<close>

definition FSSIZE :: nat where [layout_simps]: "FSSIZE = 2000"
definition NINODES :: nat where [layout_simps]: "NINODES = 200"
definition nbitmap :: nat where [layout_simps]: "nbitmap = FSSIZE div BPB + 1"
definition ninodeblocks :: nat where [layout_simps]: "ninodeblocks = NINODES div IPB + 1"
definition nlog :: nat where [layout_simps]: "nlog = LOGBLOCKS + 1"
definition nmeta :: nat where [layout_simps]: "nmeta = 2 + nlog + ninodeblocks + nbitmap"
definition nblocks :: nat where [layout_simps]: "nblocks = FSSIZE - nmeta"

text \<open>The image file with its length in sectors, and the two counters.\<close>

record mkst =
  img :: "u32 \<Rightarrow> block"
  isize :: nat
  freeinode :: u32
  freeblock :: u32

text \<open>How the program ends early.\<close>

datatype mkfs_err = Usage | Die_image | Die_file "byte list" | Die_read | Assertion

text \<open>
  The host: whether the image can be opened, and for each path the results of the successive calls of \<open>read\<close>
  on the file that return data, if it can be opened. The host is little-endian, its writes to the image succeed, and the
  image is far below 4 GB, so that \<open>sec * BSIZE\<close> does not wrap.
\<close>

record host =
  image_opens :: bool
  host_files :: "byte list \<Rightarrow> byte list list option"

text \<open>\<open>xshort\<close> and \<open>xint\<close> store the bytes of their argument in the order of the RISC-V.\<close>

definition xshort :: "u16 \<Rightarrow> u16" where
  "xshort x = get16 ((\<lambda>_. 0)(0 := ucast x, 1 := ucast (drop_bit 8 x))) 0"

definition xint :: "u32 \<Rightarrow> u32" where
  "xint x = get32 ((\<lambda>_. 0)(0 := ucast x, 1 := ucast (drop_bit 8 x), 2 := ucast (drop_bit 16 x),
     3 := ucast (drop_bit 24 x))) 0"

lemma xshort_id [simp]: "xshort x = x"
  by (simp add: xshort_def get16_def bytes_of_u16)

lemma xint_id [simp]: "xint x = x"
  by (simp add: xint_def get32_def bytes_of_u32)

definition mk_sb :: superblock where
  "mk_sb = \<lparr>sb_magic = FSMAGIC, sb_size = xint (of_nat FSSIZE), sb_nblocks = xint (of_nat nblocks),
     sb_ninodes = xint (of_nat NINODES), sb_nlog = xint (of_nat nlog), sb_logstart = xint 2,
     sb_inodestart = xint (2 + of_nat nlog), sb_bmapstart = xint (2 + of_nat nlog + of_nat ninodeblocks)\<rparr>"

subsection \<open>Sectors and inodes\<close>

definition wsect :: "u32 \<Rightarrow> block \<Rightarrow> mkst \<Rightarrow> mkst" where
  "wsect sec b s = s\<lparr>img := (img s)(sec := b), isize := max (isize s) (Suc (unat sec))\<rparr>"

text \<open>Reading past the end of the image is a short read.\<close>

definition rsect :: "u32 \<Rightarrow> mkst \<Rightarrow> mkfs_err + block" where
  "rsect sec s = (if unat sec < isize s then Inr (img s sec) else Inl Die_read)"

definition winode :: "u32 \<Rightarrow> dinode \<Rightarrow> mkst \<Rightarrow> mkfs_err + mkst" where
  "winode inum d s =
     (let bn = IBLOCK inum mk_sb in
      bindR (rsect bn s) (\<lambda>buf. Inr (wsect bn (put_dinode buf (dinode_off inum) d) s)))"

definition rinode :: "u32 \<Rightarrow> mkst \<Rightarrow> mkfs_err + dinode" where
  "rinode inum s =
     (let bn = IBLOCK inum mk_sb in bindR (rsect bn s) (\<lambda>buf. Inr (get_dinode buf (dinode_off inum))))"

definition mk_ialloc :: "u16 \<Rightarrow> mkst \<Rightarrow> mkfs_err + u32 \<times> mkst" where
  "mk_ialloc type s =
     (let inum = freeinode s;
          din = \<lparr>d_type = xshort type, d_major = 0, d_minor = 0, d_nlink = xshort 1, d_size = xint 0,
            d_addrs = replicate (NDIRECT + 1) 0\<rparr> in
      bindR (winode inum din (s\<lparr>freeinode := freeinode s + 1\<rparr>)) (\<lambda>s. Inr (inum, s)))"

definition mk_balloc :: "nat \<Rightarrow> mkst \<Rightarrow> mkfs_err + mkst" where
  "mk_balloc used s =
     (if used < BPB
      then Inr (wsect (sb_bmapstart mk_sb) (fold (\<lambda>i buf. bm_set buf i) [0..<used] (\<lambda>_. 0)) s)
      else Inl Assertion)"

subsection \<open>Appending to a file\<close>

text \<open>A block for position \<open>fbn\<close> of the file: the one it has, or the next free block.\<close>

definition new_block :: "mkst \<Rightarrow> u32 \<times> mkst" where
  "new_block s = (freeblock s, s\<lparr>freeblock := freeblock s + 1\<rparr>)"

definition direct_block :: "nat \<Rightarrow> dinode \<Rightarrow> mkst \<Rightarrow> u32 \<times> dinode \<times> mkst" where
  "direct_block k din s =
     (if xint (d_addrs din ! k) = 0
      then let (b, s) = new_block s in (b, din\<lparr>d_addrs := (d_addrs din)[k := xint b]\<rparr>, s)
      else (xint (d_addrs din ! k), din, s))"

definition indirect_block :: "nat \<Rightarrow> u32 \<Rightarrow> mkst \<Rightarrow> mkfs_err + u32 \<times> mkst" where
  "indirect_block k ib s =
     bindR (rsect ib s) (\<lambda>indirect.
       if get32 indirect (4 * k) = 0
       then let (b, s) = new_block s in Inr (b, wsect ib (put32 indirect (4 * k) (xint b)) s)
       else Inr (xint (get32 indirect (4 * k)), s))"

definition file_block :: "nat \<Rightarrow> dinode \<Rightarrow> mkst \<Rightarrow> mkfs_err + u32 \<times> dinode \<times> mkst" where
  "file_block fbn din s =
     (if fbn < NDIRECT then Inr (direct_block fbn din s)
      else let (ib, din, s) = direct_block NDIRECT din s in
        bindR (indirect_block (fbn - NDIRECT) ib s) (\<lambda>(x, s). Inr (x, din, s)))"

text \<open>\<open>bcopy(p, buf + o, n1)\<close>.\<close>

definition bcopy :: "byte list \<Rightarrow> nat \<Rightarrow> block \<Rightarrow> block" where
  "bcopy bs o1 buf = (\<lambda>i. if o1 \<le> i \<and> i < o1 + length bs then bs ! (i - o1) else buf i)"

function iappend_loop :: "dinode \<Rightarrow> nat \<Rightarrow> byte list \<Rightarrow> mkst \<Rightarrow> mkfs_err + dinode \<times> nat \<times> mkst" where
  "iappend_loop din off p s =
     (if p = [] then Inr (din, off, s)
      else let fbn = off div BSIZE in
        if \<not> fbn < MAXFILE then Inl Assertion
        else bindR (file_block fbn din s) (\<lambda>(x, din, s).
          let n1 = min (length p) ((fbn + 1) * BSIZE - off) in
          bindR (rsect x s) (\<lambda>buf.
            iappend_loop din (off + n1) (drop n1 p) (wsect x (bcopy (take n1 p) (off - fbn * BSIZE) buf) s))))"
  by pat_completeness auto
termination
proof (relation "measure (\<lambda>(din, off, p, s). length p)", goal_cases)
  case (2 din off p s)
  have "off < (off div BSIZE + 1) * BSIZE" using dividend_less_div_times [of BSIZE off] by (simp add: layout_simps)
  then show ?case using 2 by simp
qed simp

declare iappend_loop.simps [simp del]

definition iappend :: "u32 \<Rightarrow> byte list \<Rightarrow> mkst \<Rightarrow> mkfs_err + mkst" where
  "iappend inum xp s =
     bindR (rinode inum s) (\<lambda>din.
     bindR (iappend_loop din (unat (xint (d_size din))) xp s) (\<lambda>(din, off, s).
       winode inum (din\<lparr>d_size := xint (of_nat off)\<rparr>) s))"

subsection \<open>The whole program\<close>

definition add_entry :: "u32 \<Rightarrow> u32 \<Rightarrow> byte list \<Rightarrow> mkst \<Rightarrow> mkfs_err + mkst" where
  "add_entry rootino inum name s = iappend rootino (mk_dirent (ucast (xshort (ucast inum))) (strncpy_name name)) s"

text \<open>The name of a file in the image: without \<open>user/\<close> and without the leading underscore.\<close>

definition base_name :: "byte list \<Rightarrow> byte list" where
  "base_name path = (if take 5 path = str ''user/'' then drop 5 path else path)"

definition short_name :: "byte list \<Rightarrow> byte list" where
  "short_name path =
     (let nm = base_name path in if nm \<noteq> [] \<and> hd nm = ch (CHR ''_'') then tl nm else nm)"

fun append_all :: "u32 \<Rightarrow> byte list list \<Rightarrow> mkst \<Rightarrow> mkfs_err + mkst" where
  "append_all inum [] s = Inr s"
| "append_all inum (c # cs) s = bindR (iappend inum c s) (append_all inum cs)"

definition add_file :: "host \<Rightarrow> u32 \<Rightarrow> byte list \<Rightarrow> mkst \<Rightarrow> mkfs_err + mkst" where
  "add_file hst rootino path s =
     (if ch (CHR ''/'') \<in> set (base_name path) then Inl Assertion
      else case host_files hst path of
        None \<Rightarrow> Inl (Die_file path)
      | Some reads \<Rightarrow>
          if DIRSIZ < length (short_name path) then Inl Assertion
          else bindR (mk_ialloc T_FILE s) (\<lambda>(inum, s).
            bindR (add_entry rootino inum (short_name path) s) (append_all inum reads)))"

fun add_files :: "host \<Rightarrow> u32 \<Rightarrow> byte list list \<Rightarrow> mkst \<Rightarrow> mkfs_err + mkst" where
  "add_files hst rootino [] s = Inr s"
| "add_files hst rootino (f # fs) s = bindR (add_file hst rootino f s) (add_files hst rootino fs)"

definition zero_image :: mkst where
  "zero_image = fold (\<lambda>i. wsect (of_nat i) (\<lambda>_. 0)) [0..<FSSIZE]
     \<lparr>img = (\<lambda>_ _. 0), isize = 0, freeinode = 1, freeblock = of_nat nmeta\<rparr>"

definition put_super :: "superblock \<Rightarrow> block \<Rightarrow> block" where
  "put_super b d = put_addrs d 0 [sb_magic b, sb_size b, sb_nblocks b, sb_ninodes b, sb_nlog b, sb_logstart b,
     sb_inodestart b, sb_bmapstart b]"

definition root_dir :: "mkst \<Rightarrow> mkfs_err + u32 \<times> mkst" where
  "root_dir s =
     bindR (mk_ialloc T_DIR s) (\<lambda>(rootino, s).
       if rootino \<noteq> ROOTINO then Inl Assertion
       else bindR (add_entry rootino rootino (str ''.'') s) (\<lambda>s.
         bindR (add_entry rootino rootino (str ''..'') s) (\<lambda>s. Inr (rootino, s))))"

definition fix_root_size :: "u32 \<Rightarrow> mkst \<Rightarrow> mkfs_err + mkst" where
  "fix_root_size rootino s =
     bindR (rinode rootino s) (\<lambda>din.
       let off = xint (d_size din); off = (off div of_nat BSIZE + 1) * of_nat BSIZE in
       winode rootino (din\<lparr>d_size := xint off\<rparr>) s)"

definition mkfs_main :: "host \<Rightarrow> byte list list \<Rightarrow> mkfs_err + mkst" where
  "mkfs_main hst args =
     (case args of
        [] \<Rightarrow> Inl Usage
      | out # files \<Rightarrow>
          if \<not> image_opens hst then Inl Die_image
          else let s = wsect 1 (put_super mk_sb (\<lambda>_. 0)) zero_image in
            bindR (root_dir s) (\<lambda>(rootino, s).
            bindR (add_files hst rootino files s) (\<lambda>s.
            bindR (fix_root_size rootino s) (\<lambda>s. mk_balloc (unat (freeblock s)) s))))"

subsection \<open>Files in the image\<close>

text \<open>
  The blocks \<open>bl\<close> of a file, with \<open>ix\<close> the indirect block or 0: as the inode's addresses and the entries of the indirect
  block name them.
\<close>

definition blocks_rep :: "(u32 \<Rightarrow> block) \<Rightarrow> dinode \<Rightarrow> u32 list \<Rightarrow> u32 \<Rightarrow> bool" where
  "blocks_rep c d bl ix \<longleftrightarrow> length (d_addrs d) = NDIRECT + 1 \<and> length bl \<le> MAXFILE
     \<and> (\<forall>k<NDIRECT. d_addrs d ! k = (if k < length bl then bl ! k else 0))
     \<and> d_addrs d ! NDIRECT = ix \<and> (ix = 0 \<longleftrightarrow> length bl \<le> NDIRECT)
     \<and> (ix \<noteq> 0 \<longrightarrow> (\<forall>k<NINDIRECT. get32 (c ix) (4 * k) = (if NDIRECT + k < length bl then bl ! (NDIRECT + k) else 0)))"

text \<open>The bytes of the blocks: the content and zeros after it.\<close>

definition data_rep :: "(u32 \<Rightarrow> block) \<Rightarrow> u32 list \<Rightarrow> byte list \<Rightarrow> bool" where
  "data_rep c bl bs \<longleftrightarrow> (\<forall>q<BSIZE * length bl. c (bl ! (q div BSIZE)) (q mod BSIZE) = (if q < length bs then bs ! q else 0))"

definition file_rep :: "(u32 \<Rightarrow> block) \<Rightarrow> dinode \<Rightarrow> byte list \<Rightarrow> u32 list \<Rightarrow> u32 \<Rightarrow> bool" where
  "file_rep c d bs bl ix \<longleftrightarrow> blocks_rep c d bl ix \<and> data_rep c bl bs \<and> length bl = (length bs + BSIZE - 1) div BSIZE"

definition owned :: "u32 list \<times> u32 \<Rightarrow> u32 list" where
  "owned = (\<lambda>(bl, ix). if ix = 0 then bl else ix # bl)"

text \<open>The allocated blocks of a file, and the state of the allocator: blocks not yet allocated are zero.\<close>

definition own_ok :: "mkst \<Rightarrow> u32 list \<Rightarrow> bool" where
  "own_ok s own \<longleftrightarrow> distinct own \<and> (\<forall>b\<in>set own. nmeta \<le> unat b \<and> unat b < unat (freeblock s))"

definition mk_ok :: "mkst \<Rightarrow> bool" where
  "mk_ok s \<longleftrightarrow> isize s = FSSIZE \<and> nmeta \<le> unat (freeblock s) \<and> unat (freeblock s) \<le> FSSIZE
     \<and> (\<forall>b. unat (freeblock s) \<le> unat b \<longrightarrow> img s b = (\<lambda>_. 0))"

lemma get32_zero [simp]: "get32 (\<lambda>_. 0) a = 0"
  by (simp add: get32_def)

lemma file_rep_cong:
  assumes "file_rep c d bs bl ix" "\<And>b. b \<in> set (owned (bl, ix)) \<Longrightarrow> c' b = c b"
  shows "file_rep c' d bs bl ix"
proof -
  have "c' (bl ! (q div BSIZE)) = c (bl ! (q div BSIZE))" if "q < BSIZE * length bl" for q
  proof -
    have "q div BSIZE < length bl" using that by (simp add: less_mult_imp_div_less mult.commute)
    then show ?thesis using assms(2) by (simp add: owned_def)
  qed
  moreover have "ix \<noteq> 0 \<Longrightarrow> c' ix = c ix" using assms(2) by (simp add: owned_def)
  ultimately show ?thesis using assms(1) by (simp add: file_rep_def blocks_rep_def data_rep_def)
qed

lemma bsize_pos: "0 < BSIZE" by (simp add: layout_simps)

lemma nmeta_eq: "nmeta = 47" by (simp add: layout_simps LOGBLOCKS_def MAXOPBLOCKS_def)

lemma free_next:
  assumes "unat (freeblock s) < FSSIZE" shows "unat (freeblock s + 1) = Suc (unat (freeblock s))"
  using assms by (simp add: layout_simps unat_word_ariths)

text \<open>Adding the next free block to a file.\<close>

lemma data_rep_zero_block:
  assumes "data_rep c bl bs" "length bs \<le> BSIZE * length bl" "c x = (\<lambda>_. 0)"
  shows "data_rep c (bl @ [x]) bs"
  unfolding data_rep_def
proof (intro allI impI)
  fix q assume "q < BSIZE * length (bl @ [x])"
  then show "c ((bl @ [x]) ! (q div BSIZE)) (q mod BSIZE) = (if q < length bs then bs ! q else 0)"
  proof (cases "q < BSIZE * length bl")
    case True
    then have "q div BSIZE < length bl" by (simp add: less_mult_imp_div_less mult.commute)
    then show ?thesis using assms(1) True by (simp add: data_rep_def nth_append)
  next
    case False
    then have "q div BSIZE = length bl" using \<open>q < BSIZE * length (bl @ [x])\<close>
      by (simp add: layout_simps)
    then show ?thesis using False assms(2,3) by simp
  qed
qed

lemma data_rep_append:
  assumes "data_rep c bl bs" "distinct bl" "k < length bl" "BSIZE * k \<le> length bs"
    and "length bs + length p \<le> BSIZE * Suc k" "c' = c(bl ! k := bcopy p (length bs - BSIZE * k) (c (bl ! k)))"
  shows "data_rep c' bl (bs @ p)"
  unfolding data_rep_def
proof (intro allI impI)
  fix q assume q: "q < BSIZE * length bl"
  then have l: "q div BSIZE < length bl" by (simp add: less_mult_imp_div_less mult.commute)
  have old: "c (bl ! (q div BSIZE)) (q mod BSIZE) = (if q < length bs then bs ! q else 0)"
    using assms(1) q by (simp add: data_rep_def)
  show "c' (bl ! (q div BSIZE)) (q mod BSIZE) = (if q < length (bs @ p) then (bs @ p) ! q else 0)"
  proof (cases "q div BSIZE = k")
    case True
    have qk: "q = BSIZE * k + q mod BSIZE" using True by (metis mult_div_mod_eq)
    then have "length bs - BSIZE * k \<le> q mod BSIZE \<longleftrightarrow> length bs \<le> q"
      "q mod BSIZE < length bs - BSIZE * k + length p \<longleftrightarrow> q < length bs + length p"
      "q mod BSIZE - (length bs - BSIZE * k) = q - length bs" using assms(4) by linarith+
    then show ?thesis using old True by (auto simp: assms(6) bcopy_def nth_append)
  next
    case False
    then have "bl ! (q div BSIZE) \<noteq> bl ! k" using assms(2,3) l by (simp add: nth_eq_iff_index_eq)
    moreover have "q < length bs \<longleftrightarrow> q < length bs + length p"
    proof -
      have "q < BSIZE * k \<or> BSIZE * Suc k \<le> q"
        using False by (metis Suc_leI div_less_iff_less_mult less_eq_div_iff_mult_less_eq linorder_neqE_nat mult.commute bsize_pos)
      then show ?thesis using assms(4,5) by auto
    qed
    ultimately show ?thesis using old by (auto simp: assms(6) nth_append)
  qed
qed

lemma own_nonzero: "own_ok s own \<Longrightarrow> b \<in> set own \<Longrightarrow> b \<noteq> 0"
  by (auto simp: own_ok_def nmeta_eq)

lemma own_small: "mk_ok s \<Longrightarrow> own_ok s own \<Longrightarrow> b \<in> set own \<Longrightarrow> unat b < isize s"
  unfolding own_ok_def mk_ok_def by (metis less_le_trans)

text \<open>A position that has a block keeps it.\<close>

lemma file_block_old:
  assumes "blocks_rep (img s) d bl ix" "own_ok s (owned (bl, ix))" "mk_ok s" "k < length bl"
  shows "file_block k d s = Inr (bl ! k, d, s)"
proof -
  have own: "b \<noteq> 0" "unat b < isize s" if "b \<in> set (owned (bl, ix))" for b
    using own_nonzero [OF assms(2) that] own_small [OF assms(3,2) that] by auto
  have bk: "bl ! k \<noteq> 0" using own(1) [of "bl ! k"] assms(4) by (simp add: owned_def)
  show ?thesis
  proof (cases "k < NDIRECT")
    case True
    then show ?thesis using assms(1,4) bk by (simp add: file_block_def direct_block_def blocks_rep_def)
  next
    case False
    then have ix: "ix \<noteq> 0" "d_addrs d ! NDIRECT = ix" "k < MAXFILE" using assms(1,4) by (auto simp: blocks_rep_def)
    then have "unat ix < isize s" "k - NDIRECT < NINDIRECT" using own(2) [of ix] False by (auto simp: owned_def layout_simps)
    moreover from this have "get32 (img s ix) (4 * (k - NDIRECT)) = bl ! k"
      using assms(1,4) False ix(1) by (auto simp: blocks_rep_def)
    ultimately show ?thesis
      using False ix bk by (simp add: file_block_def direct_block_def indirect_block_def rsect_def)
  qed
qed

text \<open>A new direct block, and a new block named by the indirect block.\<close>

lemma blocks_rep_direct:
  assumes "blocks_rep c d bl ix" "length bl < NDIRECT" "x \<noteq> 0"
  shows "blocks_rep c (d\<lparr>d_addrs := (d_addrs d)[length bl := x]\<rparr>) (bl @ [x]) ix"
  using assms by (auto simp: blocks_rep_def nth_append nth_list_update layout_simps)

lemma blocks_rep_indirect:
  assumes "blocks_rep c d bl ix" "NDIRECT \<le> length bl" "length bl < MAXFILE" "ix \<noteq> 0" "x \<noteq> 0"
    and "c' = c(ix := put32 (c ix) (4 * (length bl - NDIRECT)) x)"
  shows "blocks_rep c' d (bl @ [x]) ix"
proof -
  have "get32 (c' ix) (4 * k) = (if NDIRECT + k < length (bl @ [x]) then (bl @ [x]) ! (NDIRECT + k) else 0)"
    if "k < NINDIRECT" for k
  proof (cases "k = length bl - NDIRECT")
    case True
    then show ?thesis using assms(2) by (simp add: assms(6))
  next
    case False
    then have "get32 (c' ix) (4 * k) = get32 (c ix) (4 * k)"
      by (auto simp: assms(6) intro!: get32_put32_other)
    then show ?thesis using assms(1,2,4) that False by (auto simp: blocks_rep_def nth_append)
  qed
  then show ?thesis using assms(1-4) by (auto simp: blocks_rep_def nth_append)
qed

lemma blocks_rep_new_indirect:
  assumes "blocks_rep c d bl 0" "length bl = NDIRECT" "ix \<noteq> 0" "c ix = (\<lambda>_. 0)" "x \<noteq> 0"
    and "c' = c(ix := put32 (c ix) 0 x)"
  shows "blocks_rep c' (d\<lparr>d_addrs := (d_addrs d)[NDIRECT := ix]\<rparr>) (bl @ [x]) ix"
proof -
  have "get32 (c' ix) (4 * k) = (if k = 0 then x else 0)" for k
    using get32_put32_other [of 0 "4 * k" "c ix" x] by (auto simp: assms(4,6))
  then show ?thesis using assms(1-3) by (auto simp: blocks_rep_def nth_append layout_simps)
qed

text \<open>What appending does to the rest of the image: it takes only free blocks, and writes only to blocks of the file.\<close>

definition grows :: "mkst \<Rightarrow> u32 list \<Rightarrow> mkst \<Rightarrow> u32 list \<Rightarrow> bool" where
  "grows s own s' own' \<longleftrightarrow> mk_ok s' \<and> own_ok s' own' \<and> (\<forall>b\<in>set own'. b \<in> set own \<or> unat (freeblock s) \<le> unat b)
     \<and> unat (freeblock s) \<le> unat (freeblock s') \<and> freeinode s' = freeinode s \<and> set own \<subseteq> set own'
     \<and> (\<forall>b. b \<notin> set own' \<longrightarrow> img s' b = img s b) \<and> unat (freeblock s') + length own = unat (freeblock s) + length own'"

lemma grows_refl: "mk_ok s \<Longrightarrow> own_ok s own \<Longrightarrow> grows s own s own"
  by (simp add: grows_def)

lemma grows_trans: "grows s a t b \<Longrightarrow> grows t b u c \<Longrightarrow> grows s a u c"
proof -
  assume g: "grows s a t b" and h: "grows t b u c"
  note G = g [unfolded grows_def] and H = h [unfolded grows_def]
  have "x \<in> set a \<or> unat (freeblock s) \<le> unat x" if "x \<in> set c" for x
  proof (cases "x \<in> set b")
    case False
    then have "unat (freeblock t) \<le> unat x" using H that by blast
    then show ?thesis using G by linarith
  qed (use G in blast)
  moreover have "img u x = img s x" if "x \<notin> set c" for x
  proof -
    have "x \<notin> set b" using that H by blast
    then show ?thesis using that G H by simp
  qed
  ultimately show ?thesis using G H unfolding grows_def by auto
qed

lemma grows_take:
  assumes "mk_ok s" "own_ok s own" "unat (freeblock s) < FSSIZE"
  shows "grows s own (s\<lparr>freeblock := freeblock s + 1\<rparr>) (freeblock s # own)"
  using assms by (auto simp: grows_def mk_ok_def own_ok_def free_next)

lemma grows_perm:
  assumes "grows s own s' own'" "distinct own''" "set own'' = set own'" shows "grows s own s' own''"
proof -
  have "length own'' = length own'" using assms by (metis distinct_card grows_def own_ok_def)
  then show ?thesis using assms by (simp add: grows_def own_ok_def)
qed

lemma grows_write:
  assumes "mk_ok s" "own_ok s own" "x \<in> set own"
  shows "grows s own (wsect x b s) own"
proof -
  have "unat x < FSSIZE" "\<And>a. unat (freeblock s) \<le> unat a \<Longrightarrow> a \<noteq> x"
    using assms own_small [OF assms] by (auto simp: mk_ok_def own_ok_def)
  then show ?thesis using assms by (auto simp: grows_def mk_ok_def own_ok_def wsect_def)
qed

lemma mk_ok_free: "mk_ok s \<Longrightarrow> freeblock s \<noteq> 0 \<and> img s (freeblock s) = (\<lambda>_. 0)"
  by (auto simp: mk_ok_def nmeta_eq)

lemma grows_mk: "grows s own s' own' \<Longrightarrow> mk_ok s' \<and> own_ok s' own'"
  by (simp add: grows_def)

lemma data_rep_cong:
  assumes "data_rep c bl bs" "\<And>b. b \<in> set bl \<Longrightarrow> c' b = c b" shows "data_rep c' bl bs"
proof -
  have "q div BSIZE < length bl" if "q < BSIZE * length bl" for q using that by (simp add: less_mult_imp_div_less mult.commute)
  then show ?thesis using assms by (simp add: data_rep_def)
qed

lemma file_block_new:
  assumes "blocks_rep (img s) d bl ix" "own_ok s (owned (bl, ix))" "mk_ok s" "length bl < MAXFILE" "data_rep (img s) bl bs"
    "length bs = BSIZE * length bl" and f: "file_block (length bl) d s = Inr (x, d', s')" and x: "unat x < FSSIZE"
  obtains ix' where "blocks_rep (img s') d' (bl @ [x]) ix'" "data_rep (img s') (bl @ [x]) bs"
    "grows s (owned (bl, ix)) s' (owned (bl @ [x], ix'))" "d' = d\<lparr>d_addrs := d_addrs d'\<rparr>"
proof -
  let ?f = "freeblock s"
  have own: "distinct (owned (bl, ix))" "\<And>b. b \<in> set (owned (bl, ix)) \<Longrightarrow> unat b < unat ?f"
    using assms(2) by (auto simp: own_ok_def)
  have fx: "?f \<noteq> 0" "img s ?f = (\<lambda>_. 0)" using mk_ok_free [OF assms(3)] by auto
  consider "length bl < NDIRECT" | "length bl = NDIRECT" | "NDIRECT < length bl" by linarith
  then show ?thesis
  proof cases
    case 1
    then have ix: "ix = 0" "d_addrs d ! length bl = 0" using assms(1) by (auto simp: blocks_rep_def)
    then have r: "x = ?f" "d' = d\<lparr>d_addrs := (d_addrs d)[length bl := x]\<rparr>" "s' = s\<lparr>freeblock := ?f + 1\<rparr>"
      using f 1 by (auto simp: file_block_def direct_block_def new_block_def)
    have "grows s (owned (bl, ix)) s' (owned (bl @ [x], ix))"
      unfolding r(3) using own ix x r(1) by (intro grows_perm [OF grows_take [OF assms(3,2)]]) (auto simp: owned_def)
    moreover have "blocks_rep (img s') d' (bl @ [x]) ix" using blocks_rep_direct [OF assms(1) 1] fx(1) r by simp
    moreover have "data_rep (img s') (bl @ [x]) bs" using data_rep_zero_block [OF assms(5)] assms(6) fx(2) r by simp
    ultimately show ?thesis using that r(2) by simp
  next
    case 2
    then have ix: "ix = 0" "d_addrs d ! NDIRECT = 0" using assms(1) by (auto simp: blocks_rep_def)
    let ?s1 = "s\<lparr>freeblock := ?f + 1\<rparr>" and ?s2 = "s\<lparr>freeblock := ?f + 1 + 1\<rparr>"
    have "unat ?f < isize s"
      using f 2 ix by (auto simp: file_block_def direct_block_def new_block_def indirect_block_def rsect_def bindR_eq_Inr split: if_splits)
    then have lt: "unat ?f < FSSIZE" using assms(3) by (simp add: mk_ok_def)
    have r: "x = ?f + 1" "d' = d\<lparr>d_addrs := (d_addrs d)[NDIRECT := ?f]\<rparr>" "s' = wsect ?f (put32 (img s ?f) 0 x) ?s2"
      using f 2 ix fx \<open>unat ?f < isize s\<close>
      by (auto simp: file_block_def direct_block_def new_block_def indirect_block_def rsect_def)
    have ux: "unat x = Suc (unat ?f)" using free_next [OF lt] r(1) by simp
    then have x0: "x \<noteq> 0" by auto
    note g1 = grows_take [OF assms(3,2) lt]
    have g2: "grows ?s1 (?f # owned (bl, ix)) ?s2 (x # ?f # owned (bl, ix))"
      using grows_take [of ?s1 "?f # owned (bl, ix)"] grows_mk [OF g1] r(1) x by simp
    have "grows ?s2 (x # ?f # owned (bl, ix)) s' (x # ?f # owned (bl, ix))"
      unfolding r(3) using grows_mk [OF g2] by (intro grows_write) auto
    note g = grows_trans [OF grows_trans [OF g1 g2] this]
    then have dx: "distinct (x # ?f # owned (bl, ix))" by (simp add: grows_def own_ok_def)
    then have nin: "?f \<notin> set (bl @ [x])" using ix by (auto simp: owned_def)
    have "grows s (owned (bl, ix)) s' (owned (bl @ [x], ?f))"
      using dx fx(1) ix by (intro grows_perm [OF g]) (auto simp: owned_def)
    moreover have "blocks_rep (img s') d' (bl @ [x]) ?f"
      unfolding r(2) by (rule blocks_rep_new_indirect [OF assms(1) [unfolded ix(1)] 2 fx x0]) (simp add: r(3) wsect_def)
    moreover have "img s x = (\<lambda>_. 0)" using assms(3) ux by (simp add: mk_ok_def)
    then have "data_rep (img s) (bl @ [x]) bs" using data_rep_zero_block [OF assms(5)] assms(6) by simp
    then have "data_rep (img s') (bl @ [x]) bs" by (rule data_rep_cong) (use nin in \<open>auto simp: r(3) wsect_def\<close>)
    ultimately show ?thesis using that r(2) by simp
  next
    case 3
    then have ix: "ix \<noteq> 0" "d_addrs d ! NDIRECT = ix" "get32 (img s ix) (4 * (length bl - NDIRECT)) = 0"
      using assms(1,4) by (auto simp: blocks_rep_def layout_simps)
    let ?s1 = "s\<lparr>freeblock := ?f + 1\<rparr>"
    have ixo: "ix \<in> set (owned (bl, ix))" using ix(1) by (simp add: owned_def)
    have r: "x = ?f" "d' = d" "s' = wsect ix (put32 (img s ix) (4 * (length bl - NDIRECT)) x) ?s1"
      using f 3 ix own_small [OF assms(3,2) ixo]
      by (auto simp: file_block_def direct_block_def new_block_def indirect_block_def rsect_def)
    have g1: "grows s (owned (bl, ix)) ?s1 (x # owned (bl, ix))" using grows_take [OF assms(3,2)] r(1) x by simp
    have "grows ?s1 (x # owned (bl, ix)) s' (x # owned (bl, ix))"
      unfolding r(3) using grows_mk [OF g1] ixo by (intro grows_write) auto
    note g = grows_trans [OF g1 this]
    then have dx: "distinct (x # owned (bl, ix))" by (simp add: grows_def own_ok_def)
    then have nin: "ix \<notin> set (bl @ [x])" using ix(1) by (auto simp: owned_def)
    have "grows s (owned (bl, ix)) s' (owned (bl @ [x], ix))"
      using dx ix(1) by (intro grows_perm [OF g]) (auto simp: owned_def)
    moreover have "blocks_rep (img s') d' (bl @ [x]) ix"
      using blocks_rep_indirect [OF assms(1) _ assms(4) ix(1), of x "img s'"] 3 fx r by (auto simp: wsect_def)
    moreover have "data_rep (img s) (bl @ [x]) bs" using data_rep_zero_block [OF assms(5)] assms(6) fx r by simp
    then have "data_rep (img s') (bl @ [x]) bs" by (rule data_rep_cong) (use nin in \<open>auto simp: r(3) wsect_def\<close>)
    ultimately show ?thesis using that r(2) by simp
  qed
qed

lemma blocks_needed:
  assumes "k = l div BSIZE" "0 < n" "l + n \<le> BSIZE * Suc k" shows "(l + n + BSIZE - 1) div BSIZE = Suc k"
proof (rule div_nat_eqI)
  have "BSIZE * k \<le> l" using assms(1) by simp
  then show "BSIZE * Suc k \<le> l + n + BSIZE - 1" using assms(2) by (simp add: layout_simps)
  show "l + n + BSIZE - 1 < BSIZE * Suc (Suc k)" using assms(3) by (simp add: layout_simps)
qed

lemma file_block_isize: "file_block k d s = Inr (x, d', s') \<Longrightarrow> isize s' = isize s"
  by (auto simp: file_block_def direct_block_def indirect_block_def new_block_def rsect_def wsect_def bindR_eq_Inr
      split: if_splits)

text \<open>One round of the loop of \<open>iappend\<close>: finding the block, and writing to it.\<close>

lemma file_block_ok:
  assumes "file_rep (img s) d bs bl ix" "own_ok s (owned (bl, ix))" "mk_ok s" "k = length bs div BSIZE" "k < MAXFILE"
    and "file_block k d s = Inr (x, d', s')" "unat x < FSSIZE"
  obtains bl' ix' where "blocks_rep (img s') d' bl' ix'" "data_rep (img s') bl' bs" "grows s (owned (bl, ix)) s' (owned (bl', ix'))"
    "d' = d\<lparr>d_addrs := d_addrs d'\<rparr>" "length bl' = Suc k" "bl' ! k = x"
proof -
  have R: "blocks_rep (img s) d bl ix" "data_rep (img s) bl bs" "length bl = (length bs + BSIZE - 1) div BSIZE"
    using assms(1) by (auto simp: file_rep_def)
  show ?thesis
  proof (cases "length bs mod BSIZE = 0")
    case True
    then have l: "length bl = k" "length bs = BSIZE * length bl" using R(3) assms(4) by (auto simp: layout_simps)
    from file_block_new [OF R(1) assms(2,3) _ R(2) l(2), of x d' s'] obtain ix'
      where "blocks_rep (img s') d' (bl @ [x]) ix'" "data_rep (img s') (bl @ [x]) bs"
        "grows s (owned (bl, ix)) s' (owned (bl @ [x], ix'))" "d' = d\<lparr>d_addrs := d_addrs d'\<rparr>"
      using assms(5-7) l(1) by auto
    moreover have "length (bl @ [x]) = Suc k" "(bl @ [x]) ! k = x" using l(1) by auto
    ultimately show ?thesis by (rule that)
  next
    case False
    have l: "length bl = Suc k"
      using blocks_needed [of k "BSIZE * k" "length bs mod BSIZE"] False R(3) assms(4) dividend_less_times_div [OF bsize_pos, of "length bs"]
      by (simp add: bsize_pos)
    then have "x = bl ! k" "d' = d" "s' = s" using file_block_old [OF R(1) assms(2,3), of k] assms(6) by auto
    then show ?thesis using that [of bl ix] R l grows_refl [OF assms(3,2)] by simp
  qed
qed

lemma write_block_ok:
  assumes "blocks_rep (img s) d bl ix" "data_rep (img s) bl bs" "own_ok s (owned (bl, ix))" "mk_ok s"
    and "length bl = Suc k" "k = length bs div BSIZE" "p \<noteq> []" "length bs + length p \<le> BSIZE * Suc k"
    and "s' = wsect (bl ! k) (bcopy p (length bs - k * BSIZE) (img s (bl ! k))) s"
  shows "file_rep (img s') d (bs @ p) bl ix" "grows s (owned (bl, ix)) s' (owned (bl, ix))"
proof -
  have k: "bl ! k \<in> set bl" "BSIZE * k \<le> length bs" using assms(5,6) by auto
  have d: "distinct bl" "bl ! k \<noteq> ix \<or> ix = 0" using assms(3) k(1) by (auto simp: own_ok_def owned_def split: if_splits)
  have "data_rep (img s') bl (bs @ p)"
    by (rule data_rep_append [OF assms(2) d(1) _ k(2) assms(8)]) (use assms(5) in \<open>auto simp: assms(9) wsect_def mult.commute\<close>)
  moreover have "blocks_rep (img s') d bl ix" using assms(1) d(2) by (auto simp: blocks_rep_def assms(9) wsect_def)
  moreover have "0 < length p" using assms(7) by simp
  then have "length bl = (length (bs @ p) + BSIZE - 1) div BSIZE"
    using blocks_needed [OF assms(6) _ assms(8)] assms(5) by simp
  ultimately show "file_rep (img s') d (bs @ p) bl ix" by (simp add: file_rep_def)
  show "grows s (owned (bl, ix)) s' (owned (bl, ix))"
    unfolding assms(9) using grows_write [OF assms(4,3)] k(1) by (simp add: owned_def)
qed

lemma iappend_loop_ok:
  assumes "iappend_loop d off p s = Inr (d', off', s')" "off = length bs" "file_rep (img s) d bs bl ix"
    and "own_ok s (owned (bl, ix))" "mk_ok s"
  shows "\<exists>bl' ix'. off' = length bs + length p \<and> file_rep (img s') d' (bs @ p) bl' ix'
    \<and> grows s (owned (bl, ix)) s' (owned (bl', ix')) \<and> d' = d\<lparr>d_addrs := d_addrs d'\<rparr>"
  using assms
proof (induction d off p s arbitrary: bs bl ix rule: iappend_loop.induct)
  case (1 d off p s)
  note E = "1.prems"(1) [unfolded iappend_loop.simps [of d off p s]]
  show ?case
  proof (cases "p = []")
    case True
    then show ?thesis using E "1.prems" grows_refl by (intro exI [of _ bl] exI [of _ ix]) auto
  next
    case False
    let ?k = "off div BSIZE"
    let ?n = "min (length p) ((?k + 1) * BSIZE - off)"
    obtain x d1 s1 where b: "?k < MAXFILE" "file_block ?k d s = Inr (x, d1, s1)" "unat x < isize s1"
      and rec: "iappend_loop d1 (off + ?n) (drop ?n p) (wsect x (bcopy (take ?n p) (off - ?k * BSIZE) (img s1 x)) s1) = Inr (d', off', s')"
      using E False by (auto simp: bindR_eq_Inr Let_def rsect_def split: if_splits)
    have xs: "unat x < FSSIZE" using b(3) file_block_isize [OF b(2)] "1.prems"(5) by (simp add: mk_ok_def)
    obtain bl1 ix1 where B: "blocks_rep (img s1) d1 bl1 ix1" "data_rep (img s1) bl1 bs"
      "grows s (owned (bl, ix)) s1 (owned (bl1, ix1))" "d1 = d\<lparr>d_addrs := d_addrs d1\<rparr>" "length bl1 = Suc ?k" "bl1 ! ?k = x"
      using file_block_ok [OF "1.prems"(3-5) _ b(1,2) xs] "1.prems"(2) by metis
    let ?s2 = "wsect x (bcopy (take ?n p) (off - ?k * BSIZE) (img s1 x)) s1"
    have off: "off < (?k + 1) * BSIZE" using dividend_less_div_times [of BSIZE off] by (simp add: layout_simps)
    have n: "take ?n p \<noteq> []" "length (take ?n p) = ?n" "length bs + length (take ?n p) \<le> BSIZE * Suc ?k"
      using False off "1.prems"(2) by (auto simp: mult.commute min_def)
    have W: "file_rep (img ?s2) d1 (bs @ take ?n p) bl1 ix1" "grows s1 (owned (bl1, ix1)) ?s2 (owned (bl1, ix1))"
      using write_block_ok [OF B(1,2) _ _ B(5) _ n(1,3), of ?s2] grows_mk [OF B(3)] "1.prems"(2) B(6) by auto
    obtain bl' ix' where "off' = length (bs @ take ?n p) + length (drop ?n p)"
      "file_rep (img s') d' ((bs @ take ?n p) @ drop ?n p) bl' ix'" "grows ?s2 (owned (bl1, ix1)) s' (owned (bl', ix'))"
      "d' = d1\<lparr>d_addrs := d_addrs d'\<rparr>"
      using "1.IH" [OF False refl _ b(2) refl refl refl _ rec _ W(1)] grows_mk [OF W(2)] b n(2) "1.prems"(2)
      by (auto simp: rsect_def)
    moreover from this B(4) have "d' = d\<lparr>d_addrs := d_addrs d'\<rparr>" by (cases d; cases d1; cases d') simp
    ultimately show ?thesis using grows_trans [OF B(3) grows_trans [OF W(2)]] n(2)
      by (intro exI [of _ bl'] exI [of _ ix']) simp
  qed
qed

subsection \<open>The inodes\<close>

text \<open>
  The image holds the files \<open>fl\<close>, each given by its type and content, in the inodes from 1 on, and \<open>ow\<close> lists the blocks of each: the
  inodes describe them, no block belongs to two files, and all lie in the allocated part.
\<close>

definition inode_rep :: "(u32 \<Rightarrow> block) \<Rightarrow> u32 \<Rightarrow> u16 \<times> byte list \<Rightarrow> u32 list \<times> u32 \<Rightarrow> bool" where
  "inode_rep c i = (\<lambda>(t, bs) (bl, ix).
     let d = disk_inode c mk_sb i in
     d_type d = t \<and> d_nlink d = 1 \<and> d_major d = 0 \<and> d_minor d = 0 \<and> d_size d = of_nat (length bs)
     \<and> file_rep c d bs bl ix)"

definition fs_rep :: "mkst \<Rightarrow> (u16 \<times> byte list) list \<Rightarrow> (u32 list \<times> u32) list \<Rightarrow> bool" where
  "fs_rep s fl ow \<longleftrightarrow> mk_ok s \<and> length ow = length fl \<and> freeinode s = of_nat (Suc (length fl))
     \<and> (\<forall>i<length fl. inode_rep (img s) (of_nat (Suc i)) (fl ! i) (ow ! i))
     \<and> own_ok s (concat (map owned ow)) \<and> unat (freeblock s) = nmeta + length (concat (map owned ow))"

lemma unat_IBLOCK: "unat i < 208 \<Longrightarrow> unat (IBLOCK i mk_sb) = 33 + unat i div 16"
proof -
  assume "unat i < 208"
  then have "unat (i div 16) = unat i div 16" "unat i div 16 < 13" by (simp_all add: unat_div)
  then show ?thesis
    by (simp add: IBLOCK_def mk_sb_def layout_simps LOGBLOCKS_def MAXOPBLOCKS_def unat_word_ariths)
qed

lemma iblock_facts:
  assumes "unat i < 208" "mk_ok s"
  shows "unat (IBLOCK i mk_sb) < isize s" "unat (IBLOCK i mk_sb) < nmeta" "33 \<le> unat (IBLOCK i mk_sb)"
    "unat (IBLOCK i mk_sb) < 46" "max (isize s) (Suc (unat (IBLOCK i mk_sb))) = isize s"
proof -
  have "unat i div 16 < 13" using assms(1) by simp
  then show "unat (IBLOCK i mk_sb) < isize s" "unat (IBLOCK i mk_sb) < nmeta" "33 \<le> unat (IBLOCK i mk_sb)"
    "unat (IBLOCK i mk_sb) < 46" "max (isize s) (Suc (unat (IBLOCK i mk_sb))) = isize s"
    using assms(2) unat_IBLOCK [OF assms(1)] by (auto simp: mk_ok_def nmeta_eq layout_simps)
qed

lemma winode_ok:
  assumes "unat i < 208" "mk_ok s" "length (d_addrs d) = NDIRECT + 1" "winode i d s = Inr s'"
  shows "mk_ok s'" "freeblock s' = freeblock s" "freeinode s' = freeinode s"
    "\<And>j. disk_inode (img s') mk_sb j = (if j = i then d else disk_inode (img s) mk_sb j)"
    "\<And>b. unat b < 33 \<or> 46 \<le> unat b \<Longrightarrow> img s' b = img s b"
proof -
  note I = iblock_facts [OF assms(1,2)]
  have s': "s' = s\<lparr>img := (img s)(IBLOCK i mk_sb := put_dinode (img s (IBLOCK i mk_sb)) (dinode_off i) d)\<rparr>"
    using assms(4) I(1,5) by (auto simp: winode_def rsect_def wsect_def Let_def)
  have "unat (freeblock s) \<le> unat b \<Longrightarrow> b \<noteq> IBLOCK i mk_sb" for b using I(2) assms(2) by (auto simp: mk_ok_def)
  then show "mk_ok s'" using assms(2) by (auto simp: s' mk_ok_def)
  show "freeblock s' = freeblock s" "freeinode s' = freeinode s" by (simp_all add: s')
  show "disk_inode (img s') mk_sb j = (if j = i then d else disk_inode (img s) mk_sb j)" for j
    using disk_inode_put [OF assms(3)] by (simp add: s')
  show "img s' b = img s b" if "unat b < 33 \<or> 46 \<le> unat b" for b using that I(3,4) by (auto simp: s')
qed

text \<open>Replacing the blocks of one file by more, fresh ones.\<close>

lemma concat_update:
  assumes "distinct (concat xs)" "i < length xs" "distinct y" "\<And>z. z \<in> set y \<Longrightarrow> z \<in> set (xs ! i) \<or> z \<notin> set (concat xs)"
  shows "distinct (concat (xs[i := y]))" "set (concat (xs[i := y])) \<subseteq> set (concat xs) \<union> set y"
    "j < length xs \<Longrightarrow> j \<noteq> i \<Longrightarrow> set (xs ! j) \<inter> set y = {}"
proof -
  let ?a = "concat (take i xs)" and ?b = "concat (drop (Suc i) xs)"
  have c: "concat xs = ?a @ xs ! i @ ?b" using id_take_nth_drop [OF assms(2)] by (metis concat.simps(2) concat_append)
  have u: "concat (xs[i := y]) = ?a @ y @ ?b" using assms(2) by (simp add: upd_conv_take_nth_drop)
  have "set y \<inter> set ?a = {}" "set y \<inter> set ?b = {}"
    using assms(1,4) unfolding c by fastforce+
  then show "distinct (concat (xs[i := y]))" using assms(1,3) unfolding c u by auto
  show "set (concat (xs[i := y])) \<subseteq> set (concat xs) \<union> set y" unfolding c u by auto
  assume j: "j < length xs" "j \<noteq> i"
  then have "set (xs ! j) \<subseteq> set ?a \<union> set ?b"
  proof (cases "j < i")
    case True
    then have "xs ! j \<in> set (take i xs)" using j(1) by (auto simp: in_set_conv_nth)
    then show ?thesis by auto
  next
    case False
    then have "xs ! j \<in> set (drop (Suc i) xs)" using j by (auto simp: in_set_conv_nth intro!: exI [of _ "j - Suc i"])
    then show ?thesis by auto
  qed
  then show "set (xs ! j) \<inter> set y = {}" using \<open>set y \<inter> set ?a = {}\<close> \<open>set y \<inter> set ?b = {}\<close> by blast
qed

lemma concat_update_length:
  assumes "i < length xs" shows "length (concat (xs[i := y])) + length (xs ! i) = length (concat xs) + length y"
proof -
  have "concat xs = concat (take i xs) @ xs ! i @ concat (drop (Suc i) xs)"
    using id_take_nth_drop [OF assms] by (metis concat.simps(2) concat_append)
  moreover have "concat (xs[i := y]) = concat (take i xs) @ y @ concat (drop (Suc i) xs)"
    using assms by (simp add: upd_conv_take_nth_drop)
  ultimately show ?thesis by (simp only: length_append)
qed

lemma own_ok_nth: "own_ok s (concat os) \<Longrightarrow> i < length os \<Longrightarrow> own_ok s (os ! i)"
  unfolding own_ok_def by (auto simp: distinct_concat_iff)

lemma file_rep_length: "file_rep c d bs bl ix \<Longrightarrow> length bs \<le> MAXFILE * BSIZE"
proof -
  assume "file_rep c d bs bl ix"
  then have "(length bs + BSIZE - 1) div BSIZE \<le> MAXFILE" by (simp add: file_rep_def blocks_rep_def)
  then have "(length bs + 1023) div 1024 \<le> 268" by (simp add: layout_simps add.commute)
  then have "(length bs + 1023) div 1024 < 269" by simp
  then show ?thesis by (simp add: div_less_iff_less_mult layout_simps)
qed

text \<open>A file depends on its inode and its blocks.\<close>

lemma inode_rep_cong:
  assumes "inode_rep c i f o1" "disk_inode c' mk_sb i = disk_inode c mk_sb i" "\<And>b. b \<in> set (owned o1) \<Longrightarrow> c' b = c b"
  shows "inode_rep c' i f o1"
  using assms file_rep_cong [of c _ _ "fst o1" "snd o1" c'] by (auto simp: inode_rep_def Let_def split: prod.splits)

lemma inum_small: "i < 207 \<Longrightarrow> unat (of_nat (Suc i) :: u32) = Suc i"
  by (rule unat_of_nat_small) simp

lemma inum_eq: "i < 207 \<Longrightarrow> j < 207 \<Longrightarrow> (of_nat (Suc i) :: u32) = of_nat (Suc j) \<longleftrightarrow> i = j"
  using inum_small by (metis nat.inject)

text \<open>\<open>iappend\<close> appends to one file and changes no other.\<close>

lemma iappend_ok:
  assumes "iappend (of_nat (Suc i)) p s = Inr s'" "fs_rep s fl ow" "i < length fl" "length fl \<le> 206"
  shows "\<exists>o1. fs_rep s' (fl[i := (fst (fl ! i), snd (fl ! i) @ p)]) (ow[i := o1])
    \<and> (\<forall>b. unat b < 33 \<or> unat b = 46 \<longrightarrow> img s' b = img s b)"
proof -
  note F = assms(2) [unfolded fs_rep_def]
  let ?i = "of_nat (Suc i) :: u32"
  have i: "i < 207" "unat ?i < 208" using assms(3,4) inum_small [of i] by auto
  obtain t bs where f: "fl ! i = (t, bs)" by fastforce
  obtain bl ix where o: "ow ! i = (bl, ix)" by fastforce
  let ?d = "disk_inode (img s) mk_sb ?i"
  have R: "d_type ?d = t" "d_nlink ?d = 1" "d_major ?d = 0" "d_minor ?d = 0" "d_size ?d = of_nat (length bs)"
    "file_rep (img s) ?d bs bl ix" using F assms(3) f o by (auto simp: inode_rep_def Let_def)
  have mk: "mk_ok s" and own: "own_ok s (concat (map owned ow))" and len: "length ow = length fl" using F by auto
  have "length bs < 2 ^ 32" using file_rep_length [OF R(6)] by (simp add: layout_simps)
  then have sz: "unat (d_size ?d) = length bs" using R(5) by (simp add: unat_of_nat_small)
  have oi: "own_ok s (owned (bl, ix))" using own_ok_nth [OF own, of i] assms(3) len o by simp
  note I = iblock_facts [OF i(2) mk]
  obtain d1 off s1 where l: "iappend_loop ?d (length bs) p s = Inr (d1, off, s1)"
    and w: "winode ?i (d1\<lparr>d_size := of_nat off\<rparr>) s1 = Inr s'"
    using assms(1) sz I(1) by (auto simp: iappend_def rinode_def rsect_def disk_inode_def bindR_eq_Inr Let_def)
  obtain bl' ix' where L: "off = length bs + length p" "file_rep (img s1) d1 (bs @ p) bl' ix'"
    "grows s (owned (bl, ix)) s1 (owned (bl', ix'))" "d1 = ?d\<lparr>d_addrs := d_addrs d1\<rparr>"
    using iappend_loop_ok [OF l refl R(6) oi mk] by blast
  have d1: "length (d_addrs (d1\<lparr>d_size := of_nat off\<rparr>)) = NDIRECT + 1" using L(2) by (simp add: file_rep_def blocks_rep_def)
  have mk1: "mk_ok s1" "own_ok s1 (owned (bl', ix'))" using grows_mk [OF L(3)] by auto
  note W = winode_ok [OF i(2) mk1(1) d1 w]
  let ?o = "(bl', ix')" and ?os = "map owned ow"
  have y: "z \<in> set (?os ! i) \<or> z \<notin> set (concat ?os)" if "z \<in> set (owned ?o)" for z
    using L(3) that own o assms(3) len by (force simp: grows_def own_ok_def)
  have "distinct (concat ?os)" "i < length ?os" "distinct (owned ?o)" using own mk1(2) assms(3) len by (auto simp: own_ok_def)
  note C = concat_update [OF this y]
  have fb: "unat (freeblock s) \<le> unat (freeblock s')" using L(3) W(2) by (simp add: grows_def)
  have "nmeta \<le> unat b \<and> unat b < unat (freeblock s')" if "b \<in> set (concat ?os) \<union> set (owned ?o)" for b
    using that own mk1(2) fb W(2) by (auto simp: own_ok_def simp del: set_concat intro: less_le_trans)
  then have "own_ok s' (concat (?os[i := owned ?o]))" using C(1,2) unfolding own_ok_def by blast
  then have O: "own_ok s' (concat (map owned (ow[i := ?o])))" by (simp add: map_update)
  have cnt: "unat (freeblock s') = nmeta + length (concat (map owned (ow[i := ?o])))"
  proof -
    have "length (concat (?os[i := owned ?o])) + length (?os ! i) = length (concat ?os) + length (owned ?o)"
      by (rule concat_update_length) (use assms(3) len in simp)
    then show ?thesis using F L(3) W(2) o assms(3) len by (simp add: grows_def map_update)
  qed
  have high: "img s' b = img s1 b" if "nmeta \<le> unat b" for b using W(5) that by (simp add: nmeta_eq)
  have low: "img s1 b = img s b" if "unat b < nmeta" for b
  proof -
    have "b \<notin> set (owned ?o)" using mk1(2) that by (auto simp: own_ok_def)
    then show ?thesis using L(3) by (simp add: grows_def)
  qed
  have self: "inode_rep (img s') ?i (t, bs @ p) ?o"
  proof -
    have "file_rep (img s') d1 (bs @ p) bl' ix'"
      using file_rep_cong [OF L(2)] high mk1(2) by (auto simp: own_ok_def)
    then have "file_rep (img s') (d1\<lparr>d_size := of_nat off\<rparr>) (bs @ p) bl' ix'" by (simp add: file_rep_def blocks_rep_def)
    then show ?thesis using W(4) [of ?i] R L(1,4) by (cases ?d; cases d1) (simp add: inode_rep_def Let_def)
  qed
  have other: "inode_rep (img s') (of_nat (Suc j)) (fl ! j) (ow ! j)" if j: "j < length fl" "j \<noteq> i" for j
  proof (rule inode_rep_cong)
    show "inode_rep (img s) (of_nat (Suc j)) (fl ! j) (ow ! j)" using F j(1) by blast
    have "(of_nat (Suc j) :: u32) \<noteq> ?i" using inum_eq [of j i] j i(1) assms(4) by simp
    then have "disk_inode (img s') mk_sb (of_nat (Suc j)) = disk_inode (img s1) mk_sb (of_nat (Suc j))" using W(4) by simp
    also have "\<dots> = disk_inode (img s) mk_sb (of_nat (Suc j))"
      using low iblock_facts(2) [of "of_nat (Suc j)", OF _ mk] inum_small [of j] j(1) assms(4) by (simp add: disk_inode_def)
    finally show "disk_inode (img s') mk_sb (of_nat (Suc j)) = disk_inode (img s) mk_sb (of_nat (Suc j))" .
    fix b assume b: "b \<in> set (owned (ow ! j))"
    then have "b \<notin> set (owned ?o)" using C(3) [of j] j len by auto
    moreover have "nmeta \<le> unat b" using own_ok_nth [OF own, of j] b j(1) len by (auto simp: own_ok_def)
    ultimately show "img s' b = img s b" using high L(3) by (simp add: grows_def)
  qed
  have "fs_rep s' (fl[i := (t, bs @ p)]) (ow[i := ?o])"
    using F O cnt W(1,3) L(3) self other assms(3) len by (auto simp: fs_rep_def nth_list_update grows_def)
  moreover have "img s' b = img s b" if "unat b < 33 \<or> unat b = 46" for b
    using W(5) [of b] low [of b] that by (auto simp: nmeta_eq)
  ultimately show ?thesis using f by auto
qed

subsection \<open>Building the image\<close>

lemma empty_file_rep:
  "d_addrs d = replicate (NDIRECT + 1) 0 \<Longrightarrow> file_rep c d [] [] 0"
  by (simp add: file_rep_def blocks_rep_def data_rep_def layout_simps nth_Cons')

lemma mk_ialloc_ok:
  assumes "mk_ialloc t s = Inr (inum, s')" "fs_rep s fl ow" "length fl \<le> 205"
  shows "inum = of_nat (Suc (length fl)) \<and> fs_rep s' (fl @ [(t, [])]) (ow @ [([], 0)])
    \<and> (\<forall>b. unat b < 33 \<or> 46 \<le> unat b \<longrightarrow> img s' b = img s b)"
proof -
  note F = assms(2) [unfolded fs_rep_def]
  let ?i = "of_nat (Suc (length fl)) :: u32" and ?s = "s\<lparr>freeinode := freeinode s + 1\<rparr>"
  let ?d = "\<lparr>d_type = t, d_major = 0, d_minor = 0, d_nlink = 1, d_size = 0, d_addrs = replicate (NDIRECT + 1) 0\<rparr>"
  have i: "unat ?i < 208" using inum_small [of "length fl"] assms(3) by simp
  have w: "inum = ?i" "winode ?i ?d ?s = Inr s'"
    using assms(1) F by (auto simp: mk_ialloc_def Let_def bindR_eq_Inr)
  have "mk_ok ?s" using F by (simp add: mk_ok_def)
  note W = winode_ok [OF i this _ w(2)]
  have own: "own_ok s (concat (map owned ow))" using F by simp
  have old: "inode_rep (img s') (of_nat (Suc j)) (fl ! j) (ow ! j)" if j: "j < length fl" for j
  proof (rule inode_rep_cong)
    show "inode_rep (img s) (of_nat (Suc j)) (fl ! j) (ow ! j)" using F j by blast
    have "(of_nat (Suc j) :: u32) \<noteq> ?i" using inum_eq [of j "length fl"] j assms(3) by simp
    then show "disk_inode (img s') mk_sb (of_nat (Suc j)) = disk_inode (img s) mk_sb (of_nat (Suc j))" using W(4) by simp
    fix b assume "b \<in> set (owned (ow ! j))"
    then have "nmeta \<le> unat b" using own_ok_nth [OF own, of j] j F by (auto simp: own_ok_def)
    then show "img s' b = img s b" using W(5) by (simp add: nmeta_eq)
  qed
  have "inode_rep (img s') ?i (t, []) ([], 0)"
    using W(4) [of ?i] empty_file_rep [of ?d "img s'"] by (simp add: inode_rep_def)
  then have "\<forall>j<length (fl @ [(t, [])]). inode_rep (img s') (of_nat (Suc j)) ((fl @ [(t, [])]) ! j) ((ow @ [([], 0)]) ! j)"
    using old F by (auto simp: nth_append less_Suc_eq)
  moreover have "own_ok s' (concat (map owned (ow @ [([], 0)])))" using own W(2) by (simp add: own_ok_def owned_def)
  ultimately have "fs_rep s' (fl @ [(t, [])]) (ow @ [([], 0)])"
    using F W(1-3) by (simp add: fs_rep_def owned_def)
  then show ?thesis using w(1) W(5) by simp
qed

text \<open>Only the low sixteen bits of an inode number are stored in a directory entry.\<close>

lemma mk_dirent_low: "mk_dirent (ucast (ucast inum :: u16)) nm = mk_dirent inum nm"
  by (simp add: mk_dirent_def) (auto intro!: bit_word_eqI simp: bit_simps)

lemma append_all_ok:
  assumes "append_all (of_nat (Suc i)) cs s = Inr s'" "fs_rep s fl ow" "i < length fl" "length fl \<le> 206"
  shows "\<exists>ow'. fs_rep s' (fl[i := (fst (fl ! i), snd (fl ! i) @ concat cs)]) ow'
    \<and> (\<forall>b. unat b < 33 \<or> unat b = 46 \<longrightarrow> img s' b = img s b)"
  using assms
proof (induction cs arbitrary: s fl ow)
  case (Cons c cs)
  obtain s1 where 1: "iappend (of_nat (Suc i)) c s = Inr s1" "append_all (of_nat (Suc i)) cs s1 = Inr s'"
    using Cons.prems(1) by (auto simp: bindR_eq_Inr)
  obtain o1 where A: "fs_rep s1 (fl[i := (fst (fl ! i), snd (fl ! i) @ c)]) (ow[i := o1])"
    "\<forall>b. unat b < 33 \<or> unat b = 46 \<longrightarrow> img s1 b = img s b" using iappend_ok [OF 1(1) Cons.prems(2-4)] by blast
  show ?case using Cons.IH [OF 1(2) A(1)] A(2) Cons.prems(3,4) by auto
qed auto

text \<open>The directory entry for the file in inode \<open>inum\<close>.\<close>

definition entry :: "nat \<Rightarrow> byte list \<Rightarrow> byte list" where
  "entry inum name = mk_dirent (of_nat inum) (strncpy_name name)"

lemma add_entry_ok:
  assumes "add_entry 1 (of_nat inum) nm s = Inr s'" "fs_rep s ((t, bs) # fl) ow" "length fl \<le> 205"
  shows "\<exists>ow'. fs_rep s' ((t, bs @ entry inum nm) # fl) ow' \<and> (\<forall>b. unat b < 33 \<or> unat b = 46 \<longrightarrow> img s' b = img s b)"
proof -
  have "iappend (of_nat (Suc 0)) (entry inum nm) s = Inr s'"
    using assms(1) by (simp add: add_entry_def entry_def mk_dirent_low)
  from iappend_ok [OF this assms(2)] show ?thesis using assms(3) by auto
qed

text \<open>What the program finds in a file on the host.\<close>

definition file_data :: "host \<Rightarrow> byte list \<Rightarrow> byte list" where
  "file_data hst path = (case host_files hst path of None \<Rightarrow> [] | Some reads \<Rightarrow> concat reads)"

lemma add_file_ok:
  assumes "add_file hst 1 path s = Inr s'" "fs_rep s ((T_DIR, bs) # fl) ow" "length fl \<le> 204"
  shows "\<exists>ow'. fs_rep s' ((T_DIR, bs @ entry (length fl + 2) (short_name path)) # fl @ [(T_FILE, file_data hst path)]) ow'
    \<and> (\<forall>b. unat b < 33 \<or> unat b = 46 \<longrightarrow> img s' b = img s b)"
proof -
  let ?n = "Suc (Suc (length fl))"
  obtain reads s1 s2 inum where 1: "host_files hst path = Some reads" "mk_ialloc T_FILE s = Inr (inum, s1)"
    "add_entry 1 inum (short_name path) s1 = Inr s2" "append_all inum reads s2 = Inr s'"
    using assms(1) by (auto simp: add_file_def bindR_eq_Inr split: if_splits option.splits)
  have I: "inum = of_nat ?n" "fs_rep s1 (((T_DIR, bs) # fl) @ [(T_FILE, [])]) (ow @ [([], 0)])"
    "\<forall>b. unat b < 33 \<or> 46 \<le> unat b \<longrightarrow> img s1 b = img s b"
    using mk_ialloc_ok [OF 1(2) assms(2)] assms(3) by auto
  obtain ow2 where E: "fs_rep s2 ((T_DIR, bs @ entry ?n (short_name path)) # fl @ [(T_FILE, [])]) ow2"
    "\<forall>b. unat b < 33 \<or> unat b = 46 \<longrightarrow> img s2 b = img s1 b"
    using add_entry_ok [OF 1(3) [unfolded I(1)] I(2) [simplified]] assms(3) by auto
  have "\<exists>ow'. fs_rep s' (((T_DIR, bs @ entry ?n (short_name path)) # fl @ [(T_FILE, [])])[Suc (length fl) := (T_FILE, concat reads)]) ow'
    \<and> (\<forall>b. unat b < 33 \<or> unat b = 46 \<longrightarrow> img s' b = img s2 b)"
    using append_all_ok [OF 1(4) [unfolded I(1)] E(1)] assms(3) by (simp add: nth_append)
  then show ?thesis using I(3) E(2) 1(1) by (auto simp: file_data_def list_update_append)
qed

definition entries :: "nat \<Rightarrow> byte list list \<Rightarrow> byte list" where
  "entries k names = concat (map2 entry [k..<k + length names] names)"

lemma entries_Cons: "entries k (nm # names) = entry k nm @ entries (Suc k) names"
proof -
  have "[k..<k + length (nm # names)] = k # [Suc k..<Suc k + length names]" by (simp add: upt_conv_Cons del: upt_Suc)
  then show ?thesis unfolding entries_def by (simp del: upt_Suc)
qed

lemma add_files_ok:
  assumes "add_files hst 1 files s = Inr s'" "fs_rep s ((T_DIR, bs) # fl) ow" "length fl + length files \<le> 205"
  shows "\<exists>ow'. fs_rep s' ((T_DIR, bs @ entries (length fl + 2) (map short_name files)) # fl @ map (\<lambda>f. (T_FILE, file_data hst f)) files) ow'
    \<and> (\<forall>b. unat b < 33 \<or> unat b = 46 \<longrightarrow> img s' b = img s b)"
  using assms
proof (induction files arbitrary: s bs fl ow)
  case Nil
  then show ?case by (auto simp: entries_def)
next
  case (Cons f files)
  obtain s1 where 1: "add_file hst 1 f s = Inr s1" "add_files hst 1 files s1 = Inr s'"
    using Cons.prems(1) by (auto simp: bindR_eq_Inr)
  obtain ow1 where A: "fs_rep s1 ((T_DIR, bs @ entry (length fl + 2) (short_name f)) # fl @ [(T_FILE, file_data hst f)]) ow1"
    "\<forall>b. unat b < 33 \<or> unat b = 46 \<longrightarrow> img s1 b = img s b"
    using add_file_ok [OF 1(1) Cons.prems(2)] Cons.prems(3) by auto
  show ?case using Cons.IH [OF 1(2) A(1)] A(2) Cons.prems(3) by (simp add: entries_Cons)
qed

lemma zero_image_eq: "zero_image = \<lparr>img = (\<lambda>_ _. 0), isize = FSSIZE, freeinode = 1, freeblock = of_nat nmeta\<rparr>"
proof -
  have "fold (\<lambda>i. wsect (of_nat i) (\<lambda>_. 0)) [0..<n] \<lparr>img = (\<lambda>_ _. 0), isize = 0, freeinode = 1, freeblock = of_nat nmeta\<rparr>
    = \<lparr>img = (\<lambda>_ _. 0), isize = n, freeinode = 1, freeblock = of_nat nmeta\<rparr>" if "n \<le> 2000" for n
    using that
  proof (induction n)
    case (Suc n)
    then have "unat (of_nat n :: u32) = n" by (intro unat_of_nat_small) simp
    then show ?case using Suc by (simp add: wsect_def fun_upd_idem)
  qed simp
  from this [of FSSIZE] show ?thesis by (simp add: zero_image_def layout_simps)
qed

lemma start_rep: "fs_rep (wsect 1 b zero_image) [] []"
  by (auto simp: fs_rep_def mk_ok_def own_ok_def zero_image_eq wsect_def nmeta_eq layout_simps)

lemma root_dir_ok:
  assumes "root_dir s = Inr (rootino, s')" "fs_rep s [] []"
  shows "rootino = 1 \<and> (\<exists>ow. fs_rep s' [(T_DIR, entry 1 (str ''.'') @ entry 1 (str ''..''))] ow)
    \<and> (\<forall>b. unat b < 33 \<or> unat b = 46 \<longrightarrow> img s' b = img s b)"
proof -
  obtain s1 s2 where 1: "mk_ialloc T_DIR s = Inr (1, s1)" "add_entry 1 (of_nat 1) (str ''.'') s1 = Inr s2"
    "add_entry 1 (of_nat 1) (str ''..'') s2 = Inr s'" "rootino = 1"
    using assms(1) by (auto simp: root_dir_def bindR_eq_Inr ROOTINO_def split: if_splits)
  have I: "fs_rep s1 [(T_DIR, [])] [([], 0)]" "\<forall>b. unat b < 33 \<or> 46 \<le> unat b \<longrightarrow> img s1 b = img s b"
    using mk_ialloc_ok [OF 1(1) assms(2)] by auto
  obtain ow2 where E: "fs_rep s2 [(T_DIR, entry 1 (str ''.''))] ow2" "\<forall>b. unat b < 33 \<or> unat b = 46 \<longrightarrow> img s2 b = img s1 b"
    using add_entry_ok [OF 1(2) I(1)] by auto
  from add_entry_ok [OF 1(3) E(1)] show ?thesis using I(2) E(2) 1(4) by auto
qed

lemma fix_root_size_ok:
  assumes "fix_root_size 1 s = Inr s'" "fs_rep s ((t, bs) # fl) (o0 # ow)" "length fl \<le> 205"
  shows "mk_ok s'" "freeblock s' = freeblock s"
    "\<forall>i<length fl. inode_rep (img s') (of_nat (i + 2)) (fl ! i) (ow ! i)"
    "d_type (disk_inode (img s') mk_sb 1) = t" "d_nlink (disk_inode (img s') mk_sb 1) = 1"
    "unat (d_size (disk_inode (img s') mk_sb 1)) = (length bs div BSIZE + 1) * BSIZE"
    "file_rep (img s') (disk_inode (img s') mk_sb 1) bs (fst o0) (snd o0)"
    "\<forall>b. unat b < 33 \<or> 46 \<le> unat b \<longrightarrow> img s' b = img s b"
proof -
  note F = assms(2) [unfolded fs_rep_def]
  let ?d = "disk_inode (img s) mk_sb 1"
  have mk: "mk_ok s" and own: "own_ok s (concat (map owned (o0 # ow)))" using F by auto
  have "inode_rep (img s) (of_nat (Suc 0)) (t, bs) o0" using F by fastforce
  then have R: "d_type ?d = t" "d_nlink ?d = 1" "d_size ?d = of_nat (length bs)" "file_rep (img s) ?d bs (fst o0) (snd o0)"
    by (auto simp: inode_rep_def Let_def split: prod.splits)
  let ?z = "(d_size ?d div of_nat BSIZE + 1) * of_nat BSIZE"
  have w: "winode 1 (?d\<lparr>d_size := ?z\<rparr>) s = Inr s'"
    using assms(1) iblock_facts(1) [of 1, OF _ mk]
    by (simp add: fix_root_size_def rinode_def rsect_def disk_inode_def Let_def)
  have "length (d_addrs (?d\<lparr>d_size := ?z\<rparr>)) = NDIRECT + 1" using R(4) by (simp add: file_rep_def blocks_rep_def)
  note W = winode_ok [OF _ mk this w]
  show "mk_ok s'" "freeblock s' = freeblock s" "\<forall>b. unat b < 33 \<or> 46 \<le> unat b \<longrightarrow> img s' b = img s b" using W(1,2,5) by auto
  have d: "disk_inode (img s') mk_sb 1 = ?d\<lparr>d_size := ?z\<rparr>" using W(4) [of 1] by simp
  then show "d_type (disk_inode (img s') mk_sb 1) = t" "d_nlink (disk_inode (img s') mk_sb 1) = 1" using R by auto
  have len: "length bs \<le> 268 * 1024" using file_rep_length [OF R(4)] by (simp add: layout_simps)
  then have "unat (of_nat (length bs) div 1024 :: u32) = length bs div 1024" by (simp add: unat_div unat_of_nat_small)
  moreover have "length bs div 1024 \<le> 268" using len by simp
  ultimately have "unat ((of_nat (length bs) div 1024 + 1) * 1024 :: u32) = (length bs div 1024 + 1) * 1024"
    by (simp add: unat_word_ariths)
  then show "unat (d_size (disk_inode (img s') mk_sb 1)) = (length bs div BSIZE + 1) * BSIZE"
    unfolding d using R(3) by (simp add: layout_simps)
  have keep: "img s' b = img s b" if "b \<in> set (owned ((o0 # ow) ! i))" "i < length (o0 # ow)" for b i
  proof -
    have "own_ok s (owned ((o0 # ow) ! i))" using own_ok_nth [OF own, of i] nth_map [of i "o0 # ow" owned] that(2) by simp
    then show ?thesis using that(1) W(5) by (auto simp: own_ok_def nmeta_eq)
  qed
  have "file_rep (img s') ?d bs (fst o0) (snd o0)" using file_rep_cong [OF R(4)] keep [of _ 0] by simp
  then show "file_rep (img s') (disk_inode (img s') mk_sb 1) bs (fst o0) (snd o0)"
    unfolding d by (simp add: file_rep_def blocks_rep_def)
  show "\<forall>i<length fl. inode_rep (img s') (of_nat (i + 2)) (fl ! i) (ow ! i)"
  proof (intro allI impI)
    fix i assume i: "i < length fl"
    have "inode_rep (img s) (of_nat (Suc (Suc i))) (fl ! i) (ow ! i)" using F i by force
    moreover have "(of_nat (Suc (Suc i)) :: u32) \<noteq> of_nat (Suc 0)" using inum_eq [of "Suc i" 0] i assms(3) by simp
    then have "disk_inode (img s') mk_sb (of_nat (Suc (Suc i))) = disk_inode (img s) mk_sb (of_nat (Suc (Suc i)))"
      using W(4) by simp
    ultimately have "inode_rep (img s') (of_nat (Suc (Suc i))) (fl ! i) (ow ! i)"
      by (rule inode_rep_cong) (use keep [of _ "Suc i"] i F in auto)
    then show "inode_rep (img s') (of_nat (i + 2)) (fl ! i) (ow ! i)" by simp
  qed
qed

text \<open>The superblock as \<open>readsb\<close> takes it from block 1.\<close>

definition get_super :: "block \<Rightarrow> superblock" where
  "get_super d = \<lparr>sb_magic = get32 d 0, sb_size = get32 d 4, sb_nblocks = get32 d 8, sb_ninodes = get32 d 12,
     sb_nlog = get32 d 16, sb_logstart = get32 d 20, sb_inodestart = get32 d 24, sb_bmapstart = get32 d 28\<rparr>"

lemma get_put_super: "get_super (put_super b d) = b"
  by (cases b) (simp add: get_super_def put_super_def get32_put32_other)

lemma bitmap_bits: "bit_free (fold (\<lambda>i buf. bm_set buf i) [0..<n] (\<lambda>_. 0)) b \<longleftrightarrow> n \<le> b"
proof (induction n)
  case 0
  then show ?case by (simp add: bit_free_def)
qed (auto simp: bit_free_set)

lemma mk_balloc_ok:
  assumes "mk_ok s" "mk_balloc (unat (freeblock s)) s = Inr s'"
  shows "img s' = (img s)(46 := img s' 46)" "freeblock s' = freeblock s"
    "\<forall>b<FSSIZE. is_free (img s') mk_sb b \<longleftrightarrow> unat (freeblock s) \<le> b"
proof -
  have m: "sb_bmapstart mk_sb = 46" by (simp add: mk_sb_def layout_simps LOGBLOCKS_def MAXOPBLOCKS_def)
  have s': "img s' = (img s)(46 := fold (\<lambda>i buf. bm_set buf i) [0..<unat (freeblock s)] (\<lambda>_. 0))" "freeblock s' = freeblock s"
    using assms by (auto simp: mk_balloc_def wsect_def m split: if_splits)
  then show "img s' = (img s)(46 := img s' 46)" "freeblock s' = freeblock s" by auto
  show "\<forall>b<FSSIZE. is_free (img s') mk_sb b \<longleftrightarrow> unat (freeblock s) \<le> b"
  proof (intro allI impI)
    fix b assume b: "b < FSSIZE"
    then have "unat (of_nat b div 8192 :: u32) = 0" by (simp add: unat_div unat_of_nat_small layout_simps)
    then have "BBLOCK (of_nat b) mk_sb = 46" by (simp add: BBLOCK_def m layout_simps unat_eq_0)
    then show "is_free (img s') mk_sb b \<longleftrightarrow> unat (freeblock s) \<le> b"
      using b by (simp add: is_free_def s' bitmap_bits layout_simps)
  qed
qed

lemma own_exact:
  assumes "own_ok s own" "unat (freeblock s) = nmeta + length own"
  shows "unat ` set own = {nmeta..<unat (freeblock s)}"
proof (rule card_subset_eq)
  show "unat ` set own \<subseteq> {nmeta..<unat (freeblock s)}" using assms(1) by (auto simp: own_ok_def)
  have "inj_on unat (set own)" by (rule inj_onI) simp
  then show "card (unat ` set own) = card {nmeta..<unat (freeblock s)}"
    using assms by (simp add: card_image own_ok_def distinct_card)
qed simp

text \<open>Writing the bitmap leaves the files alone.\<close>

lemma inode_rep_bitmap:
  assumes "inode_rep c i f o1" "unat i < 208" "mk_ok s" "\<And>b. b \<in> set (owned o1) \<Longrightarrow> nmeta \<le> unat b"
  shows "inode_rep (c(46 := v)) i f o1"
proof (rule inode_rep_cong [OF assms(1)])
  have "IBLOCK i mk_sb \<noteq> 46" using iblock_facts(4) [OF assms(2,3)] by auto
  then show "disk_inode (c(46 := v)) mk_sb i = disk_inode c mk_sb i" by (simp add: disk_inode_def)
  show "(c(46 := v)) b = c b" if "b \<in> set (owned o1)" for b using assms(4) [OF that] by (auto simp: nmeta_eq)
qed

text \<open>
  C9: the image \<open>mkfs\<close> builds holds exactly the given files. The kernel's view of the superblock is the
  layout of the program; inode \<open>k + 2\<close> is a file with the bytes of the \<open>k\<close>-th host file, whatever the sizes
  \<open>read\<close> returned them in; the root directory lists \<open>.\<close>, \<open>..\<close> and the files by their short names, its size rounded
  up to a block; every allocated block belongs to exactly one file, and the bitmap marks exactly the allocated blocks
  and the metadata as in use.\<close>

theorem mkfs_image_correct:
  assumes "mkfs_main hst (out # files) = Inr s" "length files \<le> 198"
  shows "\<exists>ow. get_super (img s 1) = mk_sb
    \<and> (\<forall>k<length files. inode_rep (img s) (of_nat (k + 2)) (T_FILE, file_data hst (files ! k)) (ow ! Suc k))
    \<and> (let d = disk_inode (img s) mk_sb ROOTINO;
           bs = entry 1 (str ''.'') @ entry 1 (str ''..'') @ entries 2 (map short_name files) in
       d_type d = T_DIR \<and> d_nlink d = 1 \<and> unat (d_size d) = (length bs div BSIZE + 1) * BSIZE
       \<and> file_rep (img s) d bs (fst (ow ! 0)) (snd (ow ! 0)))
    \<and> length ow = Suc (length files) \<and> distinct (concat (map owned ow))
    \<and> unat ` set (concat (map owned ow)) = {nmeta..<unat (freeblock s)}
    \<and> (\<forall>b<FSSIZE. is_free (img s) mk_sb b \<longleftrightarrow> unat (freeblock s) \<le> b)"
proof -
  let ?bs = "entry 1 (str ''.'') @ entry 1 (str ''..'') @ entries 2 (map short_name files)"
  let ?fl = "map (\<lambda>f. (T_FILE, file_data hst f)) files"
  obtain r s1 s2 s3 where 1: "root_dir (wsect 1 (put_super mk_sb (\<lambda>_. 0)) zero_image) = Inr (r, s1)"
    "add_files hst r files s1 = Inr s2" "fix_root_size r s2 = Inr s3" "mk_balloc (unat (freeblock s3)) s3 = Inr s"
    using assms(1) by (auto simp: mkfs_main_def Let_def bindR_eq_Inr split: if_splits)
  note R = root_dir_ok [OF 1(1) start_rep]
  have r1: "r = 1" using R by simp
  obtain ow1 where ow1: "fs_rep s1 [(T_DIR, entry 1 (str ''.'') @ entry 1 (str ''..''))] ow1" using R by blast
  obtain ow where ow: "fs_rep s2 ((T_DIR, ?bs) # ?fl) ow" and low2: "\<forall>b. unat b < 33 \<or> unat b = 46 \<longrightarrow> img s2 b = img s1 b"
    using add_files_ok [OF 1(2) [unfolded r1] ow1] assms(2) by (auto simp: numeral_2_eq_2)
  obtain o0 ow' where o: "ow = o0 # ow'" using ow by (cases ow) (auto simp: fs_rep_def)
  note X = fix_root_size_ok [OF 1(3) [unfolded r1] ow [unfolded o]]
  have n: "length ?fl \<le> 205" using assms(2) by simp
  have own: "own_ok s2 (concat (map owned ow))" "unat (freeblock s2) = nmeta + length (concat (map owned ow))"
    "length ow = Suc (length files)" using ow by (auto simp: fs_rep_def)
  note B = mk_balloc_ok [OF X(1) [OF n] 1(4)]
  have hi: "nmeta \<le> unat b" if "b \<in> set (owned (ow ! k))" "k < length ow" for b k
    using own_ok_nth [OF own(1), of k] that by (auto simp: own_ok_def)
  have files: "inode_rep (img s) (of_nat (k + 2)) (T_FILE, file_data hst (files ! k)) (ow ! Suc k)" if "k < length files" for k
  proof -
    have "inode_rep (img s3) (of_nat (k + 2)) (T_FILE, file_data hst (files ! k)) (ow ! Suc k)"
      using X(3) [OF n] that o by auto
    moreover have "unat (of_nat (k + 2) :: u32) < 208" using that assms(2) inum_small [of "Suc k"] by simp
    ultimately have "inode_rep ((img s3)(46 := img s 46)) (of_nat (k + 2)) (T_FILE, file_data hst (files ! k)) (ow ! Suc k)"
      by (rule inode_rep_bitmap [OF _ _ X(1) [OF n]]) (use hi [of _ "Suc k"] that own(3) in auto)
    then show ?thesis using B(1) by simp
  qed
  have same: "img s b = img s3 b" if "unat b \<noteq> 46" for b using B(1) that by (cases "b = 46") (simp, metis fun_upd_other)
  have root: "disk_inode (img s) mk_sb 1 = disk_inode (img s3) mk_sb 1"
    using iblock_facts(4) [of 1, OF _ X(1) [OF n]] same by (simp add: disk_inode_def)
  have "file_rep (img s) (disk_inode (img s3) mk_sb 1) ?bs (fst o0) (snd o0)"
    by (rule file_rep_cong [OF X(7) [OF n]]) (use hi [of _ 0] o same in \<open>force simp: nmeta_eq\<close>)
  moreover have "img s 1 = put_super mk_sb (\<lambda>_. 0)" using same [of 1] X(8) [OF n] low2 R by (simp add: wsect_def)
  then have "get_super (img s 1) = mk_sb" by (simp add: get_put_super)
  moreover have "unat ` set (concat (map owned ow)) = {nmeta..<unat (freeblock s)}" "distinct (concat (map owned ow))"
    using own_exact [OF own(1,2)] own(1) B(2) X(2) [OF n] by (auto simp: own_ok_def)
  moreover have "\<forall>b<FSSIZE. is_free (img s) mk_sb b \<longleftrightarrow> unat (freeblock s) \<le> b" using B(2,3) by simp
  ultimately show ?thesis using files root X(4-6) [OF n] own(3) o
    by (intro exI [of _ ow]) (simp add: ROOTINO_def Let_def)
qed

subsection \<open>An image with one file\<close>

text \<open>As long as every file fits in one block there is room.\<close>

lemma small_owned: "file_rep c d bs bl ix \<Longrightarrow> length bs \<le> BSIZE \<Longrightarrow> length (owned (bl, ix)) \<le> 1"
proof -
  assume f: "file_rep c d bs bl ix" "length bs \<le> BSIZE"
  then have "length bl = (length bs + BSIZE - 1) div BSIZE" "ix = 0 \<longleftrightarrow> length bl \<le> NDIRECT"
    by (auto simp: file_rep_def blocks_rep_def)
  moreover have "(length bs + BSIZE - 1) div BSIZE < 2"
    using f(2) by (subst div_less_iff_less_mult) (auto simp: layout_simps)
  ultimately show ?thesis by (auto simp: owned_def layout_simps)
qed

lemma small_room:
  assumes "fs_rep s fl ow" "\<forall>f\<in>set fl. length (snd f) \<le> BSIZE"
  shows "unat (freeblock s) \<le> nmeta + length fl"
proof -
  note F = assms(1) [unfolded fs_rep_def]
  have len: "length ow = length fl" using F by blast
  have "length (owned x) \<le> 1" if x: "x \<in> set ow" for x
  proof -
    obtain k where k: "k < length fl" "ow ! k = x" using x len unfolding in_set_conv_nth by auto
    then have "inode_rep (img s) (of_nat (Suc k)) (fl ! k) x" using F by blast
    then have "file_rep (img s) (disk_inode (img s) mk_sb (of_nat (Suc k))) (snd (fl ! k)) (fst x) (snd x)"
      by (simp add: inode_rep_def Let_def split_beta)
    moreover have "length (snd (fl ! k)) \<le> BSIZE" using assms(2) k(1) nth_mem by blast
    ultimately show ?thesis using small_owned by fastforce
  qed
  then have "sum_list (map (length \<circ> owned) ow) \<le> sum_list (map (\<lambda>_. 1) ow)" by (intro sum_list_mono) simp
  then show ?thesis using F by (simp add: length_concat sum_list_triv)
qed

lemma small_append:
  assumes "fs_rep s fl ow" "\<forall>f\<in>set fl. length (snd f) \<le> BSIZE" "i < length fl" "length fl \<le> 206"
    and "p \<noteq> []" "length (snd (fl ! i)) + length p \<le> BSIZE"
  shows "\<exists>s' ow'. iappend (of_nat (Suc i)) p s = Inr s' \<and> fs_rep s' (fl[i := (fst (fl ! i), snd (fl ! i) @ p)]) ow'"
proof -
  note F = assms(1) [unfolded fs_rep_def]
  let ?i = "of_nat (Suc i) :: u32" and ?d = "disk_inode (img s) mk_sb (of_nat (Suc i))" and ?bs = "snd (fl ! i)"
  have mk: "mk_ok s" and I: "unat (IBLOCK ?i mk_sb) < isize s"
    using F iblock_facts(1) [of ?i s] inum_small [of i] assms(3,4) by auto
  obtain bl ix where o: "ow ! i = (bl, ix)" by fastforce
  have "inode_rep (img s) ?i (fl ! i) (bl, ix)" using F assms(3) o by metis
  then have R: "d_size ?d = of_nat (length ?bs)" "file_rep (img s) ?d ?bs bl ix"
    by (auto simp: inode_rep_def Let_def split: prod.splits)
  have p: "0 < length p" using assms(5) by simp
  then have lt: "length ?bs < 1024" using assms(6) unfolding layout_simps by linarith
  then have k: "length ?bs div BSIZE = 0" by (simp add: layout_simps)
  have sz: "unat (d_size ?d) = length ?bs" using R(1) lt by (simp add: unat_of_nat_small)
  obtain x d1 s1 where b: "file_block 0 ?d s = Inr (x, d1, s1)"
    by (cases "direct_block 0 ?d s") (auto simp: file_block_def layout_simps)
  have own: "own_ok s (owned (bl, ix))" using own_ok_nth [of s "map owned ow" i] F assms(3) o by auto
  have "unat x < isize s"
  proof (cases "bl = []")
    case True
    then have "d_addrs ?d ! 0 = 0" using R(2) by (simp add: file_rep_def blocks_rep_def layout_simps)
    then have "x = freeblock s" using b by (auto simp: file_block_def direct_block_def new_block_def layout_simps)
    then show ?thesis using small_room [OF assms(1,2)] assms(4) mk by (auto simp: mk_ok_def nmeta_eq layout_simps)
  next
    case False
    then have "x = bl ! 0" using file_block_old [of s ?d bl ix 0] R(2) own mk b by (auto simp: file_rep_def)
    moreover have "bl ! 0 \<in> set (owned (bl, ix))" using False by (simp add: owned_def)
    ultimately show ?thesis using own_small [OF mk own] by simp
  qed
  then have x: "unat x < isize s1" "isize s1 = isize s" using file_block_isize [OF b] by auto
  let ?s2 = "wsect x (bcopy p (length ?bs) (img s1 x)) s1"
  have "iappend_loop ?d (length ?bs) p s = Inr (d1, length ?bs + length p, ?s2)"
    using b x k assms(5,6) by (simp add: iappend_loop.simps [of _ _ p] iappend_loop.simps [of _ _ "[]"] rsect_def layout_simps)
  then have "iappend ?i p s = winode ?i (d1\<lparr>d_size := of_nat (length ?bs + length p)\<rparr>) ?s2"
    using I sz by (simp add: iappend_def rinode_def rsect_def disk_inode_def)
  moreover have "\<exists>s'. winode ?i d' ?s2 = Inr s'" for d'
    using I x by (simp add: winode_def rsect_def wsect_def Let_def)
  ultimately obtain s' where "iappend ?i p s = Inr s'" by auto
  then show ?thesis using iappend_ok [OF _ assms(1,3,4)] by blast
qed

lemma length_entry: "length (entry i nm) = 16"
  by (simp add: entry_def mk_dirent_def strncpy_name_def layout_simps)

lemma small_ialloc:
  assumes "fs_rep s fl ow" "length fl \<le> 205"
  shows "\<exists>s' ow'. mk_ialloc t s = Inr (of_nat (Suc (length fl)), s') \<and> fs_rep s' (fl @ [(t, [])]) ow'"
proof -
  note F = assms(1) [unfolded fs_rep_def]
  have "unat (IBLOCK (freeinode s) mk_sb) < isize s"
    using iblock_facts(1) [of "freeinode s" s] F inum_small [of "length fl"] assms(2) by auto
  then obtain i s' where "mk_ialloc t s = Inr (i, s')" by (auto simp: mk_ialloc_def winode_def rsect_def Let_def)
  then show ?thesis using mk_ialloc_ok [OF _ assms] by blast
qed

lemma small_entry:
  assumes "fs_rep s ((t, bs) # fl) ow" "\<forall>f\<in>set fl. length (snd f) \<le> BSIZE" "length bs \<le> 1008" "length fl \<le> 205"
  shows "\<exists>s' ow'. add_entry 1 (of_nat inum) nm s = Inr s' \<and> fs_rep s' ((t, bs @ entry inum nm) # fl) ow'"
proof -
  have "entry inum nm \<noteq> []" using length_entry [of inum nm] by auto
  then have "\<exists>s' ow'. iappend (of_nat (Suc 0)) (entry inum nm) s = Inr s' \<and> fs_rep s' ((t, bs @ entry inum nm) # fl) ow'"
    using small_append [OF assms(1), of 0 "entry inum nm"] assms(2-4) length_entry [of inum nm]
    by (auto simp: layout_simps)
  then show ?thesis by (simp add: add_entry_def entry_def mk_dirent_low)
qed

definition example_host :: host where
  "example_host = \<lparr>image_opens = True, host_files = (\<lambda>_. Some [str ''hello''])\<rparr>"

lemma example_mkfs: "\<exists>s. mkfs_main example_host [str ''fs.img'', str ''user/_a''] = Inr s"
proof -
  let ?dots = "entry 1 (str ''.'') @ entry 1 (str ''..'')" and ?s0 = "wsect 1 (put_super mk_sb (\<lambda>_. 0)) zero_image"
  obtain s1 ow1 where 1: "mk_ialloc T_DIR ?s0 = Inr (1, s1)" "fs_rep s1 [(T_DIR, [])] ow1"
    using small_ialloc [OF start_rep [of "put_super mk_sb (\<lambda>_. 0)"], of T_DIR] by auto
  obtain s2 ow2 where 2: "add_entry 1 (of_nat 1) (str ''.'') s1 = Inr s2" "fs_rep s2 [(T_DIR, entry 1 (str ''.''))] ow2"
    using small_entry [OF 1(2), of 1 "str ''.''"] by auto
  obtain s3 ow3 where 3: "add_entry 1 (of_nat 1) (str ''..'') s2 = Inr s3" "fs_rep s3 [(T_DIR, ?dots)] ow3"
    using small_entry [OF 2(2), of 1 "str ''..''"] length_entry by auto
  obtain s4 ow4 where 4: "mk_ialloc T_FILE s3 = Inr (of_nat 2, s4)" "fs_rep s4 [(T_DIR, ?dots), (T_FILE, [])] ow4"
    using small_ialloc [OF 3(2), of T_FILE] by auto
  obtain s5 ow5 where 5: "add_entry 1 (of_nat 2) (str ''a'') s4 = Inr s5"
    "fs_rep s5 [(T_DIR, ?dots @ entry 2 (str ''a'')), (T_FILE, [])] ow5"
    using small_entry [OF 4(2), of 2 "str ''a''"] length_entry by auto
  obtain s6 ow6 where 6: "iappend (of_nat (Suc 1)) (str ''hello'') s5 = Inr s6"
    "fs_rep s6 [(T_DIR, ?dots @ entry 2 (str ''a'')), (T_FILE, str ''hello'')] ow6"
    using small_append [OF 5(2), of 1 "str ''hello''"] length_entry by (auto simp: layout_simps)
  have mk: "mk_ok s6" using 6(2) by (simp add: fs_rep_def)
  have "root_dir ?s0 = Inr (1, s3)" using 1 2 3 by (simp add: root_dir_def ROOTINO_def)
  moreover have "short_name (str ''user/_a'') = str ''a''" "ch (CHR ''/'') \<notin> set (base_name (str ''user/_a''))"
    by (simp_all add: short_name_def base_name_def str_simps ch_def)
  then have "add_files example_host 1 [str ''user/_a''] s3 = Inr s6"
    using 4 5 6 by (simp add: add_file_def example_host_def layout_simps numeral_2_eq_2)
  moreover have "unat (IBLOCK 1 mk_sb) < isize s6" using iblock_facts(1) [of 1 s6] mk by simp
  then obtain s7 where 7: "fix_root_size 1 s6 = Inr s7"
    by (auto simp: fix_root_size_def rinode_def winode_def rsect_def Let_def)
  moreover have "freeblock s7 = freeblock s6"
    using 7 by (auto simp: fix_root_size_def rinode_def winode_def rsect_def wsect_def Let_def bindR_eq_Inr split: if_splits)
  then have "unat (freeblock s7) < BPB" using mk by (simp add: mk_ok_def layout_simps)
  ultimately show ?thesis by (simp add: mkfs_main_def example_host_def mk_balloc_def)
qed

theorem mkfs_image_correct_witness:
  "\<exists>(s :: mkst) ow. inode_rep (img s) (of_nat 2) (T_FILE, str ''hello'') (ow ! 1) \<and> length ow = 2"
proof -
  obtain s where "mkfs_main example_host [str ''fs.img'', str ''user/_a''] = Inr s" using example_mkfs by blast
  from mkfs_image_correct [OF this] obtain ow :: "(u32 list \<times> u32) list"
    where "\<forall>k<length [str ''user/_a'']. inode_rep (img s) (of_nat (k + 2)) (T_FILE, file_data example_host ([str ''user/_a''] ! k)) (ow ! Suc k)"
      "length ow = Suc (length [str ''user/_a''])" by auto
  then have "inode_rep (img s) (of_nat 2) (T_FILE, str ''hello'') (ow ! 1) \<and> length ow = 2"
    by (simp add: file_data_def example_host_def)
  then show ?thesis by blast
qed

end
