(* ===== verification/FsFrame.thy ===== *)
theory FsFrame
  imports Sysfile
begin

text \<open>
  What the file system does not touch: no operation on blocks, inodes, directories or paths changes the table of open
  files. One fact per operation, collected in \<open>ft_frame\<close>.
\<close>

named_theorems ft_frame

subsection \<open>Buffers and the log\<close>

lemma upd_buf_ft [simp]: "ftable (upd_buf b g (k :: 'a kfiles_scheme)) = ftable k"
  by (simp add: upd_buf_def)

lemma upd_inode_ft [simp]: "ftable (upd_inode b g (k :: 'a kfiles_scheme)) = ftable k"
  by (simp add: upd_inode_def)

lemma disk_rw_ft [simp]: "ftable (disk_rw b w (k :: 'a kfiles_scheme)) = ftable k"
  by (simp add: disk_rw_def Let_def)

lemma list_ft [simp]: "ftable (link_front b (k :: 'a kfiles_scheme)) = ftable k" "ftable (unlink b k) = ftable k"
  by (simp_all add: link_front_def unlink_def Let_def)

lemma pin_ft [simp]: "ftable (bpin b (k :: 'a kfiles_scheme)) = ftable k" "ftable (bunpin b k) = ftable k" "ftable (set_data b d k) = ftable k"
  by (simp_all add: bpin_def bunpin_def set_data_def)

lemmas ft_simps = bindR_eq_Inr Let_def split_beta

lemma bget_ft [ft_frame]: "bget pid dev bn (k :: 'a kfiles_scheme) = Inr (b, k') \<Longrightarrow> ftable k' = ftable k"
  by (auto simp: bget_def ft_simps split: option.splits if_splits)

lemma bread_ft [ft_frame]: "bread pid dev bn (k :: 'a kfiles_scheme) = Inr (b, k') \<Longrightarrow> ftable k' = ftable k"
  by (auto simp: bread_def ft_simps dest!: ft_frame split: option.splits if_splits)

lemma bwrite_ft [ft_frame]: "bwrite pid b (k :: 'a kfiles_scheme) = Inr k' \<Longrightarrow> ftable k' = ftable k"
  by (auto simp: bwrite_def ft_simps dest!: ft_frame split: option.splits if_splits)

lemma brelse_ft [ft_frame]: "brelse pid b (k :: 'a kfiles_scheme) = Inr k' \<Longrightarrow> ftable k' = ftable k"
  by (auto simp: brelse_def ft_simps dest!: ft_frame split: option.splits if_splits)

lemma write_head_ft [ft_frame]: "write_head pid (k :: 'a kfiles_scheme) = Inr k' \<Longrightarrow> ftable k' = ftable k"
  by (auto simp: write_head_def ft_simps dest!: ft_frame split: option.splits if_splits)

lemma install_one_ft [ft_frame]: "install_one pid r i d (k :: 'a kfiles_scheme) = Inr k' \<Longrightarrow> ftable k' = ftable k"
  by (auto simp: install_one_def ft_simps dest!: ft_frame split: option.splits if_splits)

lemma install_loop_ft [ft_frame]: "install_loop pid r i ds (k :: 'a kfiles_scheme) = Inr k' \<Longrightarrow> ftable k' = ftable k"
  by (induction ds arbitrary: i k) (auto simp: ft_simps dest!: ft_frame split: option.splits if_splits)

lemma write_one_ft [ft_frame]: "write_one pid i d (k :: 'a kfiles_scheme) = Inr k' \<Longrightarrow> ftable k' = ftable k"
  by (auto simp: write_one_def ft_simps dest!: ft_frame split: option.splits if_splits)

lemma write_loop_ft [ft_frame]: "write_loop pid i ds (k :: 'a kfiles_scheme) = Inr k' \<Longrightarrow> ftable k' = ftable k"
  by (induction ds arbitrary: i k) (auto simp: ft_simps dest!: ft_frame split: option.splits if_splits)

lemma commit_ft [ft_frame]: "commit pid (k :: 'a kfiles_scheme) = Inr k' \<Longrightarrow> ftable k' = ftable k"
  by (auto simp: commit_def install_trans_def write_log_def ft_simps dest!: ft_frame split: option.splits if_splits)

lemma begin_op_ft [ft_frame]: "begin_op (k :: 'a kfiles_scheme) = Inr k' \<Longrightarrow> ftable k' = ftable k"
  by (auto simp: begin_op_def ft_simps dest!: ft_frame split: option.splits if_splits)

lemma end_op_ft [ft_frame]: "end_op pid (k :: 'a kfiles_scheme) = Inr k' \<Longrightarrow> ftable k' = ftable k"
  by (auto simp: end_op_def ft_simps dest!: ft_frame split: option.splits if_splits)

lemma log_write_ft [ft_frame]: "log_write b (k :: 'a kfiles_scheme) = Inr k' \<Longrightarrow> ftable k' = ftable k"
  by (auto simp: log_write_def ft_simps dest!: ft_frame split: option.splits if_splits)

subsection \<open>Blocks and inodes\<close>

lemma bzero_ft [ft_frame]: "bzero pid dev b (k :: 'a kfiles_scheme) = Inr k' \<Longrightarrow> ftable k' = ftable k"
  by (auto simp: bzero_def ft_simps dest!: ft_frame split: option.splits if_splits)

lemma bfree_ft [ft_frame]: "bfree pid dev b (k :: 'a kfiles_scheme) = Inr k' \<Longrightarrow> ftable k' = ftable k"
  by (auto simp: bfree_def ft_simps dest!: ft_frame split: option.splits if_splits)

lemma iupdate_ft [ft_frame]: "iupdate pid ip (k :: 'a kfiles_scheme) = Inr k' \<Longrightarrow> ftable k' = ftable k"
  by (auto simp: iupdate_def ft_simps dest!: ft_frame split: option.splits if_splits)

lemma ilock_ft [ft_frame]: "ilock pid ip (k :: 'a kfiles_scheme) = Inr k' \<Longrightarrow> ftable k' = ftable k"
  by (cases "i_valid (itable k ip)") (auto simp: ilock_def upd_inode_def ft_simps dest!: ft_frame split: if_splits)

lemma iunlock_ft [ft_frame]: "iunlock pid ip (k :: 'a kfiles_scheme) = Inr k' \<Longrightarrow> ftable k' = ftable k"
  by (auto simp: iunlock_def ft_simps dest!: ft_frame split: option.splits if_splits)

lemma iget_ft [ft_frame]: "iget dev i (k :: 'a kfiles_scheme) = Inr (ip, k') \<Longrightarrow> ftable k' = ftable k"
  by (auto simp: iget_def split: sum.splits option.splits)

lemma balloc_loop_ft [ft_frame]: "balloc_loop pid dev sp b (k :: 'a kfiles_scheme) = Inr (r, k') \<Longrightarrow> ftable k' = ftable k"
proof (induction pid dev sp b k arbitrary: r k' rule: balloc_loop.induct)
  case 1
  then show ?case by (subst (asm) balloc_loop.simps) (fastforce simp: ft_simps dest: ft_frame split: option.splits if_splits)
qed

lemma balloc_ft [ft_frame]: "balloc pid dev (k :: 'a kfiles_scheme) = Inr (r, k') \<Longrightarrow> ftable k' = ftable k"
  by (auto simp: balloc_def ft_simps dest!: ft_frame split: option.splits if_splits)

lemma ialloc_loop_ft [ft_frame]: "ialloc_loop pid dev ty sp i (k :: 'a kfiles_scheme) = Inr (r, k') \<Longrightarrow> ftable k' = ftable k"
proof (induction pid dev ty sp i k arbitrary: r k' rule: ialloc_loop.induct)
  case 1
  then show ?case by (subst (asm) ialloc_loop.simps) (fastforce simp: ft_simps dest: ft_frame split: option.splits if_splits)
qed

lemma ialloc_ft [ft_frame]: "ialloc pid dev ty (k :: 'a kfiles_scheme) = Inr (r, k') \<Longrightarrow> ftable k' = ftable k"
  by (auto simp: ialloc_def ft_simps dest!: ft_frame split: option.splits if_splits)

lemma bmap_ft [ft_frame]: "bmap pid ip bn (k :: 'a kfiles_scheme) = Inr (r, k') \<Longrightarrow> ftable k' = ftable k"
  by (auto simp: bmap_def ft_simps dest!: ft_frame split: option.splits if_splits)

lemma itrunc_direct_ft [ft_frame]: "itrunc_direct pid ip is' (k :: 'a kfiles_scheme) = Inr k' \<Longrightarrow> ftable k' = ftable k"
  by (induction is' arbitrary: k) (auto simp: ft_simps dest!: ft_frame split: option.splits if_splits)

lemma itrunc_indirect_ft [ft_frame]: "itrunc_indirect pid dev bp is' (k :: 'a kfiles_scheme) = Inr k' \<Longrightarrow> ftable k' = ftable k"
  by (induction is' arbitrary: k) (auto simp: ft_simps dest!: ft_frame split: option.splits if_splits)

lemma itrunc_ft [ft_frame]: "itrunc pid ip (k :: 'a kfiles_scheme) = Inr k' \<Longrightarrow> ftable k' = ftable k"
  by (auto simp: itrunc_def ft_simps dest!: ft_frame split: option.splits if_splits)

lemma iput_ft [ft_frame]: "iput pid ip (k :: 'a kfiles_scheme) = Inr k' \<Longrightarrow> ftable k' = ftable k"
  by (auto simp: iput_def ft_simps dest!: ft_frame split: option.splits if_splits)

lemma iunlockput_ft [ft_frame]: "iunlockput pid ip (k :: 'a kfiles_scheme) = Inr k' \<Longrightarrow> ftable k' = ftable k"
  by (auto simp: iunlockput_def ft_simps dest!: ft_frame split: option.splits if_splits)

lemma put_inode_ft [ft_frame]: "put_inode pid ip (k :: 'a kfiles_scheme) = Inr k' \<Longrightarrow> ftable k' = ftable k"
  by (auto simp: put_inode_def ft_simps dest!: ft_frame split: option.splits if_splits)

lemma readi_loop_ft [ft_frame]: "readi_loop cp pid ip dst off n tot (mm, (k :: 'a kfiles_scheme)) = Inr (r, mm', k') \<Longrightarrow> ftable k' = ftable k"
proof (induction "n - tot" arbitrary: dst off tot mm k rule: less_induct)
  case less
  show ?case using less.prems
    by (subst (asm) readi_loop.simps) (auto simp: ft_simps layout_simps dest!: ft_frame less.hyps [rotated] split: if_splits option.splits)
qed

lemma readi_ft [ft_frame]: "readi cp pid ip dst off n (mm, (k :: 'a kfiles_scheme)) = Inr (r, mm', k') \<Longrightarrow> ftable k' = ftable k"
  by (auto simp: readi_def ft_simps dest!: ft_frame split: option.splits if_splits)

lemma writei_loop_ft [ft_frame]: "writei_loop cp pid ip src off n tot (mm, (k :: 'a kfiles_scheme)) = Inr (r, off', mm', k') \<Longrightarrow> ftable k' = ftable k"
proof (induction "n - tot" arbitrary: src off tot mm k rule: less_induct)
  case less
  show ?case using less.prems
    by (subst (asm) writei_loop.simps) (auto simp: ft_simps layout_simps dest!: ft_frame less.hyps [rotated] split: if_splits option.splits)
qed

lemma writei_ft [ft_frame]: "writei cp pid ip src off n (mm, (k :: 'a kfiles_scheme)) = Inr (r, mm', k') \<Longrightarrow> ftable k' = ftable k"
  by (auto simp: writei_def ft_simps dest!: ft_frame split: option.splits if_splits)

subsection \<open>Directories and paths\<close>

lemma dirlookup_loop_ft [ft_frame]: "dirlookup_loop pid dp nm sz off (k :: 'a kfiles_scheme) = Inr (r, k') \<Longrightarrow> ftable k' = ftable k"
proof (induction "sz - off" arbitrary: off k rule: less_induct)
  case less
  show ?case using less.prems
    by (subst (asm) dirlookup_loop.simps) (auto simp: ft_simps layout_simps dest!: ft_frame less.hyps [rotated] split: if_splits option.splits)
qed

lemma dirlookup_ft [ft_frame]: "dirlookup pid dp nm (k :: 'a kfiles_scheme) = Inr (r, k') \<Longrightarrow> ftable k' = ftable k"
  by (auto simp: dirlookup_def ft_simps dest!: ft_frame split: option.splits if_splits)

lemma dirlink_slot_ft [ft_frame]: "dirlink_slot pid dp sz off (k :: 'a kfiles_scheme) = Inr (r, k') \<Longrightarrow> ftable k' = ftable k"
proof (induction pid dp sz off k arbitrary: r k' rule: dirlink_slot.induct)
  case 1
  then show ?case by (subst (asm) dirlink_slot.simps) (fastforce simp: ft_simps dest: ft_frame split: option.splits if_splits)
qed

lemma dirlink_ft [ft_frame]: "dirlink pid dp nm i (k :: 'a kfiles_scheme) = Inr (r, k') \<Longrightarrow> ftable k' = ftable k"
  by (auto simp: dirlink_def ft_simps dest!: ft_frame split: option.splits if_splits)

lemma namex_loop_ft [ft_frame]: "namex_loop pid par ip path nm (k :: 'a kfiles_scheme) = Inr (r, nm', k') \<Longrightarrow> ftable k' = ftable k"
proof (induction "length path" arbitrary: par ip path nm k rule: less_induct)
  case less
  show ?case using less.prems
    by (subst (asm) namex_loop.simps) (auto simp: ft_simps dest!: ft_frame less.hyps [rotated] intro: skipelem_shorter split: if_splits option.splits)
qed

lemma namex_ft [ft_frame]: "namex pid cwd path par nm (k :: 'a kfiles_scheme) = Inr (r, nm', k') \<Longrightarrow> ftable k' = ftable k"
  by (auto simp: namex_def idup_def ft_simps dest!: ft_frame split: option.splits if_splits)

lemma namei_ft [ft_frame]: "namei pid cwd path (k :: 'a kfiles_scheme) = Inr (r, k') \<Longrightarrow> ftable k' = ftable k"
  by (auto simp: namei_def ft_simps dest!: ft_frame split: option.splits if_splits)

lemma nameiparent_ft [ft_frame]: "nameiparent pid cwd path nm (k :: 'a kfiles_scheme) = Inr (r, nm', k') \<Longrightarrow> ftable k' = ftable k"
  by (auto simp: nameiparent_def ft_simps dest!: ft_frame split: option.splits if_splits)

lemma isdirempty_loop_ft [ft_frame]: "isdirempty_loop pid dp sz off (k :: 'a kfiles_scheme) = Inr (r, k') \<Longrightarrow> ftable k' = ftable k"
proof (induction pid dp sz off k arbitrary: r k' rule: isdirempty_loop.induct)
  case 1
  then show ?case by (subst (asm) isdirempty_loop.simps) (fastforce simp: ft_simps dest: ft_frame split: option.splits if_splits)
qed

lemma isdirempty_ft [ft_frame]: "isdirempty pid dp (k :: 'a kfiles_scheme) = Inr (r, k') \<Longrightarrow> ftable k' = ftable k"
  by (auto simp: isdirempty_def ft_simps dest!: ft_frame split: option.splits if_splits)

subsection \<open>System calls on paths\<close>

lemma create_fail_ft [ft_frame]: "create_fail pid dp ip (k :: 'a kfiles_scheme) = Inr (r, k') \<Longrightarrow> ftable k' = ftable k"
  by (auto simp: create_fail_def ft_simps dest!: ft_frame split: option.splits if_splits)

lemma create_new_ft [ft_frame]: "create_new pid dp ip nm ty mj mn (k :: 'a kfiles_scheme) = Inr (r, k') \<Longrightarrow> ftable k' = ftable k"
  by (auto simp: create_new_def ft_simps dest!: ft_frame split: option.splits if_splits)

lemma create_ft [ft_frame]: "create pid cwd path ty mj mn (k :: 'a kfiles_scheme) = Inr (r, k') \<Longrightarrow> ftable k' = ftable k"
  by (auto simp: create_def ft_simps dest!: ft_frame split: option.splits if_splits)

lemma open_inode_ft [ft_frame]: "open_inode pid cwd path om (k :: 'a kfiles_scheme) = Inr (r, k') \<Longrightarrow> ftable k' = ftable k"
  by (auto simp: open_inode_def ft_simps dest!: ft_frame split: option.splits if_splits)

lemma finish_ft [ft_frame]: "finish pid v s (k :: 'a kfiles_scheme) = Inr (r, s', k') \<Longrightarrow> s' = s \<and> ftable k' = ftable k"
  by (auto simp: finish_def sys_ret_def ft_simps dest!: ft_frame split: option.splits if_splits)

lemma link_bad_ft [ft_frame]: "link_bad pid ip s (k :: 'a kfiles_scheme) = Inr (r, s', k') \<Longrightarrow> s' = s \<and> ftable k' = ftable k"
  by (auto simp: link_bad_def ft_simps dest!: ft_frame split: option.splits if_splits)

lemma link_paths_ft [ft_frame]: "link_paths pid cwd old new s (k :: 'a kfiles_scheme) = Inr (r, s', k') \<Longrightarrow> s' = s \<and> ftable k' = ftable k"
  by (auto simp: link_paths_def ft_simps dest!: ft_frame split: option.splits if_splits)

lemma unlink_bad_ft [ft_frame]: "unlink_bad pid dp s (k :: 'a kfiles_scheme) = Inr (r, s', k') \<Longrightarrow> s' = s \<and> ftable k' = ftable k"
  by (auto simp: unlink_bad_def ft_simps dest!: ft_frame split: option.splits if_splits)

lemma unlink_entry_ft [ft_frame]: "unlink_entry pid dp ip off s (k :: 'a kfiles_scheme) = Inr (r, s', k') \<Longrightarrow> s' = s \<and> ftable k' = ftable k"
  by (auto simp: unlink_entry_def ft_simps dest!: ft_frame split: option.splits if_splits)

lemma unlink_path_ft [ft_frame]: "unlink_path pid cwd path s (k :: 'a kfiles_scheme) = Inr (r, s', k') \<Longrightarrow> s' = s \<and> ftable k' = ftable k"
  by (auto simp: unlink_path_def ft_simps dest!: ft_frame split: option.splits if_splits)

lemma make_node_ft [ft_frame]: "make_node pid cwd path ty mj mn s (k :: 'a kfiles_scheme) = Inr (r, s', k') \<Longrightarrow> s' = s \<and> ftable k' = ftable k"
  by (auto simp: make_node_def ft_simps dest!: ft_frame split: option.splits if_splits)

end
