(* ===== verification/FileRefs.thy ===== *)
theory FileRefs
  imports FsFrame Trap
begin

text \<open>
  The descriptors of the processes and the table of open files together: an entry of \<open>ftable\<close> counts exactly the
  descriptors that name it, through every system call and every trap.
\<close>

subsection \<open>References\<close>

text \<open>The descriptors, as pairs of a process and a number, that name the open file \<open>f\<close>.\<close>

definition slots :: "psys \<Rightarrow> nat \<Rightarrow> (nat \<times> nat) set" where
  "slots s f = {x \<in> {..<NPROC} \<times> {..<NOFILE}. p_ofile (ptab s (fst x)) (snd x) = Some f}"

text \<open>
  The counts are right up to \<open>e f\<close> references to \<open>f\<close> that the running code holds outside the descriptors. A file that
  some descriptor names has a type.
\<close>

definition balanced :: "psys \<Rightarrow> (nat \<Rightarrow> ofile) \<Rightarrow> (nat \<Rightarrow> int) \<Rightarrow> bool" where
  "balanced s t e \<longleftrightarrow> (\<forall>f<NFILE. f_ref (t f) = int (card (slots s f)) + e f
       \<and> (0 < f_ref (t f) \<and> f_ref (t f) \<noteq> e f \<longrightarrow> f_type (t f) \<noteq> FD_NONE))
     \<and> (\<forall>p<NPROC. \<forall>fd<NOFILE. \<forall>f. p_ofile (ptab s p) fd = Some f \<longrightarrow> f < NFILE)"

definition dead :: "procstate \<Rightarrow> bool" where
  "dead st \<longleftrightarrow> st = UNUSED \<or> st = ZOMBIE"

definition no_files :: "psys \<Rightarrow> nat \<Rightarrow> bool" where
  "no_files s p \<longleftrightarrow> (\<forall>fd<NOFILE. p_ofile (ptab s p) fd = None)"

abbreviation dead_clean :: "psys \<Rightarrow> bool" where
  "dead_clean s \<equiv> \<forall>p<NPROC. dead (p_state (ptab s p)) \<longrightarrow> no_files s p"

definition files_ok :: "psys \<times> 'a kfiles_scheme \<Rightarrow> bool" where
  "files_ok = (\<lambda>(s, k). balanced s (ftable k) (\<lambda>_. 0) \<and> dead_clean s)"

text \<open>What leaves the descriptors alone.\<close>

definition same_files :: "psys \<Rightarrow> psys \<Rightarrow> bool" where
  "same_files s s' \<longleftrightarrow> (\<forall>p. p_ofile (ptab s' p) = p_ofile (ptab s p) \<and> (dead (p_state (ptab s' p)) \<longrightarrow> dead (p_state (ptab s p))))"

lemma same_files_refl [simp, intro]: "same_files s s"
  by (simp add: same_files_def)

lemma same_files_trans [trans]: "same_files s t \<Longrightarrow> same_files t u \<Longrightarrow> same_files s u"
  by (simp add: same_files_def)

lemma same_files_pkm [simp]: "same_files s (t\<lparr>pkm := m\<rparr>) = same_files s t" "same_files (s\<lparr>pkm := m\<rparr>) t = same_files s t"
  by (simp_all add: same_files_def)

lemma same_slots: "same_files s s' \<Longrightarrow> slots s' f = slots s f"
  by (simp add: same_files_def slots_def)

lemma same_balanced: "balanced s t e \<Longrightarrow> same_files s s' \<Longrightarrow> balanced s' t e"
  by (simp add: balanced_def same_slots) (simp add: same_files_def)

definition same_refs :: "(nat \<Rightarrow> ofile) \<Rightarrow> (nat \<Rightarrow> ofile) \<Rightarrow> bool" where
  "same_refs t t' \<longleftrightarrow> (\<forall>f. f_ref (t' f) = f_ref (t f) \<and> f_type (t' f) = f_type (t f))"

lemma same_refs_refl [simp, intro]: "same_refs t t"
  by (simp add: same_refs_def)

lemma same_refs_trans [trans]: "same_refs t u \<Longrightarrow> same_refs u v \<Longrightarrow> same_refs t v"
  by (simp add: same_refs_def)

lemma files_ok_same:
  assumes "files_ok (s, k)" "same_files s s'" "same_refs (ftable k) (ftable k')" shows "files_ok (s', k')"
proof -
  have "balanced s' (ftable k) (\<lambda>_. 0)" using assms(1,2) by (auto simp: files_ok_def same_balanced)
  then have "balanced s' (ftable k') (\<lambda>_. 0)" using assms(3) by (simp add: balanced_def same_refs_def)
  then show ?thesis using assms(1,2) by (auto simp: files_ok_def same_files_def no_files_def)
qed

subsection \<open>One descriptor\<close>

abbreviation set_fd :: "nat \<Rightarrow> nat \<Rightarrow> nat option \<Rightarrow> psys \<Rightarrow> psys" where
  "set_fd p fd v \<equiv> upd_proc p (\<lambda>x. x\<lparr>p_ofile := (p_ofile x)(fd := v)\<rparr>)"

lemma finite_slots [simp]: "finite (slots s f)"
  by (rule finite_subset [of _ "{..<NPROC} \<times> {..<NOFILE}"]) (auto simp: slots_def)

lemma slots_set_fd:
  assumes "p < NPROC" "fd < NOFILE"
  shows "slots (set_fd p fd v s) f = (if v = Some f then insert (p, fd) (slots s f) else slots s f - {(p, fd)})"
  using assms by (auto simp: slots_def)

lemma card_set_fd:
  assumes "p < NPROC" "fd < NOFILE"
  shows "int (card (slots (set_fd p fd v s) f)) = int (card (slots s f))
    + (if v = Some f then 1 else 0) - (if p_ofile (ptab s p) fd = Some f then 1 else 0)"
proof -
  have m: "(p, fd) \<in> slots s f \<longleftrightarrow> p_ofile (ptab s p) fd = Some f" using assms by (simp add: slots_def)
  show ?thesis
  proof (cases "(p, fd) \<in> slots s f")
    case True
    then have "0 < card (slots s f)" using card_gt_0_iff by fastforce
    then show ?thesis using True m by (simp add: slots_set_fd [OF assms] insert_absorb)
  next
    case False
    then show ?thesis using m by (simp add: slots_set_fd [OF assms])
  qed
qed

text \<open>Giving a held reference to a descriptor, and taking it back.\<close>

lemma balanced_give:
  assumes "balanced s t e" "p < NPROC" "fd < NOFILE" "p_ofile (ptab s p) fd = None" "f < NFILE" "f_type (t f) \<noteq> FD_NONE"
  shows "balanced (set_fd p fd (Some f) s) t (e(f := e f - 1))"
  using assms by (auto simp: balanced_def card_set_fd)

lemma slots_pos:
  assumes "p < NPROC" "fd < NOFILE" "p_ofile (ptab s p) fd = Some f" shows "0 < card (slots s f)"
proof -
  have "(p, fd) \<in> slots s f" using assms by (simp add: slots_def)
  then show ?thesis using card_gt_0_iff by fastforce
qed

lemma balanced_fd:
  assumes "balanced s t e" "p < NPROC" "fd < NOFILE" "p_ofile (ptab s p) fd = Some f"
  shows "f < NFILE" "0 < f_ref (t f) \<Longrightarrow> f_type (t f) \<noteq> FD_NONE"
proof -
  show f: "f < NFILE" using assms unfolding balanced_def by blast
  show "f_type (t f) \<noteq> FD_NONE" if "0 < f_ref (t f)"
  proof -
    have "f_ref (t f) \<noteq> e f" using assms(1) f slots_pos [OF assms(2-4)] by (auto simp: balanced_def card_gt_0_iff)
    then show ?thesis using assms(1) f that by (simp add: balanced_def)
  qed
qed

lemma balanced_take:
  assumes "balanced s t e" "p < NPROC" "fd < NOFILE" "p_ofile (ptab s p) fd = Some f"
  shows "balanced (set_fd p fd None s) t (e(f := e f + 1))"
  using assms balanced_fd [OF assms] by (auto simp: balanced_def card_set_fd)

subsection \<open>The open-file table\<close>

lemma filealloc_balanced:
  assumes "filealloc k = (Some f, k')" "balanced s (ftable k) e" "e f = 0"
  shows "balanced s (ftable k') (e(f := e f + 1)) \<and> f < NFILE"
proof -
  have f: "f < NFILE" "f_ref (ftable k f) = 0" "k' = upd_file f (\<lambda>x. x\<lparr>f_ref := 1\<rparr>) k"
    using assms(1) by (auto simp: filealloc_def find_Some_iff split: option.splits)
  then have "card (slots s f) = 0" using assms(2,3) by (auto simp: balanced_def)
  then show ?thesis using f assms(2,3) by (auto simp: balanced_def upd_file_def)
qed

lemma filedup_balanced:
  assumes "filedup f k = Inr k'" "balanced s (ftable k) e" "f < NFILE"
  shows "balanced s (ftable k') (e(f := e f + 1)) \<and> f_type (ftable k' f) = f_type (ftable k f)"
  using assms by (auto simp: filedup_def balanced_def upd_file_def split: if_splits)

text \<open>Setting up an open file.\<close>

lemma balanced_upd:
  assumes "balanced s t e" "\<And>x. f_ref (g x) = f_ref x" "\<And>x. f_type x \<noteq> FD_NONE \<Longrightarrow> f_type (g x) \<noteq> FD_NONE"
  shows "balanced s (t(f := g (t f))) e"
  using assms by (auto simp: balanced_def)

lemma pipeclose_frame:
  assumes "pipeclose kend me pi w (s, k) = Inr (s', k')" shows "same_files s s' \<and> ftable k' = ftable k"
proof -
  have "same_files s (wakeup me' cn s)" for me' cn by (auto simp: same_files_def wakeup_simps dead_def)
  then show ?thesis using assms
    by (auto simp: pipeclose_def upd_pipe_def Let_def bindR_eq_Inr split: if_splits)
qed

lemma fileclose_sf: "fileclose kend me f (s, k) = Inr (s', k') \<Longrightarrow> same_files s s'"
  unfolding fileclose_def prod.case Let_def
  by (auto simp: bindR_eq_Inr dest!: pipeclose_frame split: if_splits filetype.splits)

lemma fileclose_balanced:
  assumes "fileclose kend me f (s, k) = Inr (s', k')" "balanced s (ftable k) e" "f < NFILE"
  shows "balanced s (ftable k') (e(f := e f - 1)) \<and> same_files s s'"
proof -
  let ?t = "ftable k" and ?r = "f_ref (ftable k f) - 1"
  have r: "1 \<le> f_ref (?t f)" using assms(1) by (auto simp: fileclose_def split: if_splits)
  have b: "balanced s (?t(f := x)) (e(f := e f - 1))" if "f_ref x = ?r" "?r = 0 \<or> f_type x = f_type (?t f)" for x
    using assms(2,3) that r by (auto simp: balanced_def)
  have "same_files s s' \<and> (\<exists>x. ftable k' = ?t(f := x) \<and> f_ref x = ?r \<and> (?r = 0 \<or> f_type x = f_type (?t f)))"
    using assms(1) r unfolding fileclose_def prod.case Let_def
    by (auto simp: bindR_eq_Inr upd_file_def dest!: pipeclose_frame put_inode_ft split: if_splits filetype.splits)
  then show ?thesis using b by metis
qed

subsection \<open>What does not touch the descriptors\<close>

named_theorems sf_frame

lemma same_files_upd:
  assumes "same_files s t" "\<And>x. p_ofile (g x) = p_ofile x" "\<And>x. dead (p_state (g x)) \<Longrightarrow> dead (p_state x)"
  shows "same_files s (upd_proc p g t)"
  using assms by (auto simp: same_files_def)

lemma wakeup_sf [simp]: "same_files s (wakeup me cn s)"
  by (auto simp: same_files_def wakeup_simps dead_def)

lemma park_sf [simp]: "same_files s (sleep_enter p cn s)" "same_files s (yield_enter p s)" "same_files s (setkilled p s)"
  by (auto simp: same_files_def sleep_enter_def yield_enter_def setkilled_def dead_def)

lemma sleep_wakeup_sf [simp]: "same_files s (sleep_enter p cn (wakeup me cm s))"
  by (rule same_files_trans [OF wakeup_sf park_sf(1)])

lemma either_copyout_sf [sf_frame]: "either_copyout kend p u dst src s = Inr (r, s') \<Longrightarrow> same_files s s'"
  by (auto simp: either_copyout_def ft_simps split: if_splits)

lemma either_copyin_sf [sf_frame]: "either_copyin kend p u src n s = Inr (r, bs, s') \<Longrightarrow> same_files s s'"
  by (auto simp: either_copyin_def ft_simps split: if_splits)

lemma copy_user_sf [sf_frame]:
  "copy_to_user kend me dst bs s = Inr (ok, s') \<Longrightarrow> same_files s s'"
  "copy_from_user kend me src n s = Inr (ok, bs', s') \<Longrightarrow> same_files s s'"
  by (auto simp: copy_to_user_def copy_from_user_def ft_simps dest: sf_frame)

lemma byte_sf [sf_frame]:
  "fetch_byte kend me addr i s = Inr (r, s') \<Longrightarrow> same_files s s'"
  "store_byte kend me addr i cn s = Inr (ok, s') \<Longrightarrow> same_files s s'"
  by (auto simp: fetch_byte_def store_byte_def ft_simps)

text \<open>The loops that copy from and to the user.\<close>

lemma pipewrite_sf: "pipewrite (fetch_byte kend me addr) kl n i (q, s) = Inr (r, q', s') \<Longrightarrow> same_files s s'"
proof (induction "nat (n - int i)" arbitrary: kl i q s rule: less_induct)
  case less
  show ?case using less.prems
    by (subst (asm) pipewrite.simps)
      (auto simp: ft_simps layout_simps dest!: byte_sf(1) less.hyps [rotated] intro: same_files_trans split: if_splits option.splits)
qed

lemma piperead_loop_sf: "piperead_loop (store_byte kend me addr) n i (q, s) = Inr (r, q', s') \<Longrightarrow> same_files s s'"
proof (induction "nat (n - int i)" arbitrary: i q s rule: less_induct)
  case less
  show ?case using less.prems
    by (subst (asm) piperead_loop.simps)
      (auto simp: ft_simps layout_simps dest!: byte_sf(2) less.hyps [rotated] intro: same_files_trans split: if_splits option.splits)
qed

lemma readi_loop_sf: "readi_loop (copy_to_user kend me) pid ip dst off n tot (s, k) = Inr (r, s', k') \<Longrightarrow> same_files s s'"
proof (induction "n - tot" arbitrary: dst off tot s k rule: less_induct)
  case less
  show ?case using less.prems
    by (subst (asm) readi_loop.simps)
      (auto simp: ft_simps layout_simps dest!: copy_user_sf(1) less.hyps [rotated] intro: same_files_trans split: if_splits option.splits)
qed

lemma writei_loop_sf: "writei_loop (copy_from_user kend me) pid ip src off n tot (s, k) = Inr (r, off', s', k') \<Longrightarrow> same_files s s'"
proof (induction "n - tot" arbitrary: src off tot s k rule: less_induct)
  case less
  show ?case using less.prems
    by (subst (asm) writei_loop.simps)
      (auto simp: ft_simps layout_simps dest!: copy_user_sf(2) less.hyps [rotated] intro: same_files_trans split: if_splits option.splits)
qed

lemma readi_frame:
  assumes "readi (copy_to_user kend me) pid ip dst off n (s, k) = Inr (r, s', k')" shows "same_files s s' \<and> ftable k' = ftable k"
  using assms readi_ft [OF assms] by (auto simp: readi_def Let_def dest!: readi_loop_sf split: if_splits)

lemma writei_frame:
  assumes "writei (copy_from_user kend me) pid ip src off n (s, k) = Inr (r, s', k')" shows "same_files s s' \<and> ftable k' = ftable k"
  using assms writei_ft [OF assms] by (auto simp: writei_def ft_simps dest!: writei_loop_sf split: if_splits)

lemmas inode_io_frame = begin_op_ft end_op_ft ilock_ft iunlock_ft readi_frame writei_frame

lemma file_pipe_sf [sf_frame]:
  "file_pipewrite kend me pi addr n i (s, k) = Inr (r, s', k') \<Longrightarrow> same_files s s' \<and> ftable k' = ftable k"
  "file_piperead kend me pi addr n (s, k) = Inr (r, s', k') \<Longrightarrow> same_files s s' \<and> ftable k' = ftable k"
proof -
  have w: "same_files s t \<Longrightarrow> same_files s (wakeup a cn t)" "same_files s t \<Longrightarrow> same_files s (sleep_enter p cn t)"
    "same_files s t \<Longrightarrow> same_files s (sleep_enter p cn (wakeup a cm t))" for t a cn cm p
    using same_files_trans wakeup_sf park_sf sleep_wakeup_sf by blast+
  show "file_pipewrite kend me pi addr n i (s, k) = Inr (r, s', k') \<Longrightarrow> same_files s s' \<and> ftable k' = ftable k"
    by (cases r) (auto simp: file_pipewrite_def ft_simps upd_pipe_def w dest!: pipewrite_sf split: if_splits)
  show "file_piperead kend me pi addr n (s, k) = Inr (r, s', k') \<Longrightarrow> same_files s s' \<and> ftable k' = ftable k"
    by (cases r) (auto simp: file_piperead_def piperead_def ft_simps upd_pipe_def w dest!: piperead_loop_sf split: if_splits)
qed

subsection \<open>Reading and writing\<close>

definition keeps :: "psys \<times> 'a kfiles_scheme \<Rightarrow> psys \<times> 'a kfiles_scheme \<Rightarrow> bool" where
  "keeps = (\<lambda>(s, k) (s', k'). same_files s s' \<and> same_refs (ftable k) (ftable k'))"

lemma keeps_ok: "files_ok sk \<Longrightarrow> keeps sk sk' \<Longrightarrow> files_ok sk'"
  by (cases sk; cases sk') (auto simp: keeps_def intro: files_ok_same)

lemma keeps_refl [simp, intro]: "keeps sk sk" by (cases sk) (simp add: keeps_def)

lemma keeps_trans [trans]: "keeps a b \<Longrightarrow> keeps b c \<Longrightarrow> keeps a c"
  by (cases a; cases b; cases c) (auto simp: keeps_def intro: same_files_trans same_refs_trans)

lemma off_ft [simp]: "same_refs t (ftable (upd_file f (\<lambda>x. x\<lparr>f_off := g x\<rparr>) k)) = same_refs t (ftable k)"
  "same_refs (ftable (upd_file f (\<lambda>x. x\<lparr>f_off := g x\<rparr>) k)) t = same_refs (ftable k) t"
  by (auto simp: same_refs_def upd_file_def)

lemma fileread_keeps:
  assumes "fileread kend dev me f addr n (s, k) = Inr (r, s', k')"
    and "\<And>d h. dev d = Some h \<Longrightarrow> h addr n (s, k) = Inr (r, s', k') \<Longrightarrow> keeps (s, k) (s', k')"
  shows "keeps (s, k) (s', k')"
proof (cases "f_type (ftable k f)")
  case FD_INODE
  then show ?thesis using assms(1) unfolding fileread_def keeps_def prod.case Let_def
    by (auto simp: bindR_eq_Inr dest!: inode_io_frame split: if_splits)
qed (use assms in \<open>auto simp: fileread_def keeps_def Let_def dest!: file_pipe_sf split: if_splits option.splits\<close>)

lemma filewrite_loop_keeps:
  "filewrite_loop kend me f addr n i (s, k) = Inr (r, s', k') \<Longrightarrow> keeps (s, k) (s', k')"
proof (induction "nat (n - i)" arbitrary: i s k rule: less_induct)
  case less
  show ?case using less.prems
    by (subst (asm) filewrite_loop.simps)
      (auto simp: ft_simps WMAX_eq keeps_def dest!: inode_io_frame less.hyps [rotated] intro: same_files_trans same_refs_trans split: if_splits)
qed

lemma filewrite_keeps:
  assumes "filewrite kend dev me f addr n (s, k) = Inr (r, s', k')"
    and "\<And>d h. dev d = Some h \<Longrightarrow> h addr n (s, k) = Inr (r, s', k') \<Longrightarrow> keeps (s, k) (s', k')"
  shows "keeps (s, k) (s', k')"
proof (cases "f_type (ftable k f)")
  case FD_INODE
  then show ?thesis using assms(1)
    by (auto simp: filewrite_def ft_simps dest!: filewrite_loop_keeps split: if_splits)
qed (use assms in \<open>auto simp: filewrite_def keeps_def Let_def dest!: file_pipe_sf split: if_splits option.splits\<close>)

lemma filestat_keeps: "filestat kend pad me f addr (s, k) = Inr (r, s', k') \<Longrightarrow> keeps (s, k) (s', k')"
  by (auto simp: filestat_def keeps_def ft_simps dest!: inode_io_frame either_copyout_sf split: if_splits)

lemma consoleread_sf: "consoleread_loop kend rc me u dst t n (s, c) = Inr (r, s', c') \<Longrightarrow> same_files s s'"
proof (induction "nat n" arbitrary: dst n s c rule: less_induct)
  case less
  show ?case using less.prems
    by (subst (asm) consoleread_loop.simps)
      (auto simp: ft_simps dest!: either_copyout_sf less.hyps [rotated] intro: same_files_trans split: if_splits)
qed

lemma consolewrite_sf: "consolewrite_loop kend me u src n i (s, c) = Inr (r, s', c') \<Longrightarrow> same_files s s'"
proof (induction "nat (n - i)" arbitrary: i s c rule: less_induct)
  case less
  show ?case using less.prems
    by (subst (asm) consolewrite_loop.simps)
      (auto simp: ft_simps dest!: either_copyin_sf less.hyps [rotated] intro: same_files_trans split: if_splits)
qed

lemma console_keeps:
  "console_read im me addr n sk = Inr (r, sk') \<Longrightarrow> keeps sk sk'"
  "console_write im me addr n sk = Inr (r, sk') \<Longrightarrow> keeps sk sk'"
  by (cases sk; auto simp: console_read_def console_write_def consoleread_def consolewrite_def keeps_def ft_simps
    dest!: consoleread_sf consolewrite_sf)+

subsection \<open>System calls that keep the descriptors\<close>

lemma sys_read_keeps:
  assumes "sys_read im (\<lambda>d. if d = CONSOLE then Some (console_read im me) else None) me sk = Inr (r, sk')" shows "keeps sk sk'"
proof -
  have dev: "\<And>h. (if d = CONSOLE then Some (console_read im me) else None) = Some h \<Longrightarrow> h addr n sk = Inr (r, sk') \<Longrightarrow> keeps sk sk'"
    for d addr n sk sk' r by (auto dest: console_keeps split: if_splits)
  show ?thesis using assms
    by (cases sk; cases sk') (auto simp: sys_read_def sys_ret_def ft_simps dest!: fileread_keeps [OF _ dev] split: option.splits)
qed

lemma sys_write_keeps:
  assumes "sys_write im (\<lambda>d. if d = CONSOLE then Some (console_write im me) else None) me sk = Inr (r, sk')" shows "keeps sk sk'"
proof -
  have dev: "\<And>h. (if d = CONSOLE then Some (console_write im me) else None) = Some h \<Longrightarrow> h addr n sk = Inr (r, sk') \<Longrightarrow> keeps sk sk'"
    for d addr n sk sk' r by (auto dest: console_keeps split: if_splits)
  show ?thesis using assms
    by (cases sk; cases sk') (auto simp: sys_write_def sys_ret_def ft_simps dest!: filewrite_keeps [OF _ dev] split: option.splits)
qed

lemma sys_fstat_keeps: "sys_fstat im me sk = Inr (r, sk') \<Longrightarrow> keeps sk sk'"
  by (cases sk; cases sk') (auto simp: sys_fstat_def sys_ret_def ft_simps dest!: filestat_keeps split: option.splits)

lemma path_calls_keep:
  "sys_link me sk = Inr (r, sk') \<Longrightarrow> keeps sk sk'" "sys_unlink me sk = Inr (r, sk') \<Longrightarrow> keeps sk sk'"
  "sys_mkdir me sk = Inr (r, sk') \<Longrightarrow> keeps sk sk'" "sys_mknod me sk = Inr (r, sk') \<Longrightarrow> keeps sk sk'"
  by (cases sk; cases sk';
    auto simp: sys_link_def sys_unlink_def sys_mkdir_def sys_mknod_def sys_ret_def keeps_def ft_simps dest!: ft_frame split: option.splits)+

lemma sys_chdir_keeps: "sys_chdir me sk = Inr (r, sk') \<Longrightarrow> keeps sk sk'"
  by (cases sk; cases sk')
    (auto simp: sys_chdir_def sys_ret_def keeps_def ft_simps dest!: ft_frame intro!: same_files_upd split: option.splits if_splits)

lemma freeproc_sf:
  assumes "freeproc kend p s = Inr s'" "dead (p_state (ptab s p))" shows "same_files s s'"
  unfolding same_files_def
proof
  fix q
  show "p_ofile (ptab s' q) = p_ofile (ptab s q) \<and> (dead (p_state (ptab s' q)) \<longrightarrow> dead (p_state (ptab s q)))"
    by (cases "q = p") (use assms in \<open>auto simp: freeproc_def ft_simps\<close>)
qed

lemma kwait_sf: "kwait_scan kend p addr pps hk s = Inr (r, s') \<Longrightarrow> same_files s s'"
proof (induction pps arbitrary: hk)
  case (Cons pp pps)
  have free: "same_files s s'" if "freeproc kend pp (s\<lparr>pkm := m\<rparr>) = Inr s'" "p_state (ptab s pp) = ZOMBIE" for m s'
    using freeproc_sf [OF that(1)] that(2) by (simp add: dead_def)
  show ?case
  proof (cases "p_parent (ptab s pp) = Some p \<and> p_state (ptab s pp) = ZOMBIE")
    case True
    then show ?thesis using Cons.prems by (auto simp: ft_simps dead_def dest!: free freeproc_sf split: if_splits)
  next
    case False
    then show ?thesis using Cons.IH Cons.prems by (auto split: if_splits)
  qed
qed (auto split: if_splits)

lemma growproc_sf: "growproc kend p n s = Inr (r, s') \<Longrightarrow> same_files s s'"
  by (auto simp: growproc_def ft_simps intro!: same_files_upd split: if_splits)

lemma kkill_sf: "same_files s (snd (kkill pid s))"
  by (auto simp: kkill_def Let_def same_files_def dead_def split: option.splits if_splits)

lemma process_calls_keep:
  "sys_getpid me sk = Inr (r, sk') \<Longrightarrow> keeps sk sk'" "sys_uptime me sk = Inr (r, sk') \<Longrightarrow> keeps sk sk'"
  "sys_pause im me sk = Inr (r, sk') \<Longrightarrow> keeps sk sk'"
  by (cases sk; cases sk'; auto simp: sys_getpid_def sys_uptime_def sys_pause_def pause_loop_def sys_ret_def keeps_def ft_simps
    split: if_splits)+

lemma sys_kill_keeps: "sys_kill me sk = Inr (r, sk') \<Longrightarrow> keeps sk sk'"
  by (cases sk; cases sk') (auto simp: sys_kill_def sys_ret_def keeps_def ft_simps kkill_sf)

lemma sys_wait_keeps: "sys_wait im me sk = Inr (r, sk') \<Longrightarrow> keeps sk sk'"
  by (cases sk; cases sk') (auto simp: sys_wait_def kwait_def sys_ret_def keeps_def ft_simps dest!: kwait_sf split: option.splits)

lemma sys_sbrk_keeps: "sys_sbrk im me sk = Inr (r, sk') \<Longrightarrow> keeps sk sk'"
  by (cases sk; cases sk')
    (auto simp: sys_sbrk_def sys_ret_def keeps_def ft_simps dest!: growproc_sf intro!: same_files_upd split: if_splits)

lemma loadseg_ft: "loadseg_loop pid pt va ip off sz i (m, k :: 'a kfiles_scheme) = Inr (r, m', k') \<Longrightarrow> ftable k' = ftable k"
proof (induction "sz - i" arbitrary: i m k rule: less_induct)
  case less
  show ?case using less.prems
    by (subst (asm) loadseg_loop.simps) (auto simp: ft_simps dest!: ft_frame less.hyps [rotated] split: if_splits)
qed

lemma exec_load_ft: "exec_load kend pid ip pt phnum i off sz (m, k :: 'a kfiles_scheme) = Inr (r, sz', m', k') \<Longrightarrow> ftable k' = ftable k"
proof (induction "phnum - i" arbitrary: i off sz m k rule: less_induct)
  case less
  show ?case using less.prems
    by (subst (asm) exec_load.simps)
      (auto simp: ft_simps loadseg_def dest!: ft_frame loadseg_ft less.hyps [rotated] split: if_splits)
qed

lemma exec_bad_keeps: "exec_bad kend pid pt sz ip (s, k :: 'a kfiles_scheme) = Inr (r, s', k') \<Longrightarrow> keeps (s, k) (s', k')"
  by (auto simp: exec_bad_def keeps_def ft_simps dest!: ft_frame split: option.splits if_splits)

lemma exec_commit_sf: "exec_commit kend me path pt sz entry sp s = Inr s' \<Longrightarrow> same_files s s'"
  by (auto simp: exec_commit_def ft_simps intro!: same_files_upd)

lemma keeps_pkm [simp]: "keeps (s\<lparr>pkm := m\<rparr>, k) sk = keeps (s, k) sk"
  by (cases sk) (simp add: keeps_def same_files_def)

lemma kexec_keeps: "kexec im me path argv (s, k :: 'a kfiles_scheme) = Inr (r, s', k') \<Longrightarrow> keeps (s, k) (s', k')"
  unfolding kexec_def prod.case Let_def
  by (auto simp: ft_simps keeps_def dest!: ft_frame exec_load_ft exec_bad_keeps exec_commit_sf split: option.splits if_splits)

lemma fetch_args_sf: "fetch_args kend me ua i argv s = Inr (ok, argv', s') \<Longrightarrow> same_files s s'"
proof (induction "MAXARG - i" arbitrary: i argv s rule: less_induct)
  case less
  have addr: "fetchaddr kend me a s = Inr (r, s1) \<Longrightarrow> same_files s s1" for a r s1
    by (auto simp: fetchaddr_def ft_simps split: if_splits)
  show ?case
  proof (cases "MAXARG \<le> i")
    case False
    then obtain r s1 where a: "fetchaddr kend me (ua + 8 * of_nat i) s = Inr (r, s1)"
      using less.prems by (subst (asm) fetch_args.simps) (auto simp: bindR_eq_Inr)
    note p = less.prems [unfolded fetch_args.simps [of kend me ua i], simplified a]
    show ?thesis using p addr [OF a] False
      by (cases r; cases "fetchstr me (the r) 4096 (s1\<lparr>pkm := snd (kalloc (pkm s1))\<rparr>)")
        (auto simp: ft_simps dest!: less.hyps [rotated] intro: same_files_trans split: if_splits)
  qed (use less.prems in \<open>simp add: fetch_args.simps\<close>)
qed

lemma free_args_sf: "free_args kend argv s = Inr s' \<Longrightarrow> same_files s s'"
proof (induction argv arbitrary: s)
  case (Cons a argv)
  then show ?case by (cases a) (auto simp: ft_simps dest!: Cons.IH)
qed simp

lemma sys_exec_keeps: "sys_exec im me sk = Inr (r, sk') \<Longrightarrow> keeps sk sk'"
  by (cases sk; cases sk')
    (auto simp: sys_exec_def sys_ret_def keeps_def ft_simps dest!: fetch_args_sf free_args_sf kexec_keeps
      split: option.splits if_splits; meson same_files_trans)

subsection \<open>System calls that change the descriptors\<close>

lemma files_okI:
  assumes "balanced s (ftable k) (\<lambda>_. 0)" "\<And>p. p < NPROC \<Longrightarrow> dead (p_state (ptab s p)) \<Longrightarrow> no_files s p" shows "files_ok (s, k)"
  using assms by (simp add: files_ok_def)

lemma argfd_Some:
  assumes "argfd me n s = Inr (Some (fd, f))" shows "fd < NOFILE" "p_ofile (ptab s me) fd = Some f"
  using assms by (auto simp: argfd_def bindR_eq_Inr split: if_splits option.splits)

lemma fdalloc_Some:
  assumes "fdalloc me f s = (Some fd, s')"
  shows "fd < NOFILE" "p_ofile (ptab s me) fd = None" "s' = set_fd me fd (Some f) s"
  using assms by (auto simp: fdalloc_def find_Some_iff split: option.splits)

lemma fdalloc_None: "fdalloc me f s = (None, s') \<Longrightarrow> s' = s"
  by (auto simp: fdalloc_def split: option.splits)

text \<open>A live process may change its own descriptors.\<close>

lemma dead_set_fd:
  assumes "dead_clean s" "\<not> dead (p_state (ptab s me))"
  shows "dead_clean (set_fd me fd v s)"
  using assms by (auto simp: no_files_def)

lemma dead_same:
  assumes "dead_clean s" "same_files s s'"
  shows "dead_clean s'"
  using assms by (simp add: same_files_def no_files_def)

lemma balanced_cong: "balanced s t e \<Longrightarrow> e = e' \<Longrightarrow> balanced s t e'" by simp

lemma sys_dup_ok:
  assumes "sys_dup me (s, k) = Inr (r, s', k')" "files_ok (s, k)" "me < NPROC" "\<not> dead (p_state (ptab s me))"
  shows "files_ok (s', k')"
proof -
  have b: "balanced s (ftable k) (\<lambda>_. 0)" and d: "dead_clean s"
    using assms(2) by (auto simp: files_ok_def)
  consider (same) "s' = s" "k' = k"
    | (dup) fd f fd1 where "argfd me 0 s = Inr (Some (fd, f))" "fdalloc me f s = (Some fd1, s')" "filedup f k = Inr k'"
  proof -
    obtain a where a: "argfd me 0 s = Inr a" using assms(1) by (auto simp: sys_dup_def bindR_eq_Inr)
    show thesis
    proof (cases a)
      case (Some x)
      obtain fd f where x: "x = (fd, f)" by fastforce
      obtain o1 s1 where "fdalloc me f s = (o1, s1)" by fastforce
      then show thesis using that assms(1) a Some x
        by (cases o1) (auto simp: sys_dup_def sys_ret_def bindR_eq_Inr dest: fdalloc_None)
    qed (use that assms(1) a in \<open>auto simp: sys_dup_def sys_ret_def\<close>)
  qed
  then show ?thesis
  proof cases
    case dup
    note a = argfd_Some [OF dup(1)] and l = fdalloc_Some [OF dup(2)]
    note f = balanced_fd [OF b assms(3) a]
    have "1 \<le> f_ref (ftable k f)" using dup(3) by (auto simp: filedup_def split: if_splits)
    then have t: "f_type (ftable k' f) \<noteq> FD_NONE" using f filedup_balanced [OF dup(3) b f(1)] by auto
    have "balanced s' (ftable k') ((\<lambda>_. 0)(f := 0 + 1, f := (((\<lambda>_. 0)(f := 0 + 1)) f) - 1))"
      using balanced_give [OF filedup_balanced [OF dup(3) b f(1), THEN conjunct1] assms(3) l(1,2) f(1) t] l(3) by simp
    then have "balanced s' (ftable k') (\<lambda>_. 0)" by (rule balanced_cong) auto
    then show ?thesis using dead_set_fd [OF d assms(4)] l(3) by (auto intro: files_okI)
  qed (use assms(2) in simp)
qed

lemma sys_close_ok:
  assumes "sys_close im me (s, k) = Inr (r, s', k')" "files_ok (s, k)" "me < NPROC" "\<not> dead (p_state (ptab s me))"
  shows "files_ok (s', k')"
proof -
  have b: "balanced s (ftable k) (\<lambda>_. 0)" and d: "dead_clean s"
    using assms(2) by (auto simp: files_ok_def)
  consider (same) "s' = s" "k' = k"
    | (close) fd f where "argfd me 0 s = Inr (Some (fd, f))" "fileclose (im_end im) me f (fdclear me fd s, k) = Inr (s', k')"
    using assms(1) by (auto simp: sys_close_def sys_ret_def bindR_eq_Inr split: option.splits)
  then show ?thesis
  proof cases
    case close
    note a = argfd_Some [OF close(1)]
    note c = fileclose_balanced [OF close(2) [unfolded fdclear_def] balanced_take [OF b assms(3) a] balanced_fd(1) [OF b assms(3) a]]
    have "balanced s' (ftable k') (\<lambda>_. 0)"
      by (rule balanced_cong [OF same_balanced [OF c [THEN conjunct1] c [THEN conjunct2]]]) auto
    then show ?thesis using dead_same [OF dead_set_fd [OF d assms(4)] c [THEN conjunct2]] by (auto intro: files_okI)
  qed (use assms(2) in simp)
qed

subsection \<open>Opening and pipes\<close>

text \<open>A new open file, set up and given to a descriptor.\<close>

lemma install_ok:
  assumes "filealloc k = (Some f, k1)" "fdalloc me f s = (Some fd, s')" "files_ok (s, k)" "me < NPROC" "\<not> dead (p_state (ptab s me))"
    and "ftable k' = (ftable k1)(f := x)" "f_ref x = f_ref (ftable k1 f)" "f_type x \<noteq> FD_NONE"
  shows "files_ok (s', k')"
proof -
  have b: "balanced s (ftable k) (\<lambda>_. 0)" and d: "dead_clean s"
    using assms(3) by (auto simp: files_ok_def)
  note l = fdalloc_Some [OF assms(2)] and a = filealloc_balanced [OF assms(1) b]
  have "balanced s (ftable k') ((\<lambda>_. 0)(f := 1))"
    using balanced_upd [of s "ftable k1" "(\<lambda>_. 0)(f := 0 + 1)" "\<lambda>y. if y = ftable k1 f then x else y" f] a assms(6-8) by simp
  then have "balanced s' (ftable k') ((\<lambda>_. 0)(f := 1, f := ((\<lambda>_. 0)(f := 1)) f - 1))"
    using balanced_give [of s "ftable k'" "(\<lambda>_. 0)(f := 1)" me fd f] l a assms(4,6,8) by simp
  then have "balanced s' (ftable k') (\<lambda>_. 0)" by (rule balanced_cong) auto
  then show ?thesis using dead_set_fd [OF d assms(5)] l(3) by (auto intro: files_okI)
qed

lemma open_file_ft:
  assumes "open_file pid f ip om k = Inr k'"
  shows "\<exists>x. ftable k' = (ftable k)(f := x) \<and> f_ref x = f_ref (ftable k f) \<and> f_type x \<noteq> FD_NONE"
proof -
  let ?x = "(if i_type (itable k ip) = T_DEVICE then (ftable k f)\<lparr>f_type := FD_DEVICE, f_major := i_major (itable k ip)\<rparr>
      else (ftable k f)\<lparr>f_type := FD_INODE, f_off := 0\<rparr>)
      \<lparr>f_ip := ip, f_readable := (om AND O_WRONLY = 0), f_writable := (om AND O_WRONLY \<noteq> 0 \<or> om AND O_RDWR \<noteq> 0)\<rparr>"
  have "ftable k' = (ftable k)(f := ?x)"
    using assms by (auto simp: open_file_def upd_file_def Let_def bindR_eq_Inr dest!: itrunc_ft iunlock_ft split: if_splits)
  then show ?thesis by (intro exI [of _ ?x]) simp
qed

text \<open>Giving up a file that no descriptor names yet.\<close>

lemma open_fail_ok:
  assumes "filealloc k = (Some f, k1)" "fileclose kend me f (s, k1) = Inr (s', k')" "files_ok (s, k)"
  shows "files_ok (s', k')"
proof -
  have b: "balanced s (ftable k) (\<lambda>_. 0)" and d: "dead_clean s"
    using assms(3) by (auto simp: files_ok_def)
  note a = filealloc_balanced [OF assms(1) b]
  have c: "balanced s (ftable k') ((\<lambda>_. 0)(f := 0 + 1, f := ((\<lambda>_. 0)(f := 0 + 1)) f - 1))" "same_files s s'"
    using fileclose_balanced [OF assms(2), of "(\<lambda>_. 0)(f := 0 + 1)"] a by auto
  have "balanced s' (ftable k') (\<lambda>_. 0)"
    by (rule balanced_cong [OF same_balanced [OF c]]) auto
  then show ?thesis using dead_same [OF d c(2)] by (auto intro: files_okI)
qed

lemma filealloc_None: "filealloc k = (None, k') \<Longrightarrow> k' = k"
  by (auto simp: filealloc_def split: option.splits)

lemma open_path_ok:
  assumes "open_path im me path om (s, k) = Inr (r, s', k')" "files_ok (s, k)" "me < NPROC" "\<not> dead (p_state (ptab s me))"
  shows "files_ok (s', k')"
proof -
  let ?pid = "p_pid (ptab s me)"
  obtain k1 o1 k2 where 1: "begin_op k = Inr k1" "open_inode ?pid (cwd_of me s) path om k1 = Inr (o1, k2)"
    using assms(1) by (auto simp: open_path_def bindR_eq_Inr Let_def)
  note p = assms(1) [unfolded open_path_def prod.case Let_def 1 bindR_Inr prod.case]
  have ok: "files_ok (s, k2)" by (rule files_ok_same [OF assms(2)]) (use begin_op_ft [OF 1(1)] open_inode_ft [OF 1(2)] in simp_all)
  have fin: "files_ok (s', k')" if "finish ?pid v s3 k3 = Inr (r, s', k')" "files_ok (s3, k3)" for v s3 k3
    using finish_ft [OF that(1)] files_ok_same [OF that(2), of s' k'] by simp
  have put: "files_ok (s', k')" if b: "bindR (iunlockput ?pid ip k3) (finish ?pid v s3) = Inr (r, s', k')" and o: "files_ok (s3, k3)" for ip v s3 k3
  proof -
    obtain k4 where "iunlockput ?pid ip k3 = Inr k4" "finish ?pid v s3 k4 = Inr (r, s', k')" using b by (auto simp: bindR_eq_Inr)
    then show ?thesis using fin files_ok_same [OF o, of s3 k4] iunlockput_ft by fastforce
  qed
  show ?thesis
  proof (cases o1)
    case None
    then show ?thesis using p fin ok by simp
  next
    case (Some ip)
    obtain o2 k3 where f: "filealloc k2 = (o2, k3)" by fastforce
    show ?thesis
    proof (cases "i_type (itable k2 ip) = T_DEVICE \<and> (sint (i_major (itable k2 ip)) < 0 \<or> sint (i_major (itable k2 ip)) \<ge> int NDEV) \<or> o2 = None")
      case True
      then show ?thesis using p put ok Some f by (auto dest!: filealloc_None split: if_splits)
    next
      case False
      then obtain fl where fl: "o2 = Some fl" by auto
      obtain o3 s3 where a: "fdalloc me fl s = (o3, s3)" by fastforce
      show ?thesis
      proof (cases o3)
        case None
        then obtain s4 k4 where c: "fileclose (im_end im) me fl (s, k3) = Inr (s4, k4)"
          "bindR (iunlockput ?pid ip k4) (finish ?pid (-1) s4) = Inr (r, s', k')"
          using p Some f fl False a by (auto simp: bindR_eq_Inr dest!: fdalloc_None split: if_splits)
        then show ?thesis using put open_fail_ok [OF _ c(1) ok] f fl by blast
      next
        case (Some fd)
        then obtain k4 where c: "open_file ?pid fl ip om k3 = Inr k4" "finish ?pid (int fd) s3 k4 = Inr (r, s', k')"
          using p \<open>o1 = Some ip\<close> f fl False a by (auto simp: bindR_eq_Inr split: if_splits)
        obtain x where "ftable k4 = (ftable k3)(fl := x)" "f_ref x = f_ref (ftable k3 fl)" "f_type x \<noteq> FD_NONE"
          using open_file_ft [OF c(1)] by blast
        then have "files_ok (s3, k4)" using install_ok [OF _ _ ok assms(3,4), of fl k3 fd s3 k4 x] f fl a Some by simp
        then show ?thesis using fin c(2) by blast
      qed
    qed
  qed
qed

lemma sys_open_ok:
  assumes "sys_open im me (s, k) = Inr (r, s', k')" "files_ok (s, k)" "me < NPROC" "\<not> dead (p_state (ptab s me))"
  shows "files_ok (s', k')"
  using assms by (auto simp: sys_open_def sys_ret_def bindR_eq_Inr dest: open_path_ok split: option.splits)

text \<open>The references the code holds itself: one to each file of a set.\<close>

definition held :: "nat set \<Rightarrow> nat \<Rightarrow> int" where
  "held F f = (if f \<in> F then 1 else 0)"

lemma held_upd: "f \<notin> F \<Longrightarrow> (held F)(f := held F f + 1) = held (insert f F)" "f \<in> F \<Longrightarrow> (held F)(f := held F f - 1) = held (F - {f})"
  by (auto simp: held_def fun_eq_iff)

lemma held_empty: "held {} = (\<lambda>_. 0)"
  by (simp add: held_def fun_eq_iff)

lemma filealloc_held:
  assumes "filealloc k = (Some f, k')" "balanced s (ftable k) (held F)"
  shows "f \<notin> F" "f < NFILE" "balanced s (ftable k') (held (insert f F))"
proof -
  have f: "f < NFILE" "f_ref (ftable k f) = 0"
    using assms(1) by (auto simp: filealloc_def find_Some_iff split: option.splits)
  then have "int (card (slots s f)) + held F f = 0" using assms(2) by (auto simp: balanced_def)
  then show n: "f \<notin> F" by (auto simp: held_def)
  then have "held F f = 0" by (simp add: held_def)
  then show "f < NFILE" "balanced s (ftable k') (held (insert f F))"
    using filealloc_balanced [OF assms] held_upd(1) [OF n] by auto
qed

lemma fileclose_held:
  assumes "fileclose kend me f (s, k) = Inr (s', k')" "balanced s (ftable k) (held F)" "f \<in> F" "f < NFILE"
  shows "balanced s' (ftable k') (held (F - {f})) \<and> same_files s s'"
  using fileclose_balanced [OF assms(1,2,4)] held_upd(2) [OF assms(3)] same_balanced by auto

text \<open>Closing two files that no descriptor names.\<close>

lemma close_two:
  assumes "fileclose kend me f0 (s, k) = Inr (s1, k1)" "fileclose kend me f1 (s1, k1) = Inr (s2, k2)"
    and "balanced s (ftable k) (held {f0, f1})" "f0 \<noteq> f1" "f0 < NFILE" "f1 < NFILE"
  shows "balanced s2 (ftable k2) (\<lambda>_. 0) \<and> same_files s s2"
proof -
  have 1: "balanced s1 (ftable k1) (held ({f0, f1} - {f0}))" "same_files s s1"
    using fileclose_held [OF assms(1,3)] assms(5) by auto
  have e: "{f0, f1} - {f0} - {f1} = {}" by auto
  have "f1 \<in> {f0, f1} - {f0}" using assms(4) by simp
  then have "balanced s2 (ftable k2) (held {}) \<and> same_files s1 s2"
    using fileclose_held [OF assms(2) 1(1) _ assms(6)] unfolding e by blast
  then show ?thesis using same_files_trans [OF 1(2)] by (simp add: held_empty)
qed

lemma pipealloc_ok:
  assumes "pipealloc kend me (s, k) = Inr (r, s', k')" "balanced s (ftable k) (\<lambda>_. 0)"
  shows "same_files s s' \<and> (case r of None \<Rightarrow> balanced s' (ftable k') (\<lambda>_. 0)
    | Some (f0, f1) \<Rightarrow> balanced s' (ftable k') (held {f0, f1}) \<and> f0 \<noteq> f1 \<and> f0 < NFILE \<and> f1 < NFILE
        \<and> f_type (ftable k' f0) \<noteq> FD_NONE \<and> f_type (ftable k' f1) \<noteq> FD_NONE)"
proof -
  obtain o0 k0 where a0: "filealloc k = (o0, k0)" by fastforce
  show ?thesis
  proof (cases o0)
    case None
    then show ?thesis using assms a0 filealloc_None by (auto simp: pipealloc_def pipealloc_bad_def)
  next
    case (Some f0)
    note h0 = filealloc_held [OF a0 [unfolded Some] assms(2) [folded held_empty]]
    obtain o1 k1 where a1: "filealloc k0 = (o1, k1)" by fastforce
    show ?thesis
    proof (cases o1)
      case None
      then have "fileclose kend me f0 (s, k0) = Inr (s', k')" "r = None"
        using assms(1) a0 a1 Some filealloc_None by (auto simp: pipealloc_def pipealloc_bad_def bindR_eq_Inr)
      then show ?thesis using fileclose_held [of kend me f0 s k0 s' k' "{f0}"] h0 by (simp add: held_empty)
    next
      case (Some f1)
      note h1 = filealloc_held [OF a1 [unfolded Some] h0(3)]
      have h: "balanced s (ftable k1) (held {f0, f1})" "f0 \<noteq> f1" using h1 by (auto simp: insert_commute)
      obtain pi m where ka: "kalloc (pkm s) = (pi, m)" by fastforce
      let ?g0 = "\<lambda>x. x\<lparr>f_type := FD_PIPE, f_readable := True, f_writable := False, f_pipe := pi\<rparr>"
      let ?g1 = "\<lambda>x. x\<lparr>f_type := FD_PIPE, f_readable := False, f_writable := True, f_pipe := pi\<rparr>"
      have p: "(if pi = 0 then pipealloc_bad kend me (Some f0) (Some f1) (s\<lparr>pkm := m\<rparr>, k1)
          else Inr (Some (f0, f1), s\<lparr>pkm := m\<rparr>,
            upd_file f1 ?g1 (upd_file f0 ?g0 (upd_pipe pi (\<lambda>x. new_pipe (p_data x)) k1)))) = Inr (r, s', k')"
        using assms(1) a0 a1 ka \<open>o0 = Some f0\<close> Some by (cases "pi = 0") (simp_all add: pipealloc_def Let_def)
      show ?thesis
      proof (cases "pi = 0")
        case True
        then obtain s2 k2 where "fileclose kend me f0 (s\<lparr>pkm := m\<rparr>, k1) = Inr (s2, k2)" "fileclose kend me f1 (s2, k2) = Inr (s', k')" "r = None"
          using p by (auto simp: pipealloc_bad_def bindR_eq_Inr)
        then show ?thesis using close_two [of kend me f0 "s\<lparr>pkm := m\<rparr>" k1 s2 k2 f1 s' k'] same_balanced [OF h(1)] h(2) h0(2) h1(2) by simp
      next
        case False
        have e: "r = Some (f0, f1)" "s' = s\<lparr>pkm := m\<rparr>" "ftable k' = ((ftable k1)(f0 := ?g0 (ftable k1 f0)))(f1 := ?g1 (((ftable k1)(f0 := ?g0 (ftable k1 f0))) f1))"
          using p False by (auto simp: upd_file_def upd_pipe_def)
        have "balanced s (ftable k') (held {f0, f1})" unfolding e(3) by (intro balanced_upd h) auto
        then show ?thesis using e h(2) h0(2) h1(2) same_balanced by auto
      qed
    qed
  qed
qed

lemma give_held:
  assumes "balanced s t (held F)" "p < NPROC" "fd < NOFILE" "p_ofile (ptab s p) fd = None" "f \<in> F" "f < NFILE" "f_type (t f) \<noteq> FD_NONE"
  shows "balanced (set_fd p fd (Some f) s) t (held (F - {f}))"
  using balanced_give [OF assms(1-4,6,7)] held_upd(2) [OF assms(5)] by simp

lemma take_held:
  assumes "balanced s t (held F)" "p < NPROC" "fd < NOFILE" "p_ofile (ptab s p) fd = Some f" "f \<notin> F"
  shows "balanced (set_fd p fd None s) t (held (insert f F))"
  using balanced_take [OF assms(1-4)] held_upd(1) [OF assms(5)] by simp

lemma close_pair_ok:
  assumes "close_pair im me f0 f1 (s, k) = Inr (r, s', k')" "balanced s (ftable k) (held {f0, f1})" "f0 \<noteq> f1" "f0 < NFILE" "f1 < NFILE"
    and "dead_clean s"
  shows "files_ok (s', k')"
proof -
  obtain s1 k1 where c: "fileclose (im_end im) me f0 (s, k) = Inr (s1, k1)" "fileclose (im_end im) me f1 (s1, k1) = Inr (s', k')"
    using assms(1) by (auto simp: close_pair_def sys_ret_def bindR_eq_Inr)
  note t = close_two [OF c assms(2-5)]
  show ?thesis using t dead_same [OF assms(6)] by (auto intro: files_okI)
qed

text \<open>Taking both descriptors back.\<close>

lemma clear_two:
  assumes "balanced s t (held {})" "dead_clean s" "me < NPROC" "\<not> dead (p_state (ptab s me))" "fd0 < NOFILE" "fd1 < NOFILE"
    and "p_ofile (ptab s me) fd0 = Some f0" "p_ofile (ptab s me) fd1 = Some f1" "fd0 \<noteq> fd1" "f0 \<noteq> f1"
  shows "balanced (fdclear me fd1 (fdclear me fd0 s)) t (held {f0, f1}) \<and> dead_clean (fdclear me fd1 (fdclear me fd0 s))"
proof -
  have "balanced (fdclear me fd0 s) t (held {f0})"
    using take_held [OF assms(1,3,5,7)] by (simp add: fdclear_def)
  then have "balanced (fdclear me fd1 (fdclear me fd0 s)) t (held {f1, f0})"
    using take_held [of "fdclear me fd0 s" t "{f0}" me fd1 f1] assms by (simp add: fdclear_def)
  moreover have "dead_clean (fdclear me fd1 (fdclear me fd0 s))"
    unfolding fdclear_def by (intro dead_set_fd) (use assms in simp_all)
  ultimately show ?thesis by (simp add: insert_commute)
qed

lemma sys_pipe_ok:
  assumes "sys_pipe im me (s, k) = Inr (r, s', k')" "files_ok (s, k)" "me < NPROC" "\<not> dead (p_state (ptab s me))"
  shows "files_ok (s', k')"
proof -
  have b: "balanced s (ftable k) (\<lambda>_. 0)" and d: "dead_clean s"
    using assms(2) by (auto simp: files_ok_def)
  obtain a o1 s1 k1 where 1: "argaddr me 0 s = Inr a" "pipealloc (im_end im) me (s, k) = Inr (o1, s1, k1)"
    using assms(1) by (auto simp: sys_pipe_def bindR_eq_Inr)
  note p = assms(1) [unfolded sys_pipe_def prod.case 1 bindR_Inr] and A = pipealloc_ok [OF 1(2) b]
  have d1: "dead_clean s1" by (rule dead_same [OF d]) (use A in simp)
  have me1: "\<not> dead (p_state (ptab s1 me))" using A assms(4) by (auto simp: same_files_def)
  show ?thesis
  proof (cases o1)
    case None
    then show ?thesis using p A d1 by (auto simp: sys_ret_def intro: files_okI)
  next
    case (Some ff)
    obtain f0 f1 where ff: "ff = (f0, f1)" by fastforce
    then have B: "balanced s1 (ftable k1) (held {f0, f1})" "f0 \<noteq> f1" "f0 < NFILE" "f1 < NFILE"
      "f_type (ftable k1 f0) \<noteq> FD_NONE" "f_type (ftable k1 f1) \<noteq> FD_NONE" using A Some by auto
    obtain a0 s2 where a0: "fdalloc me f0 s1 = (a0, s2)" by fastforce
    show ?thesis
    proof (cases a0)
      case None
      then show ?thesis using p close_pair_ok [OF _ B(1-4) d1] a0 Some ff by (auto simp: sys_ret_def dest!: fdalloc_None)
    next
      case (Some fd0)
      note l0 = fdalloc_Some [OF a0 [unfolded Some]]
      have B2: "balanced s2 (ftable k1) (held {f1})" using give_held [OF B(1) assms(3) l0(1,2) _ B(3,5)] l0(3) B(2)
        by (simp add: insert_Diff_if)
      note d2 = dead_set_fd [OF d1 me1, of fd0 "Some f0", folded l0(3)]
      have me2: "\<not> dead (p_state (ptab s2 me))" using l0(3) me1 by simp
      obtain a1 s3 where a1: "fdalloc me f1 s2 = (a1, s3)" by fastforce
      show ?thesis
      proof (cases a1)
        case None
        have "p_ofile (ptab s2 me) fd0 = Some f0" using l0(3) by simp
        then have "balanced (fdclear me fd0 s2) (ftable k1) (held {f0, f1})"
          using take_held [OF B2 assms(3) l0(1)] B(2) by (simp add: fdclear_def)
        moreover have "close_pair im me f0 f1 (fdclear me fd0 s2, k1) = Inr (r, s', k')"
          using p a0 a1 Some None \<open>o1 = Some ff\<close> ff by (auto dest!: fdalloc_None)
        ultimately show ?thesis
          using close_pair_ok B(2-4) dead_set_fd [OF d2 me2, of fd0 None] unfolding fdclear_def by blast
      next
        case (Some fd1)
        note l1 = fdalloc_Some [OF a1 [unfolded Some]]
        have B3: "balanced s3 (ftable k1) (held {})" using give_held [OF B2 assms(3) l1(1,2) _ B(4,6)] l1(3) by simp
        note d3 = dead_set_fd [OF d2 me2, of fd1 "Some f1", folded l1(3)]
        have me3: "\<not> dead (p_state (ptab s3 me))" using l1(3) me2 by simp
        obtain r1 s4 s5 r2 where c: "either_copyout (im_end im) me True a (int_bytes (int fd0)) s3 = Inr (r1, s4)"
          "(if r1 < 0 then Inr (r1, s4) else either_copyout (im_end im) me True (a + 4) (int_bytes (int fd1)) s4) = Inr (r2, s5)"
          "(if r2 < 0 then close_pair im me f0 f1 (fdclear me fd1 (fdclear me fd0 s5), k1) else sys_ret 0 (s5, k1)) = Inr (r, s', k')"
          using p a0 a1 \<open>a0 = Some fd0\<close> Some \<open>o1 = Some ff\<close> ff by (auto simp: bindR_eq_Inr)
        have s35: "same_files s3 s5"
          using either_copyout_sf [OF c(1)] c(2) same_files_trans by (auto dest: either_copyout_sf split: if_splits)
        note B5 = same_balanced [OF B3 s35] and d5 = dead_same [OF d3 s35]
        have o5: "p_ofile (ptab s5 me) fd0 = Some f0" "p_ofile (ptab s5 me) fd1 = Some f1" "fd0 \<noteq> fd1"
          using s35 l0 l1 by (auto simp: same_files_def)
        show ?thesis
        proof (cases "r2 < 0")
          case True
          have "\<not> dead (p_state (ptab s5 me))" using s35 me3 by (auto simp: same_files_def)
          then show ?thesis
            using close_pair_ok [OF _ _ B(2-4)] clear_two [OF B5 d5 assms(3) _ l0(1) l1(1) o5 B(2)] c(3) True by auto
        next
          case False
          then show ?thesis using c(3) B5 d5 by (auto simp: sys_ret_def held_empty intro: files_okI)
        qed
      qed
    qed
  qed
qed

subsection \<open>Fork and exit\<close>

lemma balanced_ofile: "balanced s t e \<Longrightarrow> (\<And>p. p_ofile (ptab s' p) = p_ofile (ptab s p)) \<Longrightarrow> balanced s' t e"
  by (simp add: balanced_def slots_def)

lemma dup_files_ok:
  assumes "dup_files filedup p np fds (s, k) = Inr (s', k')" "balanced s (ftable k) (\<lambda>_. 0)" "p < NPROC" "np < NPROC" "p \<noteq> np"
    and "distinct fds" "set fds \<subseteq> {..<NOFILE}" "\<forall>i\<in>set fds. p_ofile (ptab s np) i = None"
  shows "balanced s' (ftable k') (\<lambda>_. 0) \<and> (\<forall>q. p_state (ptab s' q) = p_state (ptab s q)) \<and> (\<forall>q. q \<noteq> np \<longrightarrow> ptab s' q = ptab s q)"
  using assms
proof (induction fds arbitrary: s k)
  case (Cons i fds)
  show ?case
  proof (cases "p_ofile (ptab s p) i")
    case None
    then show ?thesis using Cons.IH [of s k] Cons.prems by simp
  next
    case (Some f)
    let ?s = "set_fd np i (Some f) s"
    obtain k1 where k1: "filedup f k = Inr k1" "dup_files filedup p np fds (?s, k1) = Inr (s', k')"
      using Cons.prems(1) Some by (auto simp: bindR_eq_Inr)
    have i: "i < NOFILE" "p_ofile (ptab s np) i = None" using Cons.prems(7,8) by auto
    note f = balanced_fd [OF Cons.prems(2,3) i(1) Some] and d = filedup_balanced [OF k1(1) Cons.prems(2)]
    have "1 \<le> f_ref (ftable k f)" using k1(1) by (auto simp: filedup_def split: if_splits)
    then have t: "f_type (ftable k1 f) \<noteq> FD_NONE" using f d by auto
    have "balanced ?s (ftable k1) (\<lambda>_. 0)"
      by (rule balanced_cong [OF balanced_give [OF d [OF f(1), THEN conjunct1] Cons.prems(4) i f(1) t]]) auto
    moreover have "\<forall>j\<in>set fds. p_ofile (ptab ?s np) j = None" using Cons.prems(6,8) by auto
    moreover have "distinct fds" "set fds \<subseteq> {..<NOFILE}" using Cons.prems(6,7) by auto
    ultimately have "balanced s' (ftable k') (\<lambda>_. 0) \<and> (\<forall>q. p_state (ptab s' q) = p_state (ptab ?s q)) \<and> (\<forall>q. q \<noteq> np \<longrightarrow> ptab s' q = ptab ?s q)"
      using Cons.IH [OF k1(2) _ Cons.prems(3-5)] by blast
    then show ?thesis by auto
  qed
qed simp

lemma allocproc_files: "allocproc kend tramp fr s = Inr (r, s') \<Longrightarrow> p_ofile (ptab s' q) = p_ofile (ptab s q)"
  by (cases "\<exists>p. find (\<lambda>p. p_state (ptab s p) = UNUSED) [0..<NPROC] = Some p \<and> q = p")
    (auto simp: allocproc_def allocpid_def freeproc_def ft_simps split: option.splits if_splits)

lemma freeproc_files:
  "freeproc kend p s = Inr s' \<Longrightarrow> p_ofile (ptab s' q) = p_ofile (ptab s q) \<and> (q \<noteq> p \<longrightarrow> p_state (ptab s' q) = p_state (ptab s q))"
  by (cases "q = p") (auto simp: freeproc_def ft_simps)

lemma idup_cwd_ft [simp]: "ftable (idup_cwd cwd k) = ftable k"
  by (simp add: idup_cwd_def idup_def split: option.splits)

lemma kfork_child_ok:
  assumes "kfork_child kend filedup idup_cwd p np (s, k) = Inr (r, s', k')" "balanced s (ftable k) (\<lambda>_. 0)" "p < NPROC" "np < NPROC" "p \<noteq> np"
    and "dead_clean s" "no_files s np"
  shows "files_ok (s', k')"
proof -
  obtain c m where c: "uvmcopy kend (p_pagetable (ptab s p)) (p_pagetable (ptab s np)) (p_sz (ptab s p)) (pkm s) = Inr (c, m)"
    using assms(1) by (auto simp: kfork_child_def bindR_eq_Inr)
  show ?thesis
  proof (cases "c < 0")
    case True
    then have "freeproc kend np (s\<lparr>pkm := m\<rparr>) = Inr s'" "k' = k" using assms(1) c by (auto simp: kfork_child_def bindR_eq_Inr)
    note f = freeproc_files [OF this(1)]
    have "balanced s' (ftable k) (\<lambda>_. 0)" by (rule balanced_ofile [OF assms(2)]) (simp add: f)
    moreover have "no_files s' q" if "q < NPROC" "dead (p_state (ptab s' q))" for q
      using f [of q] that assms(6,7) by (cases "q = np") (auto simp: no_files_def)
    ultimately show ?thesis using \<open>k' = k\<close> by (auto intro: files_okI)
  next
    case False
    then obtain m1 s1 k1 where d: "dup_files filedup p np [0..<NOFILE] ((upd_proc np (\<lambda>x. x\<lparr>p_sz := p_sz (ptab s p)\<rparr>) s)\<lparr>pkm := m1\<rparr>, k) = Inr (s1, k1)"
      and e: "ftable k' = ftable k1" "\<And>q. p_ofile (ptab s' q) = p_ofile (ptab s1 q)" "\<And>q. q \<noteq> np \<Longrightarrow> p_state (ptab s' q) = p_state (ptab s1 q)"
        "p_state (ptab s' np) = RUNNABLE"
      using assms(1) c by (auto simp: kfork_child_def Let_def bindR_eq_Inr upd_proc_def)
    let ?s0 = "(upd_proc np (\<lambda>x. x\<lparr>p_sz := p_sz (ptab s p)\<rparr>) s)\<lparr>pkm := m1\<rparr>"
    have "balanced ?s0 (ftable k) (\<lambda>_. 0)" by (rule balanced_ofile [OF assms(2)]) simp
    note D = dup_files_ok [OF d this assms(3-5)]
    have D': "balanced s1 (ftable k1) (\<lambda>_. 0)" "\<And>q. p_state (ptab s1 q) = p_state (ptab ?s0 q)" "\<And>q. q \<noteq> np \<Longrightarrow> ptab s1 q = ptab ?s0 q"
      using D assms(7) by (auto simp: no_files_def atLeast0LessThan)
    have "balanced s' (ftable k1) (\<lambda>_. 0)" by (rule balanced_ofile [OF D'(1)]) (rule e(2))
    moreover have "no_files s' q" if "q < NPROC" "dead (p_state (ptab s' q))" for q
    proof -
      have "q \<noteq> np" using that e(4) by (auto simp: dead_def)
      then show ?thesis using that assms(6) D'(3) [of q] e(2,3) [of q] by (auto simp: no_files_def)
    qed
    ultimately show ?thesis using e(1) by (auto intro: files_okI)
  qed
qed

lemma fork_process_ok:
  assumes "fork_process im me (s, k) = Inr (r, s', k')" "files_ok (s, k)" "me < NPROC" "\<not> dead (p_state (ptab s me))"
  shows "files_ok (s', k')"
proof -
  have b: "balanced s (ftable k) (\<lambda>_. 0)" and d: "dead_clean s"
    using assms(2) by (auto simp: files_ok_def)
  obtain o1 s1 where a: "allocproc (im_end im) (im_trampoline im) (im_forkret im) s = Inr (o1, s1)"
    using assms(1) by (auto simp: fork_process_def kfork_def bindR_eq_Inr)
  note A = allocproc_Inr [OF a] and O = allocproc_files [OF a]
  have b1: "balanced s1 (ftable k) (\<lambda>_. 0)" by (rule balanced_ofile [OF b]) (rule O)
  show ?thesis
  proof (cases o1)
    case None
    have "no_files s1 q" if "q < NPROC" "dead (p_state (ptab s1 q))" for q
    proof -
      have "lives s1 q = lives s q \<or> p_state (ptab s q) = UNUSED" using A None by auto
      then have "dead (p_state (ptab s q))" using that by (auto simp: life_def dead_def)
      then show ?thesis using d that O by (simp add: no_files_def)
    qed
    then show ?thesis using None assms(1) a b1 by (auto simp: fork_process_def kfork_def intro: files_okI)
  next
    case (Some np)
    then have np: "np < NPROC" "p_state (ptab s np) = UNUSED" "p_state (ptab s1 np) = USED" "\<And>q. q \<noteq> np \<Longrightarrow> ptab s1 q = ptab s q"
      using A by (auto simp: life_def)
    have "no_files s1 q" if "q < NPROC" "dead (p_state (ptab s1 q))" for q
      using that d O np(3) np(4) [of q] by (cases "q = np") (auto simp: no_files_def dead_def)
    moreover have "no_files s1 np" using d np(1,2) O by (simp add: no_files_def dead_def)
    moreover have "me \<noteq> np" using assms(4) np(2) by (auto simp: dead_def)
    ultimately show ?thesis using kfork_child_ok [OF _ b1 assms(3) np(1)] assms(1) a Some
      by (auto simp: fork_process_def kfork_def)
  qed
qed

lemma close_files_ok:
  assumes "close_files (fileclose kend me) p fds (s, k) = Inr (s', k')" "balanced s (ftable k) (\<lambda>_. 0)" "p < NPROC" "set fds \<subseteq> {..<NOFILE}"
  shows "balanced s' (ftable k') (\<lambda>_. 0) \<and> (\<forall>fd\<in>set fds. p_ofile (ptab s' p) fd = None) \<and> (\<forall>fd. p_ofile (ptab s p) fd = None \<longrightarrow> p_ofile (ptab s' p) fd = None)
    \<and> (\<forall>q. q \<noteq> p \<longrightarrow> p_ofile (ptab s' q) = p_ofile (ptab s q)) \<and> (\<forall>q. dead (p_state (ptab s' q)) \<longrightarrow> dead (p_state (ptab s q)))"
  using assms
proof (induction fds arbitrary: s k)
  case (Cons fd fds)
  show ?case
  proof (cases "p_ofile (ptab s p) fd")
    case None
    then show ?thesis using Cons.IH [of s k] Cons.prems by auto
  next
    case (Some f)
    obtain s1 k1 where c: "fileclose kend me f (s, k) = Inr (s1, k1)" "close_files (fileclose kend me) p fds (set_fd p fd None s1, k1) = Inr (s', k')"
      using Cons.prems(1) Some by (auto simp: bindR_eq_Inr)
    have fd: "fd < NOFILE" "set fds \<subseteq> {..<NOFILE}" using Cons.prems(4) by auto
    note C = fileclose_balanced [OF c(1) Cons.prems(2) balanced_fd(1) [OF Cons.prems(2,3) fd(1) Some]]
    have s1: "p_ofile (ptab s1 q) = p_ofile (ptab s q)" "dead (p_state (ptab s1 q)) \<longrightarrow> dead (p_state (ptab s q))" for q
      using C by (auto simp: same_files_def)
    have "balanced (set_fd p fd None s1) (ftable k1) (\<lambda>_. 0)"
      by (rule balanced_cong [OF balanced_take [OF same_balanced [OF C [THEN conjunct1] C [THEN conjunct2]] Cons.prems(3) fd(1)]]) (use s1 Some in auto)
    note I = Cons.IH [OF c(2) this Cons.prems(3) fd(2)]
    show ?thesis using I s1 by (auto split: if_splits)
  qed
qed simp

lemma fold_sf: "(\<And>x s. same_files s (g x s)) \<Longrightarrow> same_files s (fold g xs s)"
  by (induction xs arbitrary: s) (auto intro: same_files_trans)

lemma reparent_sf: "same_files s (reparent p me s)"
  unfolding reparent_def by (rule fold_sf) (auto intro!: same_files_trans [OF same_files_upd wakeup_sf])

lemma put_cwd_ft: "put_cwd pid cwd k = Inr k' \<Longrightarrow> ftable k' = ftable k"
  by (auto simp: put_cwd_def dest: put_inode_ft split: option.splits)

lemma exit_process_ok:
  assumes "exit_process im me status (s, k) = Inr (s', k')" "files_ok (s, k)" "me < NPROC"
  shows "files_ok (s', k')"
proof -
  have b: "balanced s (ftable k) (\<lambda>_. 0)" and d: "dead_clean s"
    using assms(2) by (auto simp: files_ok_def)
  let ?up = "\<lambda>s1. reparent me (Some me) (upd_proc me (\<lambda>x. x\<lparr>p_cwd := None\<rparr>) s1)"
  obtain s1 k1 cn where c: "close_files (fileclose (im_end im) me) me [0..<NOFILE] (s, k) = Inr (s1, k1)"
    and e: "ftable k' = ftable k1" "s' = upd_proc me (\<lambda>x. x\<lparr>p_xstate := status, p_state := ZOMBIE\<rparr>) (wakeup (Some me) cn (?up s1))"
    using assms(1) by (auto simp: exit_process_def kexit_def Let_def bindR_eq_Inr dest!: put_cwd_ft split: if_splits)
  have C: "balanced s1 (ftable k1) (\<lambda>_. 0)" "no_files s1 me" "\<And>q. q \<noteq> me \<Longrightarrow> p_ofile (ptab s1 q) = p_ofile (ptab s q)"
    "\<And>q. dead (p_state (ptab s1 q)) \<Longrightarrow> dead (p_state (ptab s q))"
    using close_files_ok [OF c b assms(3)] by (auto simp: no_files_def atLeast0LessThan)
  have up: "same_files s1 (wakeup (Some me) cn (?up s1))"
    by (intro same_files_trans [OF same_files_trans [OF same_files_upd reparent_sf] wakeup_sf]) auto
  have o1: "p_ofile (ptab s' q) = p_ofile (ptab s1 q)" for q
    using up by (cases "q = me") (auto simp: e(2) same_files_def)
  have "balanced s' (ftable k1) (\<lambda>_. 0)" by (rule balanced_ofile [OF C(1)]) (rule o1)
  moreover have "no_files s' q" if "q < NPROC" "dead (p_state (ptab s' q))" for q
  proof (cases "q = me")
    case True
    then show ?thesis using C(2) o1 by (simp add: no_files_def)
  next
    case False
    then have "dead (p_state (ptab s q))" using that(2) up C(4) by (auto simp: e(2) same_files_def)
    then show ?thesis using d that(1) C(3) [OF False] o1 by (simp add: no_files_def)
  qed
  ultimately show ?thesis using e(1) by (auto intro: files_okI)
qed

subsection \<open>Every system call and every trap\<close>

lemma set_a0_sf [simp]: "same_files s (set_a0 me v t) = same_files s t" "same_files s (set_epc me v t) = same_files s t"
  "same_files s (prepare_return h me t' t) = same_files s t"
  by (simp_all add: set_a0_def set_epc_def prepare_return_def Let_def)

lemma keeps_left: "files_ok (s, k) \<Longrightarrow> same_files s s' \<Longrightarrow> files_ok (s', k)"
  by (rule files_ok_same) auto

lemmas calls_keep = sys_read_keeps sys_write_keeps sys_fstat_keeps path_calls_keep sys_chdir_keeps process_calls_keep
  sys_kill_keeps sys_wait_keeps sys_sbrk_keeps sys_exec_keeps

lemmas calls_ok = sys_dup_ok sys_close_ok sys_open_ok sys_pipe_ok fork_process_ok exit_process_ok

lemma syscalls_ok:
  assumes "syscalls im me num = Some f" "f (s, k) = Inr (r, s', k')" "files_ok (s, k)" "me < NPROC" "\<not> dead (p_state (ptab s me))"
  shows "files_ok (s', k')"
proof -
  have fork: "files_ok (s', k')" if "sys_fork im me (s, k) = Inr (r, s', k')"
    using that assms(3-5) by (auto simp: sys_fork_def sys_ret_def bindR_eq_Inr intro: fork_process_ok)
  have exit: "files_ok (s', k')" if "sys_exit im me (s, k) = Inr (r, s', k')"
    using that assms(3-5) by (auto simp: sys_exit_def bindR_eq_Inr intro: exit_process_ok)
  show ?thesis using assms fork exit keeps_ok [OF assms(3)]
    by (auto simp: syscalls_def Let_def dest: calls_keep calls_ok split: if_splits)
qed

lemma syscall_ok:
  assumes "syscall im me (s, k) = Inr (r, s', k')" "files_ok (s, k)" "me < NPROC" "\<not> dead (p_state (ptab s me))"
  shows "files_ok (s', k')"
proof -
  let ?num = "sint (ucast (load64 (pmem (pkm s)) (p_trapframe (ptab s me) + 168)) :: u32)"
  show ?thesis
  proof (cases "if ?num > 0 \<and> ?num < 22 then syscalls im me ?num else None")
    case None
    then show ?thesis using assms(1) keeps_left [OF assms(2), of s'] by (auto simp: syscall_def Let_def)
  next
    case (Some f)
    then obtain s1 k1 where f: "f (s, k) = Inr (r, s1, k1)" "k' = k1" "s' = s1 \<or> (\<exists>v. s' = set_a0 me v s1)"
      using assms(1) by (cases r) (auto simp: syscall_def Let_def bindR_eq_Inr)
    then have "files_ok (s1, k1)" using syscalls_ok [of im me ?num f s k r s1 k1] assms(2-4) Some by (auto split: if_splits)
    then show ?thesis using f keeps_left [of s1 k1 s'] by auto
  qed
qed

lemma echo_keeps:
  "keeps sk ((\<lambda>(s, k). let (echo, s, c) = consoleintr cn me x (s, console k) in
     (s, k\<lparr>console := c, uart0 := (uart0 k)\<lparr>u_out := u_out (uart0 k) @ echo\<rparr>\<rparr>)) sk)"
  by (cases sk) (auto simp: consoleintr_def keeps_def Let_def split: prod.splits)

lemma fold_keeps: "(\<And>x sk. keeps sk (g x sk)) \<Longrightarrow> keeps sk (fold g xs sk)"
proof (induction xs arbitrary: sk)
  case (Cons x xs)
  show ?case using keeps_trans [OF Cons.prems Cons.IH [OF Cons.prems]] by simp
qed simp

lemma uartintr_keeps: "keeps sk (uartintr im me idle chars sk)"
proof -
  let ?sk = "if idle then (wakeup me (AddrChan (im_tx_chan im)) (fst sk), (snd sk)\<lparr>uart0 := (uart0 (snd sk))\<lparr>tx_busy := False\<rparr>\<rparr>) else sk"
  have "keeps sk ?sk" by (cases sk) (simp add: keeps_def)
  moreover have "keeps ?sk (uartintr im me idle chars sk)"
    unfolding uartintr_def by (cases sk; cases idle; simp; rule fold_keeps; rule echo_keeps [unfolded Let_def])
  ultimately show ?thesis by (rule keeps_trans)
qed

lemma clockintr_keeps: "keeps sk (clockintr im c me sk)"
  by (cases sk) (simp add: clockintr_def keeps_def)

lemma devintr_keeps: "devintr im me t sk = (w, sk') \<Longrightarrow> keeps sk sk'"
  by (auto simp: devintr_def uartintr_keeps clockintr_keeps split: if_splits)

lemma usertrap_leave_ok:
  assumes "usertrap_leave im h me t w (s, k) = Inr (r, s', k')" "files_ok (s, k)" "me < NPROC"
  shows "files_ok (s', k')"
  using assms by (auto simp: usertrap_leave_def Let_def bindR_eq_Inr intro: exit_process_ok keeps_left split: if_splits)

lemma usertrap_ok:
  assumes "usertrap im h me t (s, k) = Inr (r, s', k')" "files_ok (s, k)" "me < NPROC" "\<not> dead (p_state (ptab s me))"
  shows "files_ok (s', k')"
proof -
  let ?s = "set_epc me (t_sepc t) s"
  have ok: "files_ok (?s, k)" "files_ok (set_epc me (t_sepc t + 4) ?s, k)" by (rule keeps_left [OF assms(2)]; simp)+
  have alive: "\<not> dead (p_state (ptab (set_epc me pc ?s) me))" for pc using assms(4) by (simp add: set_epc_def)
  show ?thesis
  proof (cases "t_scause t = 8")
    case True
    show ?thesis
    proof (cases "killed me ?s")
      case True
      then show ?thesis using assms(1,3) \<open>t_scause t = 8\<close> exit_process_ok [OF _ ok(1)] by (auto simp: usertrap_def Let_def bindR_eq_Inr)
    next
      case False
      then obtain r1 s1 k1 where c: "syscall im me (set_epc me (t_sepc t + 4) ?s, k) = Inr (r1, s1, k1)"
        "(case r1 of Value _ \<Rightarrow> usertrap_leave im h me t 0 (s1, k1) | Asleep i \<Rightarrow> Inr (TrapAsleep i, s1, k1) | Gone \<Rightarrow> Inr (TrapGone, s1, k1)) = Inr (r, s', k')"
        using assms(1) True by (auto simp: usertrap_def Let_def bindR_eq_Inr)
      have "files_ok (s1, k1)" by (rule syscall_ok [OF c(1) ok(2) assms(3) alive])
      then show ?thesis using c(2) usertrap_leave_ok [OF _ _ assms(3)] by (auto split: sysres.splits)
    qed
  next
    case False
    obtain w s1 k1 where d: "devintr im (Some me) t (?s, k) = (w, s1, k1)" by (metis prod.exhaust)
    have "files_ok (s1, k1)" by (rule keeps_ok [OF ok(1) devintr_keeps [OF d]])
    moreover have "files_ok (?s\<lparr>pkm := m\<rparr>, k)" "files_ok (setkilled me (?s\<lparr>pkm := m\<rparr>), k)" "files_ok (setkilled me ?s, k)" for m
      by (rule keeps_left [OF ok(1)]; auto intro!: same_files_trans [OF _ park_sf(3)])+
    ultimately show ?thesis using assms(1) False d usertrap_leave_ok [OF _ _ assms(3)]
      by (auto simp: usertrap_def Let_def bindR_eq_Inr split: if_splits)
  qed
qed

lemma kerneltrap_ok:
  assumes "kerneltrap im me spp sie t sk = Inr (y, sk')" "files_ok sk" shows "files_ok sk'"
proof -
  obtain w s1 k1 where d: "devintr im me t sk = (w, s1, k1)" by (metis prod.exhaust)
  have "files_ok (s1, k1)" by (rule keeps_ok [OF assms(2) devintr_keeps [OF d]])
  then show ?thesis using assms(1) d by (auto simp: kerneltrap_def Let_def intro: keeps_left split: if_splits option.splits)
qed

subsection \<open>Runs of the kernel\<close>

text \<open>
  A step of the kernel: a trap from a running process (a system call, a fault, an interrupt), an interrupt in kernel mode,
  and the steps of the scheduler and of sleeping.
\<close>

inductive os_step :: "kimage \<Rightarrow> u64 \<Rightarrow> kst \<Rightarrow> kst \<Rightarrow> bool" for im h where
  user_trap: "me < NPROC \<Longrightarrow> p_state (ptab s me) = RUNNING \<Longrightarrow> usertrap im h me t (s, k) = Inr (r, sk') \<Longrightarrow> os_step im h (s, k) sk'"
| kernel_trap: "kerneltrap im me spp sie t sk = Inr (y, sk') \<Longrightarrow> os_step im h sk sk'"
| schedule: "p < NPROC \<Longrightarrow> scheduler_try p s = Some s' \<Longrightarrow> os_step im h (s, k) (s', k)"
| resume: "os_step im h (s, k) (sleep_leave p s, k)"
| wake: "os_step im h (s, k) (wakeup me cn s, k)"

lemma os_step_ok: "os_step im h sk sk' \<Longrightarrow> files_ok sk \<Longrightarrow> files_ok sk'"
proof (induction rule: os_step.induct)
  case (user_trap me s t k r sk')
  then show ?case using usertrap_ok [of im h me t s k r "fst sk'" "snd sk'"] by (simp add: dead_def)
next
  case (schedule p s s' k)
  then show ?case by (auto simp: scheduler_try_def dead_def intro!: keeps_left [OF schedule.prems] same_files_upd split: if_splits)
next
  case (resume s k p)
  then show ?case by (auto simp: sleep_leave_def intro!: keeps_left [OF resume.prems] same_files_upd)
qed (auto intro: kerneltrap_ok keeps_left)

lemma os_run_ok: "(os_step im h)\<^sup>*\<^sup>* sk sk' \<Longrightarrow> files_ok sk \<Longrightarrow> files_ok sk'"
  by (induction rule: rtranclp_induct) (auto intro: os_step_ok)

lemma files_ok_fd:
  assumes "files_ok (s, k)" "p < NPROC" "fd < NOFILE" "p_ofile (ptab s p) fd = Some f"
  shows "f < NFILE" "0 < f_ref (ftable k f)" "f_type (ftable k f) \<noteq> FD_NONE"
proof -
  have b: "balanced s (ftable k) (\<lambda>_. 0)" using assms(1) by (simp add: files_ok_def)
  show f: "f < NFILE" by (rule balanced_fd [OF b assms(2-4)])
  show r: "0 < f_ref (ftable k f)" using b f slots_pos [OF assms(2-4)] by (simp add: balanced_def)
  show "f_type (ftable k f) \<noteq> FD_NONE" by (rule balanced_fd(2) [OF b assms(2-4) r])
qed

lemma sys_dup_total:
  assumes "files_ok (s, k)" "me < NPROC" shows "\<exists>x. sys_dup me (s, k) = Inr x"
proof -
  obtain a where a: "argfd me 0 s = Inr a" by (auto simp: argfd_def argint_def argraw_def bindR_def)
  show ?thesis
  proof (cases a)
    case (Some x)
    obtain fd f where x: "x = (fd, f)" by fastforce
    note F = files_ok_fd [OF assms argfd_Some [OF a [unfolded Some x]]]
    obtain o1 s1 where "fdalloc me f s = (o1, s1)" by fastforce
    then show ?thesis using a Some x F(2) by (cases o1) (simp_all add: sys_dup_def sys_ret_def filedup_def)
  qed (simp add: sys_dup_def sys_ret_def a)
qed

text \<open>
  C3: descriptors are well typed along every run of the kernel (system calls, faults, interrupts and scheduling in any
  order). Every descriptor of every process names an open file of the table that has a type and at least one reference, so
  that none of the checks on reference counts and types can fail for a descriptor and \<open>dup\<close> never panics; the
  reference count of each file is exactly the number of descriptors that name it, so that a file is free as soon as the last
  one is closed and no file leaks; dead processes hold no files.\<close>

theorem descriptors_well_typed:
  assumes "(os_step im h)\<^sup>*\<^sup>* (s, k) (s', k')" "files_ok (s, k)"
  shows "(\<forall>f<NFILE. f_ref (ftable k' f) = int (card (slots s' f)))
    \<and> (\<forall>p<NPROC. \<forall>fd<NOFILE. \<forall>f. p_ofile (ptab s' p) fd = Some f
        \<longrightarrow> f < NFILE \<and> 0 < f_ref (ftable k' f) \<and> f_type (ftable k' f) \<noteq> FD_NONE \<and> \<not> dead (p_state (ptab s' p)))
    \<and> (\<forall>me<NPROC. \<exists>x. sys_dup me (s', k') = Inr x)"
proof -
  have ok: "files_ok (s', k')" using os_run_ok [OF assms] .
  then have "balanced s' (ftable k') (\<lambda>_. 0)" "dead_clean s'" by (auto simp: files_ok_def)
  then show ?thesis using files_ok_fd [OF ok] sys_dup_total [OF ok] by (auto simp: balanced_def no_files_def)
qed

text \<open>When the kernel starts no file is open.\<close>

lemma boot_files_ok:
  assumes "\<And>p. p_ofile (ptab s p) = (\<lambda>_. None)" "\<And>f. f_ref (ftable k f) = 0" shows "files_ok (s, k)"
  using assms by (simp add: files_ok_def balanced_def slots_def no_files_def)

text \<open>One process with a descriptor for the console is scheduled.\<close>

definition example_fd :: psys where
  "example_fd = upd_proc 1 (\<lambda>x. x\<lparr>p_ofile := (\<lambda>fd. if fd = 0 then Some 0 else None), p_state := RUNNABLE, p_pid := 2\<rparr>) example_procs"

definition example_ft :: "nat \<Rightarrow> ofile" where
  "example_ft f = \<lparr>f_type = (if f = 0 then FD_DEVICE else FD_NONE), f_ref = (if f = 0 then 1 else 0), f_readable = True, f_writable = True,
     f_pipe = 0, f_ip = 0, f_off = 0, f_major = 1\<rparr>"

lemma example_files_ok: "files_ok (example_fd, (k :: kernel)\<lparr>ftable := example_ft\<rparr>)"
proof -
  have "slots example_fd f = (if f = 0 then {(1, 0)} else {})" for f
    by (auto simp: slots_def example_fd_def example_procs_def example_proc_def NPROC_def NOFILE_def split: if_splits)
  then show ?thesis
    by (auto simp: files_ok_def balanced_def example_ft_def no_files_def dead_def example_fd_def example_procs_def example_proc_def NFILE_def split: if_splits)
qed

theorem descriptors_well_typed_witness:
  "\<forall>k :: kernel. f_ref (ftable (k\<lparr>ftable := example_ft\<rparr>) 0)
     = int (card (slots (upd_proc 1 (\<lambda>x. x\<lparr>p_state := RUNNING\<rparr>) example_fd) 0))"
proof
  fix k :: kernel
  have "os_step im h (example_fd, k\<lparr>ftable := example_ft\<rparr>)
      (upd_proc 1 (\<lambda>x. x\<lparr>p_state := RUNNING\<rparr>) example_fd, k\<lparr>ftable := example_ft\<rparr>)" for im h
    by (rule os_step.schedule [of 1]) (simp_all add: scheduler_try_def example_fd_def NPROC_def)
  then have "(os_step im h)\<^sup>*\<^sup>* (example_fd, k\<lparr>ftable := example_ft\<rparr>)
      (upd_proc 1 (\<lambda>x. x\<lparr>p_state := RUNNING\<rparr>) example_fd, k\<lparr>ftable := example_ft\<rparr>)" for im h by blast
  from descriptors_well_typed [OF this example_files_ok]
  show "f_ref (ftable (k\<lparr>ftable := example_ft\<rparr>) 0) = int (card (slots (upd_proc 1 (\<lambda>x. x\<lparr>p_state := RUNNING\<rparr>) example_fd) 0))"
    by (simp add: NFILE_def)
qed

end
