(* ===== verification/ShRun.thy ===== *)
theory ShRun
  imports Sh FileRefs
begin

text \<open>
  \<open>user/sh.c\<close>: running commands. What counts for a shell is which descriptors each program starts with, so the state of
  a process is its descriptor table; a process is named by the path to it in the tree of forks, a pipe by the process
  that made it. A descriptor table maps numbers to open files, and a new descriptor is the lowest free one, as in the kernel's
  \<open>fdalloc\<close>.
\<close>

subsection \<open>Descriptors\<close>

datatype fobj = Given nat | Opened "nat list" "byte list" u32 | Pipe_read "nat list" | Pipe_write "nat list"

type_synonym fdtab = "nat \<Rightarrow> fobj option"

definition fd_alloc :: "'o \<Rightarrow> (nat \<Rightarrow> 'o option) \<Rightarrow> nat option \<times> (nat \<Rightarrow> 'o option)" where
  "fd_alloc ob t = (case find (\<lambda>fd. t fd = None) [0..<NOFILE] of None \<Rightarrow> (None, t) | Some fd \<Rightarrow> (Some fd, t(fd := Some ob)))"

definition u_close :: "nat \<Rightarrow> (nat \<Rightarrow> 'o option) \<Rightarrow> nat \<Rightarrow> 'o option" where
  "u_close fd t = t(fd := None)"

definition u_dup :: "nat \<Rightarrow> (nat \<Rightarrow> 'o option) \<Rightarrow> nat \<Rightarrow> 'o option" where
  "u_dup fd t = (case t fd of None \<Rightarrow> t | Some ob \<Rightarrow> snd (fd_alloc ob t))"

text \<open>What the world decides: whether forks, pipes, opens and execs succeed.\<close>

record sh_env =
  fork_ok :: "nat list \<Rightarrow> bool"
  pipe_ok :: "nat list \<Rightarrow> bool"
  open_ok :: "nat list \<Rightarrow> byte list \<Rightarrow> u32 \<Rightarrow> bool"
  exec_ok :: "nat list \<Rightarrow> byte list list \<Rightarrow> bool"

definition u_open :: "sh_env \<Rightarrow> nat list \<Rightarrow> byte list \<Rightarrow> u32 \<Rightarrow> fdtab \<Rightarrow> nat option \<times> fdtab" where
  "u_open env pr f mode t = (if open_ok env pr f mode then fd_alloc (Opened pr f mode) t else (None, t))"

definition u_pipe :: "sh_env \<Rightarrow> nat list \<Rightarrow> fdtab \<Rightarrow> (nat \<times> nat \<times> fdtab) option" where
  "u_pipe env pr t =
     (if pipe_ok env pr
      then case fd_alloc (Pipe_read pr) t of
        (None, t) \<Rightarrow> None
      | (Some p0, t) \<Rightarrow> (case fd_alloc (Pipe_write pr) t of (None, t) \<Rightarrow> None | (Some p1, t) \<Rightarrow> Some (p0, p1, t))
      else None)"

text \<open>The kernel allocates descriptors in the same way, and its system calls have these effects on the table of the process.\<close>

lemma kernel_fdalloc:
  "fdalloc me f s = (case fd_alloc f (p_ofile (ptab s me)) of
     (None, t) \<Rightarrow> (None, s) | (Some fd, t) \<Rightarrow> (Some fd, upd_proc me (\<lambda>x. x\<lparr>p_ofile := t\<rparr>) s))"
  by (auto simp: fdalloc_def fd_alloc_def upd_proc_def split: option.splits)

lemma kernel_dup:
  assumes "sys_dup me (s, k) = Inr (r, s', k')" "argint me 0 s = Inr (int fd)" "fd < NOFILE"
  shows "p_ofile (ptab s' me) = u_dup fd (p_ofile (ptab s me))"
proof (cases "p_ofile (ptab s me) fd")
  case None
  then show ?thesis using assms by (auto simp: sys_dup_def argfd_def sys_ret_def u_dup_def)
next
  case (Some f)
  obtain o1 t where "fd_alloc f (p_ofile (ptab s me)) = (o1, t)" by fastforce
  moreover from this have "o1 = None \<Longrightarrow> t = p_ofile (ptab s me)" by (auto simp: fd_alloc_def split: option.splits)
  ultimately show ?thesis using assms Some
    by (cases o1) (auto simp: sys_dup_def argfd_def sys_ret_def u_dup_def kernel_fdalloc bindR_eq_Inr)
qed

lemma kernel_close:
  assumes "sys_close im me (s, k) = Inr (r, s', k')" "argint me 0 s = Inr (int fd)" "fd < NOFILE"
  shows "p_ofile (ptab s' me) = u_close fd (p_ofile (ptab s me))"
proof (cases "p_ofile (ptab s me) fd")
  case None
  then show ?thesis using assms by (auto simp: sys_close_def argfd_def sys_ret_def u_close_def)
next
  case (Some f)
  then have "fileclose (im_end im) me f (fdclear me fd s, k) = Inr (s', k')"
    using assms by (auto simp: sys_close_def argfd_def sys_ret_def bindR_eq_Inr)
  then have "same_files (fdclear me fd s) s'" by (rule fileclose_sf)
  then show ?thesis by (simp add: same_files_def fdclear_def u_close_def)
qed

lemma pipealloc_ptab:
  assumes "pipealloc kend me (s, k) = Inr (Some ff, s', k')" shows "ptab s' = ptab s"
proof -
  obtain o0 k0 o1 k1 pi m where a: "filealloc k = (o0, k0)" "filealloc k0 = (o1, k1)" "kalloc (pkm s) = (pi, m)" by (metis prod.exhaust)
  show ?thesis using assms a by (cases o0; cases o1; cases "pi = 0") (auto simp: pipealloc_def pipealloc_bad_def Let_def bindR_eq_Inr)
qed

lemma kernel_pipe:
  assumes "sys_pipe im me (s, k) = Inr (Value 0, s', k')"
  shows "\<exists>fd0 fd1 f0 f1 t. fd_alloc f0 (p_ofile (ptab s me)) = (Some fd0, t) \<and> fd_alloc f1 t = (Some fd1, p_ofile (ptab s' me))"
proof -
  have bad: "close_pair im me f0 f1 sk \<noteq> Inr (Value 0, s', k')" for f0 f1 sk
    by (auto simp: close_pair_def sys_ret_def bindR_eq_Inr)
  obtain a o1 s1 k1 where 1: "argaddr me 0 s = Inr a" "pipealloc (im_end im) me (s, k) = Inr (o1, s1, k1)"
    using assms by (auto simp: sys_pipe_def bindR_eq_Inr)
  note p = assms [unfolded sys_pipe_def prod.case 1 bindR_Inr]
  obtain f0 f1 where f: "o1 = Some (f0, f1)" using p by (cases o1) (auto simp: sys_ret_def)
  obtain a0 s2 where a0: "fdalloc me f0 s1 = (a0, s2)" by fastforce
  obtain fd0 where fd0: "a0 = Some fd0" using p f a0 bad by (cases a0) auto
  obtain a1 s3 where a1: "fdalloc me f1 s2 = (a1, s3)" by fastforce
  obtain fd1 where fd1: "a1 = Some fd1" using p f a0 a1 fd0 bad by (cases a1) auto
  have s3: "same_files s3 s'" using p f a0 a1 fd0 fd1 bad same_files_trans
    by (auto simp: bindR_eq_Inr sys_ret_def dest!: either_copyout_sf split: if_splits)
  show ?thesis
    using a0 a1 fd0 fd1 s3 pipealloc_ptab [OF 1(2) [unfolded f]]
    by (auto simp: kernel_fdalloc same_files_def split: option.splits prod.splits intro!: exI)
qed

subsection \<open>Running a command\<close>

text \<open>How a process of the shell ends: by executing a program with its descriptors, or by \<open>exit\<close>.\<close>

datatype ending = Execs "byte list list" fdtab | Exits int

text \<open>
  \<open>runcmd\<close> in process \<open>pr\<close>, which has forked \<open>n\<close> children before: the endings of the processes of the tree. A
  child starts with a copy of the table. \<open>fork1\<close> and \<open>pipe\<close> that fail end the process by \<open>panic\<close>.
\<close>

fun runcmd :: "sh_env \<Rightarrow> nat list \<Rightarrow> nat \<Rightarrow> byte list cmd \<Rightarrow> fdtab \<Rightarrow> (nat list \<times> ending) list" where
  "runcmd env pr n (EXEC ws) t =
     (if ws = [] then [(pr, Exits 1)]
      else if exec_ok env pr ws then [(pr, Execs ws t)] else [(pr, Exits 0)])"
| "runcmd env pr n (REDIR c f mode fd) t =
     (let t = u_close fd t in
      case u_open env pr f mode t of
        (None, t) \<Rightarrow> [(pr, Exits 1)]
      | (Some _, t) \<Rightarrow> runcmd env pr n c t)"
| "runcmd env pr n (LIST l r) t =
     (if \<not> fork_ok env (pr @ [n]) then [(pr, Exits 1)]
      else runcmd env (pr @ [n]) 0 l t @ runcmd env pr (Suc n) r t)"
| "runcmd env pr n (PIPE l r) t =
     (case u_pipe env pr t of
        None \<Rightarrow> [(pr, Exits 1)]
      | Some (p0, p1, t) \<Rightarrow>
          if \<not> fork_ok env (pr @ [n]) then [(pr, Exits 1)]
          else runcmd env (pr @ [n]) 0 l (u_close p1 (u_close p0 (u_dup p1 (u_close 1 t))))
            @ (if \<not> fork_ok env (pr @ [Suc n]) then [(pr, Exits 1)]
               else runcmd env (pr @ [Suc n]) 0 r (u_close p1 (u_close p0 (u_dup p0 (u_close 0 t)))) @ [(pr, Exits 0)]))"
| "runcmd env pr n (BACK c) t =
     (if \<not> fork_ok env (pr @ [n]) then [(pr, Exits 1)]
      else runcmd env (pr @ [n]) 0 c t @ [(pr, Exits 0)])"

text \<open>The child that runs a line: the words are the C strings their pointers name in the buffer.\<close>

definition run_child :: "sh_env \<Rightarrow> nat list \<Rightarrow> fdtab \<Rightarrow> byte list \<Rightarrow> (nat list \<times> ending) list" where
  "run_child env pr t cmd =
     (case parsecmd cmd of
        Inl e \<Rightarrow> [(pr, Exits 1)]
      | Inr (c, buf) \<Rightarrow> runcmd env pr 0 (map_cmd (\<lambda>(q, e). cstr (drop (length cmd - length q) buf)) c) t)"

subsection \<open>The main loop\<close>

text \<open>The loop that makes sure that descriptors 0, 1 and 2 are open; \<open>ok\<close>: the console can be opened.\<close>

lemma free_fewer:
  assumes "find (\<lambda>fd. t fd = None) [0..<NOFILE] = Some fd"
  shows "length (filter (\<lambda>i. (t(fd := Some ob)) i = None) [0..<NOFILE]) < length (filter (\<lambda>i. t i = None) [0..<NOFILE])"
proof -
  have fd: "fd < NOFILE" "t fd = None" using assms by (auto simp: find_Some_iff)
  have "filter (\<lambda>i. (t(fd := Some ob)) i = None) [0..<NOFILE] = filter (\<lambda>i. i \<noteq> fd) (filter (\<lambda>i. t i = None) [0..<NOFILE])"
    by (auto intro!: filter_cong)
  moreover have "fd \<in> set (filter (\<lambda>i. t i = None) [0..<NOFILE])" using fd by simp
  ultimately show ?thesis by (metis (mono_tags, lifting) length_filter_less)
qed

function console_fds :: "sh_env \<Rightarrow> fdtab \<Rightarrow> fdtab" where
  "console_fds env t =
     (case u_open env [] (str ''console'') O_RDWR t of
        (None, t) \<Rightarrow> t
      | (Some fd, t) \<Rightarrow> if fd \<ge> 3 then u_close fd t else console_fds env t)"
  by pat_completeness auto
termination
  by (relation "measure (\<lambda>(env, t). length (filter (\<lambda>i. t i = None) [0..<NOFILE]))")
    (auto simp: u_open_def fd_alloc_def free_fewer simp del: fun_upd_apply split: if_splits option.splits)

declare console_fds.simps [simp del]

datatype sh_event = Ended "nat list" ending | Chdir "byte list"

text \<open>One line in \<open>main\<close>: the events, and the number of children forked or \<open>None\<close> when the shell itself ended.\<close>

definition sh_line :: "sh_env \<Rightarrow> nat \<Rightarrow> fdtab \<Rightarrow> byte list \<Rightarrow> sh_event list \<times> nat option" where
  "sh_line env n t line =
     (let cmd = cstr (dropWhile (\<lambda>c. c = 32 \<or> c = 9) line) in
      if first cmd = 10 then ([], Some n)
      else if take 3 cmd = str ''cd '' then ([Chdir (drop 3 (butlast cmd))], Some n)
      else if \<not> fork_ok env [n] then ([Ended [] (Exits 1)], None)
      else (map (\<lambda>(p, e). Ended p e) (run_child env [n] t cmd), Some (Suc n)))"

text \<open>\<open>getcmd\<close> reads a line into a zeroed buffer of 100 bytes; an empty one means the end of the input.\<close>

definition getcmd :: "'s reader \<Rightarrow> 's \<Rightarrow> byte list option \<times> 's" where
  "getcmd rd s = (let (line, s) = gets rd 100 s in (if first line = 0 then None else Some line, s))"

partial_function (option) sh_loop :: "sh_env \<Rightarrow> 's reader \<Rightarrow> fdtab \<Rightarrow> nat \<Rightarrow> 's \<Rightarrow> (sh_event list \<times> 's) option" where
  "sh_loop env rd t n s =
     (case getcmd rd s of
        (None, s) \<Rightarrow> Some ([Ended [] (Exits 0)], s)
      | (Some line, s) \<Rightarrow>
          (case sh_line env n t line of
             (evs, None) \<Rightarrow> Some (evs, s)
           | (evs, Some n) \<Rightarrow> Option.bind (sh_loop env rd t n s) (\<lambda>(evs', s). Some (evs @ evs', s))))"

definition sh_main :: "sh_env \<Rightarrow> 's reader \<Rightarrow> fdtab \<Rightarrow> 's \<Rightarrow> (sh_event list \<times> 's) option" where
  "sh_main env rd t s = sh_loop env rd (console_fds env t) 0 s"

subsection \<open>What a command means\<close>

text \<open>
  The programs a command starts and their descriptors: a redirection replaces descriptor 0 or 1, a pipe connects
  descriptor 1 on its left to descriptor 0 on its right, everything else is inherited.
\<close>

fun wired :: "nat list \<Rightarrow> nat \<Rightarrow> byte list cmd \<Rightarrow> fdtab \<Rightarrow> (nat list \<times> ending) list" where
  "wired pr n (EXEC ws) t = [(pr, if ws = [] then Exits 1 else Execs ws t)]"
| "wired pr n (REDIR c f mode fd) t = wired pr n c (t(fd \<mapsto> Opened pr f mode))"
| "wired pr n (LIST l r) t = wired (pr @ [n]) 0 l t @ wired pr (Suc n) r t"
| "wired pr n (PIPE l r) t =
     wired (pr @ [n]) 0 l (t(1 \<mapsto> Pipe_write pr)) @ wired (pr @ [Suc n]) 0 r (t(0 \<mapsto> Pipe_read pr)) @ [(pr, Exits 0)]"
| "wired pr n (BACK c) t = wired (pr @ [n]) 0 c t @ [(pr, Exits 0)]"

text \<open>Exactly the standard descriptors are open; no system call fails.\<close>

definition std_fds :: "fdtab \<Rightarrow> bool" where
  "std_fds t \<longleftrightarrow> (\<forall>i. t i \<noteq> None \<longleftrightarrow> i < 3)"

definition calm :: "sh_env \<Rightarrow> bool" where
  "calm env \<longleftrightarrow> (\<forall>p. fork_ok env p \<and> pipe_ok env p \<and> (\<forall>f m. open_ok env p f m) \<and> (\<forall>ws. exec_ok env p ws))"

lemma fd_alloc_lowest:
  assumes "fd < NOFILE" "t fd = None" "\<And>i. i < fd \<Longrightarrow> t i \<noteq> None"
  shows "fd_alloc ob t = (Some fd, t(fd \<mapsto> ob))"
proof -
  have "find (\<lambda>fd. t fd = None) [0..<NOFILE] = Some fd"
    unfolding find_Some_iff using assms by (intro exI [of _ fd]) auto
  then show ?thesis by (simp add: fd_alloc_def)
qed

lemma std_simps: "std_fds t \<Longrightarrow> t i = None \<longleftrightarrow> 3 \<le> i" "std_fds t \<Longrightarrow> i < 3 \<Longrightarrow> \<exists>y. t i = Some y"
  unfolding std_fds_def by (meson not_le, meson not_None_eq)

lemma std_upd [simp]: "std_fds t \<Longrightarrow> fd < 3 \<Longrightarrow> std_fds (t(fd \<mapsto> ob))"
  by (auto simp: std_fds_def)

text \<open>Closing a standard descriptor and allocating one puts it there.\<close>

lemma replace_fd:
  assumes "std_fds t" "fd < 3" shows "fd_alloc ob (t(fd := None)) = (Some fd, t(fd \<mapsto> ob))"
proof -
  have "fd_alloc ob (t(fd := None)) = (Some fd, (t(fd := None))(fd \<mapsto> ob))"
    by (rule fd_alloc_lowest) (use assms in \<open>auto simp: NOFILE_def std_simps\<close>)
  then show ?thesis by simp
qed

lemma pipe_fds:
  assumes "std_fds t" "pipe_ok env pr"
  shows "u_pipe env pr t = Some (3, 4, t(3 \<mapsto> Pipe_read pr, 4 \<mapsto> Pipe_write pr))"
proof -
  have "fd_alloc (Pipe_read pr) t = (Some 3, t(3 \<mapsto> Pipe_read pr))"
    by (rule fd_alloc_lowest) (use assms(1) in \<open>auto simp: NOFILE_def std_simps\<close>)
  moreover have "fd_alloc (Pipe_write pr) (t(3 \<mapsto> Pipe_read pr)) = (Some 4, t(3 \<mapsto> Pipe_read pr, 4 \<mapsto> Pipe_write pr))"
    by (rule fd_alloc_lowest) (use assms(1) in \<open>auto simp: NOFILE_def std_simps\<close>)
  ultimately show ?thesis using assms(2) by (simp add: u_pipe_def)
qed

text \<open>The four calls around \<open>dup\<close> in a child of a pipe.\<close>

lemma pipe_child:
  assumes "std_fds t" "fd < 3" "q = 3 \<and> ob = x \<or> q = 4 \<and> ob = y"
  shows "u_close 4 (u_close 3 (u_dup q (u_close fd (t(3 \<mapsto> x, 4 \<mapsto> y))))) = t(fd \<mapsto> ob)"
proof -
  let ?t = "(t(3 \<mapsto> x, 4 \<mapsto> y))(fd := None)"
  have "fd_alloc ob ?t = (Some fd, ?t(fd \<mapsto> ob))"
    by (rule fd_alloc_lowest) (use assms(1,2) in \<open>auto simp: NOFILE_def std_simps\<close>)
  moreover have "?t q = Some ob" using assms(2,3) by auto
  ultimately have "u_dup q ?t = ?t(fd \<mapsto> ob)" by (simp add: u_dup_def)
  moreover have "t 3 = None" "t 4 = None" using assms(1) by (auto simp: std_simps)
  ultimately show ?thesis using assms(2) by (auto simp: u_close_def fun_eq_iff)
qed

lemma runcmd_wired:
  assumes "calm env" shows "wf_cmd c \<Longrightarrow> std_fds t \<Longrightarrow> runcmd env pr n c t = wired pr n c t"
proof (induction c arbitrary: pr n t)
  case (REDIR c f mode fd)
  have fd: "fd < 3" using REDIR.prems(1) by (auto simp: redirections_def)
  then have "runcmd env pr n c (t(fd \<mapsto> Opened pr f mode)) = wired pr n c (t(fd \<mapsto> Opened pr f mode))"
    by (intro REDIR.IH [OF _ std_upd [OF REDIR.prems(2)]]) (use REDIR.prems(1) in simp_all)
  then show ?case using replace_fd [OF REDIR.prems(2) fd] assms by (simp add: u_close_def u_open_def calm_def)
next
  case (PIPE l r)
  have p: "u_pipe env pr t = Some (3, 4, t(3 \<mapsto> Pipe_read pr, 4 \<mapsto> Pipe_write pr))"
    using pipe_fds PIPE.prems(2) assms by (simp add: calm_def)
  have "u_close 4 (u_close 3 (u_dup 4 (u_close 1 (t(3 \<mapsto> Pipe_read pr, 4 \<mapsto> Pipe_write pr))))) = t(1 \<mapsto> Pipe_write pr)"
    "u_close 4 (u_close 3 (u_dup 3 (u_close 0 (t(3 \<mapsto> Pipe_read pr, 4 \<mapsto> Pipe_write pr))))) = t(0 \<mapsto> Pipe_read pr)"
    using pipe_child [OF PIPE.prems(2)] by auto
  then show ?case using PIPE assms p by (simp add: calm_def)
qed (use assms in \<open>auto simp: calm_def\<close>)

text \<open>Every program starts with exactly the standard descriptors, and holds at most one end of a pipe.\<close>

definition has :: "fdtab \<Rightarrow> fobj \<Rightarrow> bool" where
  "has t ob \<longleftrightarrow> (\<exists>i. t i = Some ob)"

definition one_end :: "fdtab \<Rightarrow> bool" where
  "one_end t \<longleftrightarrow> (\<forall>q. has t (Pipe_read q) \<longrightarrow> \<not> has t (Pipe_write q))"

definition fresh_pipes :: "nat list \<Rightarrow> fdtab \<Rightarrow> bool" where
  "fresh_pipes pr t \<longleftrightarrow> (\<forall>q. has t (Pipe_read q) \<or> has t (Pipe_write q) \<longrightarrow> \<not> prefix pr q)"

lemma has_upd: "has (t(fd \<mapsto> y)) x \<Longrightarrow> x = y \<or> has t x"
  by (auto simp: has_def split: if_splits)

lemma fresh_child:
  assumes "fresh_pipes pr t" shows "fresh_pipes (pr @ [n]) t" "fresh_pipes (pr @ [n]) (t(fd \<mapsto> Pipe_read pr))"
    "fresh_pipes (pr @ [n]) (t(fd \<mapsto> Pipe_write pr))" "fresh_pipes pr (t(fd \<mapsto> Opened p f m))"
proof -
  have sub: "\<not> prefix (pr @ [n]) q" if "\<not> prefix pr q" for q using that by (meson append_prefixD)
  have self: "\<not> prefix (pr @ [n]) pr" by (simp add: prefix_def)
  show "fresh_pipes (pr @ [n]) t" using assms sub by (simp add: fresh_pipes_def)
  show "fresh_pipes (pr @ [n]) (t(fd \<mapsto> Pipe_read pr))" "fresh_pipes (pr @ [n]) (t(fd \<mapsto> Pipe_write pr))"
    "fresh_pipes pr (t(fd \<mapsto> Opened p f m))"
    using assms sub self unfolding fresh_pipes_def by (auto dest!: has_upd)
qed

lemma one_end_upd:
  assumes "one_end t" "fresh_pipes pr t"
  shows "one_end (t(fd \<mapsto> Pipe_read pr))" "one_end (t(fd \<mapsto> Pipe_write pr))" "one_end (t(fd \<mapsto> Opened p f m))"
proof -
  have "\<not> has t (Pipe_read pr)" "\<not> has t (Pipe_write pr)" using assms(2) by (auto simp: fresh_pipes_def)
  then show "one_end (t(fd \<mapsto> Pipe_read pr))" "one_end (t(fd \<mapsto> Pipe_write pr))" "one_end (t(fd \<mapsto> Opened p f m))"
    using assms(1) unfolding one_end_def by (auto dest!: has_upd)
qed

lemma wired_tables:
  assumes "wf_cmd c" "std_fds t" "one_end t" "fresh_pipes pr t" "(p, Execs ws t') \<in> set (wired pr n c t)"
  shows "std_fds t' \<and> one_end t'"
  using assms
proof (induction c arbitrary: pr n t)
  case (REDIR c f mode fd)
  have fd: "fd < 3" using REDIR.prems(1) by (auto simp: redirections_def)
  have "(p, Execs ws t') \<in> set (wired pr n c (t(fd \<mapsto> Opened pr f mode)))" using REDIR.prems(5) by simp
  from REDIR.IH [OF _ std_upd [OF REDIR.prems(2) fd] one_end_upd(3) [OF REDIR.prems(3,4)] fresh_child(4) [OF REDIR.prems(4)] this]
  show ?case using REDIR.prems(1) by simp
next
  case (PIPE l r)
  have "wf_cmd l" "wf_cmd r" using PIPE.prems(1) by auto
  note l = PIPE.IH(1) [OF this(1) std_upd [OF PIPE.prems(2)] one_end_upd(2) [OF PIPE.prems(3,4)] fresh_child(3) [OF PIPE.prems(4)]]
    and r = PIPE.IH(2) [OF this(2) std_upd [OF PIPE.prems(2)] one_end_upd(1) [OF PIPE.prems(3,4)] fresh_child(2) [OF PIPE.prems(4)]]
  have "(p, Execs ws t') \<in> set (wired (pr @ [n]) 0 l (t(1 \<mapsto> Pipe_write pr)))
      \<or> (p, Execs ws t') \<in> set (wired (pr @ [Suc n]) 0 r (t(0 \<mapsto> Pipe_read pr)))" using PIPE.prems(5) by auto
  moreover have "1 < (3 :: nat)" "0 < (3 :: nat)" by auto
  ultimately show ?case using l r by blast
next
  case (LIST l r)
  then show ?case using LIST.IH(1) [OF _ LIST.prems(2,3) fresh_child(1) [OF LIST.prems(4)]] LIST.IH(2) [OF _ LIST.prems(2-4)] by auto
next
  case (BACK c)
  then show ?case using BACK.IH [OF _ BACK.prems(2,3) fresh_child(1) [OF BACK.prems(4)]] by auto
qed (auto split: if_splits)

subsection \<open>Lines\<close>

text \<open>A printed command is a line without NUL bytes and line ends that does not begin with a blank.\<close>

definition line_char :: "byte \<Rightarrow> bool" where
  "line_char x \<longleftrightarrow> x \<noteq> 0 \<and> x \<noteq> 10 \<and> x \<noteq> 13"

lemma wf_word_chars: "wf_word w \<Longrightarrow> list_all line_char w" "wf_word w \<Longrightarrow> w \<noteq> [] \<and> hd w \<noteq> 32 \<and> hd w \<noteq> 9 \<and> hd w \<noteq> 10"
  by (cases w; auto simp: wf_word_def line_char_def in_str_iff whitespace_def list_all_iff)+

lemma line_str [simp]: "line_char 32" "list_all line_char (redir_op m)" "list_all line_char (str ''|'')" "list_all line_char (str ''('')"
  "list_all line_char (str '')'')" "list_all line_char (str ''&'')" "list_all line_char (str '';'')"
  by (simp_all add: line_char_def redir_op_def ch_def)

lemma show_chars: "wf_cmd c \<Longrightarrow> list_all line_char (show_cmd c)"
proof (induction c)
  case (EXEC ws)
  have "list_all line_char w" if "w \<in> set ws" for w using EXEC that wf_word_chars(1) [of w] by (simp add: list_all_iff)
  then show ?case by (auto simp: list_all_iff)
qed (simp_all add: paren_def wf_word_chars(1) del: str_simps)

lemma show_start:
  assumes "wf_cmd c" "show_cmd c \<noteq> []" shows "hd (show_cmd c) \<noteq> 32 \<and> hd (show_cmd c) \<noteq> 9 \<and> hd (show_cmd c) \<noteq> 10"
  using assms
proof (induction c)
  case (EXEC ws)
  then obtain w vs where "ws = w # vs" by (cases ws) auto
  then show ?case using EXEC wf_word_chars(2) [of w] by (auto simp: hd_append)
next
  case (REDIR c f mode fd)
  then show ?case by (auto simp: paren_def redir_op_def hd_append ch_def)
qed (auto simp: paren_def hd_append ch_def)

lemma run_child_wired:
  assumes "calm env" "wf_cmd c" "std_fds t"
  shows "run_child env pr t (show_cmd c @ [10]) = wired pr 0 c t"
proof -
  let ?s = "show_cmd c @ [10]"
  obtain c' buf where p: "parsecmd ?s = Inr (c', buf)" "map_cmd word_str c' = c"
    using parsecmd_show [OF assms(2), of "[10]"] by (auto simp: in_str_iff whitespace_def)
  have "0 \<notin> set ?s" using show_chars [OF assms(2)] by (auto simp: list_all_iff line_char_def)
  then have "map_cmd (\<lambda>(q, e). cstr (drop (length ?s - length q) buf)) c' = map_cmd word_str c'"
    using parsed_words [OF _ p(1)] by (intro cmd.map_cong) auto
  then show ?thesis using p runcmd_wired [OF assms] by (simp add: run_child_def)
qed

text \<open>What the shell does for one printed command.\<close>

definition runs :: "nat \<Rightarrow> fdtab \<Rightarrow> byte list cmd \<Rightarrow> sh_event list" where
  "runs n t c = map (\<lambda>(p, e). Ended p e) (wired [n] 0 c t)"

definition plain :: "byte list cmd \<Rightarrow> bool" where
  "plain c \<longleftrightarrow> wf_cmd c \<and> show_cmd c \<noteq> [] \<and> length (show_cmd c) < 99 \<and> take 3 (show_cmd c @ [10]) \<noteq> str ''cd ''"

lemma sh_line_wired:
  assumes "calm env" "plain c" "std_fds t"
  shows "sh_line env n t (show_cmd c @ [10]) = (runs n t c, Some (Suc n))"
proof -
  let ?s = "show_cmd c @ [10]"
  have c: "wf_cmd c" "show_cmd c \<noteq> []" "take 3 ?s \<noteq> str ''cd ''" using assms(2) by (auto simp: plain_def)
  obtain x xs where x: "show_cmd c = x # xs" using c(2) by (cases "show_cmd c") auto
  have "x \<noteq> 32" "x \<noteq> 9" "x \<noteq> 10" using show_start [OF c(1,2)] x by auto
  then have d: "dropWhile (\<lambda>c. c = 32 \<or> c = 9) ?s = ?s" "first ?s \<noteq> 10" using x by (auto simp: first_def)
  have "cstr ?s = ?s" using show_chars [OF c(1)] by (auto simp: cstr_def takeWhile_eq_all_conv list_all_iff line_char_def)
  then show ?thesis using d c(3) assms(1) run_child_wired [OF assms(1) c(1) assms(3), of "[n]"]
    by (simp add: sh_line_def Let_def runs_def calm_def)
qed

lemma getcmd_eq: "gets_loop rd 99 s = (bs, s') \<Longrightarrow> getcmd rd s = (if first bs = 0 then None else Some bs, s')"
proof -
  have "gets rd 100 s = gets_loop rd 99 s" unfolding gets_def by (rule arg_cong2 [where f = "gets_loop rd"]) simp_all
  then show "gets_loop rd 99 s = (bs, s') \<Longrightarrow> getcmd rd s = (if first bs = 0 then None else Some bs, s')"
    unfolding getcmd_def by simp
qed

context byte_source
begin

text \<open>A script of printed commands, one on each line, is run command by command.\<close>

lemma getcmd_line:
  assumes "ok s" "cont s = show_cmd c @ [10] @ r" "plain c"
  shows "\<exists>s'. getcmd rd s = (Some (show_cmd c @ [10]), s') \<and> ok s' \<and> cont s' = r"
proof -
  have ch: "\<forall>x\<in>set (show_cmd c). x \<noteq> 10 \<and> x \<noteq> 13 \<and> x \<noteq> 0" and ne: "show_cmd c \<noteq> []" and l: "length (show_cmd c) < 99"
    using assms(3) show_chars [of c] by (auto simp: plain_def list_all_iff line_char_def)
  obtain bs s' where g: "gets_loop rd 99 s = (bs, s')" by fastforce
  have "takeWhile (\<lambda>c. c \<noteq> 10 \<and> c \<noteq> 13) (cont s) = show_cmd c" using ch assms(2) by (simp add: takeWhile_append2)
  then have "line_of 99 (cont s) = show_cmd c @ [10]" using assms(2) l by (simp add: line_of_def Let_def)
  with gets_loop_line [OF assms(1) g, THEN conjunct1] have "bs = show_cmd c @ [10]" by (rule trans)
  then have b: "bs = show_cmd c @ [10]" "ok s'" "cont s = bs @ cont s'" using gets_loop_line [OF assms(1) g] by blast+
  have "first bs \<noteq> 0" using b(1) ne ch by (cases "show_cmd c") (auto simp: first_def)
  then have "getcmd rd s = (Some (show_cmd c @ [10]), s')" using getcmd_eq [OF g] b(1) by simp
  moreover have "cont s' = r" using b(1,3) assms(2) by simp
  ultimately show ?thesis using b(2) by blast
qed

lemma sh_loop_script:
  assumes "calm env" "std_fds t"
  shows "ok s \<Longrightarrow> cont s = concat (map (\<lambda>c. show_cmd c @ [10]) cs) \<Longrightarrow> list_all plain cs
    \<Longrightarrow> \<exists>s'. sh_loop env rd t n s = Some (concat (map (\<lambda>(i, c). runs i t c) (enumerate n cs)) @ [Ended [] (Exits 0)], s')"
proof (induction cs arbitrary: n s)
  case Nil
  obtain bs s' where g: "gets_loop rd 99 s = (bs, s')" by fastforce
  have "line_of 99 (cont s) = []" using Nil.prems(2) by (simp add: line_of_def)
  with gets_loop_line [OF Nil.prems(1) g, THEN conjunct1] have "bs = []" by (rule trans)
  then have "getcmd rd s = (None, s')" using getcmd_eq [OF g] by (simp add: first_def)
  then show ?case by (subst sh_loop.simps) simp
next
  case (Cons c cs)
  obtain s1 where s1: "getcmd rd s = (Some (show_cmd c @ [10]), s1)" "ok s1" "cont s1 = concat (map (\<lambda>c. show_cmd c @ [10]) cs)"
    using getcmd_line [OF Cons.prems(1), of c "concat (map (\<lambda>c. show_cmd c @ [10]) cs)"] Cons.prems(2,3) by auto
  obtain s' where "sh_loop env rd t (Suc n) s1 = Some (concat (map (\<lambda>(i, c). runs i t c) (enumerate (Suc n) cs)) @ [Ended [] (Exits 0)], s')"
    using Cons.IH [OF s1(2,3)] Cons.prems(3) by auto
  then show ?case using s1(1) sh_line_wired [OF assms(1) _ assms(2), of c n] Cons.prems(3)
    by (subst sh_loop.simps) simp
qed

end

subsection \<open>The whole shell\<close>

lemma lowest_free:
  assumes "\<forall>i\<ge>3. t i = None"
  shows "\<exists>fd\<le>3. t fd = None \<and> (\<forall>i<fd. t i \<noteq> None) \<and> (\<forall>ob. fd_alloc ob t = (Some fd, t(fd \<mapsto> ob)))"
proof -
  have 3: "t 3 = None" using assms by simp
  then obtain fd where f: "t fd = None" "\<forall>i<fd. t i \<noteq> None" using exists_least_iff [of "\<lambda>i. t i = None"] by blast
  then have l: "fd \<le> 3" using 3 by (meson not_le)
  have "fd_alloc ob t = (Some fd, t(fd \<mapsto> ob))" for ob
    by (rule fd_alloc_lowest) (use f l in \<open>auto simp: NOFILE_def\<close>)
  then show ?thesis using f l by blast
qed

lemma console_fds_std:
  assumes "calm env" "\<forall>i\<ge>3. t i = None" shows "std_fds (console_fds env t)
    \<and> (\<forall>i y. t i = Some y \<longrightarrow> console_fds env t i = Some y)
    \<and> (\<forall>i y. console_fds env t i = Some y \<longrightarrow> t i = Some y \<or> y = Opened [] (str ''console'') O_RDWR)"
  using assms
proof (induction env t rule: console_fds.induct)
  case (1 env t)
  let ?ob = "Opened [] (str ''console'') O_RDWR"
  obtain fd where fd: "fd \<le> 3" "t fd = None" "\<forall>i<fd. t i \<noteq> None" "\<forall>ob. fd_alloc ob t = (Some fd, t(fd \<mapsto> ob))"
    using lowest_free [OF "1.prems"(2)] by metis
  define u where "u = t(fd \<mapsto> ?ob)"
  have u: "u fd = Some ?ob" "\<And>i. i \<noteq> fd \<Longrightarrow> u i = t i" by (simp_all add: u_def)
  have o: "u_open env [] (str ''console'') O_RDWR t = (Some fd, u)"
    using fd(4) "1.prems"(1) by (simp add: u_open_def calm_def u_def)
  show ?case
  proof (cases "fd = 3")
    case True
    have "u_close 3 u = t" using u fd(2) True by (auto simp: u_close_def fun_eq_iff)
    then have "console_fds env t = t" using o True by (subst console_fds.simps) simp
    moreover have "std_fds t" unfolding std_fds_def using fd(3) True "1.prems"(2) by (metis not_le)
    ultimately show ?thesis by simp
  next
    case False
    then have lt: "\<not> fd \<ge> 3" using fd(1) by simp
    have e: "console_fds env t = console_fds env u" using o lt by (subst console_fds.simps) simp
    have "\<forall>i\<ge>3. u i = None" using "1.prems"(2) lt u(2) by auto
    note I = "1.IH" [OF o [symmetric] refl lt "1.prems"(1) this]
    have "t i = Some y \<longrightarrow> console_fds env u i = Some y" for i y using I fd(2) u(2) by (metis option.distinct(1))
    moreover have "console_fds env u i = Some y \<longrightarrow> t i = Some y \<or> y = ?ob" for i y using I u by (metis option.inject)
    ultimately show ?thesis unfolding e using I by blast
  qed
qed

text \<open>
  C13: a script of commands, one on each line, read from any source of input (a pipe, say) is run as written. Whatever standard descriptors the shell starts
  with, it first opens the missing ones on the console; then each command of the script, however nested its pipes,
  redirections, lists and background jobs, starts exactly the programs it names, each with the descriptors its redirections and
  pipes say (\<open>wired\<close>): descriptors 0, 1 and 2 and no others, and never both ends of a pipe, so that a reader sees the end
  of file when the writers have finished.\<close>

theorem shell_runs_script:
  assumes "calm env" "\<forall>i\<ge>3. t i = None" "\<And>i ob. t i = Some ob \<Longrightarrow> \<exists>g. ob = Given g"
    and "byte_source rd cont ok" "ok s" "cont s = concat (map (\<lambda>c. show_cmd c @ [10]) cs)" "list_all plain cs"
  shows "\<exists>t' evs s'. (\<forall>i<3. t' i = (case t i of None \<Rightarrow> Some (Opened [] (str ''console'') O_RDWR) | Some ob \<Rightarrow> Some ob))
    \<and> sh_main env rd t s = Some (evs @ [Ended [] (Exits 0)], s')
    \<and> evs = concat (map (\<lambda>(i, c). map (\<lambda>(p, e). Ended p e) (wired [i] 0 c t')) (enumerate 0 cs))
    \<and> (\<forall>p ws u. Ended p (Execs ws u) \<in> set evs \<longrightarrow> (\<forall>i. u i \<noteq> None \<longleftrightarrow> i < 3) \<and> (\<forall>q. has u (Pipe_read q) \<longrightarrow> \<not> has u (Pipe_write q)))"
proof -
  let ?t = "console_fds env t" and ?evs = "concat (map (\<lambda>(i, c). runs i (console_fds env t) c) (enumerate 0 cs))"
  note T = console_fds_std [OF assms(1,2)]
  obtain s' where 1: "sh_main env rd t s = Some (?evs @ [Ended [] (Exits 0)], s')"
    using byte_source.sh_loop_script [OF assms(4,1) T [THEN conjunct1] assms(5-7), of 0] by (auto simp: sh_main_def)
  have 2: "?t i = (case t i of None \<Rightarrow> Some (Opened [] (str ''console'') O_RDWR) | Some ob \<Rightarrow> Some ob)" if lt: "i < 3" for i
  proof (cases "t i")
    case None
    obtain y where "?t i = Some y" using std_simps(2) [OF T [THEN conjunct1] lt] by blast
    then show ?thesis using T None by fastforce
  qed (use T in simp)
  have "\<not> has ?t (Pipe_read q)" "\<not> has ?t (Pipe_write q)" for q using T assms(3) unfolding has_def by blast+
  then have 3: "one_end ?t" "fresh_pipes p ?t" for p by (simp_all add: one_end_def fresh_pipes_def)
  have 4: "std_fds u \<and> one_end u" if e: "Ended p (Execs ws u) \<in> set ?evs" for p ws u
  proof -
    obtain i c where c: "(i, c) \<in> set (enumerate 0 cs)" "(p, Execs ws u) \<in> set (wired [i] 0 c ?t)"
      using e by (auto simp: runs_def)
    have "wf_cmd c" using c(1) assms(7) by (auto simp: in_set_enumerate_eq list_all_length plain_def)
    then show ?thesis using wired_tables [OF _ T [THEN conjunct1] 3 c(2)] by blast
  qed
  show ?thesis
    by (rule exI [of _ ?t], rule exI [of _ ?evs], rule exI [of _ s'])
      (use 1 2 4 in \<open>auto simp: runs_def std_fds_def one_end_def\<close>)
qed

text \<open>The line \<open>ls | wc\<close> typed into a pipe.\<close>

definition example_script :: pipe where
  "example_script = (fold pipe_put (str ''ls |wc '' @ [10]) (new_pipe (\<lambda>_. 0)))\<lparr>p_writeopen := False\<rparr>"

definition all_ok :: sh_env where
  "all_ok = \<lparr>fork_ok = (\<lambda>_. True), pipe_ok = (\<lambda>_. True), open_ok = (\<lambda>_ _ _. True), exec_ok = (\<lambda>_ _. True)\<rparr>"

theorem shell_runs_script_witness:
  "\<exists>t' pi'. sh_main all_ok pipe_reader (\<lambda>_. None) example_script = Some (
     [Ended [0, 0] (Execs [str ''ls''] (t'(1 \<mapsto> Pipe_write [0]))), Ended [0, 1] (Execs [str ''wc''] (t'(0 \<mapsto> Pipe_read [0]))),
      Ended [0] (Exits 0), Ended [] (Exits 0)], pi')"
proof -
  let ?c = "PIPE (EXEC [str ''ls'']) (EXEC [str ''wc''])"
  have c: "show_cmd ?c = str ''ls |wc ''" "list_all plain [?c]" by code_simp+
  have p: "pipe_inv example_script \<and> \<not> p_writeopen example_script" "pipe_bytes example_script = str ''ls |wc '' @ [10]"
    by (simp_all add: example_script_def pipe_inv_def pipe_bytes_def pipe_put_def new_pipe_def PIPESIZE_def upt_conv_Cons)
  then have "pipe_bytes example_script = concat (map (\<lambda>c. show_cmd c @ [10]) [?c])" using c(1) by simp
  moreover have "calm all_ok" by (simp add: calm_def all_ok_def)
  moreover note shell_runs_script [of all_ok "\<lambda>_. None", OF _ _ _ pipe_in.byte_source_axioms p(1) _ c(2)]
  ultimately
  obtain t' evs pi' where "sh_main all_ok pipe_reader (\<lambda>_. None) example_script = Some (evs @ [Ended [] (Exits 0)], pi')"
    "evs = concat (map (\<lambda>(i, c). map (\<lambda>(p, e). Ended p e) (wired [i] 0 c t')) (enumerate 0 [?c]))" by auto
  then show ?thesis by (intro exI [of _ t'] exI [of _ pi']) simp
qed

end
