(* ===== verification/Spec2Isabelle.thy ===== *)
theory Spec2Isabelle
  imports Trap VmMap Virtio Grep Sh Sched Umalloc Mkfs FileRefs ShRun
begin

text \<open>
  Verification of the xv6 kernel for RISC-V and of its user library, shell and tools.

  \<^bold>\<open>The program.\<close> The kernel runs processes on several CPUs. From the bottom up: the physical page
  allocator (\<open>src/kernel/kalloc.c\<close>), Sv39 page tables (\<open>src/kernel/vm.c\<close>), spin locks and interrupt nesting
  (\<open>src/kernel/spinlock.c\<close>), sleep locks (\<open>src/kernel/sleeplock.c\<close>), the process table with its scheduler
  (\<open>src/kernel/proc.c\<close>); the disk driver (\<open>src/kernel/virtio_disk.c\<close>), the buffer cache (\<open>src/kernel/bio.c\<close>), the
  write-ahead log (\<open>src/kernel/log.c\<close>), inodes, directories and paths (\<open>src/kernel/fs.c\<close>), pipes
  (\<open>src/kernel/pipe.c\<close>) and open files (\<open>src/kernel/file.c\<close>); the console (\<open>src/kernel/console.c\<close>,
  \<open>src/kernel/uart.c\<close>, \<open>src/kernel/printf.c\<close>); the system calls (\<open>src/kernel/syscall.c\<close>,
  \<open>src/kernel/sysproc.c\<close>, \<open>src/kernel/sysfile.c\<close>, \<open>src/kernel/exec.c\<close>) and the trap handlers
  (\<open>src/kernel/trap.c\<close>). User programs call the kernel through \<open>src/user/ulib.c\<close>, \<open>src/user/printf.c\<close> and
  \<open>src/user/umalloc.c\<close>; the shell is \<open>src/user/sh.c\<close>, and \<open>src/user/grep.c\<close> is one of the tools.

  \<^bold>\<open>The theories.\<close> Each models one part, with its state as a record, its C functions as HOL functions of the same
  names, and its results.

  \<^descr> \<^bold>\<open>Prelude\<close>: machine words, results, byte access to memory and disk blocks. A kernel function
    returns \<open>Inr\<close> of its result, or \<open>Inl\<close> of a panic, of going to sleep, or of behaviour C leaves undefined.
  \<^descr> \<^bold>\<open>KString\<close> (\<open>src/kernel/string.c\<close>): memory and string routines on flat memory, with any
    overlap; \<open>Ulib\<close> has the user's versions. Both \<open>memmove\<close>s are interpretations of the locale \<open>byte_copy\<close>.
  \<^descr> \<^bold>\<open>Riscv\<close> (\<open>src/kernel/riscv.h\<close>, \<open>src/kernel/memlayout.h\<close>): page rounding, page-table entries, index extraction, the memory layout.
  \<^descr> \<^bold>\<open>Kalloc\<close>: the free list lives in the free pages themselves. \<open>page_allocator\<close> is the contract the
    rest uses; its interpretation shows that each page is handed out once.
  \<^descr> \<^bold>\<open>Vm, VmMap\<close>: page tables in physical memory as the hardware reads them; mapping a page makes the walk find it, and changes no other translation.
  \<^descr> \<^bold>\<open>Spinlock\<close>: an interleaving machine of CPUs with the atomic swap as a step; mutual exclusion.
  \<^descr> \<^bold>\<open>Sleeplock, Bio\<close>: the cache as a doubly linked list of buffers; \<open>buffer_cache\<close> is the contract the log and the file
    system rest on: \<open>bread\<close> gives the current content, the list is a least-recently-used queue.
  \<^descr> \<^bold>\<open>Virtio\<close>: descriptors, rings, the calls cut where they sleep, the interrupt handler, and the device as
    environment; the driver refines an atomic disk and never panics.
  \<^descr> \<^bold>\<open>Log\<close>: the sequence of disk writes of a commit is part of the state, so that a crash is a prefix
    of it: transactions are atomic, recovery is idempotent, reservations never overflow the log.
  \<^descr> \<^bold>\<open>Fs, FsBlocks, FsDir\<close>: allocation, inodes, content, directories, paths on top of the log.
  \<^descr> \<^bold>\<open>Mkfs\<close> (\<open>src/mkfs/mkfs.c\<close>): the program that builds the first image, with the kernel's
    layout; the image holds exactly the given files, each block has one owner.
  \<^descr> \<^bold>\<open>Pipe, File, Console, Printf, UPrintf\<close>: bounded queue, open files, line editor, formatted output. A pipe
    is an interpretation of \<open>bounded_queue\<close>.
  \<^descr> \<^bold>\<open>Proc, Sysproc, Sched\<close>: the process table with \<open>fork\<close>, \<open>exit\<close>, \<open>wait\<close>, \<open>kill\<close>, \<open>sleep\<close>, \<open>wakeup\<close> as a step
    relation that refines an abstract life cycle with an invariant; \<open>file_layer\<close> is what a process needs of the files, interpreted
    on \<open>File\<close>; the scheduler loop of each CPU starves nobody.
  \<^descr> \<^bold>\<open>Sysfile, Exec, Trap\<close>: the system calls, program loading, dispatch and traps as whole functions on the kernel state.
  \<^descr> \<^bold>\<open>FsFrame, FileRefs\<close>: along every run of system calls, traps and scheduling the reference count of an open
    file is the number of descriptors that name it.
  \<^descr> \<^bold>\<open>Ulib, Grep, Sh, ShRun, Umalloc\<close>: \<open>byte_source\<close> is a descriptor a program reads from, interpreted on pipes; \<open>grep\<close> prints the matching
    lines; the shell's parser is inverse to printing and \<open>ShRun\<close> shows that a script starts the programs it names
    with the right descriptors; \<open>program_break\<close> is the allocator's view of \<open>sbrk\<close>, interpreted on the kernel's \<open>growproc\<close>.

  \<^bold>\<open>Concurrency.\<close> Where the code holds a spin lock, the section is one step; \<open>Spinlock\<close> justifies this. A
  function that sleeps is cut there: the outcome says so, and the rest is a function of its own (or the call is run again).
  \<open>Proc\<close>, \<open>Sched\<close>, \<open>Log\<close>, \<open>Spinlock\<close> and \<open>Virtio\<close> have step relations with arbitrary interleavings.

  \<^bold>\<open>Bounds.\<close> C integers are words of their width, or integers with the wrap-around written out; pids
  are unbounded, since \<open>nextpid\<close> would need two billion forks to wrap. Loops over lists and
  arrays are structural or have a termination proof; the searches of \<open>strlen\<close>, \<open>grep\<close>, \<open>malloc\<close> and \<open>free\<close> are partial functions whose
  termination is shown. The shell's parser has fuel of four calls per byte and four more, which
  \<open>parsecmd_terminates\<close> shows to be enough; \<open>freewalk\<close> has fuel for the three levels of Sv39. Messages of \<open>panic\<close> are
  the ASCII part of the source's.

  \<^bold>\<open>Not modelled.\<close> Assembly (\<open>entry.S\<close>, \<open>swtch.S\<close>, \<open>kernelvec.S\<close>, \<open>trampoline.S\<close>) and the control-register accessors of
  \<open>riscv.h\<close>; boot code that only programs registers (\<open>start.c\<close>, \<open>plic.c\<close>); the
  registers of the UART; user programs that are tests of the kernel.
\<close>

end
